(* ===== verification/Nim_Prelude.thy ===== *)
theory Nim_Prelude
  imports Main "HOL-Library.Monad_Syntax"
begin

text \<open>
  Shared material of the development: the named collections of facts, C's \<open>size_t\<close> and \<open>int\<close>
  conversions, blocks of memory as lists of characters with checked accesses, C strings,
  \<open>snprintf\<close>'s truncation and the decimal rendering of \<open>%d\<close>, and a small calculus for
  computations in the option type.

  The result type of a C function that can go wrong is an \<open>option\<close>: \<open>None\<close> says that the C program
  has no defined behaviour there (an access outside an object, a read of an indeterminate or
  freed object, a division by zero) or that it never returns.  Errors that the C code reports
  itself are ordinary values inside \<open>Some\<close>.
\<close>

named_theorems c_defs \<open>definitions of C operations on memory blocks and machine integers\<close>
named_theorems ok_intros \<open>rules that split an \<open>ok_with\<close> goal along the structure of the program\<close>
named_theorems frame_simps \<open>which fields of the world an operation leaves alone\<close>

section \<open>Machine integers\<close>

text \<open>\<open>size_t\<close> has 64 bits; its values are natural numbers below \<open>size_mod\<close>, and the operators
  that can wrap around are written out.\<close>

definition size_mod :: nat where
  "size_mod = 2 ^ 64"

definition size_add :: "nat \<Rightarrow> nat \<Rightarrow> nat" where
  "size_add a b = (a + b) mod size_mod"

definition size_sub :: "nat \<Rightarrow> nat \<Rightarrow> nat" where
  "size_sub a b = (if b \<le> a then a - b else size_mod + a - b)"

definition size_of_int :: "int \<Rightarrow> nat" where
  "size_of_int i = nat (i mod 2 ^ 64)"

definition int_of_size :: "nat \<Rightarrow> int" where
  "int_of_size n = (let m = int n mod 2 ^ 32 in if m < 2 ^ 31 then m else m - 2 ^ 32)"

lemma size_add_small [simp]: "a + b < 2 ^ 64 \<Longrightarrow> size_add a b = a + b"
  by (simp add: size_add_def size_mod_def)

lemma size_sub_le [simp]: "b \<le> a \<Longrightarrow> size_sub a b = a - b"
  by (simp add: size_sub_def)

lemma size_mod_pos [simp]: "0 < size_mod" "Suc 0 < size_mod"
  by (simp_all add: size_mod_def)

lemma size_add_less [simp]: "size_add a b < size_mod"
  by (simp add: size_add_def)

lemma size_sub_less [simp]: "a < size_mod \<Longrightarrow> b < size_mod \<Longrightarrow> size_sub a b < size_mod"
  by (auto simp: size_sub_def)

lemma less_size_mod: "n < 2 ^ 63 \<Longrightarrow> n < size_mod"
  by (simp add: size_mod_def)

lemma size_of_int_of_nat [simp]: "n < 2 ^ 63 \<Longrightarrow> size_of_int (int n) = n"
  by (simp add: size_of_int_def)

text \<open>Adding \<open>m - 1\<close> steps one back in a ring of size \<open>m\<close>.\<close>

lemma mod_add_pred:
  fixes a m :: nat
  assumes "0 < a mod m" and "0 < m"
  shows "(a + (m - 1)) mod m = a mod m - 1"
proof -
  from assms(1) obtain r where r: "a mod m = Suc r" by (cases "a mod m") auto
  have "a = a div m * m + Suc r" using div_mult_mod_eq [of a m] by (simp add: r)
  with assms(2) have "a + (m - 1) = r + (a div m + 1) * m" by simp
  then have "(a + (m - 1)) mod m = r mod m" by (simp only: mod_mult_self1)
  also have "\<dots> = r" using assms(2) r mod_less_divisor [of m a] by (intro mod_less) simp
  finally show ?thesis using r by simp
qed

lemma size_add_size_sub_1:
  assumes "0 < size_add a p"
  shows "size_add a (size_sub p (Suc 0)) = size_add a p - 1"
proof (cases p)
  case 0
  with assms mod_add_pred [of a size_mod] show ?thesis
    by (simp add: size_add_def size_sub_def)
next
  case (Suc q)
  with assms show ?thesis by (simp add: size_add_def mod_Suc split: if_splits)
qed

lemma size_sub_size_sub_1:
  "a < size_mod \<Longrightarrow> Suc k \<le> size_mod \<Longrightarrow> size_sub (size_sub a (Suc 0)) k = size_sub a (Suc k)"
  by (auto simp: size_sub_def)

lemma int_of_size_small [simp]: "n < 2 ^ 31 \<Longrightarrow> int_of_size n = int n"
proof -
  assume "n < 2 ^ 31"
  then have "int n < int (2 ^ 31)" by (simp only: of_nat_less_iff)
  then have "int n < 2 ^ 31" by simp
  then have "int n mod 2 ^ 32 = int n" by (intro mod_pos_pos_trivial) auto
  with \<open>int n < 2 ^ 31\<close> show ?thesis by (simp add: int_of_size_def Let_def)
qed

lemma int_of_size_neg: "0 < d \<Longrightarrow> d \<le> 2 ^ 31 \<Longrightarrow> int_of_size (size_mod - d) = - int d"
proof -
  assume d: "0 < d" "d \<le> 2 ^ 31"
  then have "int (size_mod - d) = (2 ^ 32 - 1) * 2 ^ 32 + (2 ^ 32 - int d)"
    by (simp add: size_mod_def of_nat_diff)
  also have "((2 ^ 32 - 1) * 2 ^ 32 + (2 ^ 32 - int d)) mod 2 ^ 32 = (2 ^ 32 - int d) mod (2 ^ 32 :: int)"
    by (rule mod_mult_self3)
  also have "\<dots> = 2 ^ 32 - int d" using d by (intro mod_pos_pos_trivial) auto
  finally show ?thesis using d by (simp add: int_of_size_def Let_def)
qed

text \<open>A \<open>char\<close> is signed on the platforms the library is built for: bytes from 128 on are negative
  when they are widened to \<open>int\<close>.\<close>

definition int_of_schar :: "char \<Rightarrow> int" where
  "int_of_schar c = (let n = int (of_char c) in if n < 128 then n else n - 256)"

section \<open>Memory blocks\<close>

abbreviation NUL :: char where
  "NUL \<equiv> CHR 0x00"

definition mem_get :: "nat \<Rightarrow> 'a list \<Rightarrow> 'a option" where
  "mem_get i xs = (if i < length xs then Some (xs ! i) else None)"

definition mem_set :: "nat \<Rightarrow> 'a \<Rightarrow> 'a list \<Rightarrow> 'a list option" where
  "mem_set i x xs = (if i < length xs then Some (xs[i := x]) else None)"

text \<open>\<open>memmove(xs+dst, xs+src, n)\<close> inside one object; the ranges may overlap.\<close>

definition mem_move :: "nat \<Rightarrow> nat \<Rightarrow> nat \<Rightarrow> 'a list \<Rightarrow> 'a list option" where
  "mem_move dst src n xs =
     (if dst + n \<le> length xs \<and> src + n \<le> length xs
      then Some (take dst xs @ take n (drop src xs) @ drop (dst + n) xs)
      else None)"

lemma mem_get_Some [simp]: "i < length xs \<Longrightarrow> mem_get i xs = Some (xs ! i)"
  by (simp add: mem_get_def)

lemma mem_set_Some [simp]: "i < length xs \<Longrightarrow> mem_set i x xs = Some (xs[i := x])"
  by (simp add: mem_set_def)

lemma mem_move_Some [simp]:
  "dst + n \<le> length xs \<Longrightarrow> src + n \<le> length xs \<Longrightarrow>
   mem_move dst src n xs = Some (take dst xs @ take n (drop src xs) @ drop (dst + n) xs)"
  by (simp add: mem_move_def)

lemma length_mem_move: "mem_move dst src n xs = Some ys \<Longrightarrow> length ys = length xs"
  by (auto simp: mem_move_def split: if_splits)

section \<open>C strings\<close>

text \<open>The string a block of memory holds, its length (undefined when no terminator lies in the
  block), and the block that \<open>strdup\<close> makes of it.\<close>

definition c_str :: "char list \<Rightarrow> string" where
  "c_str bs = takeWhile (\<lambda>c. c \<noteq> NUL) bs"

definition strlen :: "char list \<Rightarrow> nat option" where
  "strlen bs = (if NUL \<in> set bs then Some (length (c_str bs)) else None)"

definition is_c_string :: "string \<Rightarrow> bool" where
  "is_c_string s \<longleftrightarrow> NUL \<notin> set s"

lemma c_str_no_NUL [simp]: "NUL \<notin> set (c_str bs)"
  by (auto simp: c_str_def dest: set_takeWhileD)

lemma is_c_string_c_str [simp]: "is_c_string (c_str bs)"
  by (simp add: is_c_string_def)

lemma is_c_string_Nil [simp]: "is_c_string []"
  by (simp add: is_c_string_def)

lemma c_str_append_NUL [simp]: "is_c_string s \<Longrightarrow> c_str (s @ NUL # t) = s"
  unfolding c_str_def is_c_string_def by (induction s) auto

lemma c_str_id [simp]: "is_c_string s \<Longrightarrow> c_str s = s"
  unfolding c_str_def is_c_string_def by (induction s) auto

lemma length_c_str_le: "length (c_str bs) \<le> length bs"
  by (simp add: c_str_def length_takeWhile_le)

lemma length_c_str_less: "NUL \<in> set bs \<Longrightarrow> length (c_str bs) < length bs"
  unfolding c_str_def by (induction bs) auto

lemma nth_length_c_str: "NUL \<in> set bs \<Longrightarrow> bs ! length (c_str bs) = NUL"
  unfolding c_str_def by (induction bs) auto

text \<open>What \<open>snprintf(dst, n, "%s", s)\<close> leaves in \<open>dst\<close>: at most \<open>n - 1\<close> characters and a
  terminator; it returns the length of \<open>s\<close>.\<close>

definition snprintf :: "nat \<Rightarrow> string \<Rightarrow> string" where
  "snprintf n s = take (n - 1) s"

lemma snprintf_short [simp]: "length s < n \<Longrightarrow> snprintf n s = s"
  by (simp add: snprintf_def)

section \<open>Decimal rendering\<close>

definition digit_char :: "nat \<Rightarrow> char" where
  "digit_char d = char_of (48 + d)"

definition is_digit :: "char \<Rightarrow> bool" where
  "is_digit c \<longleftrightarrow> 48 \<le> (of_char c :: nat) \<and> (of_char c :: nat) \<le> 57"

definition digit_val :: "char \<Rightarrow> nat" where
  "digit_val c = of_char c - 48"

fun dec_of_nat :: "nat \<Rightarrow> string" where
  "dec_of_nat n = (if n < 10 then [digit_char n] else dec_of_nat (n div 10) @ [digit_char (n mod 10)])"

declare dec_of_nat.simps [simp del]

definition dec_of_int :: "int \<Rightarrow> string" where
  "dec_of_int i = (if i < 0 then ''-'' @ dec_of_nat (nat (- i)) else dec_of_nat (nat i))"

definition nat_of_dec :: "string \<Rightarrow> nat" where
  "nat_of_dec ds = foldl (\<lambda>n c. 10 * n + digit_val c) 0 ds"

lemma of_char_digit_char: "d < 10 \<Longrightarrow> of_char (digit_char d) = 48 + d"
  by (simp add: digit_char_def)

lemma is_digit_digit_char [simp]: "d < 10 \<Longrightarrow> is_digit (digit_char d)"
  by (simp add: is_digit_def of_char_digit_char)

lemma digit_val_digit_char [simp]: "d < 10 \<Longrightarrow> digit_val (digit_char d) = d"
  by (simp add: digit_val_def of_char_digit_char)

lemma dec_of_nat_digits: "\<forall>c \<in> set (dec_of_nat n). is_digit c"
proof (induction n rule: dec_of_nat.induct)
  case (1 n)
  show ?case
  proof (cases "n < 10")
    case True
    then show ?thesis by (subst dec_of_nat.simps) simp
  next
    case False
    with "1.IH" show ?thesis by (subst dec_of_nat.simps) auto
  qed
qed

lemma dec_of_nat_nonempty [simp]: "dec_of_nat n \<noteq> []"
  by (subst dec_of_nat.simps) simp

lemma nat_of_dec_of_nat [simp]: "nat_of_dec (dec_of_nat n) = n"
proof (induction n rule: dec_of_nat.induct)
  case (1 n)
  show ?case
  proof (cases "n < 10")
    case True
    then show ?thesis by (subst dec_of_nat.simps) (simp add: nat_of_dec_def)
  next
    case False
    with "1.IH" show ?thesis by (subst dec_of_nat.simps) (simp add: nat_of_dec_def)
  qed
qed

lemma length_dec_of_nat: "n < 10 ^ k \<Longrightarrow> 0 < k \<Longrightarrow> length (dec_of_nat n) \<le> k"
proof (induction k arbitrary: n)
  case 0
  then show ?case by simp
next
  case (Suc k)
  show ?case
  proof (cases "n < 10")
    case True
    then show ?thesis by (subst dec_of_nat.simps) simp
  next
    case False
    with Suc.prems have "n div 10 < 10 ^ k" "0 < k"
      by (auto simp: less_mult_imp_div_less mult.commute intro: gr0I)
    with Suc.IH have "length (dec_of_nat (n div 10)) \<le> k" by blast
    with False show ?thesis by (subst dec_of_nat.simps) simp
  qed
qed

lemma length_dec_of_int: "\<bar>i\<bar> < 10 ^ k \<Longrightarrow> 0 < k \<Longrightarrow> length (dec_of_int i) \<le> Suc k"
proof -
  assume *: "\<bar>i\<bar> < 10 ^ k" "0 < k"
  then have "nat \<bar>i\<bar> < 10 ^ k" by (simp add: nat_less_iff)
  from length_dec_of_nat [OF this \<open>0 < k\<close>] show ?thesis
    by (cases "i < 0") (simp_all add: dec_of_int_def)
qed

section \<open>Computations that may go wrong\<close>

text \<open>\<open>ok_with m Q\<close>: the computation \<open>m\<close> is defined and its result satisfies \<open>Q\<close>.\<close>

definition ok_with :: "'a option \<Rightarrow> ('a \<Rightarrow> bool) \<Rightarrow> bool" where
  "ok_with m Q \<longleftrightarrow> (\<exists>x. m = Some x \<and> Q x)"

lemma ok_with_Some [simp]: "ok_with (Some x) Q \<longleftrightarrow> Q x"
  by (simp add: ok_with_def)

lemma ok_with_None [simp]: "\<not> ok_with None Q"
  by (simp add: ok_with_def)

lemma ok_with_bind [simp]: "ok_with (m \<bind> f) Q \<longleftrightarrow> ok_with m (\<lambda>x. ok_with (f x) Q)"
  by (cases m) simp_all

lemma ok_with_mono [trans]: "ok_with m P \<Longrightarrow> (\<And>x. m = Some x \<Longrightarrow> P x \<Longrightarrow> Q x) \<Longrightarrow> ok_with m Q"
  by (auto simp: ok_with_def)

lemma ok_withE: "ok_with m Q \<Longrightarrow> (\<And>x. m = Some x \<Longrightarrow> Q x \<Longrightarrow> R) \<Longrightarrow> R"
  by (auto simp: ok_with_def)

lemma ok_with_if [ok_intros]:
  "(b \<Longrightarrow> ok_with m Q) \<Longrightarrow> (\<not> b \<Longrightarrow> ok_with n Q) \<Longrightarrow> ok_with (if b then m else n) Q"
  by simp

lemma ok_with_SomeI [ok_intros]: "Q x \<Longrightarrow> ok_with (Some x) Q"
  by simp

lemma ok_with_bindI [ok_intros]: "ok_with m (\<lambda>x. ok_with (f x) Q) \<Longrightarrow> ok_with (m \<bind> f) Q"
  by simp

lemma ok_with_pair [ok_intros]: "ok_with (f a b) Q \<Longrightarrow> ok_with (case (a, b) of (x, y) \<Rightarrow> f x y) Q"
  by simp

lemma ok_with_let [ok_intros]: "ok_with (f x) Q \<Longrightarrow> ok_with (let y = x in f y) Q"
  by (simp add: Let_def)

section \<open>Sequences of operations\<close>

primrec each :: "('a \<Rightarrow> 's \<Rightarrow> 's option) \<Rightarrow> 'a list \<Rightarrow> 's \<Rightarrow> 's option" where
  "each f [] s = Some s"
| "each f (p # ps) s = do { s \<leftarrow> f p s; each f ps s }"

lemma each_append: "each f (ps @ qs) s = do { t \<leftarrow> each f ps s; each f qs t }"
  by (induction ps arbitrary: s) simp_all

text \<open>The contract of a data structure: every operation that makes sense on the values it stands for is
  defined and keeps the state in agreement with them.\<close>

locale value_machine =
  fixes exec :: "'p \<Rightarrow> 's \<Rightarrow> 's option" and spec :: "'p \<Rightarrow> 'v \<Rightarrow> 'v option" and rel :: "'s \<Rightarrow> 'v \<Rightarrow> bool"
  assumes exec_ok: "rel s v \<Longrightarrow> spec p v = Some v' \<Longrightarrow> \<exists>s'. exec p s = Some s' \<and> rel s' v'"
begin

lemma programs_ok:
  "rel s v \<Longrightarrow> each spec ps v = Some v' \<Longrightarrow> \<exists>s'. each exec ps s = Some s' \<and> rel s' v'"
proof (induction ps arbitrary: s v)
  case (Cons p ps)
  then obtain v1 where "spec p v = Some v1" "each spec ps v1 = Some v'" by (auto split: bind_splits)
  with exec_ok [OF Cons.prems(1)] Cons.IH show ?case by fastforce
qed simp

text \<open>A program can be cut anywhere: what the first part computes is what the second starts from.\<close>

lemma programs_append:
  assumes "rel s v" "each spec (ps @ qs) v = Some v'"
  shows "\<exists>s1 v1. each exec ps s = Some s1 \<and> each spec ps v = Some v1 \<and> rel s1 v1 \<and>
    each exec (ps @ qs) s = each exec qs s1"
proof -
  from assms(2) obtain v1 where v1: "each spec ps v = Some v1" by (auto simp: each_append split: bind_splits)
  from programs_ok [OF assms(1) this] obtain s1 where "each exec ps s = Some s1" "rel s1 v1" by blast
  with v1 show ?thesis by (simp add: each_append)
qed

end

text \<open>The contract of operations that rely on their environment: \<open>guard p s\<close> is what the environment has to
  provide before \<open>p\<close>, and \<open>guarded\<close> says that it does so before every step of a run.\<close>

primrec guarded :: "('a \<Rightarrow> 's \<Rightarrow> bool) \<Rightarrow> ('a \<Rightarrow> 's \<Rightarrow> 's option) \<Rightarrow> 'a list \<Rightarrow> 's \<Rightarrow> bool" where
  "guarded g f [] s \<longleftrightarrow> True"
| "guarded g f (p # ps) s \<longleftrightarrow> g p s \<and> (\<forall>s'. f p s = Some s' \<longrightarrow> guarded g f ps s')"

locale guarded_machine =
  fixes guard :: "'p \<Rightarrow> 's \<Rightarrow> bool" and exec :: "'p \<Rightarrow> 's \<Rightarrow> 's option" and spec :: "'p \<Rightarrow> 'v \<Rightarrow> 'v option"
    and rel :: "'s \<Rightarrow> 'v \<Rightarrow> bool"
  assumes guarded_exec_ok: "rel s v \<Longrightarrow> spec p v = Some v' \<Longrightarrow> guard p s \<Longrightarrow> \<exists>s'. exec p s = Some s' \<and> rel s' v'"
begin

lemma guarded_programs_ok:
  "rel s v \<Longrightarrow> each spec ps v = Some v' \<Longrightarrow> guarded guard exec ps s \<Longrightarrow> \<exists>s'. each exec ps s = Some s' \<and> rel s' v'"
proof (induction ps arbitrary: s v)
  case (Cons p ps)
  then obtain v1 where v1: "spec p v = Some v1" "each spec ps v1 = Some v'" by (auto split: bind_splits)
  from guarded_exec_ok [OF Cons.prems(1) v1(1)] Cons.prems(3) obtain s1 where s1: "exec p s = Some s1" "rel s1 v1" by auto
  with Cons.IH [OF s1(2) v1(2)] Cons.prems(3) show ?case by auto
qed simp

end

sublocale value_machine \<subseteq> guarded_machine "\<lambda>_ _. True" exec spec rel
  by unfold_locales (rule exec_ok)

end
