(* ===== verification/Ln_World.thy ===== *)
theory Ln_World
  imports Nim_Prelude
begin

text \<open>
  The state \<open>linenoise.c\<close> works on: its file-scope variables, and the part of the process and the
  terminal that its library calls read and write (standard input as a sequence of outcomes of
  \<open>read\<close>, the bytes written, the terminal settings, the files), with the outcomes of the calls
  that may fail (memory allocation, \<open>write\<close>, \<open>tcgetattr\<close>/\<open>tcsetattr\<close>) as sequences that the calls
  consume.  An exhausted sequence of outcomes means that every later call succeeds, an exhausted
  input means end of file.
\<close>

section \<open>Types\<close>

text \<open>One outcome of \<open>read(fd, &c, 1)\<close>: 1 and a byte, 0, or -1.\<close>

datatype rd = Byte char | Eof | RdErr

text \<open>The pointers of the history array: \<open>NULL\<close>, a string on the heap, or dangling after \<open>free\<close>.\<close>

datatype hptr = Null | Str string | Freed

datatype errno = ENone | EAGAIN | EINVAL | ENOTTY

text \<open>\<open>linenoiseStatus\<close> of \<open>linenoise.h\<close>.\<close>

datatype linenoiseStatus = ctrl_unknown | ctrl_C | ctrl_D

datatype tflag = BRKINT | ICRNL | INPCK | ISTRIP | IXON | OPOST | CS8 | ECHO | ICANON | IEXTEN | ISIG
  | OtherFlag nat

record termios =
  c_iflag :: "tflag set"
  c_oflag :: "tflag set"
  c_cflag :: "tflag set"
  c_lflag :: "tflag set"
  c_vmin :: nat
  c_vtime :: nat

text \<open>A file: its permission bits and its contents.\<close>

record ln_file =
  f_mode :: nat
  f_data :: string

text \<open>The callbacks are the client's functions.  A completion callback is given the edited line and
  calls \<open>linenoiseAddCompletion\<close> for each element of its result, in order; a hints callback returns
  \<open>NULL\<close> or a hint, and stores a colour and a boldness.\<close>

type_synonym completion_callback = "string \<Rightarrow> string list"
type_synonym hints_callback = "string \<Rightarrow> (string \<times> int \<times> int) option"

record lnworld =
  \<comment> \<open>file-scope variables\<close>
  completionCallback :: "completion_callback option"
  hintsCallback :: "hints_callback option"
  freeHintsCallback :: bool
  orig_termios :: termios
  rawmode :: bool
  mlmode :: bool
  atexit_registered :: bool
  history_max_len :: int
  history_len :: int
  history :: "hptr list option"
  \<comment> \<open>the caller's \<open>linenoiseData\<close>\<close>
  data_status :: linenoiseStatus
  \<comment> \<open>process, terminal, files\<close>
  w_errno :: errno
  w_in :: "rd list"
  w_out :: string
  w_err :: string
  w_isatty :: bool
  w_TERM :: "string option"
  w_termios :: termios
  w_winsize :: "nat option"
  w_hints_live :: nat
  w_files :: "string \<Rightarrow> ln_file option"
  w_nofopen :: "string list"
  w_umask :: nat
  \<comment> \<open>outcomes of calls that may fail\<close>
  w_alloc :: "bool list"
  w_write :: "bool list"
  w_tc :: "bool list"

section \<open>Library calls\<close>

text \<open>\<open>malloc\<close>, \<open>realloc\<close>, \<open>strdup\<close>: whether the allocation succeeds.\<close>

definition alloc :: "lnworld \<Rightarrow> bool \<times> lnworld" where
  "alloc w = (case w_alloc w of [] \<Rightarrow> (True, w) | b # bs \<Rightarrow> (b, w\<lparr>w_alloc := bs\<rparr>))"

definition sys_read :: "lnworld \<Rightarrow> rd \<times> lnworld" where
  "sys_read w = (case w_in w of [] \<Rightarrow> (Eof, w) | r # rs \<Rightarrow> (r, w\<lparr>w_in := rs\<rparr>))"

text \<open>\<open>write\<close>: all of the bytes or, on an error, none of them.\<close>

definition sys_write :: "string \<Rightarrow> lnworld \<Rightarrow> bool \<times> lnworld" where
  "sys_write s w =
     (case w_write w of
        [] \<Rightarrow> (True, w\<lparr>w_out := w_out w @ s\<rparr>)
      | b # bs \<Rightarrow>
          if b then (True, w\<lparr>w_write := bs, w_out := w_out w @ s\<rparr>)
          else (False, w\<lparr>w_write := bs\<rparr>))"

definition out_printf :: "string \<Rightarrow> lnworld \<Rightarrow> lnworld" where
  "out_printf s w = w\<lparr>w_out := w_out w @ s\<rparr>"

definition err_printf :: "string \<Rightarrow> lnworld \<Rightarrow> lnworld" where
  "err_printf s w = w\<lparr>w_err := w_err w @ s\<rparr>"

definition tc_outcome :: "lnworld \<Rightarrow> bool \<times> lnworld" where
  "tc_outcome w = (case w_tc w of [] \<Rightarrow> (True, w) | b # bs \<Rightarrow> (b, w\<lparr>w_tc := bs\<rparr>))"

section \<open>Frames\<close>

text \<open>\<open>io_frame w w'\<close>: from \<open>w\<close> to \<open>w'\<close> only the terminal output, the outcomes still to come and the
  count of live hints changed, and output was only appended.\<close>

definition io_frame :: "lnworld \<Rightarrow> lnworld \<Rightarrow> bool" where
  "io_frame w w' \<longleftrightarrow>
     (\<exists>s al wr hl. w' = w\<lparr>w_out := w_out w @ s, w_alloc := al, w_write := wr, w_hints_live := hl\<rparr> \<and>
        (w_alloc w = [] \<longrightarrow> al = []) \<and> (w_write w = [] \<longrightarrow> wr = []))"

lemma io_frameI:
  "w' = w\<lparr>w_out := w_out w @ s, w_alloc := al, w_write := wr, w_hints_live := hl\<rparr> \<Longrightarrow>
   (w_alloc w = [] \<Longrightarrow> al = []) \<Longrightarrow> (w_write w = [] \<Longrightarrow> wr = []) \<Longrightarrow> io_frame w w'"
  by (auto simp: io_frame_def)

lemma io_frame_refl [simp, intro]: "io_frame w w"
  by (rule io_frameI [where s = "[]" and al = "w_alloc w" and wr = "w_write w" and hl = "w_hints_live w"]) simp_all

lemma io_frame_trans [trans]: "io_frame w w1 \<Longrightarrow> io_frame w1 w2 \<Longrightarrow> io_frame w w2"
  unfolding io_frame_def by (elim exE conjE) (simp, blast)

lemma io_frame_fields [frame_simps]:
  assumes "io_frame w w'"
  shows "completionCallback w' = completionCallback w" "hintsCallback w' = hintsCallback w"
    "freeHintsCallback w' = freeHintsCallback w" "orig_termios w' = orig_termios w"
    "rawmode w' = rawmode w" "mlmode w' = mlmode w" "atexit_registered w' = atexit_registered w"
    "history_max_len w' = history_max_len w" "history_len w' = history_len w"
    "history w' = history w" "data_status w' = data_status w" "w_errno w' = w_errno w"
    "w_in w' = w_in w" "w_err w' = w_err w" "w_isatty w' = w_isatty w" "w_TERM w' = w_TERM w"
    "w_termios w' = w_termios w" "w_winsize w' = w_winsize w" "w_files w' = w_files w"
    "w_nofopen w' = w_nofopen w" "w_umask w' = w_umask w" "w_tc w' = w_tc w"
  using assms by (auto simp: io_frame_def)

lemma io_frame_updates:
  "(w_alloc w = [] \<Longrightarrow> al = []) \<Longrightarrow> io_frame w (w\<lparr>w_alloc := al\<rparr>)"
  "(w_write w = [] \<Longrightarrow> wr = []) \<Longrightarrow> io_frame w (w\<lparr>w_write := wr\<rparr>)"
  "io_frame w (w\<lparr>w_hints_live := hl\<rparr>)" "io_frame w (w\<lparr>w_out := w_out w @ s\<rparr>)"
  "(w_write w = [] \<Longrightarrow> wr = []) \<Longrightarrow> io_frame w (w\<lparr>w_write := wr, w_out := w_out w @ s\<rparr>)"
  by (rule io_frameI [where s = "[]" and al = al and wr = "w_write w" and hl = "w_hints_live w"]
        io_frameI [where s = "[]" and al = "w_alloc w" and wr = wr and hl = "w_hints_live w"]
        io_frameI [where s = "[]" and al = "w_alloc w" and wr = "w_write w" and hl = hl]
        io_frameI [where s = s and al = "w_alloc w" and wr = "w_write w" and hl = "w_hints_live w"]
        io_frameI [where s = s and al = "w_alloc w" and wr = wr and hl = "w_hints_live w"]; simp)+

lemma io_frame_plenty:
  assumes "io_frame w w'"
  shows "w_alloc w = [] \<Longrightarrow> w_alloc w' = []" "w_write w = [] \<Longrightarrow> w_write w' = []"
    and "\<exists>s. w_out w' = w_out w @ s"
  using assms by (auto simp: io_frame_def)

lemma io_frame_hints_live:
  "io_frame w w' \<Longrightarrow> io_frame w (w'\<lparr>w_hints_live := n\<rparr>)"
  "io_frame (w\<lparr>w_hints_live := n\<rparr>) w' \<Longrightarrow> io_frame w w'"
  by (rule io_frame_trans [OF _ io_frame_updates(3)], assumption)
    (rule io_frame_trans [OF io_frame_updates(3)])

lemma alloc_frame: "alloc w = (b, w') \<Longrightarrow> io_frame w w'"
  by (auto simp: alloc_def split: list.splits intro!: io_frame_updates)

lemma alloc_fields:
  "alloc w = (b, w') \<Longrightarrow> w_out w' = w_out w \<and> w_hints_live w' = w_hints_live w \<and> w_write w' = w_write w"
  by (auto simp: alloc_def split: list.splits)

lemma alloc_plenty [simp]: "w_alloc w = [] \<Longrightarrow> alloc w = (True, w)"
  by (simp add: alloc_def)

lemma sys_write_frame: "sys_write s w = (b, w') \<Longrightarrow> io_frame w w'"
  by (auto simp: sys_write_def split: list.splits if_splits intro!: io_frame_updates)

lemma sys_write_plenty [simp]: "w_write w = [] \<Longrightarrow> sys_write s w = (True, w\<lparr>w_out := w_out w @ s\<rparr>)"
  by (simp add: sys_write_def)

lemma sys_read_shorter: "sys_read w = (Byte c, w') \<Longrightarrow> length (w_in w') < length (w_in w)"
  by (auto simp: sys_read_def split: list.splits)

lemma sys_read_le: "sys_read w = (r, w') \<Longrightarrow> length (w_in w') \<le> length (w_in w)"
  by (auto simp: sys_read_def split: list.splits)

text \<open>The initial values of the file-scope variables, in a process with given surroundings.\<close>

definition LINENOISE_DEFAULT_HISTORY_MAX_LEN :: int where
  "LINENOISE_DEFAULT_HISTORY_MAX_LEN = 100"

definition LINENOISE_MAX_LINE :: nat where
  "LINENOISE_MAX_LINE = 4096"

definition termios0 :: termios where
  "termios0 = \<lparr>c_iflag = {}, c_oflag = {}, c_cflag = {}, c_lflag = {}, c_vmin = 0, c_vtime = 0\<rparr>"

definition init_world :: "rd list \<Rightarrow> termios \<Rightarrow> lnworld" where
  "init_world input tio =
     \<lparr>completionCallback = None, hintsCallback = None, freeHintsCallback = False,
      orig_termios = termios0, rawmode = False, mlmode = False, atexit_registered = False,
      history_max_len = LINENOISE_DEFAULT_HISTORY_MAX_LEN, history_len = 0, history = None,
      data_status = ctrl_unknown, w_errno = ENone, w_in = input, w_out = [], w_err = [],
      w_isatty = True, w_TERM = Some ''xterm'', w_termios = tio, w_winsize = Some 80,
      w_hints_live = 0, w_files = (\<lambda>_. None), w_nofopen = [], w_umask = 18,
      w_alloc = [], w_write = [], w_tc = []\<rparr>"

lemma init_world_fields [simp]:
  "completionCallback (init_world i t) = None" "hintsCallback (init_world i t) = None"
  "mlmode (init_world i t) = False" "rawmode (init_world i t) = False" "history_len (init_world i t) = 0"
  "history (init_world i t) = None" "history_max_len (init_world i t) = 100" "w_in (init_world i t) = i"
  "w_out (init_world i t) = []" "w_isatty (init_world i t) = True" "w_TERM (init_world i t) = Some ''xterm''"
  "w_termios (init_world i t) = t" "w_winsize (init_world i t) = Some 80" "w_files (init_world i t) = (\<lambda>_. None)"
  "w_nofopen (init_world i t) = []" "w_alloc (init_world i t) = []" "w_write (init_world i t) = []"
  "w_tc (init_world i t) = []" "data_status (init_world i t) = ctrl_unknown"
  by (simp_all add: init_world_def LINENOISE_DEFAULT_HISTORY_MAX_LEN_def)

end
