(* ===== verification/Ln_Refresh.thy ===== *)
theory Ln_Refresh
  imports Ln_World
begin

text \<open>
  The editor's state (\<open>struct linenoiseState\<close>), the append buffer (\<open>struct abuf\<close>) and the refresh of
  the line on the terminal: \<open>refreshShowHints\<close>, \<open>refreshSingleLine\<close>, \<open>refreshMultiLine\<close> and
  \<open>refreshLine\<close> of \<open>lib/wrappers/linenoise/linenoise.c\<close>.  The lemmas give the closed forms of the
  two loops of the single line refresh (with the wrap-around of \<open>size_t\<close>), the conditions under which
  every refresh is defined, and what it leaves unchanged.
\<close>

section \<open>State\<close>

record linenoiseState =
  l_ifd :: int
  l_ofd :: int
  l_buf :: "char list"
  l_buflen :: nat
  l_prompt :: string
  l_plen :: nat
  l_pos :: nat
  l_oldpos :: nat
  l_len :: nat
  l_cols :: nat
  l_maxrows :: nat
  l_history_index :: int

abbreviation ESC :: char where "ESC \<equiv> CHR 0x1B"
abbreviation CR :: char where "CR \<equiv> CHR 0x0D"
abbreviation LF :: char where "LF \<equiv> CHR 0x0A"
abbreviation TAB :: char where "TAB \<equiv> CHR 0x09"

abbreviation csi :: "string \<Rightarrow> string" where
  "csi s \<equiv> ESC # CHR ''['' # s"

section \<open>Append buffer\<close>

record abuf =
  ab_b :: string
  ab_len :: int

definition abInit :: abuf where
  "abInit = \<lparr>ab_b = [], ab_len = 0\<rparr>"

text \<open>\<open>s\<close> is what can be read from the source pointer; \<open>memcpy\<close> with a negative length is a copy of
  almost the whole address space.\<close>

definition abAppend :: "abuf \<Rightarrow> string \<Rightarrow> int \<Rightarrow> lnworld \<Rightarrow> (abuf \<times> lnworld) option" where
  "abAppend ab s n w =
     (let (ok, w) = alloc w in
      if \<not> ok then Some (ab, w)
      else if n < 0 \<or> int (length s) < n then None
      else Some (\<lparr>ab_b = take (nat (ab_len ab)) (ab_b ab) @ take (nat n) s, ab_len = ab_len ab + n\<rparr>, w))"

text \<open>The idiom \<open>abAppend(ab, seq, strlen(seq))\<close>.\<close>

definition ab_puts :: "abuf \<Rightarrow> string \<Rightarrow> lnworld \<Rightarrow> (abuf \<times> lnworld) option" where
  "ab_puts ab seq w = abAppend ab seq (int (length seq)) w"

definition ab_when :: "bool \<Rightarrow> abuf \<Rightarrow> string \<Rightarrow> lnworld \<Rightarrow> (abuf \<times> lnworld) option" where
  "ab_when b ab seq w = (if b then ab_puts ab seq w else Some (ab, w))"

definition ab_flush :: "abuf \<Rightarrow> lnworld \<Rightarrow> lnworld" where
  "ab_flush ab w = snd (sys_write (take (nat (ab_len ab)) (ab_b ab)) w)"

definition ab_ok :: "abuf \<Rightarrow> bool" where
  "ab_ok ab \<longleftrightarrow> ab_len ab = int (length (ab_b ab))"

lemma ab_ok_abInit [simp]: "ab_ok abInit"
  by (simp add: ab_ok_def abInit_def)

lemma abAppend_wp [ok_intros]:
  assumes "ab_ok ab" and "0 \<le> n" and "n \<le> int (length s)"
    and "\<And>ab' w'. ab_ok ab' \<Longrightarrow> io_frame w w' \<Longrightarrow> Q (ab', w')"
  shows "ok_with (abAppend ab s n w) Q"
proof (cases "alloc w")
  case (Pair b w')
  with assms show ?thesis
    by (cases b) (auto simp: abAppend_def ab_ok_def dest: alloc_frame)
qed

lemma ab_puts_wp [ok_intros]:
  assumes "ab_ok ab" and "\<And>ab' w'. ab_ok ab' \<Longrightarrow> io_frame w w' \<Longrightarrow> Q (ab', w')"
  shows "ok_with (ab_puts ab seq w) Q"
  unfolding ab_puts_def by (rule abAppend_wp) (use assms in auto)

lemma ab_when_wp [ok_intros]:
  assumes "ab_ok ab" and "\<And>ab' w'. ab_ok ab' \<Longrightarrow> io_frame w w' \<Longrightarrow> Q (ab', w')"
  shows "ok_with (ab_when b ab seq w) Q"
  using assms by (auto simp: ab_when_def intro: ab_puts_wp)

lemma abAppend_plenty [simp]:
  "w_alloc w = [] \<Longrightarrow> ab_ok ab \<Longrightarrow> 0 \<le> n \<Longrightarrow> n \<le> int (length s) \<Longrightarrow>
   abAppend ab s n w = Some (\<lparr>ab_b = ab_b ab @ take (nat n) s, ab_len = ab_len ab + n\<rparr>, w)"
  by (simp add: abAppend_def ab_ok_def)

lemma ab_puts_plenty [simp]:
  "w_alloc w = [] \<Longrightarrow> ab_ok ab \<Longrightarrow>
   ab_puts ab seq w = Some (\<lparr>ab_b = ab_b ab @ seq, ab_len = ab_len ab + int (length seq)\<rparr>, w)"
  by (simp add: ab_puts_def)

lemma ab_ok_extend [simp]:
  "ab_ok ab \<Longrightarrow> n = int (length s) \<Longrightarrow> ab_ok \<lparr>ab_b = ab_b ab @ s, ab_len = ab_len ab + n\<rparr>"
  by (simp add: ab_ok_def)

lemma ab_flush_frame: "io_frame w (ab_flush ab w)"
  by (cases "sys_write (take (nat (ab_len ab)) (ab_b ab)) w") (simp add: ab_flush_def sys_write_frame)

section \<open>Hints\<close>

text \<open>The part of \<open>refreshShowHints\<close> that has a hint to show; \<open>seq\<close> is indeterminate unless it was
  printed.\<close>

definition showHint ::
  "abuf \<Rightarrow> string \<Rightarrow> int \<Rightarrow> int \<Rightarrow> int \<Rightarrow> lnworld \<Rightarrow> (abuf \<times> lnworld) option" where
  "showHint ab hint hintmaxlen color bold w = do {
     let hintlen = int (length hint);
     let hintlen = (if hintlen > hintmaxlen then hintmaxlen else hintlen);
     let color = (if bold = 1 \<and> color = -1 then 37 else color);
     seq \<leftarrow> (if color \<noteq> -1 \<or> bold \<noteq> 0
            then Some (snprintf 64 (csi (dec_of_int bold @ '';'' @ dec_of_int color @ '';49m'')))
            else None);
     (ab, w) \<leftarrow> ab_puts ab seq w;
     (ab, w) \<leftarrow> abAppend ab hint hintlen w;
     (if color \<noteq> -1 \<or> bold \<noteq> 0 then abAppend ab (csi ''0m'') 4 w else Some (ab, w))
   }"

definition refreshShowHints ::
  "abuf \<Rightarrow> linenoiseState \<Rightarrow> int \<Rightarrow> lnworld \<Rightarrow> (abuf \<times> lnworld) option" where
  "refreshShowHints ab l plen w =
     (case hintsCallback w of
        None \<Rightarrow> Some (ab, w)
      | Some hc \<Rightarrow>
          if size_add (size_of_int plen) (l_len l) < l_cols l then do {
            _ \<leftarrow> strlen (l_buf l);
            (case hc (c_str (l_buf l)) of
               None \<Rightarrow> Some (ab, w)
             | Some (hint, color, bold) \<Rightarrow> do {
                 let w = w\<lparr>w_hints_live := Suc (w_hints_live w)\<rparr>;
                 let hintmaxlen = int_of_size (size_sub (l_cols l) (size_add (size_of_int plen) (l_len l)));
                 (ab, w) \<leftarrow> showHint ab hint hintmaxlen color bold w;
                 Some (ab, if freeHintsCallback w then w\<lparr>w_hints_live := w_hints_live w - 1\<rparr> else w)
               })
          }
          else Some (ab, w))"

section \<open>Single line refresh\<close>

partial_function (option) single_scroll ::
  "nat \<Rightarrow> nat \<Rightarrow> nat \<Rightarrow> nat \<Rightarrow> nat \<Rightarrow> (nat \<times> nat \<times> nat) option" where
  "single_scroll plen cols off len pos =
     (if size_add plen pos \<ge> cols
      then single_scroll plen cols (off + 1) (size_sub len 1) (size_sub pos 1)
      else Some (off, len, pos))"

partial_function (option) single_trim :: "nat \<Rightarrow> nat \<Rightarrow> nat \<Rightarrow> nat option" where
  "single_trim plen cols len =
     (if size_add plen len > cols then single_trim plen cols (size_sub len 1) else Some len)"

definition refreshSingleLine :: "linenoiseState \<Rightarrow> lnworld \<Rightarrow> lnworld option" where
  "refreshSingleLine l w = do {
     let plen = length (l_prompt l);
     (off, len, pos) \<leftarrow> single_scroll plen (l_cols l) 0 (l_len l) (l_pos l);
     len \<leftarrow> single_trim plen (l_cols l) len;
     (ab, w) \<leftarrow> ab_puts abInit (snprintf 64 [CR]) w;
     (ab, w) \<leftarrow> ab_puts ab (l_prompt l) w;
     (ab, w) \<leftarrow> abAppend ab (drop off (l_buf l)) (int_of_size len) w;
     (ab, w) \<leftarrow> refreshShowHints ab l (int_of_size plen) w;
     (ab, w) \<leftarrow> ab_puts ab (snprintf 64 (csi ''0K'')) w;
     (ab, w) \<leftarrow> ab_puts ab (snprintf 64 (CR # csi (dec_of_int (int_of_size (size_add pos plen)) @ ''C''))) w;
     Some (ab_flush ab w)
   }"

section \<open>Multi line refresh\<close>

fun clear_rows :: "nat \<Rightarrow> abuf \<Rightarrow> lnworld \<Rightarrow> (abuf \<times> lnworld) option" where
  "clear_rows 0 ab w = Some (ab, w)"
| "clear_rows (Suc n) ab w = do {
     (ab, w) \<leftarrow> ab_puts ab (snprintf 64 (CR # csi ''0K'' @ csi ''1A'')) w;
     clear_rows n ab w
   }"

text \<open>At the very end of the last column the code emits a newline and starts a new row.\<close>

definition multi_newline ::
  "linenoiseState \<Rightarrow> int \<Rightarrow> nat \<Rightarrow> abuf \<Rightarrow> lnworld \<Rightarrow> (linenoiseState \<times> int \<times> abuf \<times> lnworld) option" where
  "multi_newline l rows uplen ab w =
     (if l_pos l \<noteq> 0 \<and> l_pos l = l_len l \<and> size_add (l_pos l) uplen mod l_cols l = 0
      then do {
        (ab, w) \<leftarrow> abAppend ab [LF] 1 w;
        (ab, w) \<leftarrow> ab_puts ab (snprintf 64 [CR]) w;
        let rows = rows + 1;
        let l = (if rows > int_of_size (l_maxrows l) then l\<lparr>l_maxrows := size_of_int rows\<rparr> else l);
        Some (l, rows, ab, w)
      }
      else Some (l, rows, ab, w))"

text \<open>From the first step (clear the rows used before) to the end of \<open>refreshMultiLine\<close>.\<close>

definition multi_draw ::
  "linenoiseState \<Rightarrow> int \<Rightarrow> int \<Rightarrow> int \<Rightarrow> lnworld \<Rightarrow> (linenoiseState \<times> lnworld) option" where
  "multi_draw l rows rpos old_rows w = do {
     let plen = int_of_size (length (l_prompt l));
     let uplen = size_of_int plen;
     let cols = l_cols l;
     (ab, w) \<leftarrow> ab_when (old_rows - rpos > 0) abInit
                 (snprintf 64 (csi (dec_of_int (old_rows - rpos) @ ''B''))) w;
     (ab, w) \<leftarrow> clear_rows (nat (old_rows - 1)) ab w;
     (ab, w) \<leftarrow> ab_puts ab (snprintf 64 (CR # csi ''0K'')) w;
     (ab, w) \<leftarrow> ab_puts ab (l_prompt l) w;
     (ab, w) \<leftarrow> abAppend ab (l_buf l) (int_of_size (l_len l)) w;
     (ab, w) \<leftarrow> refreshShowHints ab l plen w;
     (l, rows, ab, w) \<leftarrow> multi_newline l rows uplen ab w;
     let rpos2 = int_of_size (size_add (size_add uplen (l_pos l)) cols div cols);
     (ab, w) \<leftarrow> ab_when (rows - rpos2 > 0) ab
                 (snprintf 64 (csi (dec_of_int (rows - rpos2) @ ''A''))) w;
     let col = (plen + int_of_size (l_pos l)) mod int_of_size cols;
     (ab, w) \<leftarrow> ab_puts ab (if col \<noteq> 0 then snprintf 64 (CR # csi (dec_of_int col @ ''C''))
                          else snprintf 64 [CR]) w;
     Some (l\<lparr>l_oldpos := l_pos l\<rparr>, ab_flush ab w)
   }"

definition refreshMultiLine :: "linenoiseState \<Rightarrow> lnworld \<Rightarrow> (linenoiseState \<times> lnworld) option" where
  "refreshMultiLine l w = (if l_cols l = 0 then None else
     let plen = int_of_size (length (l_prompt l));
         uplen = size_of_int plen;
         cols = l_cols l;
         rows = int_of_size (size_sub (size_add (size_add uplen (l_len l)) cols) 1 div cols);
         rpos = int_of_size (size_add (size_add uplen (l_oldpos l)) cols div cols);
         old_rows = int_of_size (l_maxrows l);
         l = (if rows > int_of_size (l_maxrows l) then l\<lparr>l_maxrows := size_of_int rows\<rparr> else l)
     in multi_draw l rows rpos old_rows w)"

definition refreshLine :: "linenoiseState \<Rightarrow> lnworld \<Rightarrow> (linenoiseState \<times> lnworld) option" where
  "refreshLine l w =
     (if mlmode w then refreshMultiLine l w
      else map_option (\<lambda>w. (l, w)) (refreshSingleLine l w))"

section \<open>When a refresh is defined\<close>

text \<open>The hints callback must give every hint a colour or a boldness (otherwise the code copies an
  indeterminate buffer), and an \<open>int\<close> can hold the length of the hint.\<close>

definition hints_ok :: "lnworld \<Rightarrow> bool" where
  "hints_ok w \<longleftrightarrow>
     (\<forall>hc s h c b. hintsCallback w = Some hc \<and> hc s = Some (h, c, b) \<longrightarrow> c \<noteq> -1 \<or> b \<noteq> 0)"

text \<open>The line fits in its buffer and ends with a terminator; the sizes are those of a terminal and a
  line, far below the range of \<open>int\<close>.\<close>

definition ln_inv :: "linenoiseState \<Rightarrow> bool" where
  "ln_inv l \<longleftrightarrow>
     0 < l_buflen l \<and> l_buflen l < 2 ^ 29 \<and> length (l_buf l) = l_buflen l + 1 \<and>
     l_pos l \<le> l_len l \<and> l_len l \<le> l_buflen l \<and> l_buf l ! l_len l = NUL \<and>
     l_oldpos l < 2 ^ 29"

definition view_ok :: "linenoiseState \<Rightarrow> lnworld \<Rightarrow> bool" where
  "view_ok l w \<longleftrightarrow>
     0 < l_cols l \<and> l_cols l < 2 ^ 29 \<and> length (l_prompt l) < 2 ^ 29 \<and>
     l_plen l = length (l_prompt l) \<and>
     (\<not> mlmode w \<longrightarrow> length (l_prompt l) < l_cols l) \<and> hints_ok w"

lemma hints_ok_frame [simp]: "io_frame w w' \<Longrightarrow> hints_ok w' = hints_ok w"
  by (simp add: hints_ok_def frame_simps)

lemma view_ok_frame [simp]: "io_frame w w' \<Longrightarrow> view_ok l w' = view_ok l w"
  by (simp add: view_ok_def frame_simps)

text \<open>What a refresh needs of the state it shows.  It holds of the edited line, and of a completion
  that is shown in its place.\<close>

definition shown_ok :: "linenoiseState \<Rightarrow> bool" where
  "shown_ok l \<longleftrightarrow> l_pos l \<le> l_len l \<and> l_len l < length (l_buf l) \<and> NUL \<in> set (l_buf l) \<and>
     l_len l < 2 ^ 29 \<and> l_oldpos l < 2 ^ 29"

lemma ln_inv_shown_ok: "ln_inv l \<Longrightarrow> shown_ok l"
  by (auto simp: ln_inv_def shown_ok_def in_set_conv_nth intro!: exI [of _ "l_len l"])

lemma showHint_wp [ok_intros]:
  assumes "ab_ok ab" and "color \<noteq> -1 \<or> bold \<noteq> 0" and "0 \<le> hintmaxlen"
    and Q: "\<And>ab' w'. ab_ok ab' \<Longrightarrow> io_frame w w' \<Longrightarrow> Q (ab', w')"
  shows "ok_with (showHint ab hint hintmaxlen color bold w) Q"
  unfolding showHint_def using assms(1-3)
  by (intro ok_intros Q) (auto split: if_splits intro: io_frame_trans)

lemma refreshShowHints_wp [ok_intros]:
  assumes "ab_ok ab" and "hints_ok w" and "NUL \<in> set (l_buf l)"
    and "0 \<le> plen" "plen < 2 ^ 29" "l_len l < 2 ^ 29" "l_cols l < 2 ^ 29"
    and Q: "\<And>ab' w'. ab_ok ab' \<Longrightarrow> io_frame w w' \<Longrightarrow> Q (ab', w')"
  shows "ok_with (refreshShowHints ab l plen w) Q"
proof (cases "hintsCallback w")
  case None
  with assms show ?thesis by (simp add: refreshShowHints_def)
next
  case (Some hc)
  consider "\<not> size_add (size_of_int plen) (l_len l) < l_cols l" | "hc (c_str (l_buf l)) = None"
    | h c b where "size_add (size_of_int plen) (l_len l) < l_cols l" "hc (c_str (l_buf l)) = Some (h, c, b)"
    by (cases "hc (c_str (l_buf l))") auto
  then show ?thesis
  proof cases
    case 1
    with Some assms show ?thesis by (simp add: refreshShowHints_def)
  next
    case 2
    with Some assms show ?thesis by (simp add: refreshShowHints_def strlen_def)
  next
    case 3
    note hint = 3(2)
    have uplen: "size_of_int plen = nat plen"
      using assms(4,5) by (simp add: size_of_int_def)
    have room: "nat plen + l_len l < l_cols l"
      using 3(1) assms(4-7) by (simp add: uplen)
    have styled: "c \<noteq> -1 \<or> b \<noteq> 0"
      using assms(2) Some hint unfolding hints_ok_def by blast
    have "ok_with (showHint ab h (int_of_size (l_cols l - (nat plen + l_len l))) c b
        (w\<lparr>w_hints_live := Suc (w_hints_live w)\<rparr>))
      (\<lambda>(ab', w'). ab_ok ab' \<and> io_frame w w' \<and> (\<forall>n. io_frame w (w'\<lparr>w_hints_live := n\<rparr>)))"
      using assms(1) styled room assms(7)
      by (intro ok_intros) (auto intro: io_frame_hints_live)
    then show ?thesis
      using 3(1) Some hint assms(3,4,5,6) room
      by (auto simp: refreshShowHints_def strlen_def uplen elim!: ok_withE intro!: Q)
  qed
qed

lemma refreshShowHints_none [simp]:
  "hintsCallback w = None \<Longrightarrow> refreshShowHints ab l plen w = Some (ab, w)"
  by (simp add: refreshShowHints_def)

section \<open>The loops of the single line refresh\<close>

lemma single_scroll_eq:
  assumes "0 < cols" and "len < size_mod" and "pos < size_mod"
  shows "single_scroll plen cols off len pos =
    (let k = Suc (size_add plen pos) - cols in Some (off + k, size_sub len k, size_sub pos k))"
  using assms(2,3)
proof (induction "Suc (size_add plen pos) - cols" arbitrary: off len pos)
  case 0
  then show ?case by (subst single_scroll.simps) simp
next
  case (Suc k)
  have le: "Suc k \<le> size_mod" using Suc.hyps(2) size_add_less [of plen pos] assms(1) by linarith
  from Suc.hyps(2) have ge: "cols \<le> size_add plen pos" by simp
  with assms(1) have step: "size_add plen (size_sub pos (Suc 0)) = size_add plen pos - 1"
    by (intro size_add_size_sub_1) auto
  have k: "k = Suc (size_add plen (size_sub pos (Suc 0))) - cols"
    using Suc.hyps(2) step ge assms(1) by simp
  have "single_scroll plen cols off len pos =
      single_scroll plen cols (off + 1) (size_sub len (Suc 0)) (size_sub pos (Suc 0))"
    using ge by (subst single_scroll.simps) simp
  also have "\<dots> = Some (off + 1 + k, size_sub (size_sub len (Suc 0)) k, size_sub (size_sub pos (Suc 0)) k)"
    by (subst Suc.hyps(1) [OF k]) (simp_all add: Suc.prems Let_def flip: k)
  also have "\<dots> = Some (off + Suc k, size_sub len (Suc k), size_sub pos (Suc k))"
    using Suc.prems le by (simp add: size_sub_size_sub_1)
  finally show ?case using Suc.hyps(2) by (metis Let_def)
qed

lemma single_trim_eq:
  "len < size_mod \<Longrightarrow>
   single_trim plen cols len = Some (size_sub len (size_add plen len - cols))"
proof (induction "size_add plen len - cols" arbitrary: len)
  case 0
  then show ?case by (subst single_trim.simps) simp
next
  case (Suc k)
  have le: "Suc k \<le> size_mod" using Suc.hyps(2) size_add_less [of plen len] by linarith
  from Suc.hyps(2) have gt: "cols < size_add plen len" by simp
  then have step: "size_add plen (size_sub len (Suc 0)) = size_add plen len - 1"
    by (intro size_add_size_sub_1) auto
  have k: "k = size_add plen (size_sub len (Suc 0)) - cols" using Suc.hyps(2) step by simp
  have "single_trim plen cols len = single_trim plen cols (size_sub len (Suc 0))"
    using gt by (subst single_trim.simps) simp
  also have "\<dots> = Some (size_sub (size_sub len (Suc 0)) k)"
    by (subst Suc.hyps(1) [OF k]) (simp_all add: Suc.prems flip: k)
  also have "\<dots> = Some (size_sub len (Suc k))"
    using Suc.prems le by (simp add: size_sub_size_sub_1)
  finally show ?case using Suc.hyps(2) by simp
qed

text \<open>A terminal of zero columns (\<open>getColumns\<close> returns what the terminal answered) makes the first loop
  run forever.\<close>

lemma single_scroll_no_cols: "single_scroll plen 0 off len pos = None"
proof (cases "single_scroll plen 0 off len pos")
  case (Some r)
  have "(0::nat) \<noteq> 0"
    by (rule single_scroll.raw_induct [where P = "\<lambda>plen cols off len pos r. cols \<noteq> 0", OF _ Some])
      (auto split: if_splits)
  then show ?thesis by simp
qed

section \<open>Every refresh of a sound state is defined\<close>

text \<open>The window of the line that the single line refresh shows: where it starts and its length.\<close>

definition win_off :: "linenoiseState \<Rightarrow> nat" where
  "win_off l = Suc (length (l_prompt l) + l_pos l) - l_cols l"

definition win_len :: "linenoiseState \<Rightarrow> nat" where
  "win_len l = min (l_len l - win_off l) (l_cols l - length (l_prompt l))"

lemma win_off_le_pos: "length (l_prompt l) < l_cols l \<Longrightarrow> win_off l \<le> l_pos l"
  by (simp add: win_off_def)

lemma single_window:
  assumes "shown_ok l" and "length (l_prompt l) < l_cols l" and "l_cols l < 2 ^ 29"
  shows "single_scroll (length (l_prompt l)) (l_cols l) 0 (l_len l) (l_pos l) =
      Some (win_off l, l_len l - win_off l, l_pos l - win_off l)"
    and "single_trim (length (l_prompt l)) (l_cols l) (l_len l - win_off l) = Some (win_len l)"
proof -
  have small: "l_len l < size_mod" "l_pos l < size_mod" "l_len l - win_off l < size_mod"
    using assms by (auto simp: shown_ok_def size_mod_def)
  have add: "size_add (length (l_prompt l)) (l_pos l) = length (l_prompt l) + l_pos l"
    "size_add (length (l_prompt l)) (l_len l - win_off l) = length (l_prompt l) + (l_len l - win_off l)"
    using assms by (auto simp: shown_ok_def)
  have off: "win_off l \<le> l_pos l" "l_pos l \<le> l_len l"
    using assms win_off_le_pos by (auto simp: shown_ok_def)
  then show "single_scroll (length (l_prompt l)) (l_cols l) 0 (l_len l) (l_pos l) =
      Some (win_off l, l_len l - win_off l, l_pos l - win_off l)"
    using small assms(2) by (subst single_scroll_eq) (simp_all add: add Let_def flip: win_off_def)
  show "single_trim (length (l_prompt l)) (l_cols l) (l_len l - win_off l) = Some (win_len l)"
    using small assms(2) by (subst single_trim_eq) (simp_all add: add win_len_def min_def)
qed

lemma win_len_le: "shown_ok l \<Longrightarrow> win_off l + win_len l \<le> length (l_buf l) \<or> win_len l = 0"
  by (auto simp: shown_ok_def win_len_def min_def)

lemma refreshSingleLine_wp [ok_intros]:
  assumes "shown_ok l" and "length (l_prompt l) < l_cols l" and "l_cols l < 2 ^ 29" and "hints_ok w"
    and Q: "\<And>w'. io_frame w w' \<Longrightarrow> Q w'"
  shows "ok_with (refreshSingleLine l w) Q"
proof -
  have len: "win_len l < 2 ^ 29" "int (win_len l) \<le> int (length (l_buf l) - win_off l)"
    using assms(1) by (auto simp: shown_ok_def win_len_def)
  have shown: "NUL \<in> set (l_buf l)" "l_len l < 2 ^ 29" "length (l_prompt l) < 2 ^ 29"
    using assms by (auto simp: shown_ok_def)
  show ?thesis
    unfolding refreshSingleLine_def Let_def single_window(1) [OF assms(1-3)] bind.bind_lunit
      prod.case single_window(2) [OF assms(1-3)]
    using len shown assms(3,4)
    by (intro ok_intros Q) (simp_all, meson io_frame_trans ab_flush_frame)
qed

lemma clear_rows_wp [ok_intros]:
  assumes "ab_ok ab" and Q: "\<And>ab' w'. ab_ok ab' \<Longrightarrow> io_frame w w' \<Longrightarrow> Q (ab', w')"
  shows "ok_with (clear_rows n ab w) Q"
  using assms
proof (induction n arbitrary: ab w)
  case 0
  then show ?case by simp
next
  case (Suc n)
  show ?case
    unfolding clear_rows.simps
    by (intro ok_intros Suc.prems(1); rule Suc.IH; blast intro: Suc.prems(2) io_frame_trans)
qed

text \<open>Two states that differ only in the row counts of the multi line mode.\<close>

definition same_line :: "linenoiseState \<Rightarrow> linenoiseState \<Rightarrow> bool" where
  "same_line l l' \<longleftrightarrow> (\<exists>mr op. l' = l\<lparr>l_maxrows := mr, l_oldpos := op\<rparr> \<and> (op = l_oldpos l \<or> op = l_pos l))"

lemma same_lineI:
  "l' = l\<lparr>l_maxrows := mr, l_oldpos := op\<rparr> \<Longrightarrow> op = l_oldpos l \<or> op = l_pos l \<Longrightarrow> same_line l l'"
  by (auto simp: same_line_def)

lemma same_line_refl [simp, intro]: "same_line l l"
  by (rule same_lineI [where mr = "l_maxrows l" and op = "l_oldpos l"]) simp_all

lemma same_line_maxrows [simp, intro]: "same_line l (l\<lparr>l_maxrows := mr\<rparr>)"
  by (rule same_lineI [where mr = mr and op = "l_oldpos l"]) simp_all

lemma same_line_oldpos [intro]: "same_line l l' \<Longrightarrow> same_line l (l'\<lparr>l_oldpos := l_pos l'\<rparr>)"
  unfolding same_line_def by (elim exE) (rule exI, rule exI [of _ "l_pos l"], simp)

lemma same_line_trans [trans]: "same_line l l1 \<Longrightarrow> same_line l1 l2 \<Longrightarrow> same_line l l2"
  unfolding same_line_def by (elim exE conjE, rule exI, rule exI, rule conjI, simp, auto)

lemma same_line_fields [frame_simps]:
  assumes "same_line l l'"
  shows "l_buf l' = l_buf l" "l_len l' = l_len l" "l_pos l' = l_pos l" "l_cols l' = l_cols l"
    "l_prompt l' = l_prompt l" "l_plen l' = l_plen l" "l_buflen l' = l_buflen l"
    "l_history_index l' = l_history_index l"
  using assms by (auto simp: same_line_def)

lemma multi_newline_wp [ok_intros]:
  assumes "ab_ok ab"
    and "\<And>l' rows' ab' w'. same_line l l' \<Longrightarrow> ab_ok ab' \<Longrightarrow> io_frame w w' \<Longrightarrow> Q (l', rows', ab', w')"
  shows "ok_with (multi_newline l rows uplen ab w) Q"
  unfolding multi_newline_def Let_def using assms(1)
  by (intro ok_intros assms) (auto intro: io_frame_trans)

lemma multi_draw_wp [ok_intros]:
  assumes "shown_ok l" and "l_cols l < 2 ^ 29" "length (l_prompt l) < 2 ^ 29" and "hints_ok w"
    and Q: "\<And>l' w'. same_line l l' \<Longrightarrow> io_frame w w' \<Longrightarrow> Q (l', w')"
  shows "ok_with (multi_draw l rows rpos old_rows w) Q"
proof -
  have shown: "NUL \<in> set (l_buf l)" "l_len l < 2 ^ 29" "int (l_len l) \<le> int (length (l_buf l))"
    using assms by (auto simp: shown_ok_def)
  show ?thesis
    unfolding multi_draw_def using shown assms(2-4)
    by (intro ok_intros; simp?) (blast intro: Q io_frame_trans ab_flush_frame)
qed

lemma refreshMultiLine_wp [ok_intros]:
  assumes "shown_ok l" and "0 < l_cols l" "l_cols l < 2 ^ 29" "length (l_prompt l) < 2 ^ 29"
    and "hints_ok w"
    and Q: "\<And>l' w'. same_line l l' \<Longrightarrow> io_frame w w' \<Longrightarrow> Q (l', w')"
  shows "ok_with (refreshMultiLine l w) Q"
  unfolding refreshMultiLine_def Let_def using assms(1-5)
  by (auto intro!: multi_draw_wp intro: Q same_line_trans simp: shown_ok_def)

lemma refreshLine_wp [ok_intros]:
  assumes "shown_ok l" and "view_ok l w"
    and Q: "\<And>l' w'. same_line l l' \<Longrightarrow> io_frame w w' \<Longrightarrow> Q (l', w')"
  shows "ok_with (refreshLine l w) Q"
proof (cases "mlmode w")
  case True
  with assms show ?thesis
    by (auto simp: refreshLine_def view_ok_def intro!: refreshMultiLine_wp)
next
  case False
  with assms(1,2) have "ok_with (refreshSingleLine l w) (io_frame w)"
    by (intro ok_intros) (auto simp: view_ok_def)
  then show ?thesis
    using False by (auto simp: refreshLine_def elim!: ok_withE intro!: Q)
qed

lemma shown_ok_same_line: "same_line l l' \<Longrightarrow> shown_ok l \<Longrightarrow> shown_ok l'"
  by (auto simp: same_line_def shown_ok_def)

lemma ln_inv_same_line: "same_line l l' \<Longrightarrow> ln_inv l \<Longrightarrow> ln_inv l'"
  by (auto simp: same_line_def ln_inv_def)

lemma view_ok_same_line: "same_line l l' \<Longrightarrow> view_ok l' w = view_ok l w"
  by (auto simp: same_line_def view_ok_def)

section \<open>Where a refresh is not defined\<close>

text \<open>A prompt as wide as the terminal: with the cursor at the end of the line the length of the
  window wraps around, and \<open>abAppend\<close> copies with a negative length.\<close>

lemma refreshSingleLine_wide_prompt:
  assumes "0 < l_cols l" and "l_cols l \<le> length (l_prompt l)" and "l_pos l = l_len l"
    and "length (l_prompt l) < 2 ^ 29" "l_len l < 2 ^ 29" and "w_alloc w = []"
  shows "refreshSingleLine l w = None"
proof -
  let ?plen = "length (l_prompt l)" and ?cols = "l_cols l" and ?n = "l_len l"
  define d where "d = Suc ?plen - ?cols"
  have d: "0 < d" "d \<le> 2 ^ 29" using assms by (auto simp: d_def)
  have k: "Suc (size_add ?plen ?n) - ?cols = ?n + d"
    using assms by (simp add: d_def)
  have wrap: "size_sub ?n (?n + d) = size_mod - d"
    using d assms by (simp add: size_sub_def)
  have "size_add ?plen (size_mod - d) = ?cols - 1"
  proof -
    have "?plen + (size_mod - d) = (?cols - 1) + size_mod"
      using d assms(1,2) by (simp add: size_mod_def d_def)
    then have "size_add ?plen (size_mod - d) = (?cols - 1) mod size_mod"
      unfolding size_add_def by (simp only: mod_add_self2)
    then show ?thesis using assms(2,4) by (simp add: size_mod_def)
  qed
  then have trim: "single_trim ?plen ?cols (size_mod - d) = Some (size_mod - d)"
    using d by (subst single_trim_eq) simp_all
  have scroll: "single_scroll ?plen ?cols 0 ?n ?n = Some (?n + d, size_mod - d, size_mod - d)"
    using assms(1,5) by (subst single_scroll_eq) (auto simp: k wrap size_mod_def Let_def)
  have neg: "int_of_size (size_mod - d) < 0"
    using d by (simp add: int_of_size_neg)
  show ?thesis
    using assms(3,6) neg
    by (simp add: refreshSingleLine_def Let_def scroll trim ab_puts_def abAppend_def ab_ok_def)
qed

text \<open>A hint in the default colour and not bold: its style sequence is never printed into \<open>seq\<close>.\<close>

lemma showHint_plain: "showHint ab hint hintmaxlen (-1) 0 w = None"
  by (simp add: showHint_def)

section \<open>Properties\<close>

text \<open>C30. In either mode a refresh of a sound line is defined (its loops end, and nothing is read or copied
  outside its block), whatever memory allocations and writes fail, and it changes nothing but the
  output and, in multi line mode, the row counts; allowed are any prompt that is narrower than the
  terminal in single line mode, any terminal width but 0, and hints with a colour or a boldness.\<close>

theorem refresh_is_defined:
  assumes "ln_inv l" and "view_ok l w"
  shows "\<exists>l' w'. refreshLine l w = Some (l', w') \<and> same_line l l' \<and> io_frame w w' \<and> ln_inv l' \<and> view_ok l' w'"
proof -
  have "ok_with (refreshLine l w) (\<lambda>(l', w'). same_line l l' \<and> io_frame w w')"
    by (rule refreshLine_wp) (use assms in \<open>auto intro: ln_inv_shown_ok\<close>)
  then show ?thesis
    using assms by (auto simp: ok_with_def view_ok_same_line ln_inv_same_line)
qed

definition bare_line :: linenoiseState where
  "bare_line = \<lparr>l_ifd = 0, l_ofd = 1, l_buf = ''hi'' @ [NUL, NUL, NUL], l_buflen = 4, l_prompt = ''$ '', l_plen = 2,
     l_pos = 2, l_oldpos = 0, l_len = 2, l_cols = 20, l_maxrows = 0, l_history_index = 0\<rparr>"

theorem refresh_is_defined_witness:
  "\<exists>l' w'. refreshLine bare_line ((init_world [] termios0)\<lparr>mlmode := True, w_alloc := [False]\<rparr>) = Some (l', w')"
  using refresh_is_defined [of bare_line "(init_world [] termios0)\<lparr>mlmode := True, w_alloc := [False]\<rparr>"]
  by (auto simp: bare_line_def ln_inv_def view_ok_def hints_ok_def)

text \<open>C40. A prompt at least as wide as the terminal makes the single line refresh undefined when the
  cursor is at the end of the line, as it is after the first key: the length of the window is
  decremented below 0, wraps around, and the append buffer is asked to copy a negative number of
  bytes.  A terminal of 0 columns makes the first loop run forever.\<close>

theorem wide_prompt_undefined:
  assumes "l_pos l = l_len l" and "length (l_prompt l) < 2 ^ 29" and "l_len l < 2 ^ 29" and "w_alloc w = []"
    and "l_cols l \<le> length (l_prompt l)"
  shows "refreshSingleLine l w = None"
proof (cases "l_cols l = 0")
  case True
  then show ?thesis by (simp add: refreshSingleLine_def single_scroll_no_cols)
next
  case False
  with assms refreshSingleLine_wide_prompt [of l w] show ?thesis by simp
qed

theorem wide_prompt_undefined_witness:
  "refreshSingleLine (bare_line\<lparr>l_prompt := ''a very long prompt> '', l_plen := 20\<rparr>) (init_world [] termios0) = None"
  by (rule wide_prompt_undefined) (simp_all add: bare_line_def)

text \<open>A hint in the default colour and not bold, the values the callback's variables have when it
  leaves them alone, makes the refresh undefined: the buffer for the style was never written, and is
  copied nevertheless.\<close>

theorem plain_hint_undefined:
  assumes "hintsCallback w = Some hc" and "hc (c_str (l_buf l)) = Some (hint, -1, 0)" and "NUL \<in> set (l_buf l)"
    and "0 \<le> plen" and "plen < 2 ^ 29" and "l_len l < 2 ^ 29" and "plen + int (l_len l) < int (l_cols l)"
  shows "refreshShowHints ab l plen w = None"
proof -
  have "size_of_int plen = nat plen" using assms(4,5) by (simp add: size_of_int_def)
  then have "size_add (size_of_int plen) (l_len l) < l_cols l" using assms(4-7) by simp
  then show ?thesis using assms(1-3) by (simp add: refreshShowHints_def strlen_def showHint_plain)
qed

theorem plain_hint_undefined_witness:
  "refreshShowHints abInit bare_line 2 ((init_world [] termios0)\<lparr>hintsCallback := Some (\<lambda>_. Some ('' there'', -1, 0))\<rparr>) = None"
  by (rule plain_hint_undefined [where hc = "\<lambda>_. Some ('' there'', -1, 0)" and hint = "'' there''"])
    (simp_all add: bare_line_def)

end
