(* ===== verification/Ln_History.thy ===== *)
theory Ln_History
  imports Ln_World
begin

text \<open>
  The history of \<open>linenoise.c\<close>: an array of \<open>history_max_len\<close> string pointers of which the first
  \<open>history_len\<close> are lines, oldest first.  \<open>linenoiseHistoryAdd\<close>, \<open>linenoiseHistorySetMaxLen\<close>,
  \<open>linenoiseHistorySave\<close>, \<open>linenoiseHistoryLoad\<close> and \<open>freeHistory\<close>, with every pointer operation
  checked: a read of a slot that holds no string, a second \<open>free\<close> of a string and an index outside
  the array are undefined.  The abstraction \<open>hist_lines\<close> is the list of lines; the interface
  \<open>bounded_history\<close> states what adding a line does to it, and its lemmas are used through the
  interpretation on \<open>linenoiseHistoryAdd\<close>.
\<close>

unbundle bit_operations_syntax

section \<open>Operations on the array\<close>

definition hslot :: "hptr list \<Rightarrow> int \<Rightarrow> hptr option" where
  "hslot hs i = (if 0 \<le> i then mem_get (nat i) hs else None)"

definition hslot_set :: "int \<Rightarrow> hptr \<Rightarrow> hptr list \<Rightarrow> hptr list option" where
  "hslot_set i p hs = (if 0 \<le> i then mem_set (nat i) p hs else None)"

fun deref :: "hptr \<Rightarrow> string option" where
  "deref (Str s) = Some s"
| "deref _ = None"

text \<open>\<open>free(hs[i])\<close>.\<close>

definition hfree :: "int \<Rightarrow> hptr list \<Rightarrow> hptr list option" where
  "hfree i hs = do {
     p \<leftarrow> hslot hs i;
     (case p of Null \<Rightarrow> Some hs | Str _ \<Rightarrow> hslot_set i Freed hs | Freed \<Rightarrow> None)
   }"

text \<open>\<open>for (j = 0; j < n; j++) free(hs[j])\<close>.\<close>

fun hfree_upto :: "nat \<Rightarrow> hptr list \<Rightarrow> hptr list option" where
  "hfree_upto 0 hs = Some hs"
| "hfree_upto (Suc n) hs = do { hs \<leftarrow> hfree_upto n hs; hfree (int n) hs }"

section \<open>linenoiseHistoryAdd\<close>

text \<open>The initialisation on the first call; False when the array cannot be allocated.\<close>

definition history_init :: "lnworld \<Rightarrow> bool \<times> lnworld" where
  "history_init w =
     (case history w of
        Some _ \<Rightarrow> (True, w)
      | None \<Rightarrow>
          let (ok, w) = alloc w in
          if ok then (True, w\<lparr>history := Some (replicate (nat (history_max_len w)) Null)\<rparr>)
          else (False, w))"

definition history_is_dup :: "string \<Rightarrow> lnworld \<Rightarrow> bool option" where
  "history_is_dup line w =
     (if history_len w \<noteq> 0
      then do { hs \<leftarrow> history w; p \<leftarrow> hslot hs (history_len w - 1); s \<leftarrow> deref p; Some (s = line) }
      else Some False)"

definition history_push :: "string \<Rightarrow> lnworld \<Rightarrow> lnworld option" where
  "history_push line w = do {
     hs \<leftarrow> history w;
     (hs, n) \<leftarrow> (if history_len w = history_max_len w
                then do {
                  hs \<leftarrow> hfree 0 hs;
                  hs \<leftarrow> mem_move 0 1 (nat (history_max_len w - 1)) hs;
                  Some (hs, history_len w - 1)
                }
                else Some (hs, history_len w));
     hs \<leftarrow> hslot_set n (Str line) hs;
     Some (w\<lparr>history := Some hs, history_len := n + 1\<rparr>)
   }"

definition linenoiseHistoryAdd :: "string \<Rightarrow> lnworld \<Rightarrow> (int \<times> lnworld) option" where
  "linenoiseHistoryAdd line w =
     (if history_max_len w = 0 then Some (0, w)
      else let (ok, w) = history_init w in
        if \<not> ok then Some (0, w)
        else do {
          dup \<leftarrow> history_is_dup line w;
          if dup then Some (0, w)
          else let (ok, w) = alloc w in
            if \<not> ok then Some (0, w)
            else do { w \<leftarrow> history_push line w; Some (1, w) }
        })"

section \<open>linenoiseHistorySetMaxLen\<close>

definition linenoiseHistorySetMaxLen :: "int \<Rightarrow> lnworld \<Rightarrow> (int \<times> lnworld) option" where
  "linenoiseHistorySetMaxLen len w =
     (if len < 1 then Some (0, w)
      else let fin = (\<lambda>w. let w = w\<lparr>history_max_len := len\<rparr> in
                   Some (1, if history_len w > history_max_len w
                            then w\<lparr>history_len := history_max_len w\<rparr> else w))
        in (case history w of
              None \<Rightarrow> fin w
            | Some hs \<Rightarrow>
                let tocopy = history_len w; (ok, w) = alloc w in
                if \<not> ok then Some (0, w)
                else do {
                  (hs, tocopy) \<leftarrow> (if len < tocopy
                                  then do { hs \<leftarrow> hfree_upto (nat (tocopy - len)) hs; Some (hs, len) }
                                  else Some (hs, tocopy));
                  let from = history_len w - tocopy;
                  if 0 \<le> from \<and> 0 \<le> tocopy \<and> from + tocopy \<le> int (length hs) \<and> tocopy \<le> len
                  then fin (w\<lparr>history := Some (take (nat tocopy) (drop (nat from) hs)
                                       @ replicate (nat (len - tocopy)) Null)\<rparr>)
                  else None
                }))"

section \<open>Saving and loading\<close>

definition S_IXUSR_IRWXG_IRWXO :: nat where
  "S_IXUSR_IRWXG_IRWXO = 127"

definition S_IRUSR_IWUSR :: nat where
  "S_IRUSR_IWUSR = 384"

text \<open>\<open>fopen(name, "w")\<close>: a file that exists is truncated and keeps its mode, a new one gets
  \<open>0666\<close> without the bits of the umask.\<close>

definition fopen_w :: "string \<Rightarrow> lnworld \<Rightarrow> bool \<times> lnworld" where
  "fopen_w name w =
     (if name \<in> set (w_nofopen w) then (False, w)
      else let m = (case w_files w name of Some f \<Rightarrow> f_mode f | None \<Rightarrow> 438 - (438 AND w_umask w))
        in (True, w\<lparr>w_files := (w_files w)(name \<mapsto> \<lparr>f_mode = m, f_data = []\<rparr>)\<rparr>))"

definition fopen_r :: "string \<Rightarrow> lnworld \<Rightarrow> string option" where
  "fopen_r name w =
     (if name \<in> set (w_nofopen w) then None else map_option f_data (w_files w name))"

definition chmod :: "string \<Rightarrow> nat \<Rightarrow> lnworld \<Rightarrow> lnworld" where
  "chmod name m w =
     (case w_files w name of
        None \<Rightarrow> w
      | Some f \<Rightarrow> w\<lparr>w_files := (w_files w)(name \<mapsto> f\<lparr>f_mode := m\<rparr>)\<rparr>)"

definition fputs :: "string \<Rightarrow> string \<Rightarrow> lnworld \<Rightarrow> lnworld" where
  "fputs name s w =
     (case w_files w name of
        None \<Rightarrow> w
      | Some f \<Rightarrow> w\<lparr>w_files := (w_files w)(name \<mapsto> f\<lparr>f_data := f_data f @ s\<rparr>)\<rparr>)"

text \<open>The text of the first \<open>n\<close> lines, each with a newline.\<close>

fun history_text :: "nat \<Rightarrow> hptr list \<Rightarrow> string option" where
  "history_text 0 hs = Some []"
| "history_text (Suc n) hs = do {
     t \<leftarrow> history_text n hs; p \<leftarrow> hslot hs (int n); s \<leftarrow> deref p; Some (t @ s @ [CHR 0x0A]) }"

definition linenoiseHistorySave :: "string \<Rightarrow> lnworld \<Rightarrow> (int \<times> lnworld) option" where
  "linenoiseHistorySave filename w =
     (let old_umask = w_umask w;
          w = w\<lparr>w_umask := S_IXUSR_IRWXG_IRWXO\<rparr>;
          (ok, w) = fopen_w filename w;
          w = w\<lparr>w_umask := old_umask\<rparr>
      in if \<not> ok then Some (-1, w)
         else do {
           let w = chmod filename S_IRUSR_IWUSR w;
           t \<leftarrow> history_text (nat (history_len w)) (case history w of Some hs \<Rightarrow> hs | None \<Rightarrow> []);
           Some (0, fputs filename t w)
         })"

text \<open>What \<open>fgets\<close> reads: at most \<open>n\<close> characters, up to and including a newline.\<close>

fun fgets_take :: "nat \<Rightarrow> string \<Rightarrow> string" where
  "fgets_take 0 s = []"
| "fgets_take (Suc n) [] = []"
| "fgets_take (Suc n) (c # s) = c # (if c = CHR 0x0A then [] else fgets_take n s)"

lemma fgets_take_le: "length (fgets_take n s) \<le> length s"
  by (induction n s rule: fgets_take.induct) auto

definition strip_newline :: "string \<Rightarrow> string" where
  "strip_newline s =
     (if CHR 0x0D \<in> set s then takeWhile (\<lambda>c. c \<noteq> CHR 0x0D) s
      else takeWhile (\<lambda>c. c \<noteq> CHR 0x0A) s)"

function load_lines :: "string \<Rightarrow> lnworld \<Rightarrow> lnworld option" where
  "load_lines s w =
     (if s = [] then Some w
      else let chunk = fgets_take (LINENOISE_MAX_LINE - 1) s
        in do {
          (_, w) \<leftarrow> linenoiseHistoryAdd (strip_newline (c_str chunk)) w;
          load_lines (drop (length chunk) s) w
        })"
  by pat_completeness auto
termination
proof (relation "measure (\<lambda>(s, w). length s)")
  fix s :: string and w :: lnworld and chunk x
  assume *: "s \<noteq> []" "chunk = fgets_take (LINENOISE_MAX_LINE - 1) s"
  obtain c t where "s = c # t" using *(1) by (cases s) auto
  with * have "0 < length chunk"
    by (simp add: LINENOISE_MAX_LINE_def numeral_eq_Suc)
  with * show "\<And>y xa. ((drop (length chunk) s, xa), s, w) \<in> measure (\<lambda>(s, w). length s)"
    by simp
qed simp

declare load_lines.simps [simp del]

definition linenoiseHistoryLoad :: "string \<Rightarrow> lnworld \<Rightarrow> (int \<times> lnworld) option" where
  "linenoiseHistoryLoad filename w =
     (case fopen_r filename w of
        None \<Rightarrow> Some (-1, w)
      | Some s \<Rightarrow> do { w \<leftarrow> load_lines s w; Some (0, w) })"

section \<open>freeHistory\<close>

text \<open>The array itself is freed too: it has no slots left.\<close>

definition freeHistory :: "lnworld \<Rightarrow> lnworld option" where
  "freeHistory w =
     (case history w of
        None \<Rightarrow> Some w
      | Some hs \<Rightarrow> do {
          _ \<leftarrow> hfree_upto (nat (history_len w)) hs;
          Some (w\<lparr>history := Some []\<rparr>)
        })"

section \<open>Abstraction and invariant\<close>

text \<open>\<open>hist_rep w ls\<close>: the array of \<open>w\<close> holds the lines \<open>ls\<close>, oldest first.\<close>

definition hist_rep :: "lnworld \<Rightarrow> string list \<Rightarrow> bool" where
  "hist_rep w ls \<longleftrightarrow>
     1 \<le> history_max_len w \<and> history_len w = int (length ls) \<and>
     int (length ls) \<le> history_max_len w \<and> list_all is_c_string ls \<and>
     (case history w of
        None \<Rightarrow> ls = []
      | Some hs \<Rightarrow> length hs = nat (history_max_len w) \<and> take (length ls) hs = map Str ls)"

definition hist_lines :: "lnworld \<Rightarrow> string list" where
  "hist_lines w =
     (case history w of
        None \<Rightarrow> []
      | Some hs \<Rightarrow> map (\<lambda>p. case p of Str s \<Rightarrow> s | _ \<Rightarrow> []) (take (nat (history_len w)) hs))"

definition hist_inv :: "lnworld \<Rightarrow> bool" where
  "hist_inv w \<longleftrightarrow> hist_rep w (hist_lines w)"

lemma hist_rep_lines: "hist_rep w ls \<Longrightarrow> hist_lines w = ls"
  by (auto simp: hist_rep_def hist_lines_def comp_def split: option.splits)

lemma hist_rep_inv: "hist_rep w ls \<Longrightarrow> hist_inv w"
  by (simp add: hist_inv_def hist_rep_lines)

lemma hist_rep_cong:
  "history w' = history w \<Longrightarrow> history_len w' = history_len w \<Longrightarrow>
   history_max_len w' = history_max_len w \<Longrightarrow> hist_rep w' ls = hist_rep w ls"
  by (simp add: hist_rep_def split: option.split)

lemma hist_lines_cong:
  "history w' = history w \<Longrightarrow> history_len w' = history_len w \<Longrightarrow> hist_lines w' = hist_lines w"
  by (simp add: hist_lines_def split: option.split)

lemma hist_lines_io_frame [simp]: "io_frame w w' \<Longrightarrow> hist_lines w' = hist_lines w"
  by (rule hist_lines_cong) (simp_all add: frame_simps)

lemma hist_rep_io_frame [simp]: "io_frame w w' \<Longrightarrow> hist_rep w' ls = hist_rep w ls"
  by (rule hist_rep_cong) (simp_all add: frame_simps)

lemma hist_inv_io_frame [simp]: "io_frame w w' \<Longrightarrow> hist_inv w' = hist_inv w"
  by (simp add: hist_inv_def)

text \<open>From \<open>w\<close> to \<open>w'\<close> only the history and the allocation outcomes changed.\<close>

definition hist_frame :: "lnworld \<Rightarrow> lnworld \<Rightarrow> bool" where
  "hist_frame w w' \<longleftrightarrow>
     (\<exists>h n al. w' = w\<lparr>history := h, history_len := n, w_alloc := al\<rparr> \<and> (w_alloc w = [] \<longrightarrow> al = []))"

lemma hist_frameI:
  "w' = w\<lparr>history := h, history_len := n, w_alloc := al\<rparr> \<Longrightarrow> (w_alloc w = [] \<Longrightarrow> al = []) \<Longrightarrow> hist_frame w w'"
  by (auto simp: hist_frame_def)

lemma hist_frame_refl [simp, intro]: "hist_frame w w"
  by (rule hist_frameI [where h = "history w" and n = "history_len w" and al = "w_alloc w"]) simp_all

lemma hist_frame_updates [simp, intro]:
  "hist_frame w (w\<lparr>history := h\<rparr>)" "hist_frame w (w\<lparr>history_len := n\<rparr>)"
  "hist_frame w (w\<lparr>history := h, history_len := n\<rparr>)"
  by (rule hist_frameI [where h = h and n = "history_len w" and al = "w_alloc w"]
        hist_frameI [where h = "history w" and n = n and al = "w_alloc w"]
        hist_frameI [where h = h and n = n and al = "w_alloc w"]; simp)+

lemma hist_frame_trans [trans]: "hist_frame w w1 \<Longrightarrow> hist_frame w1 w2 \<Longrightarrow> hist_frame w w2"
  unfolding hist_frame_def by (elim exE conjE) (simp, blast)

lemma hist_frame_alloc [intro]: "alloc w = (b, w') \<Longrightarrow> hist_frame w w'"
  by (rule hist_frameI [where h = "history w" and n = "history_len w" and al = "w_alloc w'"])
    (auto simp: alloc_def split: list.splits)

lemma hist_frame_fields [frame_simps]:
  assumes "hist_frame w w'"
  shows "completionCallback w' = completionCallback w" "hintsCallback w' = hintsCallback w"
    "freeHintsCallback w' = freeHintsCallback w" "orig_termios w' = orig_termios w"
    "rawmode w' = rawmode w" "mlmode w' = mlmode w" "atexit_registered w' = atexit_registered w"
    "history_max_len w' = history_max_len w" "data_status w' = data_status w"
    "w_errno w' = w_errno w" "w_out w' = w_out w" "w_write w' = w_write w"
    "w_in w' = w_in w" "w_err w' = w_err w" "w_isatty w' = w_isatty w" "w_TERM w' = w_TERM w"
    "w_termios w' = w_termios w" "w_winsize w' = w_winsize w" "w_files w' = w_files w"
    "w_nofopen w' = w_nofopen w" "w_umask w' = w_umask w" "w_tc w' = w_tc w"
    "w_hints_live w' = w_hints_live w"
  using assms by (auto simp: hist_frame_def)

section \<open>What adding a line does\<close>

definition hist_dup :: "'a \<Rightarrow> 'a list \<Rightarrow> bool" where
  "hist_dup x ls \<longleftrightarrow> ls \<noteq> [] \<and> last ls = x"

definition hist_push :: "nat \<Rightarrow> 'a \<Rightarrow> 'a list \<Rightarrow> 'a list" where
  "hist_push n x ls =
     (if hist_dup x ls then ls else (if length ls = n then tl ls else ls) @ [x])"

lemma history_is_dup_eq:
  "hist_rep w ls \<Longrightarrow> history w \<noteq> None \<Longrightarrow> history_is_dup line w = Some (hist_dup line ls)"
proof -
  assume *: "hist_rep w ls" "history w \<noteq> None"
  then obtain hs where hs: "history w = Some hs" "take (length ls) hs = map Str ls"
      "length ls \<le> length hs" "history_len w = int (length ls)"
    by (auto simp: hist_rep_def)
  show ?thesis
  proof (cases "ls = []")
    case True
    with hs show ?thesis by (simp add: history_is_dup_def hist_dup_def)
  next
    case False
    then have "hs ! (length ls - 1) = take (length ls) hs ! (length ls - 1)" by simp
    also have "\<dots> = Str (last ls)" using False by (simp add: hs(2) last_conv_nth)
    finally have nth: "hs ! (length ls - 1) = Str (last ls)" .
    have "length ls - 1 < length hs" "nat (int (length ls) - 1) = length ls - 1"
      using False hs(3) by (cases ls; simp)+
    with nth False have "hslot hs (int (length ls) - 1) = Some (Str (last ls))"
      by (auto simp: hslot_def Suc_le_eq)
    with False hs show ?thesis by (simp add: history_is_dup_def hist_dup_def)
  qed
qed

lemma history_push_ok:
  assumes "hist_rep w ls" and "history w \<noteq> None" and "\<not> hist_dup line ls" and "is_c_string line"
  shows "\<exists>w'. history_push line w = Some w' \<and> hist_frame w w' \<and>
    hist_rep w' (hist_push (nat (history_max_len w)) line ls)"
proof -
  let ?m = "nat (history_max_len w)"
  from assms(1,2) obtain hs where hs: "history w = Some hs" "take (length ls) hs = map Str ls"
      "length hs = ?m" "history_len w = int (length ls)" "int (length ls) \<le> history_max_len w"
      "1 \<le> history_max_len w" "list_all is_c_string ls"
    by (auto simp: hist_rep_def)
  show ?thesis
  proof (cases "length ls = ?m")
    case True
    with hs(3,6) obtain a ls' where ls: "ls = a # ls'" by (cases ls) auto
    with hs(2,3) True have hs_eq: "hs = Str a # map Str ls'" by auto
    have len: "length ls' = ?m - 1" "nat (history_max_len w - 1) = length ls'"
      "history_len w = history_max_len w"
      using ls True hs(4,6) by auto
    have free: "hfree 0 hs = Some (Freed # map Str ls')"
      by (simp add: hs_eq hfree_def hslot_def hslot_set_def)
    have mv: "mem_move 0 1 (length ls') (Freed # map Str ls') =
        Some (map Str ls' @ drop (length ls') (Freed # map Str ls'))"
      by simp
    let ?rest = "drop (length ls') (Freed # map Str ls')"
    have rest: "length ?rest = 1" by simp
    have set: "hslot_set (int (length ls')) (Str line) (map Str ls' @ ?rest) = Some (map Str ls' @ [Str line])"
      using rest by (cases ?rest) (simp_all add: hslot_set_def list_update_append)
    have n: "history_max_len w - 1 = int (length ls')" using hs(4) len(3) ls by simp
    let ?w' = "w\<lparr>history := Some (map Str ls' @ [Str line]), history_len := int (length ls') + 1\<rparr>"
    have "history_push line w = Some ?w'"
      by (simp only: history_push_def hs(1) bind.bind_lunit len(3) simp_thms if_True free n nat_int mv prod.case set)
    moreover have "hist_rep ?w' (hist_push ?m line ls)"
      using assms(3,4) True ls hs(6,7) len by (simp add: hist_rep_def hist_push_def)
    ultimately show ?thesis by blast
  next
    case False
    with hs have less: "length ls < length hs" by simp
    then have set: "hslot_set (int (length ls)) (Str line) hs = Some (hs[length ls := Str line])"
      by (simp add: hslot_set_def)
    let ?w' = "w\<lparr>history := Some (hs[length ls := Str line]), history_len := int (length ls) + 1\<rparr>"
    have "history_len w \<noteq> history_max_len w" using False hs(4) by auto
    then have "history_push line w = Some ?w'"
      by (simp add: history_push_def hs(1,4) set)
    moreover have "take (Suc (length ls)) (hs[length ls := Str line]) = map Str (ls @ [line])"
      using less hs(2) by (simp add: take_Suc_conv_app_nth)
    then have "hist_rep ?w' (hist_push ?m line ls)"
      using assms(3,4) False less hs by (simp add: hist_rep_def hist_push_def)
    ultimately show ?thesis by blast
  qed
qed

lemma history_init_ok:
  assumes "hist_rep w ls" and "history_init w = (ok, w')"
  shows "hist_rep w' ls \<and> hist_frame w w' \<and> (ok \<longrightarrow> history w' \<noteq> None) \<and> (w_alloc w = [] \<longrightarrow> ok)"
proof (cases "history w")
  case None
  obtain b w1 where a: "alloc w = (b, w1)" by fastforce
  then have 1: "history w1 = None" "history_len w1 = history_len w" "history_max_len w1 = history_max_len w"
    using None by (auto simp: alloc_def split: list.splits)
  with a None assms hist_frame_alloc [OF a] show ?thesis
    by (auto simp: history_init_def hist_rep_def intro: hist_frame_trans split: if_splits)
next
  case (Some hs)
  with assms show ?thesis by (auto simp: history_init_def)
qed

lemma linenoiseHistoryAdd_ok:
  assumes "hist_rep w ls" and "is_c_string line"
  obtains r w' where "linenoiseHistoryAdd line w = Some (r, w')" and "hist_frame w w'"
    and "r = 0 \<or> r = 1"
    and "hist_rep w' (if r = 1 then hist_push (nat (history_max_len w)) line ls else ls)"
    and "r = 1 \<Longrightarrow> \<not> hist_dup line ls"
    and "w_alloc w = [] \<Longrightarrow> r = (if hist_dup line ls then 0 else 1)"
proof -
  obtain ok w1 where init: "history_init w = (ok, w1)" by fastforce
  from history_init_ok [OF assms(1) this]
  have w1: "hist_rep w1 ls" "hist_frame w w1" "ok \<Longrightarrow> history w1 \<noteq> None" "w_alloc w = [] \<Longrightarrow> ok" by auto
  have max: "history_max_len w \<noteq> 0" using assms(1) by (simp add: hist_rep_def)
  obtain ok2 w2 where al: "alloc w1 = (ok2, w2)" by fastforce
  from al have f2: "hist_frame w1 w2" by blast
  have w2: "hist_rep w2 ls" "history w2 = history w1" "w_alloc w1 = [] \<Longrightarrow> ok2"
    using alloc_frame [OF al] w1(1) al by (auto simp: frame_simps)
  have al1: "w_alloc w = [] \<Longrightarrow> w_alloc w1 = []" using w1(2) by (auto simp: hist_frame_def)
  consider "\<not> ok" | "ok" "hist_dup line ls" | "ok" "\<not> hist_dup line ls" "\<not> ok2" | "ok" "\<not> hist_dup line ls" "ok2"
    by blast
  then show ?thesis
  proof cases
    case 1
    then have "linenoiseHistoryAdd line w = Some (0, w1)"
      using max init by (simp add: linenoiseHistoryAdd_def)
    then show ?thesis by (rule that) (use 1 w1 in simp_all)
  next
    case 2
    then have "linenoiseHistoryAdd line w = Some (0, w1)"
      using max init w1 by (simp add: linenoiseHistoryAdd_def history_is_dup_eq)
    then show ?thesis by (rule that) (use 2 w1 in simp_all)
  next
    case 3
    then have "linenoiseHistoryAdd line w = Some (0, w2)"
      using max init w1 al by (simp add: linenoiseHistoryAdd_def history_is_dup_eq)
    then show ?thesis
      by (rule that) (use 3 w1 w2 al1 hist_frame_trans [OF w1(2) f2] in simp_all)
  next
    case 4
    with history_push_ok [OF w2(1) _ 4(2) assms(2)] w1(3) w2(2) obtain w3 where
      w3: "history_push line w2 = Some w3" "hist_frame w2 w3"
        "hist_rep w3 (hist_push (nat (history_max_len w2)) line ls)" by auto
    have m: "history_max_len w2 = history_max_len w"
      using w1(2) f2 by (simp add: frame_simps)
    have "linenoiseHistoryAdd line w = Some (1, w3)"
      using 4 w3(1) max init w1 al by (simp add: linenoiseHistoryAdd_def history_is_dup_eq)
    then show ?thesis
      by (rule that)
        (use 4 w3 m hist_frame_trans [OF hist_frame_trans [OF w1(2) f2] w3(2)] in simp_all)
  qed
qed

section \<open>The interface of a bounded history\<close>

definition lastn :: "nat \<Rightarrow> 'a list \<Rightarrow> 'a list" where
  "lastn n xs = drop (length xs - n) xs"

definition dedup_push :: "'a list \<Rightarrow> 'a \<Rightarrow> 'a list" where
  "dedup_push ls x = (if hist_dup x ls then ls else ls @ [x])"

lemma lastn_all [simp]: "length xs \<le> n \<Longrightarrow> lastn n xs = xs"
  by (simp add: lastn_def)

lemma length_lastn [simp]: "length (lastn n xs) = min n (length xs)"
  by (auto simp: lastn_def)

lemma hist_dup_lastn: "0 < n \<Longrightarrow> hist_dup x (lastn n ls) = hist_dup x ls"
  by (cases ls; cases n) (auto simp: hist_dup_def lastn_def last_drop not_le)

lemma hist_push_lastn: "0 < n \<Longrightarrow> hist_push n x (lastn n ls) = lastn n (dedup_push ls x)"
  by (auto simp: hist_push_def dedup_push_def hist_dup_lastn min_def)
    (auto simp: lastn_def tl_drop drop_Suc not_le Suc_diff_le)

lemma foldl_dedup_push: "foldl dedup_push [] xs = remdups_adj xs"
proof (induction xs rule: rev_induct)
  case (snoc x xs)
  then show ?case
    by (cases xs rule: rev_cases)
      (auto simp: dedup_push_def hist_dup_def remdups_adj_append_two last_remdups_adj)
qed simp

locale line_history =
  fixes lines :: "'s \<Rightarrow> string list"
    and cap :: "'s \<Rightarrow> nat"
    and ok_line :: "string \<Rightarrow> bool"
    and invar :: "'s \<Rightarrow> bool"
    and add :: "string \<Rightarrow> 's \<Rightarrow> 's"
  assumes cap_pos: "invar s \<Longrightarrow> 0 < cap s"
    and lines_bound: "invar s \<Longrightarrow> length (lines s) \<le> cap s"
    and invar_add: "invar s \<Longrightarrow> ok_line x \<Longrightarrow> invar (add x s)"
    and cap_add: "invar s \<Longrightarrow> ok_line x \<Longrightarrow> cap (add x s) = cap s"
    and lines_add: "invar s \<Longrightarrow> ok_line x \<Longrightarrow> lines (add x s) = hist_push (cap s) x (lines s)"
begin

lemma fold_add:
  "invar s \<Longrightarrow> list_all ok_line xs \<Longrightarrow> lines s = lastn (cap s) ls \<Longrightarrow>
   invar (fold add xs s) \<and> cap (fold add xs s) = cap s \<and>
   lines (fold add xs s) = lastn (cap s) (foldl dedup_push ls xs)"
  by (induction xs arbitrary: s ls)
    (simp_all add: invar_add cap_add lines_add cap_pos hist_push_lastn)

text \<open>Adding lines one after the other keeps the latest ones of all lines, repetitions collapsed.\<close>

lemma lines_fold_add:
  "invar s \<Longrightarrow> list_all ok_line xs \<Longrightarrow>
   lines (fold add xs s) = lastn (cap s) (foldl dedup_push (lines s) xs)"
  using fold_add [of s xs "lines s"] lines_bound [of s] by simp

lemma lines_fold_add_empty:
  "invar s \<Longrightarrow> list_all ok_line xs \<Longrightarrow> lines s = [] \<Longrightarrow>
   lines (fold add xs s) = lastn (cap s) (remdups_adj xs)"
  by (simp add: lines_fold_add foldl_dedup_push)

end

definition hadd :: "string \<Rightarrow> lnworld \<Rightarrow> lnworld" where
  "hadd line w = snd (the (linenoiseHistoryAdd line w))"

definition hist_ready :: "lnworld \<Rightarrow> bool" where
  "hist_ready w \<longleftrightarrow> hist_inv w \<and> w_alloc w = []"

definition hist_cap :: "lnworld \<Rightarrow> nat" where
  "hist_cap w = nat (history_max_len w)"

lemma hadd_ok:
  assumes "hist_ready w" and "is_c_string line"
  shows "linenoiseHistoryAdd line w = Some (if hist_dup line (hist_lines w) then 0 else 1, hadd line w)"
    and "hist_frame w (hadd line w)"
    and "hist_rep (hadd line w) (hist_push (hist_cap w) line (hist_lines w))"
proof -
  from assms(1) have rep: "hist_rep w (hist_lines w)" and al: "w_alloc w = []"
    by (auto simp: hist_ready_def hist_inv_def)
  obtain r w' where "linenoiseHistoryAdd line w = Some (r, w')" "hist_frame w w'"
      "hist_rep w' (if r = 1 then hist_push (hist_cap w) line (hist_lines w) else hist_lines w)"
      "r = (if hist_dup line (hist_lines w) then 0 else 1)"
    using linenoiseHistoryAdd_ok [OF rep assms(2)] al unfolding hist_cap_def by metis
  then show "linenoiseHistoryAdd line w = Some (if hist_dup line (hist_lines w) then 0 else 1, hadd line w)"
    "hist_frame w (hadd line w)"
    "hist_rep (hadd line w) (hist_push (hist_cap w) line (hist_lines w))"
    by (auto simp: hadd_def hist_push_def split: if_splits)
qed

interpretation lh: line_history hist_lines hist_cap is_c_string hist_ready hadd
proof unfold_locales
  fix w x
  assume w: "hist_ready w"
  then show "0 < hist_cap w" "length (hist_lines w) \<le> hist_cap w"
    by (auto simp: hist_ready_def hist_inv_def hist_rep_def hist_cap_def)
  assume x: "is_c_string x"
  note ok = hadd_ok [OF w x]
  from ok(2) have "w_alloc (hadd x w) = []" using w by (auto simp: hist_frame_def hist_ready_def)
  with ok(3) show "hist_ready (hadd x w)" by (simp add: hist_ready_def hist_rep_inv)
  from ok(2) show "hist_cap (hadd x w) = hist_cap w" by (simp add: hist_cap_def frame_simps)
  from ok(3) show "hist_lines (hadd x w) = hist_push (hist_cap w) x (hist_lines w)"
    by (rule hist_rep_lines)
qed

section \<open>Loading and saving\<close>

text \<open>The lines \<open>linenoiseHistoryLoad\<close> finds in the text of a file.\<close>

function text_lines :: "string \<Rightarrow> string list" where
  "text_lines s =
     (if s = [] then []
      else let chunk = fgets_take (LINENOISE_MAX_LINE - 1) s
        in strip_newline (c_str chunk) # text_lines (drop (length chunk) s))"
  by pat_completeness auto
termination
proof (relation "measure length")
  fix s :: string and chunk
  assume *: "s \<noteq> []" "chunk = fgets_take (LINENOISE_MAX_LINE - 1) s"
  obtain c t where "s = c # t" using *(1) by (cases s) auto
  with * have "0 < length chunk" by (simp add: LINENOISE_MAX_LINE_def numeral_eq_Suc)
  with * show "(drop (length chunk) s, s) \<in> measure length" by simp
qed simp

declare text_lines.simps [simp del]

lemma set_takeWhile_subset: "set (takeWhile P xs) \<subseteq> set xs"
  by (auto dest: set_takeWhileD)

lemma is_c_string_strip_newline [simp]: "is_c_string s \<Longrightarrow> is_c_string (strip_newline s)"
  using set_takeWhile_subset by (fastforce simp: is_c_string_def strip_newline_def)

lemma text_lines_c_strings: "list_all is_c_string (text_lines s)"
  by (induction s rule: text_lines.induct) (subst text_lines.simps, simp add: Let_def)

lemma load_lines_eq: "hist_ready w \<Longrightarrow> load_lines s w = Some (fold hadd (text_lines s) w)"
proof (induction s arbitrary: w rule: text_lines.induct)
  case (1 s)
  show ?case
  proof (cases "s = []")
    case True
    then show ?thesis by (simp add: load_lines.simps text_lines.simps)
  next
    case False
    let ?chunk = "fgets_take (LINENOISE_MAX_LINE - 1) s"
    let ?line = "strip_newline (c_str ?chunk)"
    have add: "linenoiseHistoryAdd ?line w =
        Some (if hist_dup ?line (hist_lines w) then 0 else 1, hadd ?line w)"
      using "1.prems" by (rule hadd_ok(1)) simp
    have "load_lines s w = load_lines (drop (length ?chunk) s) (hadd ?line w)"
      using False by (subst load_lines.simps) (simp add: Let_def add del: One_nat_def)
    also have "\<dots> = Some (fold hadd (text_lines (drop (length ?chunk) s)) (hadd ?line w))"
      using False "1.prems" by (intro "1.IH") (auto intro: lh.invar_add)
    finally show ?thesis
      using False by (subst text_lines.simps) (simp add: Let_def)
  qed
qed

lemma fold_hadd_frame:
  "hist_ready w \<Longrightarrow> list_all is_c_string xs \<Longrightarrow> hist_frame w (fold hadd xs w)"
proof (induction xs arbitrary: w)
  case (Cons x xs)
  then have "hist_frame w (hadd x w)" "hist_frame (hadd x w) (fold hadd xs (hadd x w))"
    by (auto intro: hadd_ok(2) lh.invar_add)
  then show ?case by (simp add: hist_frame_trans)
qed simp

lemma linenoiseHistoryLoad_ok:
  assumes "hist_ready w" and "fopen_r name w = Some s"
  obtains w' where "linenoiseHistoryLoad name w = Some (0, w')" "hist_ready w'" "hist_frame w w'"
    and "hist_lines w' = lastn (hist_cap w) (foldl dedup_push (hist_lines w) (text_lines s))"
proof (rule that)
  show "linenoiseHistoryLoad name w = Some (0, fold hadd (text_lines s) w)"
    using assms by (simp add: linenoiseHistoryLoad_def load_lines_eq)
  show "hist_ready (fold hadd (text_lines s) w)"
    using lh.fold_add [OF assms(1) text_lines_c_strings, of "hist_lines w"] lh.lines_bound [OF assms(1)]
    by simp
  show "hist_frame w (fold hadd (text_lines s) w)"
    using assms(1) text_lines_c_strings by (rule fold_hadd_frame)
  show "hist_lines (fold hadd (text_lines s) w) =
      lastn (hist_cap w) (foldl dedup_push (hist_lines w) (text_lines s))"
    using assms(1) text_lines_c_strings by (rule lh.lines_fold_add)
qed

text \<open>The text that is saved for a list of lines.\<close>

definition lines_text :: "string list \<Rightarrow> string" where
  "lines_text ls = concat (map (\<lambda>s. s @ [CHR 0x0A]) ls)"

lemma history_text_eq:
  "take n hs = map Str ls \<Longrightarrow> n = length ls \<Longrightarrow> history_text n hs = Some (lines_text ls)"
proof (induction n arbitrary: ls)
  case 0
  then show ?case by (simp add: lines_text_def)
next
  case (Suc n)
  then obtain ls' x where ls: "ls = ls' @ [x]" by (cases ls rule: rev_cases) auto
  from Suc.prems ls have len: "n < length hs" "n = length ls'"
    by (auto dest: arg_cong [where f = length] simp: min_def split: if_splits)
  with Suc.prems ls have "take n hs = map Str ls'" "hs ! n = Str x"
    by (auto simp: take_Suc_conv_app_nth)
  with Suc.IH [of ls'] len ls show ?case
    by (simp add: hslot_def lines_text_def)
qed

text \<open>Whether a line survives being written to a file and read back.\<close>

definition plain_line :: "string \<Rightarrow> bool" where
  "plain_line s \<longleftrightarrow>
     NUL \<notin> set s \<and> CHR 0x0A \<notin> set s \<and> CHR 0x0D \<notin> set s \<and> length s < LINENOISE_MAX_LINE - 1"

lemma fgets_take_line:
  "CHR 0x0A \<notin> set s \<Longrightarrow> length s < n \<Longrightarrow> fgets_take n (s @ CHR 0x0A # t) = s @ [CHR 0x0A]"
proof (induction s arbitrary: n)
  case Nil
  then show ?case by (cases n) auto
next
  case (Cons c s)
  then show ?case by (cases n) auto
qed

lemma takeWhile_stop: "c \<notin> set s \<Longrightarrow> takeWhile (\<lambda>x. x \<noteq> c) (s @ c # t) = s"
  by (induction s) auto

lemma strip_newline_plain: "plain_line s \<Longrightarrow> strip_newline (c_str (s @ [CHR 0x0A])) = s"
proof -
  assume p: "plain_line s"
  then have "is_c_string (s @ [CHR 0x0A])" by (simp add: plain_line_def is_c_string_def)
  with p show ?thesis
    by (simp add: plain_line_def strip_newline_def takeWhile_stop)
qed

lemma text_lines_lines_text: "list_all plain_line ls \<Longrightarrow> text_lines (lines_text ls) = ls"
proof (induction ls)
  case Nil
  then show ?case by (simp add: lines_text_def text_lines.simps)
next
  case (Cons s ls)
  from Cons.prems have s: "plain_line s" by simp
  have lt: "lines_text (s # ls) = s @ CHR 0x0A # lines_text ls" by (simp add: lines_text_def)
  have chunk: "fgets_take (LINENOISE_MAX_LINE - 1) (lines_text (s # ls)) = s @ [CHR 0x0A]"
    using s unfolding lt by (intro fgets_take_line) (auto simp: plain_line_def)
  show ?case
    using Cons by (subst text_lines.simps) (simp only: chunk Let_def strip_newline_plain [OF s], simp add: lt)
qed

lemma linenoiseHistorySave_ok:
  assumes "hist_rep w ls" and "name \<notin> set (w_nofopen w)"
  shows "linenoiseHistorySave name w =
    Some (0, w\<lparr>w_files := (w_files w)(name \<mapsto> \<lparr>f_mode = S_IRUSR_IWUSR, f_data = lines_text ls\<rparr>)\<rparr>)"
proof -
  let ?hs = "case history w of Some hs \<Rightarrow> hs | None \<Rightarrow> []"
  have "take (length ls) ?hs = map Str ls" "nat (history_len w) = length ls"
    using assms(1) by (auto simp: hist_rep_def split: option.splits)
  then have "history_text (nat (history_len w)) ?hs = Some (lines_text ls)"
    by (simp add: history_text_eq)
  with assms(2) show ?thesis
    by (simp add: linenoiseHistorySave_def fopen_w_def chmod_def fputs_def Let_def)
qed

section \<open>Resizing and freeing\<close>

lemma hfree_mid: "hfree (int (length pre)) (pre @ Str x # post) = Some (pre @ Freed # post)"
  by (simp add: hfree_def hslot_def hslot_set_def)

lemma hfree_upto_ok:
  "n \<le> length ls \<Longrightarrow> hfree_upto n (map Str ls @ rest) = Some (replicate n Freed @ map Str (drop n ls) @ rest)"
proof (induction n)
  case 0
  then show ?case by simp
next
  case (Suc n)
  then have "drop n ls = ls ! n # drop (Suc n) ls" by (simp add: Cons_nth_drop_Suc)
  then have "map Str (drop n ls) = Str (ls ! n) # map Str (drop (Suc n) ls)"
    by (metis list.simps(9))
  then have step: "hfree (int n) (replicate n Freed @ map Str (drop n ls) @ rest) =
      Some (replicate n Freed @ Freed # map Str (drop (Suc n) ls) @ rest)"
    using hfree_mid [of "replicate n Freed" "ls ! n" "map Str (drop (Suc n) ls) @ rest"]
    by (simp only: length_replicate append_Cons)
  from Suc have "hfree_upto n (map Str ls @ rest) =
      Some (replicate n Freed @ map Str (drop n ls) @ rest)" by simp
  then have "hfree_upto (Suc n) (map Str ls @ rest) =
      Some (replicate n Freed @ Freed # map Str (drop (Suc n) ls) @ rest)"
    by (simp only: hfree_upto.simps bind.bind_lunit step)
  moreover have "replicate n Freed @ Freed # xs = replicate (Suc n) Freed @ xs" for xs
    by (induction n) auto
  ultimately show ?case by simp
qed

lemma hist_rep_split:
  assumes "hist_rep w ls" and "history w = Some hs"
  shows "hs = map Str ls @ drop (length ls) hs"
proof -
  have "take (length ls) hs = map Str ls" using assms by (simp add: hist_rep_def)
  then show ?thesis using append_take_drop_id [of "length ls" hs] by simp
qed

lemma linenoiseHistorySetMaxLen_ok:
  assumes "hist_rep w ls" and "1 \<le> n" and "w_alloc w = []"
  obtains w' where "linenoiseHistorySetMaxLen n w = Some (1, w')" and "history_max_len w' = n"
    and "hist_rep w' (lastn (nat n) ls)" and "w_files w' = w_files w" and "w_out w' = w_out w"
proof (cases "history w")
  case None
  then have "ls = []" "history_len w = 0" using assms(1) by (auto simp: hist_rep_def)
  with None assms show ?thesis
    by (intro that [of "w\<lparr>history_max_len := n\<rparr>"])
      (simp_all add: linenoiseHistorySetMaxLen_def hist_rep_def Let_def)
next
  case (Some hs)
  define rest where "rest = drop (length ls) hs"
  have hs: "hs = map Str ls @ rest" using hist_rep_split [OF assms(1) Some] by (simp add: rest_def)
  have len: "history_len w = int (length ls)" and cs: "list_all is_c_string ls"
    using assms(1) by (auto simp: hist_rep_def)
  let ?keep = "lastn (nat n) ls"
  let ?new = "map Str ?keep @ replicate (nat (n - int (length ?keep))) Null"
  let ?w' = "w\<lparr>history := Some ?new, history_max_len := n, history_len := int (length ?keep)\<rparr>"
  have cs': "list_all is_c_string ?keep"
    using cs by (auto simp: lastn_def list_all_iff dest: in_set_dropD)
  have "linenoiseHistorySetMaxLen n w = Some (1, ?w')"
  proof (cases "n < int (length ls)")
    case True
    then have k: "nat (int (length ls) - n) = length ls - nat n" "nat n \<le> length ls"
      using assms(2) by linarith+
    have hf: "hfree_upto (length ls - nat n) (map Str ls @ rest) =
        Some (replicate (length ls - nat n) Freed @ map Str (drop (length ls - nat n) ls) @ rest)"
      by (rule hfree_upto_ok) simp
    show ?thesis
      using True assms(2,3) Some len
      by (simp add: linenoiseHistorySetMaxLen_def hs hf lastn_def k Let_def)
  next
    case False
    then show ?thesis
      using assms(2,3) Some len
      by (simp add: linenoiseHistorySetMaxLen_def hs Let_def nat_le_iff)
  qed
  then show ?thesis
  proof (rule that)
    show "hist_rep ?w' ?keep" using assms(2) cs' by (auto simp: hist_rep_def)
  qed simp_all
qed

lemma freeHistory_ok: "hist_rep w ls \<Longrightarrow> \<exists>w'. freeHistory w = Some w'"
proof (cases "history w")
  case (Some hs)
  assume rep: "hist_rep w ls"
  from hfree_upto_ok [of "length ls" ls "drop (length ls) hs"] hist_rep_split [OF rep Some]
  have "hfree_upto (length ls) hs = Some (replicate (length ls) Freed @ drop (length ls) hs)" by simp
  with Some rep show ?thesis by (simp add: freeHistory_def hist_rep_def)
qed (simp add: freeHistory_def)

section \<open>Properties\<close>

text \<open>C20. \<open>linenoiseHistoryAdd\<close> on any consistent history and any outcomes of the allocator: it is
  defined, returns 0 or 1, returns 1 exactly when the history changed, and then the new lines are
  the old ones without the oldest if the array was full, followed by the line.  A line equal to the
  latest one is never added, and with memory every other line is.\<close>

theorem history_add_spec:
  assumes "hist_rep w ls" and "is_c_string line"
  shows "\<exists>r w'. linenoiseHistoryAdd line w = Some (r, w') \<and> hist_frame w w' \<and>
    (r = 1 \<and> \<not> hist_dup line ls \<and>
       hist_rep w' ((if length ls = hist_cap w then tl ls else ls) @ [line])
     \<or> r = 0 \<and> hist_rep w' ls) \<and>
    (w_alloc w = [] \<longrightarrow> r = (if hist_dup line ls then 0 else 1))"
proof -
  obtain r w' where 1: "linenoiseHistoryAdd line w = Some (r, w')" "hist_frame w w'" "r = 0 \<or> r = 1"
      "hist_rep w' (if r = 1 then hist_push (hist_cap w) line ls else ls)" "r = 1 \<Longrightarrow> \<not> hist_dup line ls"
      "w_alloc w = [] \<Longrightarrow> r = (if hist_dup line ls then 0 else 1)"
    by (rule linenoiseHistoryAdd_ok [OF assms, folded hist_cap_def]) (rule that)
  show ?thesis
  proof (intro exI conjI impI)
    show "linenoiseHistoryAdd line w = Some (r, w')" "hist_frame w w'" by (fact 1)+
    show "r = 1 \<and> \<not> hist_dup line ls \<and> hist_rep w' ((if length ls = hist_cap w then tl ls else ls) @ [line])
        \<or> r = 0 \<and> hist_rep w' ls"
      using 1(3,4,5) by (cases "r = 1") (simp_all add: hist_push_def split del: if_split)
  qed (rule 1(6))
qed

text \<open>A history of capacity 2 that holds two lines.\<close>

definition two_lines :: lnworld where
  "two_lines = (init_world [] termios0)\<lparr>history_max_len := 2, history_len := 2,
     history := Some [Str ''ls'', Str ''cd'']\<rparr>"

lemma two_lines_rep: "hist_rep two_lines [''ls'', ''cd'']"
  by (simp add: two_lines_def init_world_def hist_rep_def is_c_string_def)

lemma two_lines_fields [simp]:
  "history_max_len two_lines = 2" "w_alloc two_lines = []" "w_files two_lines = (\<lambda>_. None)"
  "w_nofopen two_lines = []" "w_umask two_lines = 18" "hist_cap two_lines = 2"
  "hintsCallback two_lines = None" "mlmode two_lines = False"
  by (simp_all add: two_lines_def init_world_def hist_cap_def)

lemma two_lines_ready: "hist_ready two_lines"
  using two_lines_rep by (simp add: hist_ready_def hist_rep_inv)

theorem history_add_spec_witness:
  "\<exists>w'. linenoiseHistoryAdd ''pwd'' two_lines = Some (1, w') \<and> hist_rep w' [''cd'', ''pwd'']"
  using history_add_spec [OF two_lines_rep, of "''pwd''"]
  by (auto simp: hist_dup_def is_c_string_def)

text \<open>Adding lines one after the other, from any history: what is kept are the latest lines, as many
  as the capacity allows, of all the lines with immediate repetitions collapsed.\<close>

theorem history_adds_keep_latest:
  assumes "hist_ready w" and "list_all is_c_string xs"
  shows "hist_lines (fold hadd xs w) = lastn (hist_cap w) (foldl dedup_push (hist_lines w) xs) \<and>
    (hist_lines w = [] \<longrightarrow> hist_lines (fold hadd xs w) = lastn (hist_cap w) (remdups_adj xs))"
  using lh.lines_fold_add [OF assms] lh.lines_fold_add_empty [OF assms] by simp

theorem history_adds_keep_latest_witness:
  "hist_lines (fold hadd [''cd'', ''make'', ''make'', ''ls''] two_lines) = [''make'', ''ls'']"
  using history_adds_keep_latest [OF two_lines_ready, of "[''cd'', ''make'', ''make'', ''ls'']"]
  by (simp add: hist_rep_lines [OF two_lines_rep] is_c_string_def lastn_def dedup_push_def hist_dup_def)

text \<open>\<open>linenoiseHistorySetMaxLen\<close>: with memory available it succeeds for every length from 1 on,
  and keeps the latest lines, as many as the new length allows.  A length below 1 is refused and
  changes nothing.\<close>

theorem history_set_max_len_spec:
  assumes "hist_rep w ls" and "w_alloc w = []"
  shows "if n < 1 then linenoiseHistorySetMaxLen n w = Some (0, w)
    else \<exists>w'. linenoiseHistorySetMaxLen n w = Some (1, w') \<and> history_max_len w' = n \<and>
      hist_rep w' (lastn (nat n) ls) \<and> w_files w' = w_files w"
proof (cases "n < 1")
  case True
  then show ?thesis by (simp add: linenoiseHistorySetMaxLen_def)
next
  case False
  with linenoiseHistorySetMaxLen_ok [OF assms(1) _ assms(2), of n] show ?thesis by fastforce
qed

theorem history_set_max_len_spec_witness:
  "\<exists>w'. linenoiseHistorySetMaxLen 1 two_lines = Some (1, w') \<and> hist_rep w' [''cd'']"
  using history_set_max_len_spec [OF two_lines_rep, of 1] by (auto simp: lastn_def)

text \<open>\<open>linenoiseHistorySave\<close>, when the file can be opened: the file holds the lines, oldest first, one
  per line, and nobody but the owner has access to it, whatever mode it had; the process's umask is
  the one it was before the call.  When it cannot be opened, the result is -1 and nothing changes.\<close>

theorem history_save_spec:
  assumes "hist_rep w ls"
  shows "linenoiseHistorySave name w =
    (if name \<in> set (w_nofopen w) then Some (-1, w)
     else Some (0, w\<lparr>w_files := (w_files w)(name \<mapsto> \<lparr>f_mode = 6 * 8 ^ 2, f_data = lines_text ls\<rparr>)\<rparr>))"
proof (cases "name \<in> set (w_nofopen w)")
  case True
  then show ?thesis by (simp add: linenoiseHistorySave_def fopen_w_def)
next
  case False
  with linenoiseHistorySave_ok [OF assms False] show ?thesis by (simp add: S_IRUSR_IWUSR_def)
qed

theorem history_save_spec_witness:
  "linenoiseHistorySave ''h'' two_lines =
    Some (0, two_lines\<lparr>w_files := [''h'' \<mapsto> \<lparr>f_mode = 384, f_data = ''ls'' @ [CHR 0x0A] @ ''cd'' @ [CHR 0x0A]\<rparr>]\<rparr>)"
  using history_save_spec [OF two_lines_rep, of "''h''"] by (simp add: lines_text_def)

text \<open>C4. Saving a history and loading the file into an empty history gives the lines back (the latest
  ones, if the other history is shorter), when they have no line breaks, are short enough for the
  buffer of \<open>linenoiseHistoryLoad\<close>, and no line equals the one before it.\<close>

theorem history_save_load_roundtrip:
  assumes "hist_rep w ls" and "list_all plain_line ls" and "remdups_adj ls = ls" and "name \<notin> set (w_nofopen w)"
    and "hist_ready v" and "hist_lines v = []" and "name \<notin> set (w_nofopen v)"
  shows "\<exists>w1 v1. linenoiseHistorySave name w = Some (0, w1) \<and>
    linenoiseHistoryLoad name (v\<lparr>w_files := w_files w1\<rparr>) = Some (0, v1) \<and>
    hist_lines v1 = lastn (hist_cap v) ls"
proof -
  let ?w1 = "w\<lparr>w_files := (w_files w)(name \<mapsto> \<lparr>f_mode = S_IRUSR_IWUSR, f_data = lines_text ls\<rparr>)\<rparr>"
  let ?v = "v\<lparr>w_files := w_files ?w1\<rparr>"
  have lines: "hist_lines ?v = []" using assms(6) hist_lines_cong [of ?v v] by simp
  have "hist_rep ?v [] = hist_rep v []" by (rule hist_rep_cong) simp_all
  then have ready: "hist_ready ?v" using assms(5,6) lines by (simp add: hist_ready_def hist_inv_def)
  have "fopen_r name ?v = Some (lines_text ls)" using assms(7) by (simp add: fopen_r_def)
  from linenoiseHistoryLoad_ok [OF ready this] obtain v1 where
    "linenoiseHistoryLoad name ?v = Some (0, v1)"
    "hist_lines v1 = lastn (hist_cap ?v) (foldl dedup_push (hist_lines ?v) (text_lines (lines_text ls)))" by blast
  moreover have "hist_cap ?v = hist_cap v" by (simp add: hist_cap_def)
  ultimately show ?thesis
    using linenoiseHistorySave_ok [OF assms(1,4)] lines assms(2,3)
    by (simp add: text_lines_lines_text foldl_dedup_push)
qed

lemma init_world_ready: "hist_ready (init_world i t)" "hist_lines (init_world i t) = []"
  "hist_cap (init_world i t) = 100" "w_nofopen (init_world i t) = []"
  by (simp_all add: hist_ready_def hist_inv_def hist_rep_def hist_lines_def init_world_def hist_cap_def
      LINENOISE_DEFAULT_HISTORY_MAX_LEN_def)

theorem history_save_load_roundtrip_witness:
  "\<exists>w1 v1. linenoiseHistorySave ''h'' two_lines = Some (0, w1) \<and>
    linenoiseHistoryLoad ''h'' ((init_world [] termios0)\<lparr>w_files := w_files w1\<rparr>) = Some (0, v1) \<and>
    hist_lines v1 = [''ls'', ''cd'']"
  using history_save_load_roundtrip [OF two_lines_rep _ _ _ init_world_ready(1,2), of "''h''"]
  by (simp add: plain_line_def LINENOISE_MAX_LINE_def init_world_ready lastn_def)

text \<open>\<open>linenoiseHistoryLoad\<close> of a file that cannot be opened returns -1 (the comment of the function
  promises 0 when the file does not exist) and changes nothing; of any other file it returns 0, and
  the history holds the latest of its lines followed by those of the file.\<close>

theorem history_load_spec:
  assumes "hist_ready w"
  shows "case fopen_r name w of
      None \<Rightarrow> linenoiseHistoryLoad name w = Some (-1, w)
    | Some s \<Rightarrow> \<exists>w'. linenoiseHistoryLoad name w = Some (0, w') \<and> hist_frame w w' \<and> hist_ready w' \<and>
        hist_lines w' = lastn (hist_cap w) (foldl dedup_push (hist_lines w) (text_lines s))"
proof (cases "fopen_r name w")
  case None
  then show ?thesis by (simp add: linenoiseHistoryLoad_def)
next
  case (Some s)
  with linenoiseHistoryLoad_ok [OF assms Some] show ?thesis by fastforce
qed

theorem history_load_spec_witness:
  "linenoiseHistoryLoad ''missing'' two_lines = Some (-1, two_lines)"
  using history_load_spec [OF two_lines_ready, of "''missing''"] by (simp add: fopen_r_def)

end
