(* ===== verification/Ln_Edit.thy ===== *)
theory Ln_Edit
  imports Ln_Refresh Ln_History
begin

text \<open>
  The editing operations of \<open>linenoise.c\<close> (\<open>linenoiseEditInsert\<close>, \<open>linenoiseEditBackspace\<close>, \<open>\<dots>\<close>, and
  the three operations that the key dispatch of \<open>linenoiseEdit\<close> performs in place), on the fixed
  buffer of the editor's state with every access checked.  Their specification is a cursor between
  two strings (\<open>zip_of\<close>): each operation is defined on every sound state, keeps the invariant of the
  buffer and does on the two strings what its name says.  The interface \<open>line_editor\<close> collects this.
\<close>

section \<open>The operations\<close>

definition linenoiseEditInsert ::
  "linenoiseState \<Rightarrow> char \<Rightarrow> lnworld \<Rightarrow> (int \<times> linenoiseState \<times> lnworld) option" where
  "linenoiseEditInsert l c w =
     (if l_len l < l_buflen l then
        if l_len l = l_pos l then do {
          buf \<leftarrow> mem_set (l_pos l) c (l_buf l);
          let l = l\<lparr>l_buf := buf, l_pos := l_pos l + 1, l_len := l_len l + 1\<rparr>;
          buf \<leftarrow> mem_set (l_len l) NUL (l_buf l);
          let l = l\<lparr>l_buf := buf\<rparr>;
          if \<not> mlmode w \<and> size_add (l_plen l) (l_len l) < l_cols l \<and> hintsCallback w = None
          then let (ok, w) = sys_write [c] w in Some (if ok then 0 else -1, l, w)
          else do { (l, w) \<leftarrow> refreshLine l w; Some (0, l, w) }
        } else do {
          buf \<leftarrow> mem_move (l_pos l + 1) (l_pos l) (size_sub (l_len l) (l_pos l)) (l_buf l);
          buf \<leftarrow> mem_set (l_pos l) c buf;
          let l = l\<lparr>l_buf := buf, l_len := l_len l + 1, l_pos := l_pos l + 1\<rparr>;
          buf \<leftarrow> mem_set (l_len l) NUL (l_buf l);
          (l, w) \<leftarrow> refreshLine (l\<lparr>l_buf := buf\<rparr>) w;
          Some (0, l, w)
        }
      else Some (0, l, w))"

definition linenoiseEditMoveLeft :: "linenoiseState \<Rightarrow> lnworld \<Rightarrow> (linenoiseState \<times> lnworld) option" where
  "linenoiseEditMoveLeft l w =
     (if l_pos l > 0 then refreshLine (l\<lparr>l_pos := l_pos l - 1\<rparr>) w else Some (l, w))"

definition linenoiseEditMoveRight :: "linenoiseState \<Rightarrow> lnworld \<Rightarrow> (linenoiseState \<times> lnworld) option" where
  "linenoiseEditMoveRight l w =
     (if l_pos l \<noteq> l_len l then refreshLine (l\<lparr>l_pos := l_pos l + 1\<rparr>) w else Some (l, w))"

definition linenoiseEditMoveHome :: "linenoiseState \<Rightarrow> lnworld \<Rightarrow> (linenoiseState \<times> lnworld) option" where
  "linenoiseEditMoveHome l w =
     (if l_pos l \<noteq> 0 then refreshLine (l\<lparr>l_pos := 0\<rparr>) w else Some (l, w))"

definition linenoiseEditMoveEnd :: "linenoiseState \<Rightarrow> lnworld \<Rightarrow> (linenoiseState \<times> lnworld) option" where
  "linenoiseEditMoveEnd l w =
     (if l_pos l \<noteq> l_len l then refreshLine (l\<lparr>l_pos := l_len l\<rparr>) w else Some (l, w))"

definition LINENOISE_HISTORY_NEXT :: int where "LINENOISE_HISTORY_NEXT = 0"
definition LINENOISE_HISTORY_PREV :: int where "LINENOISE_HISTORY_PREV = 1"

text \<open>\<open>strncpy(buf, s, n)\<close>: \<open>n\<close> characters of \<open>s\<close>, padded with terminators.\<close>

definition c_strncpy :: "char list \<Rightarrow> string \<Rightarrow> nat \<Rightarrow> char list option" where
  "c_strncpy buf s n =
     (if n \<le> length buf then Some (take n s @ replicate (n - length s) NUL @ drop n buf) else None)"

definition linenoiseEditHistoryNext ::
  "linenoiseState \<Rightarrow> int \<Rightarrow> lnworld \<Rightarrow> (linenoiseState \<times> lnworld) option" where
  "linenoiseEditHistoryNext l dir w =
     (if history_len w > 1 then do {
        hs \<leftarrow> history w;
        let i = history_len w - 1 - l_history_index l;
        hs \<leftarrow> hfree i hs;
        _ \<leftarrow> strlen (l_buf l);
        let (ok, w) = alloc w;
        hs \<leftarrow> hslot_set i (if ok then Str (c_str (l_buf l)) else Null) hs;
        let w = w\<lparr>history := Some hs\<rparr>;
        let l = l\<lparr>l_history_index := l_history_index l + (if dir = LINENOISE_HISTORY_PREV then 1 else -1)\<rparr>;
        if l_history_index l < 0 then Some (l\<lparr>l_history_index := 0\<rparr>, w)
        else if l_history_index l \<ge> history_len w
        then Some (l\<lparr>l_history_index := history_len w - 1\<rparr>, w)
        else do {
          p \<leftarrow> hslot hs (history_len w - 1 - l_history_index l);
          s \<leftarrow> deref p;
          buf \<leftarrow> c_strncpy (l_buf l) s (l_buflen l);
          buf \<leftarrow> mem_set (size_sub (l_buflen l) 1) NUL buf;
          n \<leftarrow> strlen buf;
          refreshLine (l\<lparr>l_buf := buf, l_len := n, l_pos := n\<rparr>) w
        }
      } else Some (l, w))"

definition linenoiseEditDelete :: "linenoiseState \<Rightarrow> lnworld \<Rightarrow> (linenoiseState \<times> lnworld) option" where
  "linenoiseEditDelete l w =
     (if l_len l > 0 \<and> l_pos l < l_len l then do {
        buf \<leftarrow> mem_move (l_pos l) (l_pos l + 1) (size_sub (size_sub (l_len l) (l_pos l)) 1) (l_buf l);
        let l = l\<lparr>l_buf := buf, l_len := l_len l - 1\<rparr>;
        buf \<leftarrow> mem_set (l_len l) NUL (l_buf l);
        refreshLine (l\<lparr>l_buf := buf\<rparr>) w
      } else Some (l, w))"

definition linenoiseEditBackspace :: "linenoiseState \<Rightarrow> lnworld \<Rightarrow> (linenoiseState \<times> lnworld) option" where
  "linenoiseEditBackspace l w =
     (if l_pos l > 0 \<and> l_len l > 0 then do {
        buf \<leftarrow> mem_move (l_pos l - 1) (l_pos l) (size_sub (l_len l) (l_pos l)) (l_buf l);
        let l = l\<lparr>l_buf := buf, l_pos := l_pos l - 1, l_len := l_len l - 1\<rparr>;
        buf \<leftarrow> mem_set (l_len l) NUL (l_buf l);
        refreshLine (l\<lparr>l_buf := buf\<rparr>) w
      } else Some (l, w))"

text \<open>\<open>while (pos > 0 && P(buf[pos-1])) pos--\<close>\<close>

fun back_while :: "(char \<Rightarrow> bool) \<Rightarrow> char list \<Rightarrow> nat \<Rightarrow> nat option" where
  "back_while P buf 0 = Some 0"
| "back_while P buf (Suc n) = do {
     c \<leftarrow> mem_get n buf;
     if P c then back_while P buf n else Some (Suc n)
   }"

definition linenoiseEditDeletePrevWord :: "linenoiseState \<Rightarrow> lnworld \<Rightarrow> (linenoiseState \<times> lnworld) option" where
  "linenoiseEditDeletePrevWord l w = do {
     let old_pos = l_pos l;
     pos \<leftarrow> back_while (\<lambda>c. c = CHR '' '') (l_buf l) old_pos;
     pos \<leftarrow> back_while (\<lambda>c. c \<noteq> CHR '' '') (l_buf l) pos;
     let diff = size_sub old_pos pos;
     buf \<leftarrow> mem_move pos old_pos (size_add (size_sub (l_len l) old_pos) 1) (l_buf l);
     refreshLine (l\<lparr>l_buf := buf, l_pos := pos, l_len := size_sub (l_len l) diff\<rparr>) w
   }"

text \<open>The operations in the key dispatch itself: ctrl-t, ctrl-u and ctrl-k.\<close>

definition editTranspose :: "linenoiseState \<Rightarrow> lnworld \<Rightarrow> (linenoiseState \<times> lnworld) option" where
  "editTranspose l w =
     (if l_pos l > 0 \<and> l_pos l < l_len l then do {
        aux \<leftarrow> mem_get (l_pos l - 1) (l_buf l);
        c \<leftarrow> mem_get (l_pos l) (l_buf l);
        buf \<leftarrow> mem_set (l_pos l - 1) c (l_buf l);
        buf \<leftarrow> mem_set (l_pos l) aux buf;
        let l = l\<lparr>l_buf := buf\<rparr>;
        refreshLine (if l_pos l \<noteq> size_sub (l_len l) 1 then l\<lparr>l_pos := l_pos l + 1\<rparr> else l) w
      } else Some (l, w))"

definition editKillLine :: "linenoiseState \<Rightarrow> lnworld \<Rightarrow> (linenoiseState \<times> lnworld) option" where
  "editKillLine l w = do {
     buf \<leftarrow> mem_set 0 NUL (l_buf l);
     refreshLine (l\<lparr>l_buf := buf, l_pos := 0, l_len := 0\<rparr>) w
   }"

definition editKillEol :: "linenoiseState \<Rightarrow> lnworld \<Rightarrow> (linenoiseState \<times> lnworld) option" where
  "editKillEol l w = do {
     buf \<leftarrow> mem_set (l_pos l) NUL (l_buf l);
     refreshLine (l\<lparr>l_buf := buf, l_len := l_pos l\<rparr>) w
   }"

section \<open>The cursor between two strings\<close>

type_synonym zipper = "string \<times> string"

definition zip_of :: "linenoiseState \<Rightarrow> zipper" where
  "zip_of l = (take (l_pos l) (l_buf l), take (l_len l - l_pos l) (drop (l_pos l) (l_buf l)))"

definition line_of :: "linenoiseState \<Rightarrow> string" where
  "line_of l = take (l_len l) (l_buf l)"

datatype edit_cmd = Insert char | Backspace | Delete | Transpose | MoveLeft | MoveRight
  | MoveHome | MoveEnd | KillLine | KillEol | KillPrevWord

fun z_apply :: "nat \<Rightarrow> edit_cmd \<Rightarrow> zipper \<Rightarrow> zipper" where
  "z_apply n (Insert c) (a, b) = (if length a + length b < n then (a @ [c], b) else (a, b))"
| "z_apply n Backspace (a, b) = (butlast a, b)"
| "z_apply n Delete (a, b) = (a, tl b)"
| "z_apply n Transpose (a, b) =
     (if a = [] \<or> b = [] then (a, b)
      else if tl b = [] then (butlast a @ [hd b], [last a])
      else (butlast a @ [hd b, last a], tl b))"
| "z_apply n MoveLeft (a, b) = (if a = [] then (a, b) else (butlast a, last a # b))"
| "z_apply n MoveRight (a, b) = (if b = [] then (a, b) else (a @ [hd b], tl b))"
| "z_apply n MoveHome (a, b) = ([], a @ b)"
| "z_apply n MoveEnd (a, b) = (a @ b, [])"
| "z_apply n KillLine (a, b) = ([], [])"
| "z_apply n KillEol (a, b) = (a, [])"
| "z_apply n KillPrevWord (a, b) =
     (rev (dropWhile (\<lambda>c. c \<noteq> CHR '' '') (dropWhile (\<lambda>c. c = CHR '' '') (rev a))), b)"

text \<open>The operation of the code for each command.\<close>

fun run_cmd :: "edit_cmd \<Rightarrow> linenoiseState \<Rightarrow> lnworld \<Rightarrow> (linenoiseState \<times> lnworld) option" where
  "run_cmd (Insert c) l w = map_option snd (linenoiseEditInsert l c w)"
| "run_cmd Backspace l w = linenoiseEditBackspace l w"
| "run_cmd Delete l w = linenoiseEditDelete l w"
| "run_cmd Transpose l w = editTranspose l w"
| "run_cmd MoveLeft l w = linenoiseEditMoveLeft l w"
| "run_cmd MoveRight l w = linenoiseEditMoveRight l w"
| "run_cmd MoveHome l w = linenoiseEditMoveHome l w"
| "run_cmd MoveEnd l w = linenoiseEditMoveEnd l w"
| "run_cmd KillLine l w = editKillLine l w"
| "run_cmd KillEol l w = editKillEol l w"
| "run_cmd KillPrevWord l w = linenoiseEditDeletePrevWord l w"

section \<open>Sound states as two strings\<close>

lemma ln_invE:
  assumes "ln_inv l"
  obtains a b r where "l_buf l = a @ b @ NUL # r" "l_pos l = length a" "l_len l = length a + length b"
    "l_buflen l = length a + length b + length r" "zip_of l = (a, b)"
proof -
  let ?a = "take (l_pos l) (l_buf l)" and ?b = "take (l_len l - l_pos l) (drop (l_pos l) (l_buf l))"
  let ?r = "drop (Suc (l_len l)) (l_buf l)"
  from assms have le: "l_pos l \<le> l_len l" "l_len l < length (l_buf l)" "l_buf l ! l_len l = NUL"
      "length (l_buf l) = Suc (l_buflen l)"
    by (auto simp: ln_inv_def)
  have "l_buf l = take (l_len l) (l_buf l) @ NUL # ?r"
    using id_take_nth_drop [OF le(2)] le(3) by simp
  also have "take (l_len l) (l_buf l) = ?a @ ?b"
    using le(1) by (metis le_add_diff_inverse take_add)
  finally have "l_buf l = ?a @ ?b @ NUL # ?r" by simp
  then show ?thesis
    by (rule that) (use le in \<open>auto simp: zip_of_def min_def\<close>)
qed

lemma ln_invI:
  assumes "l_buf l = a @ b @ NUL # r" "l_pos l = length a" "l_len l = length a + length b"
    and "l_buflen l = length a + length b + length r" "0 < l_buflen l" "l_buflen l < 2 ^ 29"
    and "l_oldpos l < 2 ^ 29"
  shows "ln_inv l" and "zip_of l = (a, b)"
  using assms by (auto simp: ln_inv_def zip_of_def nth_append)

lemma line_of_zip: "ln_inv l \<Longrightarrow> zip_of l = (a, b) \<Longrightarrow> line_of l = a @ b"
  by (erule ln_invE) (simp add: line_of_def)

text \<open>The fields that editing never writes.\<close>

definition edit_frame :: "linenoiseState \<Rightarrow> linenoiseState \<Rightarrow> bool" where
  "edit_frame l l' \<longleftrightarrow>
     l_buflen l' = l_buflen l \<and> l_prompt l' = l_prompt l \<and> l_plen l' = l_plen l \<and>
     l_cols l' = l_cols l \<and> l_ifd l' = l_ifd l \<and> l_ofd l' = l_ofd l"

lemma edit_frame_refl [simp, intro]: "edit_frame l l"
  by (simp add: edit_frame_def)

lemma edit_frame_trans [trans]: "edit_frame l l1 \<Longrightarrow> edit_frame l1 l2 \<Longrightarrow> edit_frame l l2"
  by (simp add: edit_frame_def)

lemma edit_frame_same_line: "edit_frame l l1 \<Longrightarrow> same_line l1 l2 \<Longrightarrow> edit_frame l l2"
  by (auto simp: edit_frame_def same_line_def)

lemma view_ok_edit_frame: "edit_frame l l' \<Longrightarrow> view_ok l' w = view_ok l w"
  by (simp add: edit_frame_def view_ok_def)

lemma zip_of_same_line: "same_line l l' \<Longrightarrow> zip_of l' = zip_of l"
  by (simp add: zip_of_def frame_simps)

text \<open>\<open>edited l z idx w (l', w')\<close>: the outcome of an editing operation on \<open>l\<close> and \<open>w\<close>.\<close>

definition edited ::
  "linenoiseState \<Rightarrow> zipper \<Rightarrow> lnworld \<Rightarrow> linenoiseState \<times> lnworld \<Rightarrow> bool" where
  "edited l z w = (\<lambda>(l', w').
     ln_inv l' \<and> zip_of l' = z \<and> edit_frame l l' \<and> l_history_index l' = l_history_index l \<and> io_frame w w')"

lemma refreshLine_edited:
  assumes "l_buf l1 = a @ b @ NUL # r" "l_pos l1 = length a" "l_len l1 = length a + length b"
    and "edit_frame l l1" "l_history_index l1 = l_history_index l" "l_oldpos l1 = l_oldpos l"
    and "length a + length b + length r = l_buflen l"
    and "ln_inv l" "view_ok l w"
  shows "ok_with (refreshLine l1 w) (edited l (a, b) w)"
proof -
  have l1: "ln_inv l1" "zip_of l1 = (a, b)"
    using ln_invI [of l1 a b r] assms by (auto simp: ln_inv_def edit_frame_def)
  with assms(4,9) show ?thesis
    by (intro refreshLine_wp ln_inv_shown_ok)
      (auto simp: edited_def view_ok_edit_frame frame_simps assms(5)
         intro: ln_inv_same_line edit_frame_same_line zip_of_same_line [THEN trans])
qed

lemma edited_refl: "ln_inv l \<Longrightarrow> zip_of l = z \<Longrightarrow> edited l z w (l, w)"
  by (simp add: edited_def)

section \<open>Each operation does what its name says\<close>

lemma drop_length_Cons: "drop (length b) (x # b @ ys) = drop (length b) (x # b) @ ys"
  using drop_append [of "length b" "x # b" ys] by simp

lemma MoveLeft_ok:
  assumes "ln_inv l" "view_ok l w" "zip_of l = z"
  shows "ok_with (linenoiseEditMoveLeft l w) (edited l (z_apply n MoveLeft z) w)"
proof (cases rule: ln_invE [OF assms(1)])
  case (1 a b r)
  show ?thesis
  proof (cases a rule: rev_cases)
    case Nil
    with 1 assms show ?thesis by (simp add: linenoiseEditMoveLeft_def edited_refl)
  next
    case (snoc a' x)
    then show ?thesis
      using 1 assms refreshLine_edited [of "l\<lparr>l_pos := length a'\<rparr>" a' "x # b" r l w]
      by (simp add: linenoiseEditMoveLeft_def edit_frame_def)
  qed
qed

lemma MoveRight_ok:
  assumes "ln_inv l" "view_ok l w" "zip_of l = z"
  shows "ok_with (linenoiseEditMoveRight l w) (edited l (z_apply n MoveRight z) w)"
proof (cases rule: ln_invE [OF assms(1)])
  case (1 a b r)
  show ?thesis
  proof (cases b)
    case Nil
    with 1 assms show ?thesis by (simp add: linenoiseEditMoveRight_def edited_refl)
  next
    case (Cons x b')
    then show ?thesis
      using 1 assms refreshLine_edited [of "l\<lparr>l_pos := Suc (length a)\<rparr>" "a @ [x]" b' r l w]
      by (simp add: linenoiseEditMoveRight_def edit_frame_def)
  qed
qed

lemma MoveHome_ok:
  assumes "ln_inv l" "view_ok l w" "zip_of l = z"
  shows "ok_with (linenoiseEditMoveHome l w) (edited l (z_apply n MoveHome z) w)"
proof (cases rule: ln_invE [OF assms(1)])
  case (1 a b r)
  then show ?thesis
    using assms refreshLine_edited [of "l\<lparr>l_pos := 0\<rparr>" "[]" "a @ b" r l w]
    by (cases "a = []") (simp_all add: linenoiseEditMoveHome_def edit_frame_def edited_refl)
qed

lemma MoveEnd_ok:
  assumes "ln_inv l" "view_ok l w" "zip_of l = z"
  shows "ok_with (linenoiseEditMoveEnd l w) (edited l (z_apply n MoveEnd z) w)"
proof (cases rule: ln_invE [OF assms(1)])
  case (1 a b r)
  then show ?thesis
    using assms refreshLine_edited [of "l\<lparr>l_pos := length a + length b\<rparr>" "a @ b" "[]" r l w]
    by (cases "b = []") (simp_all add: linenoiseEditMoveEnd_def edit_frame_def edited_refl)
qed

lemma Backspace_ok:
  assumes "ln_inv l" "view_ok l w" "zip_of l = z"
  shows "ok_with (linenoiseEditBackspace l w) (edited l (z_apply n Backspace z) w)"
proof (cases rule: ln_invE [OF assms(1)])
  case (1 a b r)
  show ?thesis
  proof (cases a rule: rev_cases)
    case Nil
    with 1 assms show ?thesis by (simp add: linenoiseEditBackspace_def edited_refl)
  next
    case (snoc a' x)
    let ?buf = "a' @ b @ NUL # NUL # r"
    have mv: "mem_move (length a') (Suc (length a')) (length b) (l_buf l) =
        Some (a' @ b @ drop (length b) (x # b) @ NUL # r)"
      using 1 snoc by (simp add: mem_move_def drop_length_Cons)
    have one: "length (drop (length b) (x # b)) = 1" by simp
    then obtain y where y: "drop (length b) (x # b) = [y]"
      by (metis One_nat_def length_0_conv length_Suc_conv)
    show ?thesis
      using 1 snoc assms mv y
        refreshLine_edited [of "l\<lparr>l_pos := length a', l_len := length a' + length b, l_buf := ?buf\<rparr>"
          a' b "NUL # r" l w]
      by (simp add: linenoiseEditBackspace_def edit_frame_def list_update_append)
  qed
qed

lemma Delete_ok:
  assumes "ln_inv l" "view_ok l w" "zip_of l = z"
  shows "ok_with (linenoiseEditDelete l w) (edited l (z_apply n Delete z) w)"
proof (cases rule: ln_invE [OF assms(1)])
  case (1 a b r)
  show ?thesis
  proof (cases b)
    case Nil
    with 1 assms show ?thesis by (simp add: linenoiseEditDelete_def edited_refl)
  next
    case (Cons x b')
    let ?buf = "a @ b' @ NUL # NUL # r"
    have mv: "mem_move (length a) (Suc (length a)) (length b') (l_buf l) =
        Some (a @ b' @ drop (length b') (x # b') @ NUL # r)"
      using 1 Cons by (simp add: mem_move_def drop_length_Cons)
    have one: "length (drop (length b') (x # b')) = 1" by simp
    then obtain y where y: "drop (length b') (x # b') = [y]"
      by (metis One_nat_def length_0_conv length_Suc_conv)
    show ?thesis
      using 1 Cons assms mv y
        refreshLine_edited [of "l\<lparr>l_len := length a + length b', l_buf := ?buf\<rparr>" a b' "NUL # r" l w]
      by (simp add: linenoiseEditDelete_def edit_frame_def list_update_append)
  qed
qed

lemma Transpose_ok:
  assumes "ln_inv l" "view_ok l w" "zip_of l = z"
  shows "ok_with (editTranspose l w) (edited l (z_apply n Transpose z) w)"
proof (cases rule: ln_invE [OF assms(1)])
  case (1 a b r)
  show ?thesis
  proof (cases "a = [] \<or> b = []")
    case True
    with 1 assms show ?thesis by (auto simp: editTranspose_def edited_refl)
  next
    case False
    then obtain a' x y b' where ab: "a = a' @ [x]" "b = y # b'"
      by (metis list.exhaust rev_exhaust)
    let ?buf = "a' @ y # x # b' @ NUL # r"
    show ?thesis
    proof (cases "b' = []")
      case True
      then show ?thesis
        using 1 ab assms refreshLine_edited [of "l\<lparr>l_buf := ?buf\<rparr>" "a' @ [y]" "[x]" r l w]
        by (simp add: editTranspose_def edit_frame_def list_update_append nth_append)
    next
      case False
      then show ?thesis
        using 1 ab assms
          refreshLine_edited [of "l\<lparr>l_buf := ?buf, l_pos := Suc (length a)\<rparr>" "a' @ [y, x]" b' r l w]
        by (simp add: editTranspose_def edit_frame_def list_update_append nth_append)
    qed
  qed
qed

lemma KillLine_ok:
  assumes "ln_inv l" "view_ok l w" "zip_of l = z"
  shows "ok_with (editKillLine l w) (edited l (z_apply n KillLine z) w)"
proof (cases rule: ln_invE [OF assms(1)])
  case (1 a b r)
  obtain c t where "a @ b @ NUL # r = c # t" by (cases "a @ b @ NUL # r") auto
  then have ct: "l_buf l = c # t" using 1(1) by simp
  have "length t = l_buflen l" using ct assms(1) by (simp add: ln_inv_def)
  then show ?thesis
    using 1(5) assms ct
      refreshLine_edited [of "l\<lparr>l_buf := NUL # t, l_pos := 0, l_len := 0\<rparr>" "[]" "[]" t l w]
    by (simp add: editKillLine_def edit_frame_def)
qed

lemma KillEol_ok:
  assumes "ln_inv l" "view_ok l w" "zip_of l = z"
  shows "ok_with (editKillEol l w) (edited l (z_apply n KillEol z) w)"
proof (cases rule: ln_invE [OF assms(1)])
  case (1 a b r)
  obtain c t where ct: "b @ NUL # r = c # t" by (cases "b @ NUL # r") auto
  then have "length t = length b + length r"
    by (metis add_Suc_right diff_Suc_1 length_Cons length_append)
  then show ?thesis
    using 1 assms ct
      refreshLine_edited [of "l\<lparr>l_buf := a @ NUL # t, l_len := length a\<rparr>" a "[]" t l w]
    by (simp add: editKillEol_def edit_frame_def list_update_append)
qed

lemma back_while_eq:
  "back_while P (a @ t) (length a) = Some (length (dropWhile P (rev a)))"
proof (induction a arbitrary: t rule: rev_induct)
  case Nil
  then show ?case by simp
next
  case (snoc x a)
  from snoc [of "x # t"] show ?case by (simp add: nth_append)
qed

lemma dropWhile_rev_prefix: "\<exists>t. a = rev (dropWhile P (rev a)) @ t"
  by (metis rev_append rev_rev_ident takeWhile_dropWhile_id)

lemma KillPrevWord_ok:
  assumes "ln_inv l" "view_ok l w" "zip_of l = z"
  shows "ok_with (linenoiseEditDeletePrevWord l w) (edited l (z_apply n KillPrevWord z) w)"
proof (cases rule: ln_invE [OF assms(1)])
  case (1 a b r)
  let ?P = "\<lambda>c. c = CHR '' ''" and ?N = "\<lambda>c. c \<noteq> CHR '' ''"
  define a1 where "a1 = rev (dropWhile ?P (rev a))"
  define a2 where "a2 = rev (dropWhile ?N (rev a1))"
  obtain t1 where t1: "a = a1 @ t1" using dropWhile_rev_prefix unfolding a1_def by blast
  obtain t2 where t2: "a1 = a2 @ t2" using dropWhile_rev_prefix unfolding a2_def by blast
  have bw1: "back_while ?P (l_buf l) (length a) = Some (length a1)"
    using back_while_eq [of ?P a "b @ NUL # r"] 1(1) by (simp add: a1_def)
  have bw2: "back_while ?N (l_buf l) (length a1) = Some (length a2)"
    using back_while_eq [of ?N a1 "t1 @ b @ NUL # r"] 1(1) t1 by (simp add: a2_def)
  have small: "length b + 1 < 2 ^ 64" using 1 assms(1) by (simp add: ln_inv_def)
  define rest where "rest = drop (Suc (length b)) (t2 @ t1 @ b @ NUL # r)"
  have mv: "mem_move (length a2) (length a) (Suc (length b)) (l_buf l) = Some (a2 @ b @ NUL # rest)"
    using 1(1) t1 t2 by (simp add: mem_move_def rest_def)
  have le: "length a2 \<le> length a" "length rest + length a2 = length a + length r"
    using t1 t2 by (simp_all add: rest_def)
  have "linenoiseEditDeletePrevWord l w = refreshLine (l\<lparr>l_buf := a2 @ b @ NUL # rest,
      l_pos := length a2, l_len := length a2 + length b\<rparr>) w"
    using 1(2,3) le small
    by (simp add: linenoiseEditDeletePrevWord_def Let_def bw1 bw2 mv add.commute)
  moreover have "z_apply n KillPrevWord z = (a2, b)"
    using 1(5) assms(3) by (simp add: a1_def a2_def)
  ultimately show ?thesis
    using 1(4) le assms(1,2) by (auto intro!: refreshLine_edited [where r = rest] simp: edit_frame_def)
qed

lemma Insert_ok:
  assumes "ln_inv l" "view_ok l w" "zip_of l = z"
  shows "ok_with (linenoiseEditInsert l c w)
    (\<lambda>(st, l', w'). edited l (z_apply (l_buflen l) (Insert c) z) w (l', w') \<and>
       (st = 0 \<or> st = -1) \<and> (w_write w = [] \<longrightarrow> st = 0))"
proof (cases rule: ln_invE [OF assms(1)])
  case (1 a b r)
  show ?thesis
  proof (cases r)
    case Nil
    with 1 assms show ?thesis by (simp add: linenoiseEditInsert_def edited_refl)
  next
    case (Cons y r')
    show ?thesis
    proof (cases "b = []")
      case True
      let ?l1 = "l\<lparr>l_pos := Suc (length a), l_len := Suc (length a), l_buf := a @ c # NUL # r'\<rparr>"
      have l1: "ln_inv ?l1" "zip_of ?l1 = (a @ [c], [])" "edit_frame l ?l1"
        using ln_invI [of ?l1 "a @ [c]" "[]" r'] 1 True Cons assms(1)
        by (auto simp: ln_inv_def edit_frame_def)
      obtain ok w' where wr: "sys_write [c] w = (ok, w')" by fastforce
      have fast: "edited l (a @ [c], []) w (?l1, w')"
        using l1 sys_write_frame [OF wr] by (simp add: edited_def)
      have slow: "ok_with (refreshLine ?l1 w) (edited l (a @ [c], []) w)"
        using 1 True Cons assms by (intro refreshLine_edited [of _ _ _ r']) (auto simp: edit_frame_def)
      have ok: "w_write w = [] \<Longrightarrow> ok" using wr by auto
      show ?thesis
        using 1 True Cons assms(3) fast slow wr ok
        by (auto simp: linenoiseEditInsert_def list_update_append Let_def elim: ok_with_mono)
    next
      case False
      let ?l1 = "l\<lparr>l_len := Suc (length a + length b), l_pos := Suc (length a),
          l_buf := a @ c # b @ NUL # r'\<rparr>"
      have mv: "mem_move (Suc (length a)) (length a) (length b) (l_buf l) =
          Some (a @ take 1 b @ b @ y # r')"
        using 1 Cons False by (cases b) (simp_all add: mem_move_def)
      obtain d b' where b: "b = d # b'" using False by (cases b) auto
      have slow: "ok_with (refreshLine ?l1 w) (edited l (a @ [c], b) w)"
        using 1 Cons assms by (intro refreshLine_edited [of _ _ _ r']) (auto simp: edit_frame_def)
      show ?thesis
        using 1 Cons assms(3) mv b slow
        by (auto simp: linenoiseEditInsert_def list_update_append elim: ok_with_mono)
    qed
  qed
qed

text \<open>Every command of the key dispatch is defined and does to the two strings what \<open>z_apply\<close> says.\<close>

lemma run_cmd_ok:
  assumes "ln_inv l" "view_ok l w"
  shows "ok_with (run_cmd c l w) (edited l (z_apply (l_buflen l) c (zip_of l)) w)"
proof (cases c)
  case (Insert x)
  with Insert_ok [OF assms refl, of x] show ?thesis
    by (auto elim!: ok_withE)
qed (simp_all add: MoveLeft_ok MoveRight_ok MoveHome_ok MoveEnd_ok Backspace_ok Delete_ok
    Transpose_ok KillLine_ok KillEol_ok KillPrevWord_ok assms del: z_apply.simps)

section \<open>The interface of a line editor\<close>

fun z_fits :: "nat \<Rightarrow> zipper \<Rightarrow> bool" where
  "z_fits n (a, b) = (length a + length b \<le> n)"

lemma length_dropWhile_rev: "length (dropWhile P (dropWhile Q (rev xs))) \<le> length xs"
  using length_dropWhile_le [of P "dropWhile Q (rev xs)"] length_dropWhile_le [of Q "rev xs"] by simp

lemma z_fits_apply: "z_fits n z \<Longrightarrow> z_fits n (z_apply n c z)"
proof (cases z; cases "c = KillPrevWord")
  fix a b
  assume "z_fits n z" "z = (a, b)" "c = KillPrevWord"
  then show ?thesis
    using length_dropWhile_rev [of "\<lambda>c. c \<noteq> CHR '' ''" "\<lambda>c. c = CHR '' ''" a] by simp
next
  fix a b
  assume "z_fits n z" "z = (a, b)" "c \<noteq> KillPrevWord"
  then show ?thesis by (cases c; cases a rule: rev_cases; cases b) auto
qed

text \<open>An editor of bounded lines: a state that shows its cursor between two strings, and one
  operation per command that is defined on sound states and acts as \<open>z_apply\<close>.\<close>

locale line_editor =
  fixes content :: "'s \<Rightarrow> zipper"
    and room :: "'s \<Rightarrow> nat"
    and sound :: "'s \<Rightarrow> bool"
    and exec :: "edit_cmd \<Rightarrow> 's \<Rightarrow> 's option"
  assumes exec_ok: "sound s \<Longrightarrow> ok_with (exec c s)
      (\<lambda>s'. sound s' \<and> room s' = room s \<and> content s' = z_apply (room s) c (content s))"
    and content_fits: "sound s \<Longrightarrow> z_fits (room s) (content s)"
begin

primrec exec_all :: "edit_cmd list \<Rightarrow> 's \<Rightarrow> 's option" where
  "exec_all [] s = Some s"
| "exec_all (c # cs) s = do { s \<leftarrow> exec c s; exec_all cs s }"

lemma exec_all_ok:
  "sound s \<Longrightarrow> ok_with (exec_all cs s)
     (\<lambda>s'. sound s' \<and> room s' = room s \<and> content s' = fold (z_apply (room s)) cs (content s))"
proof (induction cs arbitrary: s)
  case (Cons c cs)
  from exec_ok [OF Cons.prems, of c] obtain s1 where
    s1: "exec c s = Some s1" "sound s1" "room s1 = room s" "content s1 = z_apply (room s) c (content s)"
    by (auto simp: ok_with_def)
  with Cons.IH [OF s1(2)] show ?case by simp
qed simp

lemma z_type_text:
  "length a + length b + length s \<le> n \<Longrightarrow> fold (z_apply n) (map Insert s) (a, b) = (a @ s, b)"
  by (induction s arbitrary: a) auto

lemma z_erase_text:
  "fold (z_apply n) (replicate (length s) Backspace) (a @ s, b) = (a, b)"
proof (induction s rule: rev_induct)
  case (snoc x s)
  have "z_apply n Backspace (a @ s @ [x], b) = (a @ s, b)" by (simp add: butlast_append)
  with snoc show ?case by simp
qed simp

text \<open>Typing a text that fits puts it before the cursor, and as many backspaces take it away again.\<close>

lemma type_text:
  assumes "sound s" and "content s = (a, b)" and "length a + length b + length t \<le> room s"
  shows "ok_with (exec_all (map Insert t) s) (\<lambda>s'. sound s' \<and> content s' = (a @ t, b))"
  using exec_all_ok [OF assms(1), of "map Insert t"] z_type_text [OF assms(3)] assms(2)
  by (auto elim: ok_with_mono)

lemma type_erase:
  assumes "sound s" and "content s = (a, b)" and "length a + length b + length t \<le> room s"
  shows "ok_with (exec_all (map Insert t @ replicate (length t) Backspace) s)
    (\<lambda>s'. sound s' \<and> content s' = content s)"
  using exec_all_ok [OF assms(1), of "map Insert t @ replicate (length t) Backspace"] assms(2)
  by (simp only: fold_append comp_apply z_type_text [OF assms(3)] z_erase_text)
    (auto elim: ok_with_mono)

lemma never_overflows:
  "sound s \<Longrightarrow> ok_with (exec_all cs s) (\<lambda>s'. z_fits (room s) (content s'))"
  using exec_all_ok [of s cs] content_fits by (fastforce elim: ok_with_mono)

end

text \<open>The editor of the code: a state of the line together with the world.\<close>

fun run_all :: "edit_cmd list \<Rightarrow> linenoiseState \<Rightarrow> lnworld \<Rightarrow> (linenoiseState \<times> lnworld) option" where
  "run_all [] l w = Some (l, w)"
| "run_all (c # cs) l w = do { (l, w) \<leftarrow> run_cmd c l w; run_all cs l w }"

definition editor_ok :: "linenoiseState \<times> lnworld \<Rightarrow> bool" where
  "editor_ok = (\<lambda>(l, w). ln_inv l \<and> view_ok l w)"

lemma edited_editor_ok:
  "edited l z w (l', w') \<Longrightarrow> view_ok l w \<Longrightarrow>
   ln_inv l' \<and> view_ok l' w' \<and> l_buflen l' = l_buflen l \<and> zip_of l' = z"
  by (auto simp: edited_def view_ok_edit_frame) (simp add: edit_frame_def)

interpretation le: line_editor "\<lambda>(l, w). zip_of l" "\<lambda>(l, w). l_buflen l" editor_ok
  "\<lambda>c (l, w). run_cmd c l w"
proof unfold_locales
  fix s :: "linenoiseState \<times> lnworld" and c
  assume s: "editor_ok s"
  obtain l w where lw: "s = (l, w)" by (cases s)
  with s have "ln_inv l" "view_ok l w" by (auto simp: editor_ok_def)
  with run_cmd_ok [of l w c] lw
  show "ok_with (case s of (l, w) \<Rightarrow> run_cmd c l w)
      (\<lambda>s'. editor_ok s' \<and> (case s' of (l, w) \<Rightarrow> l_buflen l) = (case s of (l, w) \<Rightarrow> l_buflen l) \<and>
        (case s' of (l, w) \<Rightarrow> zip_of l) =
          z_apply (case s of (l, w) \<Rightarrow> l_buflen l) c (case s of (l, w) \<Rightarrow> zip_of l))"
    by (auto simp: editor_ok_def elim!: ok_with_mono dest: edited_editor_ok)
  show "z_fits (case s of (l, w) \<Rightarrow> l_buflen l) (case s of (l, w) \<Rightarrow> zip_of l)"
    using \<open>ln_inv l\<close> lw by (auto simp: zip_of_def ln_inv_def)
qed

lemma run_all_exec: "run_all cs l w = le.exec_all cs (l, w)"
proof (induction cs arbitrary: l w)
  case Nil
  show ?case by (simp only: le.exec_all.simps run_all.simps)
next
  case (Cons c cs)
  then have "le.exec_all cs = (\<lambda>(l, w). run_all cs l w)" by auto
  then show ?case by (simp only: le.exec_all.simps run_all.simps prod.case)
qed

section \<open>Moving through the history\<close>

text \<open>What ctrl-p and ctrl-n do to the lines of the history, the index of the line that is edited
  (counted from the latest) and the line: the line is stored in its slot before the index moves.\<close>

definition history_step ::
  "nat \<Rightarrow> int \<Rightarrow> string \<Rightarrow> string list \<times> int \<times> zipper \<Rightarrow> string list \<times> int \<times> zipper" where
  "history_step n dir cur = (\<lambda>(ls, i, z).
     if length ls \<le> 1 then (ls, i, z)
     else let ls' = ls[length ls - 1 - nat i := cur];
              i' = i + (if dir = LINENOISE_HISTORY_PREV then 1 else -1)
       in if i' < 0 then (ls', 0, z)
          else if i' \<ge> int (length ls) then (ls', int (length ls) - 1, z)
          else (ls', i', (take (n - 1) (ls' ! (length ls - 1 - nat i')), [])))"

text \<open>The invariant of the edited line and the history: the index is one of the history's lines.\<close>

definition hist_index_ok :: "linenoiseState \<Rightarrow> string list \<Rightarrow> bool" where
  "hist_index_ok l ls \<longleftrightarrow> 0 \<le> l_history_index l \<and> (l_history_index l < int (length ls) \<or> l_history_index l = 0)"

lemma c_str_line_of: "ln_inv l \<Longrightarrow> c_str (l_buf l) = c_str (line_of l)"
proof -
  assume "ln_inv l"
  then obtain a b r where "l_buf l = a @ b @ NUL # r" "l_len l = length a + length b"
    by (rule ln_invE)
  then have "l_buf l = line_of l @ NUL # r" by (simp add: line_of_def)
  moreover have "c_str (s @ NUL # t) = c_str s" for s t
    by (induction s) (auto simp: c_str_def)
  ultimately show ?thesis by simp
qed

lemma NUL_in_buf: "ln_inv l \<Longrightarrow> NUL \<in> set (l_buf l)"
  by (simp add: ln_inv_shown_ok [unfolded shown_ok_def])

text \<open>Copying a line of the history into the buffer.\<close>

lemma take_update_out: "i < length xs \<Longrightarrow> xs[i := x] = take i xs @ x # drop (Suc i) xs"
  by (rule upd_conv_take_nth_drop)

lemma history_copy:
  assumes "ln_inv l" and "is_c_string s"
  obtains buf r where "c_strncpy (l_buf l) s (l_buflen l) = Some buf"
    and "mem_set (l_buflen l - 1) NUL buf = Some (take (l_buflen l - 1) s @ NUL # r)"
    and "length (take (l_buflen l - 1) s) + length r = l_buflen l"
proof -
  define n where "n = l_buflen l"
  obtain m where m: "n = Suc m" "length (l_buf l) = Suc n"
    using assms(1) by (cases n) (auto simp: ln_inv_def n_def)
  define rest where "rest = drop n (l_buf l)"
  have rest: "length rest = 1" using m by (simp add: rest_def)
  show ?thesis
  proof (cases "length s \<le> m")
    case True
    then have "replicate (n - length s) NUL = NUL # replicate (m - length s) NUL"
      using m by (simp add: Suc_diff_le)
    then have cp: "c_strncpy (l_buf l) s n = Some (s @ NUL # replicate (m - length s) NUL @ rest)"
      using True m by (simp add: c_strncpy_def rest_def)
    have "(s @ NUL # replicate (m - length s) NUL @ rest)[m := NUL] =
        s @ NUL # replicate (m - length s) NUL @ rest"
    proof (rule list_update_same_conv [THEN iffD2])
      show "m < length (s @ NUL # replicate (m - length s) NUL @ rest)" using True by simp
      have "(replicate (Suc (m - length s)) NUL @ rest) ! (m - length s) = NUL"
        unfolding nth_append by (simp del: replicate_Suc)
      then show "(s @ NUL # replicate (m - length s) NUL @ rest) ! m = NUL"
        using True by (simp add: nth_append)
    qed
    then show ?thesis
      using True m rest
      by (intro that [unfolded n_def [symmetric], OF cp, of "replicate (m - length s) NUL @ rest"]) simp_all
  next
    case False
    then have cp: "c_strncpy (l_buf l) s n = Some (take n s @ rest)"
      using m by (simp add: c_strncpy_def rest_def)
    have "take n s = take m s @ [s ! m]" using m False by (simp add: take_Suc_conv_app_nth)
    then have "(take n s @ rest)[m := NUL] = take m s @ NUL # rest"
      using False by (simp add: list_update_append)
    then show ?thesis
      using False m rest by (intro that [unfolded n_def [symmetric], OF cp]) simp_all
  qed
qed

lemma hist_rep_slot:
  assumes "hist_rep w ls" and "k < length ls"
  obtains hs where "history w = Some hs" and "hslot hs (int k) = Some (Str (ls ! k))" and "k < length hs"
    and "hs = map Str ls @ drop (length ls) hs"
proof -
  obtain hs where hs: "history w = Some hs"
    using assms by (cases "history w") (auto simp: hist_rep_def)
  have split: "hs = map Str ls @ drop (length ls) hs" by (rule hist_rep_split [OF assms(1) hs])
  then have "hs ! k = Str (ls ! k)" "k < length hs"
    using assms(2) by (metis length_map nth_append nth_map, metis length_append length_map trans_less_add1)
  then show ?thesis by (intro that [OF hs _ _ split]) (simp_all add: hslot_def)
qed

text \<open>Storing a line in its slot.\<close>

lemma hist_store:
  assumes "hist_rep w ls" and "k < length ls" and "is_c_string s" and "history w = Some hs"
  obtains hs' hs'' where "hfree (int k) hs = Some hs'" and "hslot_set (int k) (Str s) hs' = Some hs''"
    and "hist_rep (w\<lparr>history := Some hs''\<rparr>) (ls[k := s])"
proof -
  have split: "hs = map Str ls @ drop (length ls) hs" by (rule hist_rep_split [OF assms(1,4)])
  have k: "hs ! k = Str (ls ! k)" "k < length hs"
    using assms(2) split by (metis length_map nth_append nth_map, metis length_append length_map trans_less_add1)
  have len: "length hs = nat (history_max_len w)" "take (length ls) hs = map Str ls"
    "list_all is_c_string ls"
    using assms(1,4) by (auto simp: hist_rep_def)
  show ?thesis
  proof (rule that)
    show "hfree (int k) hs = Some (hs[k := Freed])"
      using k by (simp add: hfree_def hslot_def hslot_set_def)
    show "hslot_set (int k) (Str s) (hs[k := Freed]) = Some (hs[k := Str s])"
      using k by (simp add: hslot_set_def)
    have "take (length ls) (hs[k := Str s]) = map Str (ls[k := s])"
      by (simp add: take_update_swap len map_update)
    moreover have "list_all is_c_string (ls[k := s])"
      using len(3) assms(3) by (auto simp: list_all_iff dest: set_update_subset_insert [THEN subsetD])
    ultimately show "hist_rep (w\<lparr>history := Some (hs[k := Str s])\<rparr>) (ls[k := s])"
      using assms(1,4) by (simp add: hist_rep_def)
  qed
qed

text \<open>What an editing session leaves alone in the world.\<close>

definition sess_frame :: "lnworld \<Rightarrow> lnworld \<Rightarrow> bool" where
  "sess_frame w w' \<longleftrightarrow>
     completionCallback w' = completionCallback w \<and> hintsCallback w' = hintsCallback w \<and>
     freeHintsCallback w' = freeHintsCallback w \<and> orig_termios w' = orig_termios w \<and>
     rawmode w' = rawmode w \<and> mlmode w' = mlmode w \<and> atexit_registered w' = atexit_registered w \<and>
     history_max_len w' = history_max_len w \<and> w_isatty w' = w_isatty w \<and> w_TERM w' = w_TERM w \<and>
     w_termios w' = w_termios w \<and> w_winsize w' = w_winsize w \<and> w_files w' = w_files w \<and>
     w_nofopen w' = w_nofopen w \<and> w_umask w' = w_umask w \<and> w_tc w' = w_tc w \<and>
     data_status w' = data_status w \<and> w_errno w' = w_errno w \<and>
     (w_alloc w = [] \<longrightarrow> w_alloc w' = []) \<and> (w_write w = [] \<longrightarrow> w_write w' = [])"

lemma sess_frame_refl [simp]: "sess_frame w w"
  by (simp add: sess_frame_def)

lemma sess_frame_trans [trans]: "sess_frame w w1 \<Longrightarrow> sess_frame w1 w2 \<Longrightarrow> sess_frame w w2"
  by (simp add: sess_frame_def)

lemma sess_frame_io: "io_frame w w' \<Longrightarrow> sess_frame w w'"
  by (simp add: sess_frame_def frame_simps io_frame_plenty)

lemma sess_frame_hist: "hist_frame w w' \<Longrightarrow> sess_frame w w'"
  by (simp add: sess_frame_def frame_simps) (auto simp: hist_frame_def)

lemma view_ok_sess_frame: "sess_frame w w' \<Longrightarrow> view_ok l w' = view_ok l w"
  by (simp add: sess_frame_def view_ok_def hints_ok_def)

text \<open>\<open>browsed l w ls i z (l', w')\<close>: afterwards the history holds \<open>ls\<close>, the edited line is the one with
  index \<open>i\<close> and holds \<open>z\<close>.\<close>

definition browsed :: "linenoiseState \<Rightarrow> lnworld \<Rightarrow> string list \<times> int \<times> zipper \<Rightarrow>
    linenoiseState \<times> lnworld \<Rightarrow> bool" where
  "browsed l w = (\<lambda>(ls, i, z) (l', w').
     ln_inv l' \<and> edit_frame l l' \<and> zip_of l' = z \<and> l_history_index l' = i \<and> hist_rep w' ls \<and>
     sess_frame w w' \<and> w_in w' = w_in w)"

lemma HistoryNext_ok:
  assumes "ln_inv l" "view_ok l w" "hist_rep w ls" "hist_index_ok l ls" "w_alloc w = []"
  shows "ok_with (linenoiseEditHistoryNext l dir w)
    (browsed l w (history_step (l_buflen l) dir (c_str (l_buf l)) (ls, l_history_index l, zip_of l)))"
proof (cases "length ls \<le> 1")
  case True
  with assms show ?thesis
    by (simp add: linenoiseEditHistoryNext_def history_step_def browsed_def hist_rep_def)
next
  case False
  define i where "i = nat (l_history_index l)"
  define k where "k = length ls - 1 - i"
  have i: "l_history_index l = int i" "i < length ls"
    using assms(4) False by (auto simp: hist_index_ok_def i_def)
  have k: "int (length ls) - 1 - int i = int k" "k < length ls" using i False by (auto simp: k_def)
  have n: "history_len w = int (length ls)" using assms(3) by (simp add: hist_rep_def)
  obtain hs where hs: "history w = Some hs" using hist_rep_slot [OF assms(3) k(2)] by blast
  let ?cur = "c_str (l_buf l)"
  obtain hs1 hs2 where st: "hfree (int k) hs = Some hs1" "hslot_set (int k) (Str ?cur) hs1 = Some hs2"
      "hist_rep (w\<lparr>history := Some hs2\<rparr>) (ls[k := ?cur])"
    using hist_store [OF assms(3) k(2) _ hs] is_c_string_c_str by blast
  let ?w = "w\<lparr>history := Some hs2\<rparr>" and ?ls = "ls[k := ?cur]"
  have sl: "strlen (l_buf l) = Some (length ?cur)"
    using NUL_in_buf [OF assms(1)] by (simp add: strlen_def)
  have frame: "sess_frame w ?w" by (rule sess_frame_hist) simp
  define i' where "i' = l_history_index l + (if dir = LINENOISE_HISTORY_PREV then 1 else -1)"
  note run = linenoiseEditHistoryNext_def n i(1) k(1) hs st(1,2) sl assms(5)
  show ?thesis
  proof (cases "i' < 0 \<or> i' \<ge> int (length ls)")
    case True
    let ?i = "if i' < 0 then 0 else int (length ls) - 1"
    have "linenoiseEditHistoryNext l dir w = Some (l\<lparr>l_history_index := ?i\<rparr>, ?w)"
      using False True i(2) unfolding i'_def by (auto simp: run Let_def)
    moreover have "history_step (l_buflen l) dir ?cur (ls, l_history_index l, zip_of l) =
        (?ls, ?i, zip_of l)"
      using False True i unfolding k_def i'_def by (auto simp: history_step_def Let_def)
    ultimately show ?thesis
      using assms(1) st(3) frame by (simp add: browsed_def edit_frame_def ln_inv_def zip_of_def)
  next
    case False': False
    define j where "j = length ls - 1 - nat i'"
    have j: "int (length ls) - 1 - i' = int j" "j < length ?ls" using False' by (auto simp: j_def)
    obtain hsx where slot: "hslot hs2 (int j) = Some (Str (?ls ! j))"
      using hist_rep_slot [OF st(3) j(2)] by auto
    have cs: "is_c_string (?ls ! j)" using st(3) j(2) by (auto simp: hist_rep_def list_all_length)
    obtain buf r where cp: "c_strncpy (l_buf l) (?ls ! j) (l_buflen l) = Some buf"
        "mem_set (l_buflen l - 1) NUL buf = Some (take (l_buflen l - 1) (?ls ! j) @ NUL # r)"
        "length (take (l_buflen l - 1) (?ls ! j)) + length r = l_buflen l"
      using history_copy [OF assms(1) cs] by blast
    define t where "t = take (l_buflen l - 1) (?ls ! j)"
    have t: "is_c_string t" using cs by (auto simp: t_def is_c_string_def dest: in_set_takeD)
    have sl': "strlen (t @ NUL # r) = Some (length t)" using t by (simp add: strlen_def)
    have step: "int i + (if dir = LINENOISE_HISTORY_PREV then 1 else -1) = i'"
      by (simp only: i'_def i(1))
    let ?l = "l\<lparr>l_history_index := i', l_buf := t @ NUL # r, l_len := length t, l_pos := length t\<rparr>"
    have pos: "0 < l_buflen l" using assms(1) by (simp add: ln_inv_def)
    have "linenoiseEditHistoryNext l dir w = refreshLine ?l ?w"
      using False False' pos
      by (simp add: run step Let_def j(1) slot cp [folded t_def] sl' split del: if_split del: One_nat_def)
    moreover have l: "ln_inv ?l" "zip_of ?l = (t, [])"
      using ln_invI [of ?l t "[]" r] assms(1) cp(3) by (auto simp: ln_inv_def t_def)
    moreover have "edit_frame l ?l" by (simp add: edit_frame_def)
    moreover have "view_ok ?l ?w"
      using assms(2) frame by (simp add: view_ok_sess_frame view_ok_edit_frame [OF \<open>edit_frame l ?l\<close>])
    moreover have "history_step (l_buflen l) dir ?cur (ls, l_history_index l, zip_of l) = (?ls, i', (t, []))"
      using False False' i unfolding t_def j_def k_def i'_def by (simp add: history_step_def Let_def)
    ultimately show ?thesis
      using st(3) frame
      by (auto simp: browsed_def frame_simps zip_of_same_line intro!: refreshLine_wp ln_inv_shown_ok
          intro: ln_inv_same_line edit_frame_same_line sess_frame_trans sess_frame_io)
  qed
qed

section \<open>Properties\<close>

text \<open>C2. Any sequence of editing commands (insert, backspace, delete, transpose, the moves and the
  kills) on any sound line: every step is defined, so no access leaves the buffer, the line stays
  sound and within its buffer, and the text before and after the cursor is what the abstract
  commands make of it.\<close>

theorem edit_commands_refine:
  assumes "ln_inv l" and "view_ok l w"
  shows "\<exists>l' w'. run_all cs l w = Some (l', w') \<and> ln_inv l' \<and> l_buflen l' = l_buflen l \<and>
    zip_of l' = fold (z_apply (l_buflen l)) cs (zip_of l)"
  using le.exec_all_ok [of "(l, w)" cs] assms
  by (auto simp: run_all_exec editor_ok_def ok_with_def simp del: le.exec_all.simps)

definition fresh_line :: "nat \<Rightarrow> string \<Rightarrow> nat \<Rightarrow> linenoiseState" where
  "fresh_line m prompt cols = \<lparr>l_ifd = 0, l_ofd = 1, l_buf = replicate (Suc m) NUL, l_buflen = m,
     l_prompt = prompt, l_plen = length prompt, l_pos = 0, l_oldpos = 0, l_len = 0, l_cols = cols,
     l_maxrows = 0, l_history_index = 0\<rparr>"

lemma fresh_line_ok:
  "0 < m \<Longrightarrow> m < 2 ^ 29 \<Longrightarrow> ln_inv (fresh_line m prompt cols)"
  "length prompt < cols \<Longrightarrow> cols < 2 ^ 29 \<Longrightarrow> hintsCallback w = None \<Longrightarrow> view_ok (fresh_line m prompt cols) w"
  "zip_of (fresh_line m prompt cols) = ([], [])" "l_buflen (fresh_line m prompt cols) = m"
  "l_len (fresh_line m prompt cols) = 0" "l_history_index (fresh_line m prompt cols) = 0"
  "line_of (fresh_line m prompt cols) = []"
  by (auto simp: fresh_line_def ln_inv_def view_ok_def hints_ok_def zip_of_def line_of_def)

theorem edit_commands_refine_witness:
  "\<exists>l' w'. run_all [Insert CHR ''a'', Insert CHR ''b'', MoveLeft, Insert CHR ''c'', Transpose]
      (fresh_line 8 ''> '' 80) (init_world [] termios0) = Some (l', w') \<and> zip_of l' = (''ab'', ''c'')"
  using edit_commands_refine [of "fresh_line 8 ''> '' 80" "init_world [] termios0"
      "[Insert CHR ''a'', Insert CHR ''b'', MoveLeft, Insert CHR ''c'', Transpose]"]
  by (auto simp: fresh_line_ok simp del: run_all.simps)

text \<open>Typing a text that fits and then as many backspaces gives the line and the cursor back.\<close>

theorem type_and_erase:
  assumes "ln_inv l" and "view_ok l w" and "l_len l + length t \<le> l_buflen l"
  shows "\<exists>l1 w1 l2 w2. run_all (map Insert t) l w = Some (l1, w1) \<and>
      zip_of l1 = (fst (zip_of l) @ t, snd (zip_of l)) \<and>
    run_all (map Insert t @ replicate (length t) Backspace) l w = Some (l2, w2) \<and> zip_of l2 = zip_of l"
proof (cases rule: ln_invE [OF assms(1)])
  case (1 a b r)
  have "editor_ok (l, w)" using assms(1,2) by (simp add: editor_ok_def)
  with le.type_text [of "(l, w)" a b t] le.type_erase [of "(l, w)" a b t] 1 assms(3) show ?thesis
    by (auto simp: run_all_exec ok_with_def)
qed

theorem type_and_erase_witness:
  "\<exists>l1 w1. run_all (map Insert ''nim'') (fresh_line 8 ''> '' 80) (init_world [] termios0) = Some (l1, w1) \<and>
    zip_of l1 = (''nim'', [])"
  using type_and_erase [of "fresh_line 8 ''> '' 80" "init_world [] termios0" "''nim''"]
  by (auto simp: fresh_line_ok simp del: run_all.simps list.map)

text \<open>Going to the previous line of the history and back: both moves are defined, the first shows the
  previous line (as much of it as the buffer takes), and the second shows the line that was being
  edited, which the code had stored in its slot.\<close>

theorem history_prev_next_roundtrip:
  assumes "ln_inv l" and "view_ok l w" and "hist_rep w ls" and "w_alloc w = []"
    and "l_history_index l = int i" and "Suc i < length ls"
    and "is_c_string (line_of l)" and "length (line_of l) < l_buflen l"
  shows "\<exists>l1 w1 l2 w2. linenoiseEditHistoryNext l LINENOISE_HISTORY_PREV w = Some (l1, w1) \<and>
    line_of l1 = take (l_buflen l - 1) (ls ! (length ls - 2 - i)) \<and> l_history_index l1 = int i + 1 \<and>
    linenoiseEditHistoryNext l1 LINENOISE_HISTORY_NEXT w1 = Some (l2, w2) \<and>
    line_of l2 = line_of l \<and> l_history_index l2 = int i"
proof -
  let ?b = "l_buflen l" and ?k = "length ls - 1 - i" and ?cur = "line_of l"
  have cur: "c_str (l_buf l) = ?cur" using c_str_line_of [OF assms(1)] assms(7) by simp
  have k: "length ls - 2 - i = ?k - 1" "0 < ?k" "?k < length ls" using assms(6) by auto
  have idx: "hist_index_ok l ls" using assms(5,6) by (simp add: hist_index_ok_def)
  let ?t = "take (?b - 1) (ls ! (?k - 1))"
  have n: "nat (int i + 1) = Suc i" by simp
  have "history_step ?b LINENOISE_HISTORY_PREV ?cur (ls, l_history_index l, zip_of l) =
      (ls[?k := ?cur], int i + 1, (?t, []))"
    using assms(5,6) k n by (simp add: history_step_def Let_def)
  with HistoryNext_ok [OF assms(1-3) idx assms(4), of LINENOISE_HISTORY_PREV] cur
  obtain l1 w1 where 1: "linenoiseEditHistoryNext l LINENOISE_HISTORY_PREV w = Some (l1, w1)"
      "ln_inv l1" "edit_frame l l1" "zip_of l1 = (?t, [])" "l_history_index l1 = int i + 1"
      "hist_rep w1 (ls[?k := ?cur])" "sess_frame w w1"
    by (auto simp: ok_with_def browsed_def)
  have view1: "view_ok l1 w1"
    using assms(2) 1(3,7) by (simp add: view_ok_sess_frame view_ok_edit_frame)
  have idx1: "hist_index_ok l1 (ls[?k := ?cur])" using 1(5) assms(6) by (simp add: hist_index_ok_def)
  have al1: "w_alloc w1 = []" using 1(7) assms(4) by (simp add: sess_frame_def)
  have b1: "l_buflen l1 = ?b" using 1(3) by (simp add: edit_frame_def)
  have next_step: "history_step ?b LINENOISE_HISTORY_NEXT c (ls[?k := ?cur], int i + 1, z) =
      ((ls[?k := ?cur])[?k - 1 := c], int i, (?cur, []))" for c z
    using assms(6,8) k n
    by (simp add: history_step_def Let_def LINENOISE_HISTORY_PREV_def LINENOISE_HISTORY_NEXT_def nth_list_update)
  from HistoryNext_ok [OF 1(2) view1 1(6) idx1 al1, of LINENOISE_HISTORY_NEXT]
  obtain l2 w2 where 2: "linenoiseEditHistoryNext l1 LINENOISE_HISTORY_NEXT w1 = Some (l2, w2)"
      "ln_inv l2" "zip_of l2 = (?cur, [])" "l_history_index l2 = int i"
    unfolding 1(5) b1 next_step by (auto simp: ok_with_def browsed_def)
  show ?thesis
    using 1(1,5) 2 line_of_zip [OF 1(2,4)] line_of_zip [OF 2(2,3)] k(1) by auto
qed

theorem history_prev_next_roundtrip_witness:
  "\<exists>l1 w1. linenoiseEditHistoryNext (fresh_line 8 ''> '' 80) LINENOISE_HISTORY_PREV two_lines = Some (l1, w1) \<and>
    line_of l1 = ''ls''"
  using history_prev_next_roundtrip [of "fresh_line 8 ''> '' 80" two_lines "[''ls'', ''cd'']" 0]
  by (auto simp: fresh_line_ok two_lines_rep)

end
