(* ===== verification/Ln_Terminal.thy ===== *)
theory Ln_Terminal
  imports Ln_Edit
begin

text \<open>
  The low level terminal handling of \<open>linenoise.c\<close>: which terminals are known not to understand
  escape sequences, raw mode and its end, the query of the cursor position and of the number of
  columns, the beep and the clearing of the screen.  The lemmas show that leaving raw mode restores
  the settings it found, and that a terminal's reply to the query is read back exactly.
\<close>

section \<open>Unsupported terminals\<close>

definition ascii_lower :: "char \<Rightarrow> char" where
  "ascii_lower c = (if 65 \<le> (of_char c :: nat) \<and> (of_char c :: nat) \<le> 90 then char_of (of_char c + (32 :: nat)) else c)"

text \<open>\<open>strcasecmp(a, b) == 0\<close>\<close>

definition strcasecmp_eq :: "string \<Rightarrow> string \<Rightarrow> bool" where
  "strcasecmp_eq a b \<longleftrightarrow> map ascii_lower a = map ascii_lower b"

definition unsupported_term :: "string list" where
  "unsupported_term = [''dumb'', ''cons25'', ''emacs'']"

definition isUnsupportedTerm :: "lnworld \<Rightarrow> bool" where
  "isUnsupportedTerm w =
     (case w_TERM w of None \<Rightarrow> False | Some t \<Rightarrow> list_ex (strcasecmp_eq t) unsupported_term)"

section \<open>Raw mode\<close>

definition linenoiseSetMultiLine :: "int \<Rightarrow> lnworld \<Rightarrow> lnworld" where
  "linenoiseSetMultiLine ml w = w\<lparr>mlmode := ml \<noteq> 0\<rparr>"

definition raw_termios :: "termios \<Rightarrow> termios" where
  "raw_termios t = t\<lparr>c_iflag := c_iflag t - {BRKINT, ICRNL, INPCK, ISTRIP, IXON},
     c_oflag := c_oflag t - {OPOST},
     c_cflag := c_cflag t \<union> {CS8},
     c_lflag := c_lflag t - {ECHO, ICANON, IEXTEN, ISIG},
     c_vmin := 1, c_vtime := 0\<rparr>"

definition enableRawMode :: "lnworld \<Rightarrow> int \<times> lnworld" where
  "enableRawMode w =
     (let fatal = (\<lambda>w. (-1, w\<lparr>w_errno := ENOTTY\<rparr>)) in
      if \<not> w_isatty w then fatal w
      else let w = (if \<not> atexit_registered w then w\<lparr>atexit_registered := True\<rparr> else w);
               (ok, w) = tc_outcome w in
        if \<not> ok then fatal w
        else let w = w\<lparr>orig_termios := w_termios w\<rparr>;
                 raw = raw_termios (orig_termios w);
                 (ok, w) = tc_outcome w in
          if \<not> ok then fatal w
          else (0, w\<lparr>w_termios := raw, rawmode := True\<rparr>))"

definition disableRawMode :: "lnworld \<Rightarrow> lnworld" where
  "disableRawMode w =
     (if rawmode w
      then let (ok, w) = tc_outcome w in
        if ok then w\<lparr>w_termios := orig_termios w, rawmode := False\<rparr> else w
      else w)"

definition linenoiseAtExit :: "lnworld \<Rightarrow> lnworld option" where
  "linenoiseAtExit w = freeHistory (disableRawMode w)"

section \<open>Cursor position and columns\<close>

fun read_reply :: "nat \<Rightarrow> lnworld \<Rightarrow> string \<times> lnworld" where
  "read_reply 0 w = ([], w)"
| "read_reply (Suc n) w =
     (case sys_read w of
        (Byte c, w) \<Rightarrow> if c = CHR ''R'' then ([], w)
                       else let (s, w) = read_reply n w in (c # s, w)
      | (_, w) \<Rightarrow> ([], w))"

text \<open>The conversion \<open>%d\<close> of \<open>sscanf\<close>: white space, a sign, digits.\<close>

definition is_space :: "char \<Rightarrow> bool" where
  "is_space c \<longleftrightarrow> c \<in> {CHR '' '', CHR 0x09, CHR 0x0A, CHR 0x0B, CHR 0x0C, CHR 0x0D}"

definition scan_int :: "string \<Rightarrow> (int \<times> string) option" where
  "scan_int s =
     (let s = dropWhile is_space s;
          neg = (s \<noteq> [] \<and> hd s = CHR ''-'');
          s = (if s \<noteq> [] \<and> (hd s = CHR ''-'' \<or> hd s = CHR ''+'') then tl s else s);
          ds = takeWhile is_digit s
      in if ds = [] then None
         else Some (if neg then - int (nat_of_dec ds) else int (nat_of_dec ds), dropWhile is_digit s))"

text \<open>\<open>sscanf(s, "%d;%d", &rows, &cols)\<close>: the two values when both conversions were made.\<close>

definition scan_pair :: "string \<Rightarrow> (int \<times> int) option" where
  "scan_pair s = do {
     (rows, s) \<leftarrow> scan_int s;
     s \<leftarrow> (case s of c # s \<Rightarrow> if c = CHR '';'' then Some s else None | [] \<Rightarrow> None);
     (cols, s) \<leftarrow> scan_int s;
     Some (rows, cols)
   }"

definition fits_int :: "int \<Rightarrow> bool" where
  "fits_int i \<longleftrightarrow> - (2 ^ 31) \<le> i \<and> i < 2 ^ 31"

text \<open>A number that an \<open>int\<close> cannot hold makes \<open>sscanf\<close> undefined.\<close>

definition getCursorPosition :: "lnworld \<Rightarrow> (int \<times> lnworld) option" where
  "getCursorPosition w =
     (let (ok, w) = sys_write (csi ''6n'') w in
      if \<not> ok then Some (-1, w)
      else let (s, w) = read_reply 31 w; buf = c_str s in
        if take 2 buf \<noteq> csi [] then Some (-1, w)
        else (case scan_pair (drop 2 buf) of
                None \<Rightarrow> Some (-1, w)
              | Some (rows, cols) \<Rightarrow>
                  if fits_int rows \<and> fits_int cols then Some (cols, w) else None))"

definition getColumns :: "lnworld \<Rightarrow> (int \<times> lnworld) option" where
  "getColumns w =
     (case w_winsize w of
        Some (Suc n) \<Rightarrow> Some (int (Suc n), w)
      | _ \<Rightarrow> do {
          (start, w) \<leftarrow> getCursorPosition w;
          if start = -1 then Some (80, w)
          else let (ok, w) = sys_write (csi ''999C'') w in
            if \<not> ok then Some (80, w)
            else do {
              (cols, w) \<leftarrow> getCursorPosition w;
              if cols = -1 then Some (80, w)
              else if cols > start
              then if fits_int (cols - start)
                   then let (_, w) = sys_write (snprintf 32 (csi (dec_of_int (cols - start) @ ''D''))) w
                     in Some (cols, w)
                   else None
              else Some (cols, w)
            }
        })"

definition linenoiseClearScreen :: "lnworld \<Rightarrow> lnworld" where
  "linenoiseClearScreen w = snd (sys_write (csi ''H'' @ csi ''2J'') w)"

definition linenoiseBeep :: "lnworld \<Rightarrow> lnworld" where
  "linenoiseBeep w = err_printf [CHR 0x07] w"

section \<open>Raw mode is left as it was entered\<close>

lemma tc_outcome_plenty [simp]: "w_tc w = [] \<Longrightarrow> tc_outcome w = (True, w)"
  by (simp add: tc_outcome_def)

lemma tc_outcome_cases: "tc_outcome w = (ok, w') \<Longrightarrow> w' = w\<lparr>w_tc := w_tc w'\<rparr>"
  by (auto simp: tc_outcome_def split: list.splits)

text \<open>What \<open>enableRawMode\<close> does when it succeeds, and that it changes no setting when it fails.\<close>

lemma enableRawMode_ok:
  assumes "enableRawMode w = (0, w')"
  shows "w' = w\<lparr>atexit_registered := True, orig_termios := w_termios w, rawmode := True,
      w_termios := raw_termios (w_termios w), w_tc := w_tc w'\<rparr>"
    and "w_isatty w"
  using assms
  by (auto simp: enableRawMode_def Let_def tc_outcome_def split: if_splits prod.splits list.splits)

lemma enableRawMode_fields:
  assumes "enableRawMode w = (0, w')"
  shows "rawmode w'" "w_termios w' = raw_termios (w_termios w)" "orig_termios w' = w_termios w"
  using assms
  by (auto simp: enableRawMode_def Let_def tc_outcome_def split: if_splits prod.splits list.splits)

lemma enableRawMode_cases:
  assumes "enableRawMode w = (r, w')"
  shows "r = 0 \<or> r = -1 \<and> w_termios w' = w_termios w \<and> rawmode w' = rawmode w \<and> w_errno w' = ENOTTY"
  using assms
  by (auto simp: enableRawMode_def Let_def tc_outcome_def split: if_splits prod.splits list.splits)

lemma enableRawMode_plenty:
  assumes "w_isatty w" and "w_tc w = []"
  shows "enableRawMode w = (0, w\<lparr>atexit_registered := True, orig_termios := w_termios w, rawmode := True,
      w_termios := raw_termios (w_termios w)\<rparr>)"
  using assms by (auto simp: enableRawMode_def Let_def)

lemma disableRawMode_plenty:
  assumes "rawmode w" and "w_tc w = []"
  shows "disableRawMode w = w\<lparr>w_termios := orig_termios w, rawmode := False\<rparr>"
  using assms by (simp add: disableRawMode_def)

section \<open>Reading a reply back\<close>

lemma read_reply_plain:
  "w_in w = map Byte s @ Byte (CHR ''R'') # rest \<Longrightarrow> CHR ''R'' \<notin> set s \<Longrightarrow> length s < n \<Longrightarrow>
   read_reply n w = (s, w\<lparr>w_in := rest\<rparr>)"
proof (induction s arbitrary: n w)
  case Nil
  then show ?case by (cases n) (auto simp: sys_read_def)
next
  case (Cons c s)
  then obtain m where "n = Suc m" by (cases n) auto
  with Cons.prems Cons.IH [of "w\<lparr>w_in := map Byte s @ Byte (CHR ''R'') # rest\<rparr>" m]
  show ?case by (auto simp: sys_read_def)
qed

lemma digit_not: "is_digit c \<Longrightarrow> c \<noteq> CHR ''-'' \<and> c \<noteq> CHR ''+'' \<and> c \<noteq> CHR '';'' \<and> c \<noteq> CHR ''R'' \<and> c \<noteq> NUL \<and> \<not> is_space c"
  by (auto simp: is_digit_def is_space_def)

lemma takeWhile_append_digits: "\<forall>c \<in> set ds. P c \<Longrightarrow> t = [] \<or> \<not> P (hd t) \<Longrightarrow> takeWhile P (ds @ t) = ds"
  by (induction ds) (cases t; auto)+

lemma dropWhile_append_digits: "\<forall>c \<in> set ds. P c \<Longrightarrow> t = [] \<or> \<not> P (hd t) \<Longrightarrow> dropWhile P (ds @ t) = t"
  by (induction ds) (cases t; auto)+

lemma scan_int_dec:
  assumes "t = [] \<or> \<not> is_digit (hd t)"
  shows "scan_int (dec_of_nat n @ t) = Some (int n, t)"
proof -
  let ?s = "dec_of_nat n @ t"
  obtain c ds where ds: "dec_of_nat n = c # ds" by (cases "dec_of_nat n") simp_all
  with dec_of_nat_digits [of n] have c: "is_digit c" by simp
  have sp: "dropWhile is_space ?s = ?s" using c digit_not by (simp add: ds)
  have hd: "hd ?s = c" "?s \<noteq> []" by (simp_all add: ds)
  have tw: "takeWhile is_digit ?s = dec_of_nat n" "dropWhile is_digit ?s = t"
    by (rule takeWhile_append_digits dropWhile_append_digits; use dec_of_nat_digits assms in blast)+
  show ?thesis
    using c digit_not [OF c] unfolding scan_int_def Let_def sp hd by (simp add: hd tw)
qed

lemma scan_pair_dec: "scan_pair (dec_of_nat r @ '';'' @ dec_of_nat c) = Some (int r, int c)"
proof -
  have "scan_int (dec_of_nat r @ CHR '';'' # dec_of_nat c) = Some (int r, CHR '';'' # dec_of_nat c)"
    by (rule scan_int_dec) (simp add: is_digit_def)
  moreover have "scan_int (dec_of_nat c) = Some (int c, [])"
    using scan_int_dec [of "[]" c] by simp
  ultimately show ?thesis by (simp add: scan_pair_def)
qed

definition cursor_report :: "nat \<Rightarrow> nat \<Rightarrow> string" where
  "cursor_report r c = csi (dec_of_nat r @ '';'' @ dec_of_nat c @ ''R'')"

lemma getCursorPosition_reply:
  assumes "w_in w = map Byte (cursor_report r c) @ rest" and "r < 2 ^ 31" "c < 2 ^ 31" and "w_write w = []"
  shows "getCursorPosition w = Some (int c, w\<lparr>w_out := w_out w @ csi ''6n'', w_in := rest\<rparr>)"
proof -
  let ?s = "csi (dec_of_nat r @ '';'' @ dec_of_nat c)"
  have len: "length (dec_of_nat r) \<le> 10" "length (dec_of_nat c) \<le> 10"
    using assms(2,3) by (auto intro: length_dec_of_nat)
  have plain: "\<forall>x \<in> set (dec_of_nat n). x \<noteq> CHR ''R'' \<and> x \<noteq> NUL" for n
    using dec_of_nat_digits digit_not by blast
  then have "CHR ''R'' \<notin> set ?s" "is_c_string ?s"
    by (auto simp: is_c_string_def)
  moreover have "w_in w = map Byte ?s @ Byte (CHR ''R'') # rest"
    using assms(1) by (simp add: cursor_report_def)
  ultimately have "read_reply 31 (w\<lparr>w_out := w_out w @ csi ''6n''\<rparr>) =
      (?s, w\<lparr>w_out := w_out w @ csi ''6n'', w_in := rest\<rparr>)"
    using read_reply_plain [of "w\<lparr>w_out := w_out w @ csi ''6n''\<rparr>" ?s rest 31] len by simp
  moreover have "c_str ?s = ?s" using \<open>is_c_string ?s\<close> by (rule c_str_id)
  moreover have "scan_pair (dec_of_nat r @ CHR '';'' # dec_of_nat c) = Some (int r, int c)"
    using scan_pair_dec [of r c] by simp
  ultimately show ?thesis
    using assms(2-4) by (simp add: getCursorPosition_def fits_int_def)
qed

text \<open>Neither query touches anything but the input, the output and the pending outcomes.\<close>

definition ask_frame :: "lnworld \<Rightarrow> lnworld \<Rightarrow> bool" where
  "ask_frame w w' \<longleftrightarrow> (\<exists>s i wr. w' = w\<lparr>w_out := w_out w @ s, w_in := i, w_write := wr\<rparr> \<and>
     length i \<le> length (w_in w) \<and> (w_write w = [] \<longrightarrow> wr = []))"

lemma ask_frameI: "w' = w\<lparr>w_out := w_out w @ s, w_in := i, w_write := wr\<rparr> \<Longrightarrow>
   length i \<le> length (w_in w) \<Longrightarrow> (w_write w = [] \<Longrightarrow> wr = []) \<Longrightarrow> ask_frame w w'"
  by (auto simp: ask_frame_def)

lemma ask_frame_refl [simp]: "ask_frame w w"
  by (rule ask_frameI [where s = "[]" and i = "w_in w" and wr = "w_write w"]) simp_all

lemma ask_frame_trans [trans]: "ask_frame w w1 \<Longrightarrow> ask_frame w1 w2 \<Longrightarrow> ask_frame w w2"
  unfolding ask_frame_def by (elim exE conjE) (simp, blast intro: order_trans)

lemma ask_frame_write: "sys_write s w = (ok, w') \<Longrightarrow> ask_frame w w'"
  by (rule ask_frameI [where s = "if ok then s else []" and i = "w_in w" and wr = "w_write w'"])
    (auto simp: sys_write_def split: list.splits if_splits)

lemma ask_frame_read: "sys_read w = (r, w') \<Longrightarrow> ask_frame w w'"
  by (rule ask_frameI [where s = "[]" and i = "w_in w'" and wr = "w_write w"])
    (auto simp: sys_read_def split: list.splits)

lemma ask_frame_read_reply: "read_reply n w = (s, w') \<Longrightarrow> ask_frame w w'"
proof (induction n arbitrary: w s w')
  case (Suc n)
  then show ?case
    by (fastforce split: prod.splits rd.splits if_splits intro: ask_frame_read ask_frame_trans)
qed simp

lemma getCursorPosition_frame: "getCursorPosition w = Some (r, w') \<Longrightarrow> ask_frame w w'"
  by (auto simp: getCursorPosition_def Let_def split: prod.splits if_splits option.splits
      intro: ask_frame_trans [OF ask_frame_write ask_frame_read_reply] ask_frame_write)

lemma getColumns_frame: "getColumns w = Some (c, w') \<Longrightarrow> ask_frame w w'"
proof -
  assume "getColumns w = Some (c, w')"
  then consider "w' = w"
    | start w1 where "getCursorPosition w = Some (start, w1)" "w' = w1"
    | start w1 ok w2 where "getCursorPosition w = Some (start, w1)" "sys_write (csi ''999C'') w1 = (ok, w2)" "w' = w2"
    | start w1 ok w2 cols w3 where "getCursorPosition w = Some (start, w1)" "sys_write (csi ''999C'') w1 = (ok, w2)"
        "getCursorPosition w2 = Some (cols, w3)" "w' = w3"
    | start w1 ok w2 cols w3 s ok' where "getCursorPosition w = Some (start, w1)"
        "sys_write (csi ''999C'') w1 = (ok, w2)" "getCursorPosition w2 = Some (cols, w3)" "sys_write s w3 = (ok', w')"
    by (auto simp: getColumns_def Let_def bind_eq_Some_conv split: option.splits nat.splits prod.splits if_splits)
  then show ?thesis
    by cases (auto intro: ask_frame_trans ask_frame_write dest!: getCursorPosition_frame dest: ask_frame_write)
qed

lemma ask_frame_sess: "ask_frame w w' \<Longrightarrow> sess_frame w w'"
  by (auto simp: ask_frame_def sess_frame_def)

lemma ask_frame_fields [frame_simps]:
  assumes "ask_frame w w'"
  shows "history w' = history w" "history_len w' = history_len w" "history_max_len w' = history_max_len w"
    "w_alloc w' = w_alloc w" "length (w_in w') \<le> length (w_in w)"
  using assms by (auto simp: ask_frame_def)

lemma getColumns_winsize: "w_winsize w = Some (Suc n) \<Longrightarrow> getColumns w = Some (int (Suc n), w)"
  by (simp add: getColumns_def)

text \<open>Without a window size the terminal is asked twice, and the cursor is sent back.\<close>

lemma getColumns_asks:
  assumes "w_winsize w = None \<or> w_winsize w = Some 0" and "w_write w = []"
    and "w_in w = map Byte (cursor_report r s @ cursor_report r' c) @ rest"
    and "r < 2 ^ 31" "s < 2 ^ 31" "r' < 2 ^ 31" "c < 2 ^ 31"
  shows "getColumns w = Some (int c, w\<lparr>w_in := rest, w_out := w_out w @ csi ''6n'' @ csi ''999C'' @ csi ''6n'' @
      (if s < c then csi (dec_of_nat (c - s) @ ''D'') else [])\<rparr>)"
proof -
  let ?w1 = "w\<lparr>w_out := w_out w @ csi ''6n'', w_in := map Byte (cursor_report r' c) @ rest\<rparr>"
  let ?w2 = "?w1\<lparr>w_out := w_out w @ csi ''6n'' @ csi ''999C''\<rparr>"
  have 1: "getCursorPosition w = Some (int s, ?w1)"
    using assms by (intro getCursorPosition_reply [where r = r]) simp_all
  have 2: "getCursorPosition ?w2 = Some (int c, ?w2\<lparr>w_out := w_out ?w2 @ csi ''6n'', w_in := rest\<rparr>)"
    using assms by (intro getCursorPosition_reply [where r = r', THEN trans]) simp_all
  have short: "snprintf 32 (csi (dec_of_int (int c - int s) @ ''D'')) = csi (dec_of_nat (c - s) @ ''D'')" if "s < c"
  proof -
    have "length (dec_of_nat (c - s)) \<le> 10" using assms(7) by (intro length_dec_of_nat) auto
    moreover have "nat (int c - int s) = c - s" by simp
    ultimately show ?thesis using that by (simp add: dec_of_int_def)
  qed
  define w3 where "w3 = ?w2\<lparr>w_out := w_out ?w2 @ csi ''6n'', w_in := rest\<rparr>"
  have wr1: "sys_write (csi ''999C'') ?w1 = (True, ?w2)" using assms(2) by simp
  have wr3: "sys_write t w3 = (True, w3\<lparr>w_out := w_out w3 @ t\<rparr>)" for t
    using assms(2) by (simp add: w3_def)
  have "getColumns w = do {
      (start, w) \<leftarrow> getCursorPosition w;
      if start = -1 then Some (80, w)
      else let (ok, w) = sys_write (csi ''999C'') w in
        if \<not> ok then Some (80, w)
        else do {
          (cols, w) \<leftarrow> getCursorPosition w;
          if cols = -1 then Some (80, w)
          else if cols > start
          then if fits_int (cols - start)
               then let (_, w) = sys_write (snprintf 32 (csi (dec_of_int (cols - start) @ ''D''))) w
                 in Some (cols, w)
               else None
          else Some (cols, w)
        }
    }"
    using assms(1) by (auto simp: getColumns_def)
  also have "\<dots> = (if s < c then Some (int c, w3\<lparr>w_out := w_out w3 @ csi (dec_of_nat (c - s) @ ''D'')\<rparr>)
      else Some (int c, w3))"
    using assms(7) short
    by (simp only: 1 bind.bind_lunit prod.case wr1 Let_def 2 [folded w3_def] wr3 simp_thms if_False of_nat_less_iff)
      (simp add: fits_int_def)
  also have "\<dots> = Some (int c, w\<lparr>w_in := rest, w_out := w_out w @ csi ''6n'' @ csi ''999C'' @ csi ''6n'' @
      (if s < c then csi (dec_of_nat (c - s) @ ''D'') else [])\<rparr>)"
    by (simp add: w3_def)
  finally show ?thesis .
qed

section \<open>Properties\<close>

text \<open>C31. Entering raw mode on a terminal and leaving it again restores every setting the terminal had;
  in between, input bytes are not translated, lines are not edited by the driver and keys send no
  signals.  When entering fails, it returns -1, reports \<open>ENOTTY\<close> and changes no setting.\<close>

theorem raw_mode_roundtrip:
  assumes "enableRawMode w = (r, w1)"
  shows "if r = 0
    then {ICRNL, IXON, ISTRIP} \<inter> c_iflag (w_termios w1) = {} \<and> {ECHO, ICANON, IEXTEN, ISIG} \<inter> c_lflag (w_termios w1) = {} \<and>
      c_vmin (w_termios w1) = 1 \<and>
      (w_tc w1 = [] \<longrightarrow> w_termios (disableRawMode w1) = w_termios w \<and> \<not> rawmode (disableRawMode w1))
    else r = -1 \<and> w_errno w1 = ENOTTY \<and> w_termios w1 = w_termios w"
proof (cases "r = 0")
  case True
  with enableRawMode_fields [of w w1] assms show ?thesis
    using True by (auto simp: disableRawMode_plenty raw_termios_def)
next
  case False
  with enableRawMode_cases [OF assms] show ?thesis by auto
qed

theorem raw_mode_roundtrip_witness:
  "w_termios (disableRawMode (snd (enableRawMode (init_world [] (termios0\<lparr>c_lflag := {ECHO, ICANON}\<rparr>))))) =
    termios0\<lparr>c_lflag := {ECHO, ICANON}\<rparr>"
  using raw_mode_roundtrip [of "init_world [] (termios0\<lparr>c_lflag := {ECHO, ICANON}\<rparr>)" 0
      "snd (enableRawMode (init_world [] (termios0\<lparr>c_lflag := {ECHO, ICANON}\<rparr>)))"]
  by (simp add: enableRawMode_plenty)

text \<open>When the system does not know the width of the terminal, \<open>getColumns\<close> asks the terminal for the
  position of the cursor, moves to the right margin and asks again: from the terminal's two reports
  it returns the column of the second, consumes exactly the reports, and sends the cursor back by the
  distance it was moved.\<close>

theorem columns_from_terminal:
  assumes "w_winsize w = None \<or> w_winsize w = Some 0" and "w_write w = []"
    and "w_in w = map Byte (cursor_report r s @ cursor_report r' c) @ rest"
    and "r < 2 ^ 31" "s < 2 ^ 31" "r' < 2 ^ 31" "c < 2 ^ 31"
  shows "getColumns w = Some (int c, w\<lparr>w_in := rest, w_out := w_out w @ csi ''6n'' @ csi ''999C'' @ csi ''6n'' @
      (if s < c then csi (dec_of_nat (c - s) @ ''D'') else [])\<rparr>)"
  using assms by (rule getColumns_asks)

theorem columns_from_terminal_witness:
  "\<exists>w'. getColumns ((init_world (map Byte (cursor_report 2 3 @ cursor_report 2 5)) termios0)\<lparr>w_winsize := None\<rparr>) =
    Some (5, w') \<and> w_in w' = []"
  using columns_from_terminal [of "(init_world (map Byte (cursor_report 2 3 @ cursor_report 2 5)) termios0)\<lparr>w_winsize := None\<rparr>"
      2 3 2 5 "[]"] by simp

end
