(* ===== verification/Ln_Complete.thy ===== *)
theory Ln_Complete
  imports Ln_Terminal
begin

text \<open>
  Completion: the vector of candidates (\<open>linenoiseCompletions\<close>, \<open>linenoiseAddCompletion\<close>,
  \<open>freeCompletions\<close>), the dialogue of \<open>completeLine\<close> and the functions that register callbacks.  The
  main lemma says which candidate a sequence of keys selects, for candidates that fit in the edited
  buffer; candidates that do not fit leave a line longer than its buffer.
\<close>

section \<open>Callbacks\<close>

definition linenoiseSetCompletionCallback :: "completion_callback option \<Rightarrow> lnworld \<Rightarrow> lnworld" where
  "linenoiseSetCompletionCallback fn w = w\<lparr>completionCallback := fn\<rparr>"

definition linenoiseSetHintsCallback :: "hints_callback option \<Rightarrow> lnworld \<Rightarrow> lnworld" where
  "linenoiseSetHintsCallback fn w = w\<lparr>hintsCallback := fn\<rparr>"

definition linenoiseSetFreeHintsCallback :: "bool \<Rightarrow> lnworld \<Rightarrow> lnworld" where
  "linenoiseSetFreeHintsCallback fn w = w\<lparr>freeHintsCallback := fn\<rparr>"

section \<open>The vector of candidates\<close>

record linenoiseCompletions =
  lc_len :: nat
  lc_cvec :: "hptr list"

definition no_completions :: linenoiseCompletions where
  "no_completions = \<lparr>lc_len = 0, lc_cvec = []\<rparr>"

definition linenoiseAddCompletion ::
  "linenoiseCompletions \<Rightarrow> string \<Rightarrow> lnworld \<Rightarrow> linenoiseCompletions \<times> lnworld" where
  "linenoiseAddCompletion lc str w =
     (let (ok, w) = alloc w in
      if \<not> ok then (lc, w)
      else let (ok, w) = alloc w in
        if \<not> ok then (lc, w)
        else (lc\<lparr>lc_cvec := take (lc_len lc) (lc_cvec lc) @ [Str str], lc_len := lc_len lc + 1\<rparr>, w))"

text \<open>The call \<open>completionCallback(ls->buf, &lc)\<close>.\<close>

fun call_completion ::
  "string list \<Rightarrow> linenoiseCompletions \<Rightarrow> lnworld \<Rightarrow> linenoiseCompletions \<times> lnworld" where
  "call_completion [] lc w = (lc, w)"
| "call_completion (s # ss) lc w =
     (let (lc, w) = linenoiseAddCompletion lc s w in call_completion ss lc w)"

definition freeCompletions :: "linenoiseCompletions \<Rightarrow> unit option" where
  "freeCompletions lc = map_option (\<lambda>_. ()) (hfree_upto (lc_len lc) (lc_cvec lc))"

section \<open>The dialogue\<close>

text \<open>\<open>snprintf(buf, n, "%s", s)\<close> into a block, and the value it returns.\<close>

definition c_snprintf :: "char list \<Rightarrow> nat \<Rightarrow> string \<Rightarrow> char list option" where
  "c_snprintf buf n s =
     (if n = 0 then Some buf
      else if n \<le> length buf
      then Some (take (n - 1) s @ NUL # drop (Suc (min (n - 1) (length s))) buf)
      else None)"

definition snprintf_ret :: "string \<Rightarrow> int" where
  "snprintf_ret s = (if length s < 2 ^ 31 then int (length s) else -1)"

definition candidate :: "linenoiseCompletions \<Rightarrow> nat \<Rightarrow> string option" where
  "candidate lc i = do { p \<leftarrow> mem_get i (lc_cvec lc); deref p }"

text \<open>Show candidate \<open>i\<close>, or the line itself when \<open>i\<close> is past the last one.\<close>

definition showCandidate ::
  "linenoiseCompletions \<Rightarrow> nat \<Rightarrow> linenoiseState \<Rightarrow> lnworld \<Rightarrow> (linenoiseState \<times> lnworld) option" where
  "showCandidate lc i ls w =
     (if i < lc_len lc
      then do {
        let saved = ls;
        s \<leftarrow> candidate lc i;
        (ls, w) \<leftarrow> refreshLine (ls\<lparr>l_len := length s, l_pos := length s, l_buf := s @ [NUL]\<rparr>) w;
        Some (ls\<lparr>l_len := l_len saved, l_pos := l_pos saved, l_buf := l_buf saved\<rparr>, w)
      }
      else refreshLine ls w)"

text \<open>The case \<open>default\<close> of the dialogue.\<close>

definition takeCandidate ::
  "linenoiseCompletions \<Rightarrow> nat \<Rightarrow> linenoiseState \<Rightarrow> linenoiseState option" where
  "takeCandidate lc i ls =
     (if i < lc_len lc
      then do {
        s \<leftarrow> candidate lc i;
        buf \<leftarrow> c_snprintf (l_buf ls) (l_buflen ls) s;
        let n = size_of_int (snprintf_ret s);
        Some (ls\<lparr>l_buf := buf, l_len := n, l_pos := n\<rparr>)
      }
      else Some ls)"

partial_function (option) completeLoop ::
  "linenoiseCompletions \<Rightarrow> nat \<Rightarrow> linenoiseState \<Rightarrow> lnworld \<Rightarrow> (int \<times> linenoiseState \<times> lnworld) option" where
  "completeLoop lc i ls w = do {
     (ls, w) \<leftarrow> showCandidate lc i ls w;
     (case sys_read w of
        (Byte c, w) \<Rightarrow>
          if c = TAB
          then let i = (i + 1) mod (lc_len lc + 1); w = (if i = lc_len lc then linenoiseBeep w else w)
            in completeLoop lc i ls w
          else if c = ESC
          then if i < lc_len lc
            then do { (ls, w) \<leftarrow> refreshLine ls w; Some (int_of_schar c, ls, w) }
            else Some (int_of_schar c, ls, w)
          else do { ls \<leftarrow> takeCandidate lc i ls; Some (int_of_schar c, ls, w) }
      | (_, w) \<Rightarrow> Some (-1, ls, w))
   }"

definition completeLine :: "linenoiseState \<Rightarrow> lnworld \<Rightarrow> (int \<times> linenoiseState \<times> lnworld) option" where
  "completeLine ls w = do {
     cc \<leftarrow> completionCallback w;
     _ \<leftarrow> strlen (l_buf ls);
     let (lc, w) = call_completion (cc (c_str (l_buf ls))) no_completions w;
     (r, ls, w) \<leftarrow> (if lc_len lc = 0 then Some (0, ls, linenoiseBeep w) else completeLoop lc 0 ls w);
     _ \<leftarrow> freeCompletions lc;
     Some (r, ls, w)
   }"

section \<open>The candidates are those the callback gave\<close>

definition lc_rep :: "linenoiseCompletions \<Rightarrow> string list \<Rightarrow> bool" where
  "lc_rep lc cs \<longleftrightarrow> lc_len lc = length cs \<and> lc_cvec lc = map Str cs"

lemma call_completion_rep:
  "w_alloc w = [] \<Longrightarrow> lc_rep lc cs0 \<Longrightarrow>
   \<exists>lc'. call_completion cs lc w = (lc', w) \<and> lc_rep lc' (cs0 @ cs)"
proof (induction cs arbitrary: lc cs0)
  case (Cons s cs)
  have "lc_rep (lc\<lparr>lc_cvec := take (lc_len lc) (lc_cvec lc) @ [Str s], lc_len := lc_len lc + 1\<rparr>) (cs0 @ [s])"
    using Cons.prems(2) by (simp add: lc_rep_def)
  from Cons.IH [OF Cons.prems(1) this] Cons.prems(1) show ?case
    by (auto simp: linenoiseAddCompletion_def)
qed simp

lemma freeCompletions_rep: "lc_rep lc cs \<Longrightarrow> freeCompletions lc = Some ()"
  using hfree_upto_ok [of "length cs" cs "[]"] by (simp add: freeCompletions_def lc_rep_def)

section \<open>Which candidate the keys select\<close>

text \<open>What the dialogue leaves alone.\<close>

definition talk_frame :: "lnworld \<Rightarrow> lnworld \<Rightarrow> bool" where
  "talk_frame w w' \<longleftrightarrow> sess_frame w w' \<and> history w' = history w \<and> history_len w' = history_len w"

lemma talk_frame_refl [simp]: "talk_frame w w"
  by (simp add: talk_frame_def)

lemma talk_frame_trans [trans]: "talk_frame w w1 \<Longrightarrow> talk_frame w1 w2 \<Longrightarrow> talk_frame w w2"
  by (auto simp: talk_frame_def intro: sess_frame_trans)

lemma talk_frame_io: "io_frame w w' \<Longrightarrow> talk_frame w w'"
  by (simp add: talk_frame_def sess_frame_io frame_simps)

lemma talk_frame_in [simp]: "talk_frame w (w\<lparr>w_in := i\<rparr>)" "talk_frame w (w\<lparr>w_err := e\<rparr>)"
  by (simp_all add: talk_frame_def sess_frame_def)

lemma talk_frame_beep [simp]: "talk_frame w (linenoiseBeep w)" "w_in (linenoiseBeep w) = w_in w"
  by (simp_all add: linenoiseBeep_def err_printf_def)

lemma view_ok_talk_frame: "talk_frame w w' \<Longrightarrow> view_ok l w' = view_ok l w"
  by (simp add: talk_frame_def view_ok_sess_frame)

text \<open>States that differ only in the row counts of the multi line mode.\<close>

definition same_text :: "linenoiseState \<Rightarrow> linenoiseState \<Rightarrow> bool" where
  "same_text l l' \<longleftrightarrow>
     edit_frame l l' \<and> l_buf l' = l_buf l \<and> l_pos l' = l_pos l \<and> l_len l' = l_len l \<and>
     l_history_index l' = l_history_index l \<and> l_oldpos l' < 2 ^ 29"

lemma same_textI: "l' = l\<lparr>l_maxrows := mr, l_oldpos := op\<rparr> \<Longrightarrow> op < 2 ^ 29 \<Longrightarrow> same_text l l'"
  by (simp add: same_text_def edit_frame_def)

lemma same_text_facts:
  assumes "same_text l l'"
  shows "ln_inv l \<Longrightarrow> ln_inv l'" "zip_of l' = zip_of l" "edit_frame l l'" "view_ok l' w = view_ok l w"
    "l_history_index l' = l_history_index l" "l_buf l' = l_buf l" "l_buflen l' = l_buflen l"
  using assms by (simp_all add: same_text_def ln_inv_def zip_of_def edit_frame_def view_ok_def)

lemma same_text_trans [trans]: "same_text l l1 \<Longrightarrow> same_text l1 l2 \<Longrightarrow> same_text l l2"
  by (auto simp: same_text_def intro: edit_frame_trans)

definition fitting :: "nat \<Rightarrow> string list \<Rightarrow> bool" where
  "fitting n cs \<longleftrightarrow> list_all (\<lambda>s. is_c_string s \<and> length s < n) cs"

lemma candidate_rep: "lc_rep lc cs \<Longrightarrow> i < length cs \<Longrightarrow> candidate lc i = Some (cs ! i)"
  by (simp add: lc_rep_def candidate_def)

lemma same_line_text: "same_line l l' \<Longrightarrow> ln_inv l \<Longrightarrow> same_text l l'"
  by (auto simp: same_line_def same_text_def edit_frame_def ln_inv_def)

lemma refreshLine_text:
  assumes "ln_inv l" "view_ok l w"
  shows "ok_with (refreshLine l w) (\<lambda>(l', w'). same_text l l' \<and> talk_frame w w' \<and> w_in w' = w_in w)"
proof (rule refreshLine_wp)
  fix l' w'
  assume "same_line l l'" "io_frame w w'"
  then show "case (l', w') of (l', w') \<Rightarrow> same_text l l' \<and> talk_frame w w' \<and> w_in w' = w_in w"
    using assms(1) by (simp add: same_line_text talk_frame_io io_frame_fields [of w w'])
qed (use assms in \<open>auto intro: ln_inv_shown_ok\<close>)

lemma showCandidate_ok:
  assumes "ln_inv ls" "view_ok ls w" "lc_rep lc cs" "fitting (l_buflen ls) cs"
  shows "ok_with (showCandidate lc i ls w)
    (\<lambda>(ls', w'). same_text ls ls' \<and> talk_frame w w' \<and> w_in w' = w_in w)"
proof (cases "i < length cs")
  case False
  with assms refreshLine_text [OF assms(1,2)] show ?thesis
    by (simp add: showCandidate_def lc_rep_def)
next
  case True
  define s where "s = cs ! i"
  have s: "candidate lc i = Some s" "is_c_string s" "length s < l_buflen ls" "lc_len lc = length cs"
    using True assms(3,4) candidate_rep [OF assms(3) True]
    by (auto simp: s_def fitting_def list_all_length lc_rep_def)
  let ?l = "ls\<lparr>l_len := length s, l_pos := length s, l_buf := s @ [NUL]\<rparr>"
  have "shown_ok ?l" "view_ok ?l w"
    using assms(1,2) s(3) by (auto simp: shown_ok_def ln_inv_def view_ok_def)
  then have "ok_with (refreshLine ?l w) (\<lambda>(l', w'). same_line ?l l' \<and> io_frame w w')"
    by (rule refreshLine_wp) simp
  then obtain l' w' where r: "refreshLine ?l w = Some (l', w')" "same_line ?l l'" "io_frame w w'"
    by (auto simp: ok_with_def)
  from r(2) obtain mr op where "l' = ?l\<lparr>l_maxrows := mr, l_oldpos := op\<rparr>" "op = l_oldpos ls \<or> op = length s"
    by (auto simp: same_line_def)
  then have "same_text ls (l'\<lparr>l_len := l_len ls, l_pos := l_pos ls, l_buf := l_buf ls\<rparr>)"
    using assms(1) s(3) by (intro same_textI [where mr = mr and op = op]) (auto simp: ln_inv_def)
  with True s r(1,3) show ?thesis
    by (simp add: showCandidate_def talk_frame_io frame_simps)
qed

lemma takeCandidate_ok:
  assumes "ln_inv ls" "lc_rep lc cs" "fitting (l_buflen ls) cs"
  shows "ok_with (takeCandidate lc i ls) (\<lambda>ls'. ln_inv ls' \<and> edit_frame ls ls' \<and>
    l_history_index ls' = l_history_index ls \<and>
    zip_of ls' = (if i < length cs then (cs ! i, []) else zip_of ls))"
proof (cases "i < length cs")
  case False
  with assms show ?thesis by (simp add: takeCandidate_def lc_rep_def)
next
  case True
  define s where "s = cs ! i"
  have s: "candidate lc i = Some s" "length s < l_buflen ls" "lc_len lc = length cs"
    using True assms(2,3) candidate_rep [OF assms(2) True]
    by (auto simp: s_def fitting_def list_all_length lc_rep_def)
  have inv: "l_buflen ls < 2 ^ 29" "length (l_buf ls) = Suc (l_buflen ls)" "l_oldpos ls < 2 ^ 29"
    using assms(1) by (auto simp: ln_inv_def)
  define r where "r = drop (Suc (length s)) (l_buf ls)"
  let ?ls = "ls\<lparr>l_buf := s @ NUL # r, l_len := length s, l_pos := length s\<rparr>"
  have "c_snprintf (l_buf ls) (l_buflen ls) s = Some (s @ NUL # r)"
    using s(2) inv by (simp add: c_snprintf_def r_def min_absorb2)
  moreover have "size_of_int (snprintf_ret s) = length s"
    using s(2) inv by (simp add: snprintf_ret_def)
  ultimately have "takeCandidate lc i ls = Some ?ls"
    using True s by (simp add: takeCandidate_def Let_def)
  moreover have "ln_inv ?ls" "zip_of ?ls = (s, [])"
    using s(2) inv by (intro ln_invI [of ?ls s "[]" r]; simp add: r_def)+
  ultimately show ?thesis using True by (simp add: edit_frame_def s_def)
qed

text \<open>The outcome of the dialogue that shows candidate \<open>i\<close> and then reads \<open>inp\<close>.\<close>

definition selected :: "string list \<Rightarrow> nat \<Rightarrow> rd list \<Rightarrow> zipper \<Rightarrow> zipper" where
  "selected cs j inp z =
     (case inp of Byte c # _ \<Rightarrow> if c = ESC \<or> length cs \<le> j then z else (cs ! j, []) | _ \<Rightarrow> z)"

definition key_value :: "rd list \<Rightarrow> int" where
  "key_value inp = (case inp of Byte c # _ \<Rightarrow> int_of_schar c | _ \<Rightarrow> -1)"

definition completed ::
  "string list \<Rightarrow> nat \<Rightarrow> rd list \<Rightarrow> linenoiseState \<Rightarrow> lnworld \<Rightarrow> int \<times> linenoiseState \<times> lnworld \<Rightarrow> bool" where
  "completed cs j inp ls w = (\<lambda>(r, ls', w').
     r = key_value inp \<and> ln_inv ls' \<and> edit_frame ls ls' \<and> l_history_index ls' = l_history_index ls \<and>
     talk_frame w w' \<and> w_in w' = tl inp \<and> zip_of ls' = selected cs j inp (zip_of ls))"

lemma completed_same_text:
  "completed cs j inp ls' w' x \<Longrightarrow> same_text ls ls' \<Longrightarrow> talk_frame w w' \<Longrightarrow> completed cs j inp ls w x"
  by (auto simp: completed_def same_text_facts dest: same_text_facts(3)
      intro: edit_frame_trans talk_frame_trans split: prod.splits)

lemma completeLoop_last:
  assumes "ln_inv ls" "view_ok ls w" "lc_rep lc cs" "fitting (l_buflen ls) cs"
    and "w_in w = inp" and "inp = [] \<or> hd inp \<noteq> Byte TAB"
  shows "ok_with (completeLoop lc i ls w) (completed cs i inp ls w)"
proof -
  obtain ls1 w1 where show1: "showCandidate lc i ls w = Some (ls1, w1)" "same_text ls ls1" "talk_frame w w1"
      "w_in w1 = w_in w"
    using showCandidate_ok [OF assms(1-4), of i] by (auto simp: ok_with_def)
  note facts1 = same_text_facts [OF show1(2)]
  have inv1: "ln_inv ls1" "view_ok ls1 w1" "fitting (l_buflen ls1) cs"
    using facts1 assms show1(3) by (auto simp: view_ok_talk_frame)
  show ?thesis
  proof (cases "\<exists>c rest. inp = Byte c # rest")
    case False
    then obtain w2 where rd: "sys_read w1 = (Eof, w2) \<or> sys_read w1 = (RdErr, w2)"
        "talk_frame w w2" "w_in w2 = tl inp"
      using assms(5) show1(3,4) talk_frame_trans [OF show1(3) talk_frame_in(1)]
      by (cases inp; cases "hd inp") (auto simp: sys_read_def)
    have "key_value inp = -1" "selected cs i inp z = z" for z
      using False by (auto simp: key_value_def selected_def split: list.split rd.split)
    then have "completed cs i inp ls w (-1, ls1, w2)"
      using rd(2,3) facts1 assms(1) by (simp add: completed_def)
    moreover have "completeLoop lc i ls w = Some (-1, ls1, w2)"
      by (subst completeLoop.simps) (use rd(1) show1(1) in auto)
    ultimately show ?thesis by simp
  next
    case True
    then obtain c rest where inp: "inp = Byte c # rest" by blast
    let ?w = "w1\<lparr>w_in := rest\<rparr>"
    have rd: "sys_read w1 = (Byte c, ?w)" "c \<noteq> TAB" "talk_frame w ?w"
      using assms(5,6) show1 inp by (auto simp: sys_read_def intro: talk_frame_trans)
    have view: "view_ok ls1 ?w" using inv1(2) by (simp add: view_ok_talk_frame [OF talk_frame_in(1)])
    have esc: "ok_with (refreshLine ls1 ?w) (\<lambda>(l', w'). same_text ls l' \<and> talk_frame w w' \<and> w_in w' = rest)"
      using refreshLine_text [OF inv1(1) view] show1(2) rd(3)
      by (auto elim!: ok_with_mono intro: same_text_trans talk_frame_trans)
    have take: "ok_with (takeCandidate lc i ls1) (\<lambda>ls'. ln_inv ls' \<and> edit_frame ls ls' \<and>
        l_history_index ls' = l_history_index ls \<and>
        zip_of ls' = (if i < length cs then (cs ! i, []) else zip_of ls))"
      using facts1(2,5) edit_frame_trans [OF facts1(3)]
      by (intro ok_with_mono [OF takeCandidate_ok [OF inv1(1) assms(3) inv1(3), of i]]) simp
    have len: "lc_len lc = length cs" using assms(3) by (simp add: lc_rep_def)
    have sel: "completed cs i inp ls w (int_of_schar ESC, l', w')"
      if "c = ESC" "same_text ls l'" "talk_frame w w'" "w_in w' = rest" for l' w'
      using that assms(1) same_text_facts [OF that(2)]
      by (simp add: completed_def key_value_def selected_def inp)
    show ?thesis
    proof (cases "c = ESC")
      case True
      with show1(1,2) rd esc sel len show ?thesis
        by (subst completeLoop.simps) (auto simp: elim!: ok_with_mono)
    next
      case False
      with show1(1) rd take inp show ?thesis
        by (subst completeLoop.simps)
          (auto simp: completed_def key_value_def selected_def elim!: ok_with_mono)
    qed
  qed
qed

lemma completeLoop_ok:
  assumes "ln_inv ls" "view_ok ls w" "lc_rep lc cs" "fitting (l_buflen ls) cs"
    and "w_in w = replicate k (Byte TAB) @ inp" and "inp = [] \<or> hd inp \<noteq> Byte TAB" and "i \<le> length cs"
  shows "ok_with (completeLoop lc i ls w) (completed cs ((i + k) mod Suc (length cs)) inp ls w)"
  using assms
proof (induction k arbitrary: i ls w)
  case 0
  with completeLoop_last [OF 0(1-4), of inp i] show ?case by simp
next
  case (Suc k)
  obtain ls1 w1 where show1: "showCandidate lc i ls w = Some (ls1, w1)" "same_text ls ls1" "talk_frame w w1"
      "w_in w1 = w_in w"
    using showCandidate_ok [OF Suc.prems(1-4), of i] by (auto simp: ok_with_def)
  note facts1 = same_text_facts [OF show1(2)]
  define w2 where "w2 = w1\<lparr>w_in := replicate k (Byte TAB) @ inp\<rparr>"
  define i' where "i' = Suc i mod Suc (length cs)"
  define w3 where "w3 = (if i' = length cs then linenoiseBeep w2 else w2)"
  have rd: "sys_read w1 = (Byte TAB, w2)"
    using Suc.prems(5) show1(4) by (simp add: sys_read_def w2_def)
  have w3: "talk_frame w w3" "w_in w3 = replicate k (Byte TAB) @ inp"
    using talk_frame_trans [OF show1(3) talk_frame_in(1)] talk_frame_trans [OF _ talk_frame_beep(1), of w w2]
    by (auto simp: w3_def w2_def)
  have len: "lc_len lc = length cs" using Suc.prems(3) by (simp add: lc_rep_def)
  have step: "completeLoop lc i ls w = completeLoop lc i' ls1 w3"
    by (subst completeLoop.simps) (simp add: show1(1) rd len i'_def w3_def Let_def)
  have view: "view_ok ls1 w3"
    using facts1(4) w3(1) Suc.prems(2) by (simp add: view_ok_talk_frame)
  have "ok_with (completeLoop lc i' ls1 w3) (completed cs ((i' + k) mod Suc (length cs)) inp ls1 w3)"
  proof (rule Suc.IH)
    show "i' \<le> length cs" using mod_less_divisor [of "Suc (length cs)" "Suc i"] by (simp add: i'_def)
    show "fitting (l_buflen ls1) cs" using Suc.prems(4) facts1(7) by simp
  qed (use Suc.prems facts1 view w3 in auto)
  moreover have "(i' + k) mod Suc (length cs) = (i + Suc k) mod Suc (length cs)"
    unfolding i'_def by (metis add_Suc_shift mod_add_left_eq)
  ultimately show ?case
    unfolding step using completed_same_text [OF _ show1(2) w3(1)] by (auto elim: ok_with_mono)
qed

lemma completeLine_ok:
  assumes "ln_inv ls" "view_ok ls w" "w_alloc w = []" "completionCallback w = Some cc"
    and "cs = cc (c_str (l_buf ls))" and "cs \<noteq> []" and "fitting (l_buflen ls) cs"
    and "w_in w = replicate k (Byte TAB) @ inp" and "inp = [] \<or> hd inp \<noteq> Byte TAB"
  shows "ok_with (completeLine ls w) (completed cs (k mod Suc (length cs)) inp ls w)"
proof -
  obtain lc where lc: "call_completion cs no_completions w = (lc, w)" "lc_rep lc cs"
    using call_completion_rep [OF assms(3), of no_completions "[]" cs]
    by (auto simp: no_completions_def lc_rep_def)
  then have len: "lc_len lc \<noteq> 0" using assms(6) by (simp add: lc_rep_def)
  have "ok_with (completeLoop lc 0 ls w) (completed cs (k mod Suc (length cs)) inp ls w)"
    using completeLoop_ok [OF assms(1,2) lc(2) assms(7,8,9), of 0] by simp
  then show ?thesis
    using lc len assms(4) NUL_in_buf [OF assms(1)]
    by (auto simp: completeLine_def strlen_def freeCompletions_rep assms(5) elim!: ok_withE)
qed

lemma completeLine_none:
  assumes "ln_inv ls" "completionCallback w = Some cc" "cc (c_str (l_buf ls)) = []"
  shows "completeLine ls w = Some (0, ls, linenoiseBeep w)"
  using assms NUL_in_buf [OF assms(1)]
  by (simp add: completeLine_def strlen_def no_completions_def freeCompletions_def)

lemma split_tabs: "\<exists>k inp. xs = replicate k (Byte TAB) @ inp \<and> (inp = [] \<or> hd inp \<noteq> Byte TAB)"
proof (induction xs)
  case (Cons x xs)
  show ?case
  proof (cases "x = Byte TAB")
    case True
    from Cons obtain k inp where "xs = replicate k (Byte TAB) @ inp" "inp = [] \<or> hd inp \<noteq> Byte TAB" by blast
    with True show ?thesis by (intro exI [of _ "Suc k"] exI [of _ inp]) simp
  next
    case False
    then show ?thesis by (intro exI [of _ 0] exI [of _ "x # xs"]) simp
  qed
qed simp

definition completion_ok :: "nat \<Rightarrow> lnworld \<Rightarrow> bool" where
  "completion_ok n w \<longleftrightarrow> (\<forall>cc s. completionCallback w = Some cc \<longrightarrow> fitting n (cc s))"

text \<open>Whatever the keys: the dialogue ends, and leaves a sound line.\<close>

lemma completeLine_sound:
  assumes "ln_inv ls" "view_ok ls w" "w_alloc w = []" "completionCallback w \<noteq> None"
    and "completion_ok (l_buflen ls) w"
  shows "ok_with (completeLine ls w) (\<lambda>(r, ls', w'). ln_inv ls' \<and> edit_frame ls ls' \<and>
    l_history_index ls' = l_history_index ls \<and> talk_frame w w' \<and> length (w_in w') \<le> length (w_in w))"
proof -
  obtain cc where cc: "completionCallback w = Some cc" using assms(4) by auto
  show ?thesis
  proof (cases "cc (c_str (l_buf ls)) = []")
    case True
    with assms(1) cc completeLine_none show ?thesis by simp
  next
    case False
    obtain k inp where inp: "w_in w = replicate k (Byte TAB) @ inp" "inp = [] \<or> hd inp \<noteq> Byte TAB"
      using split_tabs [of "w_in w"] by blast
    have "fitting (l_buflen ls) (cc (c_str (l_buf ls)))"
      using assms(5) cc by (simp add: completion_ok_def)
    from completeLine_ok [OF assms(1-3) cc refl False this inp] show ?thesis
      by (rule ok_with_mono) (auto simp: completed_def inp(1))
  qed
qed

text \<open>A candidate as long as the buffer leaves a line that is not sound: longer than what is in it.\<close>

lemma takeCandidate_too_long:
  assumes "ln_inv ls" "candidate lc i = Some s" "i < lc_len lc" "l_buflen ls \<le> length s" "length s < 2 ^ 31"
  shows "ok_with (takeCandidate lc i ls)
    (\<lambda>ls'. l_len ls' = length s \<and> strlen (l_buf ls') = Some (length (c_str (take (l_buflen ls - 1) s))))"
proof -
  have inv: "0 < l_buflen ls" "length (l_buf ls) = Suc (l_buflen ls)" using assms(1) by (auto simp: ln_inv_def)
  have "c_str (t @ NUL # r) = c_str t" for t r
    by (induction t) (auto simp: c_str_def)
  then show ?thesis
    using assms inv by (simp add: takeCandidate_def c_snprintf_def snprintf_ret_def strlen_def Let_def)
qed

section \<open>Properties\<close>

text \<open>C28. The completion dialogue, with candidates that fit in the buffer: after \<open>k\<close> more tabs and another
  key, the candidate of number \<open>k\<close> (counted cyclically, the original line after the last candidate)
  has become the line, unless the key is the escape key, which leaves the original line; the key is
  returned to be handled next, and neither the history nor any setting has changed.\<close>

theorem completion_dialogue:
  assumes "ln_inv ls" and "view_ok ls w" and "w_alloc w = []" and "completionCallback w = Some cc"
    and "cs = cc (c_str (l_buf ls))" and "cs \<noteq> []" and "fitting (l_buflen ls) cs"
    and "w_in w = replicate k (Byte TAB) @ Byte c # rest" and "c \<noteq> TAB"
  shows "\<exists>ls' w'. completeLine ls w = Some (int_of_schar c, ls', w') \<and> ln_inv ls' \<and> edit_frame ls ls' \<and>
    talk_frame w w' \<and> w_in w' = rest \<and>
    (let j = k mod (length cs + 1)
     in zip_of ls' = (if c = ESC \<or> j = length cs then zip_of ls else (cs ! j, [])))"
proof -
  have "k mod Suc (length cs) < Suc (length cs)" by (rule mod_less_divisor) simp
  then have j: "(length cs \<le> k mod Suc (length cs)) = (k mod Suc (length cs) = length cs)" by linarith
  have "ok_with (completeLine ls w) (completed cs (k mod Suc (length cs)) (Byte c # rest) ls w)"
    using assms by (intro completeLine_ok) simp_all
  then show ?thesis
    using j by (auto simp: ok_with_def completed_def key_value_def selected_def Let_def)
qed

theorem completion_dialogue_witness:
  "\<exists>ls' w'. completeLine (fresh_line 8 ''> '' 80)
      ((init_world [Byte TAB, Byte CR] termios0)\<lparr>completionCallback := Some (\<lambda>_. [''foo'', ''bar''])\<rparr>) = Some (13, ls', w') \<and>
    zip_of ls' = (''bar'', [])"
proof -
  let ?w = "(init_world [Byte TAB, Byte CR] termios0)\<lparr>completionCallback := Some (\<lambda>_. [''foo'', ''bar''])\<rparr>"
  have "view_ok (fresh_line 8 ''> '' 80) ?w" "ln_inv (fresh_line 8 ''> '' 80)" by (simp_all add: fresh_line_ok)
  moreover have "fitting 8 [''foo'', ''bar'']" by (simp add: fitting_def is_c_string_def)
  ultimately show ?thesis
    using completion_dialogue [of "fresh_line 8 ''> '' 80" ?w "\<lambda>_. [''foo'', ''bar'']" "[''foo'', ''bar'']" 1 CR "[]"]
    by (simp add: fresh_line_ok int_of_schar_def) blast
qed

text \<open>C39. A candidate as long as the buffer or longer, accepted with a key: the length of the line becomes
  the length of the candidate although only a part of it was copied, so the line is no longer sound,
  and for a longer one the next kill (ctrl-k with the cursor where the candidate ended) writes
  outside the buffer.\<close>

theorem long_candidate_breaks_line:
  assumes "ln_inv ls" and "candidate lc i = Some s" and "i < lc_len lc" and "l_buflen ls < length s"
    and "length s < 2 ^ 31"
  shows "\<exists>ls'. takeCandidate lc i ls = Some ls' \<and> l_len ls' = length s \<and> l_pos ls' = length s \<and>
    l_buflen ls' < l_len ls' \<and> editKillEol ls' w = None"
proof -
  have inv: "0 < l_buflen ls" "length (l_buf ls) = Suc (l_buflen ls)" using assms(1) by (auto simp: ln_inv_def)
  then obtain buf where buf: "c_snprintf (l_buf ls) (l_buflen ls) s = Some buf" "length buf = Suc (l_buflen ls)"
    using assms(4) by (auto simp: c_snprintf_def)
  let ?ls = "ls\<lparr>l_buf := buf, l_len := length s, l_pos := length s\<rparr>"
  have "takeCandidate lc i ls = Some ?ls"
    using assms buf(1) by (simp add: takeCandidate_def snprintf_ret_def Let_def)
  moreover have "editKillEol ?ls w = None"
    using buf(2) assms(4) by (simp add: editKillEol_def mem_set_def)
  ultimately show ?thesis using assms(4) by (intro exI [of _ ?ls]) simp
qed

theorem long_candidate_breaks_line_witness:
  "\<exists>ls'. takeCandidate \<lparr>lc_len = 1, lc_cvec = [Str ''abcdef'']\<rparr> 0 (fresh_line 4 ''> '' 80) = Some ls' \<and>
    editKillEol ls' (init_world [] termios0) = None"
  using long_candidate_breaks_line [of "fresh_line 4 ''> '' 80" "\<lparr>lc_len = 1, lc_cvec = [Str ''abcdef'']\<rparr>" 0 "''abcdef''"
      "init_world [] termios0"]
  by (auto simp: fresh_line_ok candidate_def)

end
