(* ===== verification/Ln_Loop.thy ===== *)
theory Ln_Loop
  imports Ln_Complete
begin

text \<open>
  \<open>linenoiseEdit\<close>: the dispatch of keys and escape sequences, and the loop that reads them.  The
  specification is an abstract editor (\<open>spec_loop\<close>) whose state is the list of lines of the history,
  the index of the edited one and a cursor between two strings; it decodes the input by tables and
  applies \<open>z_apply\<close>, \<open>history_step\<close> and \<open>selected\<close>.  The main lemma is the refinement: from sound states,
  with allocations and writes that succeed and inputs without truncated escape sequences, the loop of the code returns, never does anything
  undefined, and returns what the abstract editor returns.
\<close>

section \<open>The key dispatch\<close>

text \<open>\<open>enum KEY_ACTION\<close>; \<open>ESC\<close> and \<open>TAB\<close> are abbreviations of \<open>Ln_Refresh\<close>.\<close>

abbreviation CTRL_A :: char where "CTRL_A \<equiv> CHR 0x01"
abbreviation CTRL_B :: char where "CTRL_B \<equiv> CHR 0x02"
abbreviation CTRL_C :: char where "CTRL_C \<equiv> CHR 0x03"
abbreviation CTRL_D :: char where "CTRL_D \<equiv> CHR 0x04"
abbreviation CTRL_E :: char where "CTRL_E \<equiv> CHR 0x05"
abbreviation CTRL_F :: char where "CTRL_F \<equiv> CHR 0x06"
abbreviation CTRL_H :: char where "CTRL_H \<equiv> CHR 0x08"
abbreviation CTRL_K :: char where "CTRL_K \<equiv> CHR 0x0B"
abbreviation CTRL_L :: char where "CTRL_L \<equiv> CHR 0x0C"
abbreviation ENTER :: char where "ENTER \<equiv> CHR 0x0D"
abbreviation CTRL_N :: char where "CTRL_N \<equiv> CHR 0x0E"
abbreviation CTRL_P :: char where "CTRL_P \<equiv> CHR 0x10"
abbreviation CTRL_T :: char where "CTRL_T \<equiv> CHR 0x14"
abbreviation CTRL_U :: char where "CTRL_U \<equiv> CHR 0x15"
abbreviation CTRL_W :: char where "CTRL_W \<equiv> CHR 0x17"
abbreviation BACKSPACE :: char where "BACKSPACE \<equiv> CHR 0x7F"

text \<open>What one round of the loop ends with: another round, or a return.\<close>

datatype round = Again linenoiseState lnworld | Ret int linenoiseState lnworld

definition editEnter :: "linenoiseState \<Rightarrow> lnworld \<Rightarrow> round option" where
  "editEnter l w = do {
     let w = w\<lparr>history_len := history_len w - 1\<rparr>;
     hs \<leftarrow> history w;
     hs \<leftarrow> hfree (history_len w) hs;
     let w = w\<lparr>history := Some hs\<rparr>;
     (l, w) \<leftarrow> (if mlmode w then linenoiseEditMoveEnd l w else Some (l, w));
     (l, w) \<leftarrow> (case hintsCallback w of
                  None \<Rightarrow> Some (l, w)
                | Some hc \<Rightarrow> do {
                    (l, w) \<leftarrow> refreshLine l (w\<lparr>hintsCallback := None\<rparr>);
                    Some (l, w\<lparr>hintsCallback := Some hc\<rparr>)
                  });
     Some (Ret (int_of_size (l_len l)) l w)
   }"

definition editCtrlD :: "linenoiseState \<Rightarrow> lnworld \<Rightarrow> round option" where
  "editCtrlD l w =
     (if l_len l > 0 then do { (l, w) \<leftarrow> linenoiseEditDelete l w; Some (Again l w) }
      else do {
        let w = w\<lparr>history_len := history_len w - 1\<rparr>;
        hs \<leftarrow> history w;
        hs \<leftarrow> hfree (history_len w) hs;
        let w = w\<lparr>history := Some hs\<rparr>;
        Some (Ret (-1) l (w\<lparr>data_status := ctrl_D\<rparr>))
      })"

text \<open>\<open>read(l.ifd, seq + j, 1)\<close>: None when it returns -1; after an end of file the byte is
  indeterminate.\<close>

definition read_seq :: "lnworld \<Rightarrow> char option option \<times> lnworld" where
  "read_seq w =
     (case sys_read w of
        (Byte c, w) \<Rightarrow> (Some (Some c), w)
      | (Eof, w) \<Rightarrow> (Some None, w)
      | (RdErr, w) \<Rightarrow> (None, w))"

definition escBracket :: "char \<Rightarrow> linenoiseState \<Rightarrow> lnworld \<Rightarrow> (linenoiseState \<times> lnworld) option" where
  "escBracket c l w =
     (if is_digit c
      then (case read_seq w of
              (None, w) \<Rightarrow> Some (l, w)
            | (Some s2, w) \<Rightarrow> do {
                c2 \<leftarrow> s2;
                if c2 = CHR ''~'' then if c = CHR ''3'' then linenoiseEditDelete l w else Some (l, w)
                else Some (l, w)
              })
      else if c = CHR ''A'' then linenoiseEditHistoryNext l LINENOISE_HISTORY_PREV w
      else if c = CHR ''B'' then linenoiseEditHistoryNext l LINENOISE_HISTORY_NEXT w
      else if c = CHR ''C'' then linenoiseEditMoveRight l w
      else if c = CHR ''D'' then linenoiseEditMoveLeft l w
      else if c = CHR ''H'' then linenoiseEditMoveHome l w
      else if c = CHR ''F'' then linenoiseEditMoveEnd l w
      else Some (l, w))"

definition editEscape :: "linenoiseState \<Rightarrow> lnworld \<Rightarrow> (linenoiseState \<times> lnworld) option" where
  "editEscape l w =
     (case read_seq w of
        (None, w) \<Rightarrow> Some (l, w)
      | (Some s0, w) \<Rightarrow>
          (case read_seq w of
             (None, w) \<Rightarrow> Some (l, w)
           | (Some s1, w) \<Rightarrow> do {
               c0 \<leftarrow> s0;
               if c0 = CHR ''['' then do { c1 \<leftarrow> s1; escBracket c1 l w }
               else if c0 = CHR ''O'' then do {
                 c1 \<leftarrow> s1;
                 if c1 = CHR ''H'' then linenoiseEditMoveHome l w
                 else if c1 = CHR ''F'' then linenoiseEditMoveEnd l w
                 else Some (l, w)
               }
               else Some (l, w)
             }))"

definition again :: "(linenoiseState \<times> lnworld) option \<Rightarrow> round option" where
  "again m = do { (l, w) \<leftarrow> m; Some (Again l w) }"

definition editKey :: "char \<Rightarrow> linenoiseState \<Rightarrow> lnworld \<Rightarrow> round option" where
  "editKey c l w =
     (if c = ENTER then editEnter l w
      else if c = CTRL_C then Some (Ret (-1) l (w\<lparr>w_errno := EAGAIN, data_status := ctrl_C\<rparr>))
      else if c = BACKSPACE \<or> c = CTRL_H then again (linenoiseEditBackspace l w)
      else if c = CTRL_D then editCtrlD l w
      else if c = CTRL_T then again (editTranspose l w)
      else if c = CTRL_B then again (linenoiseEditMoveLeft l w)
      else if c = CTRL_F then again (linenoiseEditMoveRight l w)
      else if c = CTRL_P then again (linenoiseEditHistoryNext l LINENOISE_HISTORY_PREV w)
      else if c = CTRL_N then again (linenoiseEditHistoryNext l LINENOISE_HISTORY_NEXT w)
      else if c = ESC then again (editEscape l w)
      else if c = CTRL_U then again (editKillLine l w)
      else if c = CTRL_K then again (editKillEol l w)
      else if c = CTRL_A then again (linenoiseEditMoveHome l w)
      else if c = CTRL_E then again (linenoiseEditMoveEnd l w)
      else if c = CTRL_L then again (refreshLine l (linenoiseClearScreen w))
      else if c = CTRL_W then again (linenoiseEditDeletePrevWord l w)
      else do {
        (st, l, w) \<leftarrow> linenoiseEditInsert l c w;
        Some (if st \<noteq> 0 then Ret (-1) l w else Again l w)
      })"

text \<open>The assignment of an \<open>int\<close> to a \<open>char\<close>.\<close>

definition char_of_int :: "int \<Rightarrow> char" where
  "char_of_int r = char_of (nat (r mod 256))"

definition editRound :: "linenoiseState \<Rightarrow> lnworld \<Rightarrow> round option" where
  "editRound l w =
     (case sys_read w of
        (Byte c, w) \<Rightarrow>
          if c = TAB \<and> completionCallback w \<noteq> None
          then do {
            (r, l, w) \<leftarrow> completeLine l w;
            let c = char_of_int r;
            if int_of_schar c < 0 then Some (Ret (int_of_size (l_len l)) l w)
            else if int_of_schar c = 0 then Some (Again l w)
            else editKey c l w
          }
          else editKey c l w
      | (_, w) \<Rightarrow> Some (Ret (int_of_size (l_len l)) l w))"

partial_function (option) editLoop ::
  "linenoiseState \<Rightarrow> lnworld \<Rightarrow> (int \<times> linenoiseState \<times> lnworld) option" where
  "editLoop l w = do {
     r \<leftarrow> editRound l w;
     (case r of Again l w \<Rightarrow> editLoop l w | Ret n l w \<Rightarrow> Some (n, l, w))
   }"

definition linenoiseEdit ::
  "int \<Rightarrow> int \<Rightarrow> char list \<Rightarrow> nat \<Rightarrow> string \<Rightarrow> lnworld \<Rightarrow> (int \<times> linenoiseState \<times> lnworld) option" where
  "linenoiseEdit stdin_fd stdout_fd buf buflen prompt w = do {
     (cols, w) \<leftarrow> getColumns w;
     let l = \<lparr>l_ifd = stdin_fd, l_ofd = stdout_fd, l_buf = buf, l_buflen = buflen, l_prompt = prompt,
              l_plen = length prompt, l_pos = 0, l_oldpos = 0, l_len = 0, l_cols = size_of_int cols,
              l_maxrows = 0, l_history_index = 0\<rparr>;
     buf \<leftarrow> mem_set 0 NUL (l_buf l);
     let l = l\<lparr>l_buf := buf, l_buflen := size_sub (l_buflen l) 1\<rparr>;
     (_, w) \<leftarrow> linenoiseHistoryAdd [] w;
     let (ok, w) = sys_write prompt w;
     if \<not> ok then Some (-1, l, w) else editLoop l w
   }"

section \<open>The abstract editor\<close>

type_synonym abs_state = "string list \<times> int \<times> zipper"

text \<open>The value returned, the lines of the history, the edited line, the status that was set, and the
  input that is left.\<close>

type_synonym abs_result = "int \<times> string list \<times> string \<times> linenoiseStatus option \<times> rd list"

datatype action = Edit edit_cmd | Browse int | Idle | Accept | Interrupt | EndOrDelete

definition key_table :: "(char \<times> action) list" where
  "key_table =
     [(CR, Accept), (CTRL_C, Interrupt), (CTRL_D, EndOrDelete), (CHR 0x7F, Edit Backspace),
      (CHR 0x08, Edit Backspace), (CHR 0x14, Edit Transpose), (CHR 0x02, Edit MoveLeft),
      (CHR 0x06, Edit MoveRight), (CHR 0x10, Browse LINENOISE_HISTORY_PREV),
      (CHR 0x0E, Browse LINENOISE_HISTORY_NEXT), (CHR 0x15, Edit KillLine), (CHR 0x0B, Edit KillEol),
      (CHR 0x01, Edit MoveHome), (CHR 0x05, Edit MoveEnd), (CHR 0x0C, Idle), (CHR 0x17, Edit KillPrevWord)]"

definition bracket_table :: "(char \<times> action) list" where
  "bracket_table =
     [(CHR ''A'', Browse LINENOISE_HISTORY_PREV), (CHR ''B'', Browse LINENOISE_HISTORY_NEXT),
      (CHR ''C'', Edit MoveRight), (CHR ''D'', Edit MoveLeft), (CHR ''H'', Edit MoveHome),
      (CHR ''F'', Edit MoveEnd)]"

definition o_table :: "(char \<times> action) list" where
  "o_table = [(CHR ''H'', Edit MoveHome), (CHR ''F'', Edit MoveEnd)]"

definition lookup_key :: "(char \<times> action) list \<Rightarrow> action \<Rightarrow> char \<Rightarrow> action" where
  "lookup_key tab d c = (case map_of tab c of None \<Rightarrow> d | Some a \<Rightarrow> a)"

fun esc_action :: "rd list \<Rightarrow> action \<times> rd list" where
  "esc_action (Byte a # Byte b # r) =
     (if a = CHR ''['' \<and> is_digit b
      then (case r of
              Byte c # r \<Rightarrow> (if b = CHR ''3'' \<and> c = CHR ''~'' then Edit Delete else Idle, r)
            | _ \<Rightarrow> (Idle, tl r))
      else if a = CHR ''['' then (lookup_key bracket_table Idle b, r)
      else if a = CHR ''O'' then (lookup_key o_table Idle b, r)
      else (Idle, r))"
| "esc_action (Byte a # r) = (Idle, tl r)"
| "esc_action r = (Idle, tl r)"

definition char_action :: "char \<Rightarrow> rd list \<Rightarrow> action \<times> rd list" where
  "char_action c r = (if c = ESC then esc_action r else (lookup_key key_table (Edit (Insert c)) c, r))"

definition z_line :: "zipper \<Rightarrow> string" where
  "z_line z = fst z @ snd z"

definition z_len :: "zipper \<Rightarrow> int" where
  "z_len z = int (length (z_line z))"

fun act :: "nat \<Rightarrow> action \<Rightarrow> abs_state \<Rightarrow> rd list \<Rightarrow> (abs_state \<times> rd list) + abs_result" where
  "act n (Edit c) (ls, i, z) r = Inl ((ls, i, z_apply n c z), r)"
| "act n (Browse d) (ls, i, z) r = Inl (history_step n d (c_str (z_line z)) (ls, i, z), r)"
| "act n Idle s r = Inl (s, r)"
| "act n Accept (ls, i, z) r = Inr (z_len z, butlast ls, z_line z, None, r)"
| "act n Interrupt (ls, i, z) r = Inr (-1, ls, z_line z, Some ctrl_C, r)"
| "act n EndOrDelete (ls, i, z) r =
     (if z_line z \<noteq> [] then Inl ((ls, i, z_apply n Delete z), r)
      else Inr (-1, butlast ls, [], Some ctrl_D, r))"

definition spec_key :: "nat \<Rightarrow> char \<Rightarrow> abs_state \<Rightarrow> rd list \<Rightarrow> (abs_state \<times> rd list) + abs_result" where
  "spec_key n c s r = (let (a, r) = char_action c r in act n a s r)"

definition spec_complete ::
  "string list \<Rightarrow> nat \<Rightarrow> abs_state \<Rightarrow> rd list \<Rightarrow> (abs_state \<times> rd list) + abs_result" where
  "spec_complete cs n = (\<lambda>(ls, i, z) r.
     if cs = [] then Inl ((ls, i, z), r)
     else let k = length (takeWhile (\<lambda>x. x = Byte TAB) r);
              inp = dropWhile (\<lambda>x. x = Byte TAB) r;
              z = selected cs (k mod Suc (length cs)) inp z
       in (case inp of
             Byte c # r \<Rightarrow>
               if int_of_schar c < 0 then Inr (z_len z, ls, z_line z, None, r)
               else if c = NUL then Inl ((ls, i, z), r)
               else spec_key n c (ls, i, z) r
           | _ \<Rightarrow> Inr (z_len z, ls, z_line z, None, tl inp)))"

definition spec_round ::
  "completion_callback option \<Rightarrow> nat \<Rightarrow> abs_state \<Rightarrow> rd list \<Rightarrow> (abs_state \<times> rd list) + abs_result" where
  "spec_round cb n = (\<lambda>(ls, i, z) inp.
     case inp of
       Byte c # r \<Rightarrow>
         (case cb of
            Some cc \<Rightarrow> if c = TAB then spec_complete (cc (c_str (z_line z))) n (ls, i, z) r
                       else spec_key n c (ls, i, z) r
          | None \<Rightarrow> spec_key n c (ls, i, z) r)
     | _ \<Rightarrow> Inr (z_len z, ls, z_line z, None, tl inp))"

text \<open>Every round that does not end the session consumes input.\<close>

lemma esc_action_shorter: "esc_action r = (a, r') \<Longrightarrow> length r' \<le> length r"
  by (cases r rule: esc_action.cases) (auto split: if_splits list.splits rd.splits)

lemma char_action_shorter: "char_action c r = (a, r') \<Longrightarrow> length r' \<le> length r"
  by (auto simp: char_action_def esc_action_shorter split: if_splits)

lemma act_rest: "act n a s r = Inl (s', r') \<Longrightarrow> r' = r"
  by (cases a; cases s) (auto split: if_splits)

lemma spec_key_shorter: "spec_key n c s r = Inl (s', r') \<Longrightarrow> length r' \<le> length r"
  by (auto simp: spec_key_def dest: char_action_shorter act_rest split: prod.splits)

lemma spec_complete_shorter: "spec_complete cs n s r = Inl (s', r') \<Longrightarrow> length r' \<le> length r"
  using length_dropWhile_le [of "\<lambda>x. x = Byte TAB" r]
  by (fastforce simp: spec_complete_def Let_def dest: spec_key_shorter
      split: prod.splits if_splits list.splits rd.splits)

lemma spec_round_shorter: "spec_round cb n s r = Inl (s', r') \<Longrightarrow> length r' < length r"
  by (auto simp: spec_round_def less_Suc_eq_le dest: spec_key_shorter spec_complete_shorter
      split: prod.splits list.splits rd.splits option.splits if_splits)

function spec_loop :: "completion_callback option \<Rightarrow> nat \<Rightarrow> abs_state \<Rightarrow> rd list \<Rightarrow> abs_result" where
  "spec_loop cb n s inp =
     (case spec_round cb n s inp of Inl (s', r') \<Rightarrow> spec_loop cb n s' r' | Inr res \<Rightarrow> res)"
  by pat_completeness auto
termination
  by (relation "measure (\<lambda>(cb, n, s, inp). length inp)") (auto dest: spec_round_shorter)

declare spec_loop.simps [simp del]

section \<open>The code refines the abstract editor\<close>

text \<open>An escape character is followed by a complete sequence, or by a read that fails.\<close>

fun complete_esc :: "rd list \<Rightarrow> bool" where
  "complete_esc (RdErr # r) = True"
| "complete_esc (Byte a # RdErr # r) = True"
| "complete_esc (Byte a # Byte b # r) =
     (a = CHR ''['' \<and> is_digit b \<longrightarrow> r \<noteq> [] \<and> hd r \<noteq> Eof)"
| "complete_esc _ = False"

fun esc_ok :: "rd list \<Rightarrow> bool" where
  "esc_ok [] = True"
| "esc_ok (x # r) = ((x = Byte ESC \<longrightarrow> complete_esc r) \<and> esc_ok r)"

lemma esc_ok_tl [simp]: "esc_ok r \<Longrightarrow> esc_ok (tl r)"
  by (cases r) auto

lemma esc_ok_dropWhile: "esc_ok r \<Longrightarrow> esc_ok (dropWhile P r)"
  by (induction r) auto

lemma esc_ok_action: "esc_action r = (a, r') \<Longrightarrow> esc_ok r \<Longrightarrow> esc_ok r'"
  by (cases r rule: esc_action.cases) (auto split: if_splits list.splits rd.splits)

definition loop_sound :: "linenoiseState \<Rightarrow> lnworld \<Rightarrow> string list \<Rightarrow> bool" where
  "loop_sound l w ls \<longleftrightarrow> ln_inv l \<and> view_ok l w \<and> hist_rep w ls \<and> hist_index_ok l ls \<and> ls \<noteq> [] \<and>
     w_alloc w = [] \<and> w_write w = [] \<and> completion_ok (l_buflen l) w"

text \<open>What a session changes besides the history and the line: the status, and \<open>errno\<close> on ctrl-c.\<close>

definition result_frame :: "linenoiseStatus option \<Rightarrow> lnworld \<Rightarrow> lnworld \<Rightarrow> bool" where
  "result_frame st w w' \<longleftrightarrow>
     sess_frame (w\<lparr>data_status := (case st of None \<Rightarrow> data_status w | Some s \<Rightarrow> s),
                   w_errno := (if st = Some ctrl_C then EAGAIN else w_errno w)\<rparr>) w'"

lemma result_frame_sess: "sess_frame w w1 \<Longrightarrow> result_frame st w1 w2 \<Longrightarrow> result_frame st w w2"
  by (cases st) (simp_all add: result_frame_def sess_frame_def)

lemma result_frame_None: "result_frame None w w' = sess_frame w w'"
  by (simp add: result_frame_def)

definition ends_as :: "linenoiseState \<Rightarrow> lnworld \<Rightarrow> abs_result \<Rightarrow> int \<times> linenoiseState \<times> lnworld \<Rightarrow> bool" where
  "ends_as l w = (\<lambda>(n, ls, line, st, r) (n', l', w').
     n' = n \<and> ln_inv l' \<and> edit_frame l l' \<and> line_of l' = line \<and> hist_rep w' ls \<and> w_in w' = r \<and>
     result_frame st w w')"

definition goes_on_as ::
  "linenoiseState \<Rightarrow> lnworld \<Rightarrow> abs_state \<times> rd list \<Rightarrow> linenoiseState \<times> lnworld \<Rightarrow> bool" where
  "goes_on_as l w = (\<lambda>((ls, i, z), r) (l', w').
     loop_sound l' w' ls \<and> edit_frame l l' \<and> l_history_index l' = i \<and> zip_of l' = z \<and> w_in w' = r \<and>
     sess_frame w w')"

definition round_as ::
  "linenoiseState \<Rightarrow> lnworld \<Rightarrow> (abs_state \<times> rd list) + abs_result \<Rightarrow> round \<Rightarrow> bool" where
  "round_as l w spec res =
     (case res of
        Again l' w' \<Rightarrow> (case spec of Inl s \<Rightarrow> goes_on_as l w s (l', w') | Inr _ \<Rightarrow> False)
      | Ret n l' w' \<Rightarrow> (case spec of Inl _ \<Rightarrow> False | Inr s \<Rightarrow> ends_as l w s (n, l', w')))"

lemma completion_ok_sess: "sess_frame w w' \<Longrightarrow> completion_ok n w' = completion_ok n w"
  by (simp add: completion_ok_def sess_frame_def)

lemma edited_goes_on:
  assumes "loop_sound l w ls" and "edited l z w (l', w')"
  shows "goes_on_as l w ((ls, l_history_index l, z), w_in w) (l', w')"
proof -
  from assms(2) have e: "ln_inv l'" "zip_of l' = z" "edit_frame l l'" "l_history_index l' = l_history_index l"
      "io_frame w w'" by (auto simp: edited_def)
  have s: "sess_frame w w'" "w_in w' = w_in w"
    using e(5) by (auto simp: sess_frame_io io_frame_fields)
  have b: "l_buflen l' = l_buflen l" using e(3) by (simp add: edit_frame_def)
  show ?thesis
    using assms(1) e s b completion_ok_sess [OF s(1)] io_frame_plenty [OF e(5)]
    by (simp add: goes_on_as_def loop_sound_def view_ok_edit_frame hist_index_ok_def)
qed

lemma again_edited:
  "loop_sound l w ls \<Longrightarrow> ok_with m (edited l z w) \<Longrightarrow>
   ok_with (again m) (round_as l w (Inl ((ls, l_history_index l, z), w_in w)))"
  by (auto simp: again_def round_as_def elim!: ok_with_mono dest: edited_goes_on)

lemma history_step_props:
  assumes "history_step n d cur (ls, i, z) = (ls', i', z')" and "ls \<noteq> []" and "0 \<le> i"
    and "i < int (length ls) \<or> i = 0"
  shows "ls' \<noteq> []" "0 \<le> i'" "i' < int (length ls') \<or> i' = 0"
  using assms by (auto simp: history_step_def Let_def split: if_splits)

lemma browsed_goes_on:
  assumes "loop_sound l w ls" and "browsed l w (history_step n d cur (ls, l_history_index l, zip_of l)) (l', w')"
  shows "goes_on_as l w (history_step n d cur (ls, l_history_index l, zip_of l), w_in w) (l', w')"
proof -
  obtain ls' i' z' where h: "history_step n d cur (ls, l_history_index l, zip_of l) = (ls', i', z')"
    by (metis prod_cases3)
  have p: "ls' \<noteq> []" "0 \<le> i'" "i' < int (length ls') \<or> i' = 0"
    using history_step_props [OF h] assms(1) by (auto simp: loop_sound_def hist_index_ok_def)
  have e: "ln_inv l'" "edit_frame l l'" "zip_of l' = z'" "l_history_index l' = i'" "hist_rep w' ls'"
      "sess_frame w w'" "w_in w' = w_in w"
    using assms(2) h by (auto simp: browsed_def)
  have b: "l_buflen l' = l_buflen l" using e(2) by (simp add: edit_frame_def)
  have a: "w_alloc w' = []" "w_write w' = []" using e(6) assms(1) by (auto simp: sess_frame_def loop_sound_def)
  show ?thesis
    using assms(1) e p h a b completion_ok_sess [OF e(6)]
    by (simp add: goes_on_as_def loop_sound_def view_ok_edit_frame hist_index_ok_def view_ok_sess_frame)
qed

lemma again_browsed:
  assumes "loop_sound l w ls"
  shows "ok_with (again (linenoiseEditHistoryNext l d w))
    (round_as l w (act (l_buflen l) (Browse d) (ls, l_history_index l, zip_of l) (w_in w)))"
proof -
  from assms have s: "ln_inv l" "view_ok l w" "hist_rep w ls" "hist_index_ok l ls" "w_alloc w = []"
    by (auto simp: loop_sound_def)
  obtain a b where z: "zip_of l = (a, b)" by fastforce
  have "c_str (l_buf l) = c_str (z_line (zip_of l))"
    using c_str_line_of [OF s(1)] line_of_zip [OF s(1) z] by (simp add: z_line_def z)
  with HistoryNext_ok [OF s, of d] browsed_goes_on [OF assms] show ?thesis
    by (auto simp: again_def round_as_def elim!: ok_with_mono)
qed

lemma again_cmd:
  assumes "loop_sound l w ls"
  shows "ok_with (again (run_cmd c l w))
    (round_as l w (act (l_buflen l) (Edit c) (ls, l_history_index l, zip_of l) (w_in w)))"
proof -
  from assms have "ok_with (run_cmd c l w) (edited l (z_apply (l_buflen l) c (zip_of l)) w)"
    by (intro run_cmd_ok) (auto simp: loop_sound_def)
  then show ?thesis unfolding act.simps by (rule again_edited [OF assms])
qed

text \<open>Returning: the slot of the edited line is freed and dropped.\<close>

text \<open>The slot of the last line holds that line in \<open>w\<close>; in \<open>w'\<close> it is freed, and the rest of the array is
  as it was.\<close>

definition slot_freed :: "lnworld \<Rightarrow> string list \<Rightarrow> lnworld \<Rightarrow> bool" where
  "slot_freed w ls w' \<longleftrightarrow>
     (\<exists>hs. history w = Some hs \<and> length ls \<le> length hs \<and> hs ! (length ls - 1) = Str (last ls) \<and>
        history w' = Some (hs[length ls - 1 := Freed]))"

lemma hist_pop:
  assumes "hist_rep w ls" and "ls \<noteq> []"
  obtains hs hs' where "history w = Some hs" and "hfree (history_len w - 1) hs = Some hs'"
    and "\<And>w'. history w' = Some hs' \<Longrightarrow> slot_freed w ls w'"
    and "hist_rep (w\<lparr>history_len := history_len w - 1, history := Some hs'\<rparr>) (butlast ls)"
proof -
  obtain ls' x where ls: "ls = ls' @ [x]" using assms(2) by (cases ls rule: rev_cases) auto
  define k where "k = length ls'"
  obtain hs where hs: "history w = Some hs" "hslot hs (int k) = Some (Str (ls ! k))" "k < length hs"
    "hs = map Str ls @ drop (length ls) hs"
    using hist_rep_slot [OF assms(1), of k] ls by (auto simp: k_def)
  have n: "history_len w - 1 = int k" using assms(1) ls by (simp add: hist_rep_def k_def)
  have "hfree (int k) hs = Some (hs[k := Freed])"
    using hs by (simp add: hfree_def hslot_set_def)
  moreover have "hist_rep (w\<lparr>history_len := history_len w - 1, history := Some (hs[k := Freed])\<rparr>) ls'"
  proof -
    have "take k hs = map Str ls'"
      using assms(1) hs(1) ls by (auto simp: hist_rep_def k_def dest: arg_cong [where f = "take k"])
    then have "take (length ls') (hs[k := Freed]) = map Str ls'" by (simp add: k_def)
    then show ?thesis using assms(1) hs(1) ls n by (simp add: hist_rep_def k_def)
  qed
  moreover have "slot_freed w ls w'" if "history w' = Some (hs[k := Freed])" for w'
    using that hs(1-3) ls by (auto simp: slot_freed_def k_def hslot_def mem_get_def split: if_splits)
  ultimately show ?thesis using that hs(1) n ls by simp
qed

lemma z_line_len:
  assumes "ln_inv l"
  shows "z_line (zip_of l) = line_of l" "z_len (zip_of l) = int (l_len l)"
    "int_of_size (l_len l) = z_len (zip_of l)" "(z_line (zip_of l) = []) = (l_len l = 0)"
proof -
  obtain a b r where "l_buf l = a @ b @ NUL # r" "l_len l = length a + length b" "zip_of l = (a, b)"
      "l_buflen l = length a + length b + length r"
    using assms by (rule ln_invE)
  moreover have "l_buflen l < 2 ^ 29" using assms by (simp add: ln_inv_def)
  ultimately show "z_line (zip_of l) = line_of l" "z_len (zip_of l) = int (l_len l)"
    "int_of_size (l_len l) = z_len (zip_of l)" "(z_line (zip_of l) = []) = (l_len l = 0)"
    by (simp_all add: z_line_def z_len_def line_of_def)
qed

lemma hist_popped_frame: "sess_frame w (w\<lparr>history_len := n, history := h\<rparr>)"
  "w_in (w\<lparr>history_len := n, history := h\<rparr>) = w_in w"
  by (simp_all add: sess_frame_def)

lemma hidden_hints_refresh:
  assumes "ln_inv l" "view_ok l w"
  shows "ok_with (refreshLine l (w\<lparr>hintsCallback := None\<rparr>))
    (\<lambda>(l', w'). ln_inv l' \<and> same_line l l' \<and> sess_frame w (w'\<lparr>hintsCallback := hintsCallback w\<rparr>) \<and>
      w_in w' = w_in w \<and> history w' = history w \<and> (\<forall>ls. hist_rep w' ls = hist_rep w ls))"
proof (rule refreshLine_wp)
  show "view_ok l (w\<lparr>hintsCallback := None\<rparr>)"
    using assms(2) by (simp add: view_ok_def hints_ok_def)
  fix l' w'
  assume *: "same_line l l'" "io_frame (w\<lparr>hintsCallback := None\<rparr>) w'"
  have "sess_frame w (w'\<lparr>hintsCallback := hintsCallback w\<rparr>)"
    using sess_frame_io [OF *(2)] by (simp add: sess_frame_def)
  moreover have "hist_rep w' ls = hist_rep w ls" for ls
    using hist_rep_io_frame [OF *(2)] by (simp add: hist_rep_cong [of "w\<lparr>hintsCallback := None\<rparr>" w])
  ultimately show "case (l', w') of (l', w') \<Rightarrow> ln_inv l' \<and> same_line l l' \<and>
      sess_frame w (w'\<lparr>hintsCallback := hintsCallback w\<rparr>) \<and> w_in w' = w_in w \<and> history w' = history w \<and>
      (\<forall>ls. hist_rep w' ls = hist_rep w ls)"
    using * ln_inv_same_line [OF *(1) assms(1)] io_frame_fields(10,13) [OF *(2)] by simp
qed (use assms in \<open>auto intro: ln_inv_shown_ok\<close>)

lemma editEnter_run:
  assumes "loop_sound l w ls"
  shows "\<exists>m l' w'. editEnter l w = Some (Ret m l' w') \<and> slot_freed w ls w' \<and>
    ends_as l w (z_len (zip_of l), butlast ls, z_line (zip_of l), None, w_in w) (m, l', w')"
proof -
  from assms have s: "ln_inv l" "view_ok l w" "hist_rep w ls" "ls \<noteq> []" by (auto simp: loop_sound_def)
  obtain hs hs' where pop: "history w = Some hs" "hfree (history_len w - 1) hs = Some hs'"
      "\<And>w'. history w' = Some hs' \<Longrightarrow> slot_freed w ls w'"
      "hist_rep (w\<lparr>history_len := history_len w - 1, history := Some hs'\<rparr>) (butlast ls)"
    using hist_pop [OF s(3,4)] by metis
  define w1 where "w1 = w\<lparr>history_len := history_len w - 1, history := Some hs'\<rparr>"
  have w1: "sess_frame w w1" "w_in w1 = w_in w" "mlmode w1 = mlmode w" "hintsCallback w1 = hintsCallback w"
    by (simp_all add: w1_def hist_popped_frame)
  then have view: "view_ok l w1" using s(2) by (simp add: view_ok_sess_frame)
  have "ok_with (if mlmode w1 then linenoiseEditMoveEnd l w1 else Some (l, w1))
    (\<lambda>(l2, w2). ln_inv l2 \<and> edit_frame l l2 \<and> line_of l2 = line_of l \<and> io_frame w1 w2)"
  proof -
    obtain a b where z: "zip_of l = (a, b)" by fastforce
    from MoveEnd_ok [OF s(1) view z] line_of_zip [OF s(1) z] show ?thesis
      using s(1) by (auto simp: edited_def line_of_zip elim!: ok_with_mono)
  qed
  then obtain l2 w2 where 2: "(if mlmode w1 then linenoiseEditMoveEnd l w1 else Some (l, w1)) = Some (l2, w2)"
      "ln_inv l2" "edit_frame l l2" "line_of l2 = line_of l" "io_frame w1 w2"
    by (auto simp: ok_with_def)
  have view2: "view_ok l2 w2" using view 2 by (simp add: view_ok_edit_frame)
  define fin where "fin = (case hintsCallback w2 of None \<Rightarrow> Some (l2, w2)
      | Some hc \<Rightarrow> do { (l, w) \<leftarrow> refreshLine l2 (w2\<lparr>hintsCallback := None\<rparr>); Some (l, w\<lparr>hintsCallback := Some hc\<rparr>) })"
  have fin: "ok_with fin (\<lambda>(l3, w3). ln_inv l3 \<and> same_line l2 l3 \<and> sess_frame w2 w3 \<and>
      w_in w3 = w_in w2 \<and> history w3 = history w2 \<and> (\<forall>ls. hist_rep w3 ls = hist_rep w2 ls))"
  proof (cases "hintsCallback w2")
    case None
    with 2 show ?thesis by (simp add: fin_def)
  next
    case (Some hc)
    have "hist_rep (w'\<lparr>hintsCallback := Some hc\<rparr>) ls = hist_rep w' ls" for w' ls
      by (rule hist_rep_cong) simp_all
    with Some hidden_hints_refresh [OF 2(2) view2] show ?thesis
      by (auto simp: fin_def elim!: ok_with_mono)
  qed
  then obtain l3 w3 where 3: "fin = Some (l3, w3)" "ln_inv l3" "same_line l2 l3" "sess_frame w2 w3"
      "w_in w3 = w_in w2" "history w3 = history w2" "\<And>ls. hist_rep w3 ls = hist_rep w2 ls"
    by (auto simp: ok_with_def)
  have code: "editEnter l w = Some (Ret (int_of_size (l_len l3)) l3 w3)"
    using pop(1,2) 2(1) [unfolded w1(3)] 3(1) unfolding fin_def
    by (simp add: editEnter_def w1_def [symmetric] split del: if_split)
  have line: "line_of l3 = line_of l" "l_len l3 = l_len l2"
    using 2(4) same_line_fields [OF 3(3)] by (simp_all add: line_of_def)
  have n: "int_of_size (l_len l3) = z_len (zip_of l)"
    using line z_line_len [OF 3(2)] z_line_len [OF s(1)] by (simp add: z_len_def)
  have "ends_as l w (z_len (zip_of l), butlast ls, z_line (zip_of l), None, w_in w)
      (int_of_size (l_len l3), l3, w3)"
    using n line 3 2 pop(4) w1 z_line_len(1) [OF s(1)] io_frame_fields(13) [OF 2(5)]
      edit_frame_same_line [OF 2(3) 3(3)] sess_frame_trans [OF sess_frame_trans [OF w1(1) sess_frame_io [OF 2(5)]] 3(4)]
    by (simp add: ends_as_def result_frame_None w1_def)
  moreover have "slot_freed w ls w3"
    by (rule pop(3)) (use 3(6) io_frame_fields(10) [OF 2(5)] in \<open>simp add: w1_def\<close>)
  ultimately show ?thesis using code by blast
qed

lemma editEnter_ok:
  assumes "loop_sound l w ls"
  shows "ok_with (editEnter l w) (round_as l w (act n Accept (ls, i, zip_of l) (w_in w)))"
  using editEnter_run [OF assms] by (auto simp: round_as_def)

lemma editCtrlD_run:
  assumes "loop_sound l w ls" and "l_len l = 0"
  shows "\<exists>w'. editCtrlD l w = Some (Ret (-1) l w') \<and> slot_freed w ls w' \<and>
    ends_as l w (-1, butlast ls, [], Some ctrl_D, w_in w) (-1, l, w')"
proof -
  from assms(1) have s: "ln_inv l" "hist_rep w ls" "ls \<noteq> []" by (auto simp: loop_sound_def)
  obtain hs hs' where pop: "history w = Some hs" "hfree (history_len w - 1) hs = Some hs'"
      "\<And>w'. history w' = Some hs' \<Longrightarrow> slot_freed w ls w'"
      "hist_rep (w\<lparr>history_len := history_len w - 1, history := Some hs'\<rparr>) (butlast ls)"
    using hist_pop [OF s(2,3)] by metis
  let ?w = "w\<lparr>history_len := history_len w - 1, history := Some hs', data_status := ctrl_D\<rparr>"
  have rep: "hist_rep ?w (butlast ls)"
    using pop(4) by (simp add: hist_rep_cong [of ?w "w\<lparr>history_len := history_len w - 1, history := Some hs'\<rparr>"])
  have frame: "result_frame (Some ctrl_D) w ?w" by (simp add: result_frame_def sess_frame_def)
  have "line_of l = []" "z_line (zip_of l) = []" using assms(2) z_line_len [OF s(1)] by (simp_all add: line_of_def)
  moreover have "slot_freed w ls ?w" by (rule pop(3)) simp
  ultimately show ?thesis using assms(2) pop(1,2) rep frame s(1) by (simp add: editCtrlD_def ends_as_def)
qed

lemma editCtrlD_ok:
  assumes "loop_sound l w ls"
  shows "ok_with (editCtrlD l w)
    (round_as l w (act (l_buflen l) EndOrDelete (ls, l_history_index l, zip_of l) (w_in w)))"
proof (cases "l_len l > 0")
  case True
  have "ln_inv l" using assms by (simp add: loop_sound_def)
  with True again_cmd [OF assms, of Delete] show ?thesis
    by (simp add: editCtrlD_def again_def z_line_len(4))
next
  case False
  have "ln_inv l" using assms by (simp add: loop_sound_def)
  then show ?thesis using False editCtrlD_run [OF assms] z_line_len(4) by (auto simp: round_as_def)
qed

text \<open>The invariant and the outcome do not depend on the input that was read.\<close>

lemma loop_sound_in [simp]: "loop_sound l (w\<lparr>w_in := r\<rparr>) ls = loop_sound l w ls"
proof -
  have "sess_frame w (w\<lparr>w_in := r\<rparr>)" by (simp add: sess_frame_def)
  moreover have "hist_rep (w\<lparr>w_in := r\<rparr>) ls = hist_rep w ls" by (rule hist_rep_cong) simp_all
  ultimately show ?thesis by (simp add: loop_sound_def view_ok_sess_frame completion_ok_sess)
qed

lemma round_as_frame:
  assumes "round_as l' w' s x" and "edit_frame l l'" and "sess_frame w w'"
  shows "round_as l w s x"
  using assms
  by (auto simp: round_as_def goes_on_as_def ends_as_def result_frame_sess split: round.splits sum.splits prod.splits
      intro: edit_frame_trans sess_frame_trans)

lemma round_as_in: "round_as l (w\<lparr>w_in := r\<rparr>) s x \<Longrightarrow> round_as l w s x"
  by (erule round_as_frame) (simp_all add: sess_frame_def)

lemma again_idle:
  assumes "loop_sound l w ls"
  shows "round_as l w (act n Idle (ls, l_history_index l, zip_of l) r) (Again l (w\<lparr>w_in := r\<rparr>))"
  using assms by (simp add: round_as_def goes_on_as_def) (simp add: sess_frame_def)

text \<open>\<open>acts_as a r m\<close>: running \<open>m\<close> after reading, with \<open>r\<close> left, is the action \<open>a\<close>.\<close>

definition acts_as :: "linenoiseState \<Rightarrow> string list \<Rightarrow> action \<Rightarrow> lnworld \<Rightarrow> (linenoiseState \<times> lnworld) option \<Rightarrow> bool" where
  "acts_as l ls a w m \<longleftrightarrow> ok_with (again m) (round_as l w (act (l_buflen l) a (ls, l_history_index l, zip_of l) (w_in w)))"

lemma acts_as_ops:
  assumes "loop_sound l w ls"
  shows "acts_as l ls (Edit Backspace) w (linenoiseEditBackspace l w)"
    "acts_as l ls (Edit Delete) w (linenoiseEditDelete l w)"
    "acts_as l ls (Edit Transpose) w (editTranspose l w)"
    "acts_as l ls (Edit MoveLeft) w (linenoiseEditMoveLeft l w)"
    "acts_as l ls (Edit MoveRight) w (linenoiseEditMoveRight l w)"
    "acts_as l ls (Edit MoveHome) w (linenoiseEditMoveHome l w)"
    "acts_as l ls (Edit MoveEnd) w (linenoiseEditMoveEnd l w)"
    "acts_as l ls (Edit KillLine) w (editKillLine l w)"
    "acts_as l ls (Edit KillEol) w (editKillEol l w)"
    "acts_as l ls (Edit KillPrevWord) w (linenoiseEditDeletePrevWord l w)"
    "acts_as l ls (Browse d) w (linenoiseEditHistoryNext l d w)"
    "acts_as l ls Idle w (Some (l, w))"
proof -
  note c = again_cmd [OF assms]
  show "acts_as l ls (Edit Backspace) w (linenoiseEditBackspace l w)"
    "acts_as l ls (Edit Delete) w (linenoiseEditDelete l w)"
    "acts_as l ls (Edit Transpose) w (editTranspose l w)"
    "acts_as l ls (Edit MoveLeft) w (linenoiseEditMoveLeft l w)"
    "acts_as l ls (Edit MoveRight) w (linenoiseEditMoveRight l w)"
    "acts_as l ls (Edit MoveHome) w (linenoiseEditMoveHome l w)"
    "acts_as l ls (Edit MoveEnd) w (linenoiseEditMoveEnd l w)"
    "acts_as l ls (Edit KillLine) w (editKillLine l w)"
    "acts_as l ls (Edit KillEol) w (editKillEol l w)"
    "acts_as l ls (Edit KillPrevWord) w (linenoiseEditDeletePrevWord l w)"
    unfolding acts_as_def
    using c [of Backspace] c [of Delete] c [of Transpose] c [of MoveLeft] c [of MoveRight] c [of MoveHome]
      c [of MoveEnd] c [of KillLine] c [of KillEol] c [of KillPrevWord]
    by (simp_all only: run_cmd.simps)
  show "acts_as l ls (Browse d) w (linenoiseEditHistoryNext l d w)"
    unfolding acts_as_def by (rule again_browsed [OF assms])
  show "acts_as l ls Idle w (Some (l, w))"
    using again_idle [OF assms, of "l_buflen l" "w_in w"] by (simp add: acts_as_def again_def)
qed

lemma escBracket_ok:
  assumes "loop_sound l w ls" and "\<not> is_digit c"
  shows "acts_as l ls (lookup_key bracket_table Idle c) w (escBracket c l w)"
proof -
  consider "c \<in> {CHR ''A'', CHR ''B'', CHR ''C'', CHR ''D'', CHR ''H'', CHR ''F''}"
    | "c \<notin> {CHR ''A'', CHR ''B'', CHR ''C'', CHR ''D'', CHR ''H'', CHR ''F''}" by blast
  then show ?thesis
    using assms(2) acts_as_ops [OF assms(1)]
    by cases (auto simp: lookup_key_def bracket_table_def escBracket_def)
qed

lemma read_seq_Byte: "w_in w = Byte c # r \<Longrightarrow> read_seq w = (Some (Some c), w\<lparr>w_in := r\<rparr>)"
  and read_seq_RdErr: "w_in w = RdErr # r \<Longrightarrow> read_seq w = (None, w\<lparr>w_in := r\<rparr>)"
  by (simp_all add: read_seq_def sys_read_def)

lemma escBracket_digit:
  assumes "loop_sound l w ls" and "is_digit b" and "r \<noteq> []" and "hd r \<noteq> Eof"
  shows "ok_with (again (escBracket b l (w\<lparr>w_in := r\<rparr>)))
    (round_as l w (case esc_action (Byte (CHR ''['') # Byte b # r) of
       (a, r) \<Rightarrow> act (l_buflen l) a (ls, l_history_index l, zip_of l) r))"
proof (cases r)
  case (Cons x r')
  have idle: "round_as l w (Inl ((ls, l_history_index l, zip_of l), r')) (Again l (w\<lparr>w_in := r'\<rparr>))"
    using again_idle [OF assms(1)] by simp
  have del: "acts_as l ls (Edit Delete) (w\<lparr>w_in := r'\<rparr>) (linenoiseEditDelete l (w\<lparr>w_in := r'\<rparr>))"
    using assms(1) by (intro acts_as_ops) simp
  have rd: "read_seq (w\<lparr>w_in := r\<rparr>) = (case x of Byte c \<Rightarrow> (Some (Some c), w\<lparr>w_in := r'\<rparr>) | _ \<Rightarrow> (None, w\<lparr>w_in := r'\<rparr>))"
    using assms(4) Cons by (cases x) (simp_all add: read_seq_def sys_read_def)
  show ?thesis
  proof (cases x)
    case (Byte c)
    with Cons rd assms(2) idle del show ?thesis
      by (auto simp: escBracket_def again_def acts_as_def elim!: ok_with_mono intro: round_as_in)
  next
    case Eof
    with assms(4) Cons show ?thesis by simp
  next
    case RdErr
    with Cons rd assms(2) idle show ?thesis by (simp add: escBracket_def again_def)
  qed
qed (use assms(3) in simp)

lemma editEscape_ok:
  assumes "loop_sound l w ls" and "complete_esc (w_in w)"
  shows "ok_with (again (editEscape l w))
    (round_as l w (case esc_action (w_in w) of (a, r) \<Rightarrow> act (l_buflen l) a (ls, l_history_index l, zip_of l) r))"
proof -
  from assms(2) consider (e) r where "w_in w = RdErr # r" | (be) a r where "w_in w = Byte a # RdErr # r"
    | (bb) a b r where "w_in w = Byte a # Byte b # r" "a = CHR ''['' \<and> is_digit b \<longrightarrow> r \<noteq> [] \<and> hd r \<noteq> Eof"
    by (cases "w_in w" rule: complete_esc.cases) auto
  then show ?thesis
  proof cases
    case e
    with again_idle [OF assms(1), of "l_buflen l" r] show ?thesis
      by (simp add: editEscape_def read_seq_RdErr again_def)
  next
    case be
    with again_idle [OF assms(1), of "l_buflen l" r] show ?thesis
      by (simp add: editEscape_def read_seq_Byte read_seq_RdErr again_def)
  next
    case bb
    let ?w = "w\<lparr>w_in := r\<rparr>"
    have w: "loop_sound l ?w ls" using assms(1) by simp
    note ops = acts_as_ops [OF w]
    have in1: "ok_with (again m) (round_as l w (act (l_buflen l) a (ls, l_history_index l, zip_of l) r))"
      if "acts_as l ls a ?w m" for a m
      using that by (auto simp: acts_as_def elim!: ok_with_mono intro: round_as_in)
    have two: "editEscape l w = (if a = CHR ''['' then escBracket b l ?w
        else if a = CHR ''O'' then
          (if b = CHR ''H'' then linenoiseEditMoveHome l ?w
           else if b = CHR ''F'' then linenoiseEditMoveEnd l ?w else Some (l, ?w))
        else Some (l, ?w))"
      using bb(1) by (simp add: editEscape_def read_seq_Byte)
    show ?thesis
    proof (cases "a = CHR ''[''")
      case True
      show ?thesis
      proof (cases "is_digit b")
        case digit: True
        with True bb escBracket_digit [OF assms(1) digit, of r] two show ?thesis by simp
      next
        case False
        with True bb two in1 [OF escBracket_ok [OF w False]] show ?thesis by simp
      qed
    next
      case False
      show ?thesis
      proof (cases "a = CHR ''O''")
        case True
        have "acts_as l ls (lookup_key o_table Idle b) ?w (editEscape l w)"
          unfolding two using False True ops by (auto simp: lookup_key_def o_table_def)
        from in1 [OF this] False True bb(1) show ?thesis by simp
      next
        case o: False
        have "acts_as l ls Idle ?w (editEscape l w)" unfolding two using False o ops by simp
        from in1 [OF this] False o bb(1) show ?thesis by simp
      qed
    qed
  qed
qed

lemma clear_refresh:
  assumes "loop_sound l w ls"
  shows "acts_as l ls Idle w (refreshLine l (linenoiseClearScreen w))"
proof -
  let ?w = "linenoiseClearScreen w"
  have s: "ln_inv l" "view_ok l w" using assms by (auto simp: loop_sound_def)
  have io: "io_frame w ?w"
    by (cases "sys_write (csi ''H'' @ csi ''2J'') w") (simp add: linenoiseClearScreen_def sys_write_frame)
  have "ok_with (refreshLine l ?w) (edited l (zip_of l) w)"
  proof (rule refreshLine_wp)
    fix l' w'
    assume *: "same_line l l'" "io_frame ?w w'"
    then show "edited l (zip_of l) w (l', w')"
      using s(1) io
      by (auto simp: edited_def zip_of_same_line same_line_fields intro: ln_inv_same_line
          edit_frame_same_line io_frame_trans)
  qed (use s io in \<open>auto intro: ln_inv_shown_ok\<close>)
  with again_edited [OF assms] show ?thesis by (simp add: acts_as_def)
qed

lemma editInsert_ok:
  assumes "loop_sound l w ls"
  shows "ok_with (do {
      (st, l, w) \<leftarrow> linenoiseEditInsert l c w;
      Some (if st \<noteq> 0 then Ret (-1) l w else Again l w) })
    (round_as l w (act (l_buflen l) (Edit (Insert c)) (ls, l_history_index l, zip_of l) (w_in w)))"
proof -
  have s: "ln_inv l" "view_ok l w" "w_write w = []" using assms by (auto simp: loop_sound_def)
  from Insert_ok [OF s(1,2) refl, of c] obtain l' w' where
    "linenoiseEditInsert l c w = Some (0, l', w')" "edited l (z_apply (l_buflen l) (Insert c) (zip_of l)) w (l', w')"
    using s(3) by (auto simp: ok_with_def)
  with edited_goes_on [OF assms] show ?thesis by (simp add: round_as_def)
qed

lemma editKey_ok:
  assumes "loop_sound l w ls" and "c = ESC \<Longrightarrow> complete_esc (w_in w)"
  shows "ok_with (editKey c l w)
    (round_as l w (spec_key (l_buflen l) c (ls, l_history_index l, zip_of l) (w_in w)))"
proof -
  note ops = acts_as_ops [OF assms(1), unfolded acts_as_def] clear_refresh [OF assms(1), unfolded acts_as_def]
  consider "c = ESC" | "c = CR" | "c = CTRL_C" | "c = CTRL_D"
    | "c \<in> {CHR 0x7F, CHR 0x08, CHR 0x14, CHR 0x02, CHR 0x06, CHR 0x10, CHR 0x0E}"
    | "c \<in> {CHR 0x15, CHR 0x0B, CHR 0x01, CHR 0x05, CHR 0x0C, CHR 0x17}"
    | "c \<noteq> ESC" "map_of key_table c = None" "c \<notin> {CHR 0x7F, CHR 0x08, CHR 0x14, CHR 0x02, CHR 0x06, CHR 0x10,
        CHR 0x0E, CHR 0x15, CHR 0x0B, CHR 0x01, CHR 0x05, CHR 0x0C, CHR 0x17, CR, CTRL_C, CTRL_D}"
    by (auto simp: key_table_def split: if_splits)
  then show ?thesis
  proof cases
    case 1
    with editEscape_ok [OF assms(1)] assms(2) show ?thesis
      by (simp add: editKey_def spec_key_def char_action_def)
  next
    case 2
    with editEnter_ok [OF assms(1)] show ?thesis
      by (simp add: editKey_def spec_key_def char_action_def lookup_key_def key_table_def)
  next
    case 3
    have "ln_inv l" "hist_rep w ls" using assms(1) by (auto simp: loop_sound_def)
    moreover have "hist_rep (w\<lparr>w_errno := EAGAIN, data_status := ctrl_C\<rparr>) ls = hist_rep w ls"
      by (rule hist_rep_cong) simp_all
    ultimately show ?thesis using 3
      by (simp add: editKey_def spec_key_def char_action_def lookup_key_def key_table_def round_as_def
          ends_as_def z_line_len(1))
        (simp add: result_frame_def sess_frame_def)
  next
    case 4
    with editCtrlD_ok [OF assms(1)] show ?thesis
      by (simp add: editKey_def spec_key_def char_action_def lookup_key_def key_table_def del: act.simps)
  next
    case 5
    with ops show ?thesis
      by (auto simp: editKey_def spec_key_def char_action_def lookup_key_def key_table_def simp del: act.simps)
  next
    case 6
    with ops show ?thesis
      by (auto simp: editKey_def spec_key_def char_action_def lookup_key_def key_table_def simp del: act.simps)
  next
    case 7
    with editInsert_ok [OF assms(1), of c] show ?thesis
      by (simp add: editKey_def spec_key_def char_action_def lookup_key_def del: act.simps)
  qed
qed

lemma of_char_less: "(of_char c :: nat) < 256"
  using of_char_mod_256 [of c] mod_less_divisor [of 256 "of_char c :: nat"] by (metis zero_less_numeral)

lemma char_of_int_schar [simp]: "char_of_int (int_of_schar c) = c"
proof -
  have "nat (int_of_schar c mod 256) = of_char c"
    using of_char_less [of c] by (auto simp: int_of_schar_def Let_def mod_pos_pos_trivial)
  then show ?thesis by (simp add: char_of_int_def)
qed

lemma int_of_schar_zero: "int_of_schar c = 0 \<longleftrightarrow> c = NUL"
proof -
  have "int_of_schar c = 0 \<longleftrightarrow> (of_char c :: nat) = of_char NUL"
  proof -
    define n where "n = (of_char c :: nat)"
    have "n < 256" using of_char_less [of c] by (simp add: n_def)
    then show ?thesis
      unfolding int_of_schar_def Let_def n_def [symmetric] by auto
  qed
  then show ?thesis by (simp only: of_char_eq_iff)
qed

lemma schar_of_minus_1: "int_of_schar (char_of_int (-1)) = -1"
  by (simp add: char_of_int_def int_of_schar_def of_char_of)

lemma completed_sound:
  assumes "loop_sound l w ls" and "completed cs j inp l w (r, l', w')"
  shows "loop_sound l' w' ls" "edit_frame l l'" "sess_frame w w'" "l_history_index l' = l_history_index l"
    "l_buflen l' = l_buflen l" "r = key_value inp" "w_in w' = tl inp" "zip_of l' = selected cs j inp (zip_of l)"
proof -
  from assms(2) show *: "edit_frame l l'" "l_history_index l' = l_history_index l" "r = key_value inp" "w_in w' = tl inp"
    "zip_of l' = selected cs j inp (zip_of l)" and "sess_frame w w'" by (auto simp: completed_def talk_frame_def)
  have h: "hist_rep w' ls = hist_rep w ls"
    using assms(2) by (intro hist_rep_cong) (auto simp: completed_def talk_frame_def sess_frame_def)
  show b: "l_buflen l' = l_buflen l" using * by (simp add: edit_frame_def)
  show "loop_sound l' w' ls"
    using assms * \<open>sess_frame w w'\<close> h b
    by (auto simp: loop_sound_def completed_def view_ok_edit_frame view_ok_sess_frame hist_index_ok_def
        completion_ok_sess) (auto simp: sess_frame_def)
qed

lemma editRound_complete:
  assumes "loop_sound l w ls" and "esc_ok (w_in w)" and "completionCallback w = Some cc"
  shows "ok_with (do {
      (r, l, w) \<leftarrow> completeLine l w;
      let c = char_of_int r;
      if int_of_schar c < 0 then Some (Ret (int_of_size (l_len l)) l w)
      else if int_of_schar c = 0 then Some (Again l w)
      else editKey c l w })
    (round_as l w (spec_complete (cc (c_str (z_line (zip_of l)))) (l_buflen l)
       (ls, l_history_index l, zip_of l) (w_in w)))"
proof -
  let ?cs = "cc (c_str (z_line (zip_of l)))"
  have s: "ln_inv l" "view_ok l w" "w_alloc w = []" "completion_ok (l_buflen l) w" "hist_rep w ls"
    using assms(1) by (auto simp: loop_sound_def)
  have cs: "cc (c_str (l_buf l)) = ?cs"
    using c_str_line_of [OF s(1)] z_line_len(1) [OF s(1)] by simp
  show ?thesis
  proof (cases "?cs = []")
    case True
    have "hist_rep (linenoiseBeep w) ls" "sess_frame w (linenoiseBeep w)"
      using s(5) talk_frame_beep(1) [of w] hist_rep_cong [of "linenoiseBeep w" w ls]
      by (auto simp: linenoiseBeep_def err_printf_def sess_frame_def)
    moreover have "loop_sound l (linenoiseBeep w) ls"
      using assms(1) calculation
      by (auto simp: loop_sound_def view_ok_sess_frame completion_ok_sess) (auto simp: sess_frame_def)
    ultimately show ?thesis
      using True completeLine_none [OF s(1) assms(3)] cs
      by (simp add: spec_complete_def round_as_def goes_on_as_def char_of_int_def int_of_schar_def)
  next
    case False
    define k where "k = length (takeWhile (\<lambda>x. x = Byte TAB) (w_in w))"
    define inp where "inp = dropWhile (\<lambda>x. x = Byte TAB) (w_in w)"
    have "takeWhile (\<lambda>x. x = Byte TAB) (w_in w) = replicate k (Byte TAB)"
      unfolding k_def by (induction "w_in w" arbitrary: w) (auto dest: set_takeWhileD intro!: replicate_eqI)
    then have split: "w_in w = replicate k (Byte TAB) @ inp"
      using takeWhile_dropWhile_id [of "\<lambda>x. x = Byte TAB" "w_in w"] by (simp add: inp_def)
    have hd: "inp = [] \<or> hd inp \<noteq> Byte TAB"
      unfolding inp_def using hd_dropWhile by blast
    have esc: "esc_ok inp" using assms(2) by (simp add: inp_def esc_ok_dropWhile)
    define j where "j = k mod Suc (length ?cs)"
    have "fitting (l_buflen l) ?cs" using s(4) assms(3) by (simp add: completion_ok_def)
    from completeLine_ok [OF s(1-3) assms(3) cs [symmetric] False this split hd]
    obtain r l' w' where 1: "completeLine l w = Some (r, l', w')" "completed ?cs j inp l w (r, l', w')"
      by (auto simp: ok_with_def j_def)
    note c = completed_sound [OF assms(1) 1(2)]
    have inv: "ln_inv l'" "hist_rep w' ls" using c(1) by (auto simp: loop_sound_def)
    have ret: "ends_as l w (z_len (zip_of l'), ls, z_line (zip_of l'), None, tl inp) (int_of_size (l_len l'), l', w')"
      using inv c z_line_len [OF inv(1)] by (simp add: ends_as_def result_frame_None)
    have spec: "spec_complete ?cs (l_buflen l) (ls, l_history_index l, zip_of l) (w_in w) =
      (case inp of
         Byte c # r \<Rightarrow>
           if int_of_schar c < 0 then Inr (z_len (zip_of l'), ls, z_line (zip_of l'), None, r)
           else if c = NUL then Inl ((ls, l_history_index l, zip_of l'), r)
           else spec_key (l_buflen l') c (ls, l_history_index l', zip_of l') r
       | _ \<Rightarrow> Inr (z_len (zip_of l'), ls, z_line (zip_of l'), None, tl inp))"
      using False by (simp only: spec_complete_def Let_def prod.case if_False c(4,5,8) j_def k_def inp_def)
    show ?thesis
    proof (cases "\<exists>c r. inp = Byte c # r")
      case False
      then have "key_value inp = -1" by (auto simp: key_value_def split: list.split rd.split)
      moreover have "spec_complete ?cs (l_buflen l) (ls, l_history_index l, zip_of l) (w_in w) =
          Inr (z_len (zip_of l'), ls, z_line (zip_of l'), None, tl inp)"
        using False unfolding spec by (auto split: list.split rd.split)
      ultimately show ?thesis
        using 1(1) c(6) ret by (simp add: round_as_def schar_of_minus_1)
    next
      case True
      then obtain ch rest where inp: "inp = Byte ch # rest" by blast
      have key: "ok_with (editKey ch l' w') (round_as l w (spec_key (l_buflen l') ch
          (ls, l_history_index l', zip_of l') rest))"
        using editKey_ok [OF c(1), of ch] esc c(2,3,7) inp
        by (auto elim!: ok_with_mono intro: round_as_frame)
      have goes: "goes_on_as l w ((ls, l_history_index l, zip_of l'), rest) (l', w')"
        using c inp by (simp add: goes_on_as_def)
      show ?thesis
        using 1(1) c(6) ret key goes unfolding spec
        by (simp add: key_value_def inp round_as_def int_of_schar_zero)
    qed
  qed
qed

lemma editRound_ok:
  assumes "loop_sound l w ls" and "esc_ok (w_in w)"
  shows "ok_with (editRound l w)
    (round_as l w (spec_round (completionCallback w) (l_buflen l) (ls, l_history_index l, zip_of l) (w_in w)))"
proof -
  have s: "ln_inv l" "hist_rep w ls" using assms(1) by (auto simp: loop_sound_def)
  have rep: "hist_rep (w\<lparr>w_in := r\<rparr>) ls" for r
    using s(2) hist_rep_cong [of "w\<lparr>w_in := r\<rparr>" w ls] by simp
  have ret: "ends_as l w (z_len (zip_of l), ls, z_line (zip_of l), None, r) (int_of_size (l_len l), l, w\<lparr>w_in := r\<rparr>)" for r
    using s rep z_line_len [OF s(1)] by (simp add: ends_as_def result_frame_None) (simp add: sess_frame_def)
  show ?thesis
  proof (cases "\<exists>c r. w_in w = Byte c # r")
    case False
    then have "editRound l w = Some (Ret (int_of_size (l_len l)) l (w\<lparr>w_in := tl (w_in w)\<rparr>))"
      by (auto simp: editRound_def sys_read_def split: list.split rd.split)
    moreover have "spec_round (completionCallback w) (l_buflen l) (ls, l_history_index l, zip_of l) (w_in w) =
        Inr (z_len (zip_of l), ls, z_line (zip_of l), None, tl (w_in w))"
      using False by (auto simp: spec_round_def split: list.split rd.split)
    ultimately show ?thesis using ret by (simp add: round_as_def)
  next
    case True
    then obtain c r where inp: "w_in w = Byte c # r" by blast
    let ?w = "w\<lparr>w_in := r\<rparr>"
    have rd: "sys_read w = (Byte c, ?w)" using inp by (simp add: sys_read_def)
    have sound: "loop_sound l ?w ls" "esc_ok (w_in ?w)" "c = ESC \<Longrightarrow> complete_esc (w_in ?w)"
      using assms inp by auto
    have key: "ok_with (editKey c l ?w) (round_as l w (spec_key (l_buflen l) c (ls, l_history_index l, zip_of l) r))"
    proof -
      from editKey_ok [OF sound(1,3)]
      have "ok_with (editKey c l ?w) (round_as l ?w (spec_key (l_buflen l) c (ls, l_history_index l, zip_of l) r))"
        by simp
      then show ?thesis by (rule ok_with_mono) (rule round_as_in)
    qed
    show ?thesis
    proof (cases "completionCallback w")
      case None
      with key inp rd show ?thesis by (simp add: editRound_def spec_round_def)
    next
      case (Some cc)
      have "completionCallback ?w = Some cc" using Some by simp
      note comp = editRound_complete [OF sound(1,2) this]
      show ?thesis
      proof (cases "c = TAB")
        case True
        let ?m = "do {
            (r, l, w) \<leftarrow> completeLine l ?w;
            let c = char_of_int r;
            if int_of_schar c < 0 then Some (Ret (int_of_size (l_len l)) l w)
            else if int_of_schar c = 0 then Some (Again l w)
            else editKey c l w }"
        have code: "editRound l w = ?m" using True Some rd by (simp add: editRound_def)
        have spec: "spec_round (completionCallback w) (l_buflen l) (ls, l_history_index l, zip_of l) (w_in w) =
            spec_complete (cc (c_str (z_line (zip_of l)))) (l_buflen l) (ls, l_history_index l, zip_of l) (w_in ?w)"
          using True Some inp by (simp add: spec_round_def)
        show ?thesis unfolding code spec by (rule ok_with_mono [OF comp]) (rule round_as_in)
      next
        case False
        with key Some inp rd show ?thesis by (simp add: editRound_def spec_round_def)
      qed
    qed
  qed
qed

section \<open>The loop\<close>

lemma char_action_esc: "char_action c r = (a, r') \<Longrightarrow> esc_ok r \<Longrightarrow> esc_ok r'"
  by (auto simp: char_action_def esc_ok_action split: if_splits)

lemma spec_key_esc: "spec_key n c s r = Inl (s', r') \<Longrightarrow> esc_ok r \<Longrightarrow> esc_ok r'"
  by (auto simp: spec_key_def dest: char_action_esc act_rest split: prod.splits)

lemma spec_complete_esc:
  assumes "spec_complete cs n s r = Inl (s', r')" and "esc_ok r"
  shows "esc_ok r'"
proof -
  obtain ls i z where s: "s = (ls, i, z)" by (cases s)
  have "esc_ok (dropWhile (\<lambda>x. x = Byte TAB) r)" using assms(2) by (rule esc_ok_dropWhile)
  then show ?thesis
    using assms unfolding s spec_complete_def Let_def
    by (auto dest: spec_key_esc split: if_splits list.splits rd.splits)
qed

lemma spec_round_esc: "spec_round cb n s r = Inl (s', r') \<Longrightarrow> esc_ok r \<Longrightarrow> esc_ok r'"
  by (auto simp: spec_round_def dest: spec_key_esc spec_complete_esc
      split: prod.splits list.splits rd.splits option.splits if_splits)

lemma ends_as_frame:
  "ends_as l' w' res x \<Longrightarrow> edit_frame l l' \<Longrightarrow> sess_frame w w' \<Longrightarrow> ends_as l w res x"
  by (auto simp: ends_as_def intro: edit_frame_trans result_frame_sess split: prod.splits)

lemma editLoop_ok:
  assumes "loop_sound l w ls" and "esc_ok (w_in w)"
  shows "ok_with (editLoop l w)
    (ends_as l w (spec_loop (completionCallback w) (l_buflen l) (ls, l_history_index l, zip_of l) (w_in w)))"
  using assms
proof (induction "length (w_in w)" arbitrary: l w ls rule: less_induct)
  case less
  let ?spec = "spec_round (completionCallback w) (l_buflen l) (ls, l_history_index l, zip_of l) (w_in w)"
  obtain res where res: "editRound l w = Some res" "round_as l w ?spec res"
    using editRound_ok [OF less.prems] by (auto simp: ok_with_def)
  show ?case
  proof (cases ?spec)
    case (Inr out)
    then obtain n l' w' where "res = Ret n l' w'" "ends_as l w out (n, l', w')"
      using res(2) by (cases res) (auto simp: round_as_def)
    with res(1) Inr show ?thesis
      by (subst editLoop.simps, subst spec_loop.simps) simp
  next
    case (Inl sr)
    obtain s' r' where "sr = (s', r')" by (cases sr)
    moreover obtain ls' i' z' where "s' = (ls', i', z')" by (cases s')
    ultimately have sr: "sr = ((ls', i', z'), r')" by simp
    from res(2) Inl obtain l' w' where out: "res = Again l' w'" "goes_on_as l w sr (l', w')"
      by (cases res) (auto simp: round_as_def)
    then have g: "loop_sound l' w' ls'" "edit_frame l l'" "l_history_index l' = i'" "zip_of l' = z'"
        "w_in w' = r'" "sess_frame w w'"
      by (auto simp: goes_on_as_def sr)
    have same: "completionCallback w' = completionCallback w" "l_buflen l' = l_buflen l"
      using g by (auto simp: sess_frame_def edit_frame_def)
    have "length (w_in w') < length (w_in w)" "esc_ok (w_in w')"
      using Inl sr g(5) spec_round_shorter spec_round_esc less.prems(2) by blast+
    from less.hyps [OF this(1) g(1) this(2)]
    have "ok_with (editLoop l' w')
        (ends_as l' w' (spec_loop (completionCallback w) (l_buflen l) (ls', i', z') r'))"
      by (simp add: same g)
    then have "ok_with (editLoop l' w')
        (ends_as l w (spec_loop (completionCallback w) (l_buflen l) (ls', i', z') r'))"
      by (rule ok_with_mono) (rule ends_as_frame [OF _ g(2,6)])
    moreover have "spec_loop (completionCallback w) (l_buflen l) (ls, l_history_index l, zip_of l) (w_in w) =
        spec_loop (completionCallback w) (l_buflen l) (ls', i', z') r'"
      by (subst spec_loop.simps) (simp add: Inl sr)
    ultimately show ?thesis
      using res(1) out(1) by (subst editLoop.simps) simp
  qed
qed

text \<open>What a call of \<open>linenoiseEdit\<close> needs: allocations and writes that succeed, a prompt that leaves room on
  the line, callbacks that keep to their contract, and an input without truncated escape sequences.\<close>

definition edit_ready :: "nat \<Rightarrow> string \<Rightarrow> nat \<Rightarrow> lnworld \<Rightarrow> bool" where
  "edit_ready m prompt cols w \<longleftrightarrow>
     hist_inv w \<and> w_alloc w = [] \<and> w_write w = [] \<and> 0 < m \<and> m < 2 ^ 29 \<and> 0 < cols \<and> cols < 2 ^ 29 \<and>
     length prompt < 2 ^ 29 \<and> (\<not> mlmode w \<longrightarrow> length prompt < cols) \<and> hints_ok w \<and>
     completion_ok m w \<and> esc_ok (w_in w)"

lemma linenoiseEdit_ok:
  assumes "getColumns w = Some (int cols, w1)" and "edit_ready m prompt cols w1" and "length buf = Suc m"
  shows "ok_with (linenoiseEdit ifd ofd buf (Suc m) prompt w) (\<lambda>(n', l', w'). \<exists>n ls line st r.
    spec_loop (completionCallback w) m (hist_push (hist_cap w) [] (hist_lines w), 0, ([], [])) (w_in w1) =
      (n, ls, line, st, r) \<and>
    n' = n \<and> ln_inv l' \<and> l_buflen l' = m \<and> line_of l' = line \<and> hist_rep w' ls \<and> w_in w' = r \<and>
    result_frame st w w')"
proof -
  note ask = getColumns_frame [OF assms(1)]
  have ask_sess: "sess_frame w w1" using ask by (rule ask_frame_sess)
  have r: "hist_inv w1" "w_alloc w1 = []" "w_write w1 = []" "0 < m" "m < 2 ^ 29" "0 < cols" "cols < 2 ^ 29"
      "length prompt < 2 ^ 29" "\<not> mlmode w1 \<longrightarrow> length prompt < cols" "hints_ok w1" "completion_ok m w1" "esc_ok (w_in w1)"
    using assms(2) by (auto simp: edit_ready_def)
  have ready: "hist_ready w1" using r by (simp add: hist_ready_def)
  define w2 where "w2 = hadd [] w1"
  note add = hadd_ok [OF ready is_c_string_Nil, folded w2_def]
  have s2: "sess_frame w1 w2" using add(2) by (rule sess_frame_hist)
  have in2: "w_in w2 = w_in w1" using add(2) by (simp add: hist_frame_fields)
  define w3 where "w3 = w2\<lparr>w_out := w_out w2 @ prompt\<rparr>"
  have s3: "sess_frame w2 w3" by (simp add: w3_def sess_frame_def)
  have wr: "sys_write prompt w2 = (True, w3)"
    using r(3) s2 by (simp add: w3_def sess_frame_def)
  let ?ls = "hist_push (hist_cap w1) [] (hist_lines w1)"
  have rep: "hist_rep w3 ?ls"
    using add(3) hist_rep_cong [of w3 w2] by (simp add: w3_def)
  obtain t where t: "length t = m" "buf[0 := NUL] = NUL # t"
    using assms(3) by (cases buf) auto
  define l where "l = \<lparr>l_ifd = ifd, l_ofd = ofd, l_buf = NUL # t, l_buflen = m, l_prompt = prompt,
      l_plen = length prompt, l_pos = 0, l_oldpos = 0, l_len = 0, l_cols = cols, l_maxrows = 0, l_history_index = 0\<rparr>"
  have code: "linenoiseEdit ifd ofd buf (Suc m) prompt w = editLoop l w3"
    using assms(1,3) r(7) t(2) add(1) wr by (simp add: linenoiseEdit_def l_def Let_def)
  have sess: "sess_frame w1 w3" "sess_frame w w3"
    using s2 s3 ask_sess sess_frame_trans by blast+
  have ne: "?ls \<noteq> []" by (auto simp: hist_push_def hist_dup_def)
  have inv: "ln_inv l" "zip_of l = ([], [])"
    using ln_invI [of l "[]" "[]" t] r(4,5) t(1) by (simp_all add: l_def)
  have "view_ok l w1" using r by (simp add: view_ok_def l_def)
  then have sound: "loop_sound l w3 ?ls"
    using inv rep ne r sess(1) completion_ok_sess [OF sess(1)]
    by (simp add: loop_sound_def view_ok_sess_frame hist_index_ok_def) (simp add: l_def sess_frame_def)
  have in3: "w_in w3 = w_in w1" using in2 by (simp add: w3_def)
  have same: "hist_cap w1 = hist_cap w" "hist_lines w1 = hist_lines w" "completionCallback w3 = completionCallback w"
    using ask ask_frame_fields [OF ask] hist_lines_cong [of w1 w] sess(2)
    by (auto simp: hist_cap_def sess_frame_def)
  have buflen: "l_buflen l = m" "l_history_index l = 0" by (simp_all add: l_def)
  from editLoop_ok [OF sound] r(12) in3
  have "ok_with (editLoop l w3) (ends_as l w3 (spec_loop (completionCallback w) m (?ls, 0, ([], [])) (w_in w1)))"
    by (simp add: same inv buflen)
  then show ?thesis
    unfolding code same
    by (rule ok_with_mono)
      (auto simp: ends_as_def edit_frame_def buflen intro: result_frame_sess [OF sess(2)] split: prod.splits)
qed

text \<open>The session of the abstract editor on a line of ordinary keys, ended by the enter key.\<close>

definition plain_key :: "completion_callback option \<Rightarrow> char \<Rightarrow> bool" where
  "plain_key cb c \<longleftrightarrow> c \<noteq> ESC \<and> map_of key_table c = None \<and> (cb \<noteq> None \<longrightarrow> c \<noteq> TAB)"

lemma spec_loop_typed:
  assumes "list_all (plain_key cb) s" and "length a + length s \<le> n"
  shows "spec_loop cb n (ls, i, (a, [])) (map Byte s @ Byte CR # r) =
    (int (length a + length s), butlast ls, a @ s, None, r)"
  using assms
proof (induction s arbitrary: a)
  case Nil
  have "spec_round cb n (ls, i, (a, [])) (Byte CR # r) = Inr (int (length a), butlast ls, a, None, r)"
    by (cases cb) (simp_all add: spec_round_def spec_key_def char_action_def lookup_key_def key_table_def
        z_len_def z_line_def)
  then show ?case by (subst spec_loop.simps) simp
next
  case (Cons c s)
  have "spec_round cb n (ls, i, (a, [])) (Byte c # map Byte s @ Byte CR # r) =
      Inl ((ls, i, (a @ [c], [])), map Byte s @ Byte CR # r)"
    using Cons.prems by (cases cb) (auto simp: spec_round_def spec_key_def char_action_def lookup_key_def plain_key_def)
  then have "spec_loop cb n (ls, i, (a, [])) (map Byte (c # s) @ Byte CR # r) =
      spec_loop cb n (ls, i, (a @ [c], [])) (map Byte s @ Byte CR # r)"
    by (subst spec_loop.simps) simp
  with Cons.IH [of "a @ [c]"] Cons.prems show ?case by simp
qed

section \<open>Properties\<close>

text \<open>C1. \<open>linenoiseEdit\<close> refines the abstract editor, in the conditions of \<open>edit_ready\<close>: allocations and writes
  succeed, the history is as its functions leave it, the prompt is narrower than the terminal in single
  line mode, the callbacks keep to their contract (hints have a style, candidates fit in the buffer), the
  input has no truncated escape sequence, and the sizes fit in 29 bits.  Then it returns for every input (end of file and read errors
  included), nothing it does is undefined, and the value returned, the line in the buffer, the lines of
  the history, the status and the input consumed are those of the abstract editor; the line never exceeds
  the buffer, and no setting is changed.  Without these conditions it does go wrong: other properties
  show it for a line that could not be added to the history, for long candidates and for wide prompts.\<close>

theorem linenoiseEdit_refines:
  assumes "getColumns w = Some (int cols, w1)" and "edit_ready m prompt cols w1" and "length buf = Suc m"
  shows "\<exists>n l' w' ls line st r. linenoiseEdit ifd ofd buf (Suc m) prompt w = Some (n, l', w') \<and>
    spec_loop (completionCallback w) m (hist_push (hist_cap w) [] (hist_lines w), 0, ([], [])) (w_in w1) =
      (n, ls, line, st, r) \<and>
    ln_inv l' \<and> l_buflen l' = m \<and> line_of l' = line \<and> length line \<le> m \<and> hist_rep w' ls \<and> w_in w' = r \<and>
    result_frame st w w'"
proof -
  have "length (line_of l) \<le> l_buflen l" if "ln_inv l" for l
    using that by (simp add: ln_inv_def line_of_def)
  with linenoiseEdit_ok [OF assms, of ifd ofd] show ?thesis
    by (fastforce simp: ok_with_def)
qed

lemma edit_ready_init:
  "0 < m \<Longrightarrow> m < 2 ^ 29 \<Longrightarrow> length prompt < 80 \<Longrightarrow> esc_ok inp \<Longrightarrow> edit_ready m prompt 80 (init_world inp t)"
  using init_world_ready(1) [of inp t]
  by (simp add: edit_ready_def hist_ready_def hints_ok_def completion_ok_def)

theorem linenoiseEdit_refines_witness:
  "\<exists>l' w'. linenoiseEdit 0 1 (replicate 9 (CHR ''?'')) 9 ''> '' (init_world (map Byte ''hi'' @ [Byte CR]) termios0) =
      Some (2, l', w') \<and> line_of l' = ''hi'' \<and> hist_rep w' []"
proof -
  let ?w = "init_world (map Byte ''hi'' @ [Byte CR]) termios0"
  have cols: "getColumns ?w = Some (int 80, ?w)" by (simp add: getColumns_def numeral_eq_Suc)
  have ready: "edit_ready 8 ''> '' 80 ?w" by (rule edit_ready_init) simp_all
  have spec: "spec_loop None 8 ([[]], 0, ([], [])) (map Byte ''hi'' @ Byte CR # []) = (2, [], ''hi'', None, [])"
    by (subst spec_loop_typed) (simp_all add: plain_key_def key_table_def)
  show ?thesis
    using linenoiseEdit_refines [OF cols ready, of "replicate 9 (CHR ''?'')" 0 1] spec
    by (simp add: init_world_ready hist_push_def hist_dup_def) metis
qed

text \<open>C27. In every state of the loop in which no allocation has failed (\<open>loop_sound\<close>), the enter key and
  ctrl-d on an empty line take the line being edited out of the history again: they free the string in its
  slot and change no other slot of the array (\<open>slot_freed\<close>); a second \<open>free\<close> would be undefined.  They
  return the length of the line, or -1 with the status of ctrl-d.  Ctrl-c returns -1 with its own
  status and leaves the array as it is, with the line being edited.  The code takes for granted that the
  line being edited is in the history: with an empty history, as when the allocation of its entry has
  failed, the enter key and ctrl-d free the slot -1, which is undefined.\<close>

theorem editing_ends:
  assumes "loop_sound l w ls"
  shows "(\<exists>l' w'. editKey CR l w = Some (Ret (int (l_len l)) l' w') \<and> line_of l' = line_of l \<and>
      slot_freed w ls w' \<and> hist_rep w' (butlast ls)) \<and>
    (l_len l = 0 \<longrightarrow> (\<exists>l' w'. editKey CTRL_D l w = Some (Ret (-1) l' w') \<and> data_status w' = ctrl_D \<and>
      slot_freed w ls w' \<and> hist_rep w' (butlast ls))) \<and>
    (\<exists>l' w'. editKey CTRL_C l w = Some (Ret (-1) l' w') \<and> data_status w' = ctrl_C \<and> w_errno w' = EAGAIN \<and>
      history w' = history w \<and> hist_rep w' ls) \<and>
    (\<forall>v. history_len v = 0 \<longrightarrow> editKey CR l v = None \<and> (l_len l = 0 \<longrightarrow> editKey CTRL_D l v = None))"
proof (intro conjI impI allI)
  have inv: "ln_inv l" "hist_rep w ls" using assms by (simp_all add: loop_sound_def)
  note z = z_line_len [OF inv(1)]
  have keys: "editKey CR l w = editEnter l w" "editKey CTRL_D l w = editCtrlD l w"
      "editKey CTRL_C l w = Some (Ret (-1) l (w\<lparr>w_errno := EAGAIN, data_status := ctrl_C\<rparr>))"
    by (simp_all add: editKey_def)
  show "\<exists>l' w'. editKey CR l w = Some (Ret (int (l_len l)) l' w') \<and> line_of l' = line_of l \<and>
      slot_freed w ls w' \<and> hist_rep w' (butlast ls)"
    using editEnter_run [OF assms] z(1,2) unfolding keys by (auto simp: ends_as_def)
  show "\<exists>l' w'. editKey CTRL_D l w = Some (Ret (-1) l' w') \<and> data_status w' = ctrl_D \<and>
      slot_freed w ls w' \<and> hist_rep w' (butlast ls)" if "l_len l = 0"
    using editCtrlD_run [OF assms that] unfolding keys by (auto simp: ends_as_def result_frame_def sess_frame_def)
  have "hist_rep (w\<lparr>w_errno := EAGAIN, data_status := ctrl_C\<rparr>) ls"
    using inv(2) hist_rep_cong [of "w\<lparr>w_errno := EAGAIN, data_status := ctrl_C\<rparr>" w ls] by simp
  then show "\<exists>l' w'. editKey CTRL_C l w = Some (Ret (-1) l' w') \<and> data_status w' = ctrl_C \<and> w_errno w' = EAGAIN \<and>
      history w' = history w \<and> hist_rep w' ls"
    unfolding keys by simp
  have "hfree (-1) hs = None" for hs by (simp add: hfree_def hslot_def)
  then show "editKey CR l v = None" "l_len l = 0 \<Longrightarrow> editKey CTRL_D l v = None" if "history_len v = 0" for v
    using that by (cases "history v"; simp add: editKey_def editEnter_def editCtrlD_def)+
qed

lemma fresh_loop_sound: "loop_sound (fresh_line 8 ''> '' 80) two_lines [''ls'', ''cd'']"
  using two_lines_rep
  by (simp add: loop_sound_def fresh_line_ok hist_index_ok_def completion_ok_def)
    (simp add: two_lines_def init_world_def)

theorem editing_ends_witness:
  "\<exists>l' w'. editKey CTRL_D (fresh_line 8 ''> '' 80) two_lines = Some (Ret (-1) l' w') \<and>
    hist_rep w' [''ls''] \<and> slot_freed two_lines [''ls'', ''cd''] w'"
  using editing_ends [OF fresh_loop_sound] by (auto simp: fresh_line_ok)

end
