(* ===== verification/Ln_Main.thy ===== *)
theory Ln_Main
  imports Ln_Loop
begin

text \<open>
  The entry points of \<open>linenoise.c\<close>: \<open>linenoisePrintKeyCodes\<close>, \<open>linenoiseRaw\<close>, \<open>linenoiseNoTTY\<close>,
  \<open>linenoiseExtra\<close>, \<open>linenoise\<close> and \<open>linenoiseFree\<close>, and the wrappers of the standard library on top of
  them (\<open>readLineStatus\<close> of \<open>linenoise.nim\<close>, \<open>readLineFromStdin\<close> of \<open>rdstdin.nim\<close>).  The lemmas
  show what each returns in terms of the abstract editor of \<open>Ln_Loop\<close>, and that the terminal is left
  with the settings it had.
\<close>

section \<open>Key codes\<close>

definition hex_digit :: "nat \<Rightarrow> char" where
  "hex_digit d = char_of (if d < 10 then 48 + d else 87 + d)"

text \<open>\<open>%02x\<close> of a \<open>char\<close> widened to \<open>int\<close>, for characters that are not negative.\<close>

definition hex2 :: "char \<Rightarrow> string" where
  "hex2 c = [hex_digit (of_char c div 16), hex_digit (of_char c mod 16)]"

definition is_print :: "char \<Rightarrow> bool" where
  "is_print c \<longleftrightarrow> 32 \<le> (of_char c :: nat) \<and> (of_char c :: nat) < 127"

text \<open>\<open>isprint\<close> has no defined value for a negative \<open>char\<close>.\<close>

definition key_line :: "char \<Rightarrow> string option" where
  "key_line c =
     (if int_of_schar c < 0 then None
      else Some ([CHR 0x27] @ [if is_print c then c else CHR ''?''] @ [CHR 0x27] @ '' '' @ hex2 c @ '' ('' @
                 dec_of_int (int_of_schar c) @ '') (type quit to exit)'' @ [LF]))"

partial_function (option) keyLoop :: "string \<Rightarrow> lnworld \<Rightarrow> lnworld option" where
  "keyLoop quit w =
     (case sys_read w of
        (Byte c, w) \<Rightarrow> do {
          quit \<leftarrow> mem_move 0 1 3 quit;
          quit \<leftarrow> mem_set 3 c quit;
          if quit = ''quit'' then Some w
          else do {
            t \<leftarrow> key_line c;
            let w = out_printf t w;
            let w = out_printf [CR] w;
            keyLoop quit w
          }
        }
      | (_, w) \<Rightarrow> keyLoop quit w)"

definition key_banner :: string where
  "key_banner = ''Linenoise key codes debugging mode.'' @ [LF] @
     ''Press keys to see scan codes. Type '' @ [CHR 0x27] @ ''quit'' @ [CHR 0x27] @ '' at any time to exit.'' @ [LF]"

definition linenoisePrintKeyCodes :: "lnworld \<Rightarrow> lnworld option" where
  "linenoisePrintKeyCodes w =
     (let w = out_printf key_banner w; (r, w) = enableRawMode w in
      if r = -1 then Some w
      else do { w \<leftarrow> keyLoop (replicate 4 (CHR '' '')) w; Some (disableRawMode w) })"

section \<open>Reading a line\<close>

text \<open>The buffer is the caller's; it is returned with the count.\<close>

definition linenoiseRaw ::
  "char list \<Rightarrow> nat \<Rightarrow> string \<Rightarrow> lnworld \<Rightarrow> (int \<times> char list \<times> lnworld) option" where
  "linenoiseRaw buf buflen prompt w =
     (if buflen = 0 then Some (-1, buf, w\<lparr>w_errno := EINVAL\<rparr>)
      else let (r, w) = enableRawMode w in
        if r = -1 then Some (-1, buf, w)
        else do {
          (count, l, w) \<leftarrow> linenoiseEdit 0 1 buf buflen prompt w;
          let w = disableRawMode w;
          let w = out_printf [LF] w;
          Some (count, l_buf l, w)
        })"

text \<open>The bytes a \<open>realloc\<close> adds to a block are indeterminate: \<open>garbage\<close> stands for whatever they
  are.\<close>

definition garbage :: char where
  "garbage = CHR 0xAA"

text \<open>The growth of the block at the head of the loop; the outer None of the result says that the
  allocation failed.\<close>

definition nottyGrow ::
  "char list option \<Rightarrow> nat \<Rightarrow> nat \<Rightarrow> lnworld \<Rightarrow> (char list option \<times> nat) option \<times> lnworld" where
  "nottyGrow line len maxlen w =
     (if len = maxlen
      then let maxlen = (if maxlen = 0 then 16 else maxlen);
               maxlen = size_add maxlen maxlen;
               old = (case line of None \<Rightarrow> [] | Some b \<Rightarrow> b);
               (ok, w) = alloc w
        in if \<not> ok then (None, w)
           else (Some (Some (take maxlen old @ replicate (maxlen - length old) garbage), maxlen), w)
      else (Some (line, maxlen), w))"

text \<open>A pointer to a block of characters is \<open>Some\<close> of its contents; the result \<open>NULL\<close> is None.\<close>

partial_function (option) nottyLoop ::
  "char list option \<Rightarrow> nat \<Rightarrow> nat \<Rightarrow> lnworld \<Rightarrow> (char list option \<times> lnworld) option" where
  "nottyLoop line len maxlen w =
     (case nottyGrow line len maxlen w of
        (None, w) \<Rightarrow> Some (None, w)
      | (Some (line, maxlen), w) \<Rightarrow>
          let (r, w) = sys_read w; c = (case r of Byte c \<Rightarrow> Some c | _ \<Rightarrow> None) in
          if c = None \<or> c = Some LF
          then if c = None \<and> len = 0 then Some (None, w)
               else do { b \<leftarrow> line; b \<leftarrow> mem_set len NUL b; Some (Some b, w) }
          else do {
            b \<leftarrow> line;
            b \<leftarrow> mem_set len (the c) b;
            nottyLoop (Some b) (len + 1) maxlen w
          })"

definition linenoiseNoTTY :: "lnworld \<Rightarrow> (char list option \<times> lnworld) option" where
  "linenoiseNoTTY w = nottyLoop None 0 0 w"

text \<open>\<open>strdup\<close> of a string.\<close>

definition c_strdup :: "char list \<Rightarrow> lnworld \<Rightarrow> (char list option \<times> lnworld) option" where
  "c_strdup buf w = do {
     _ \<leftarrow> strlen buf;
     let (ok, w) = alloc w;
     Some (if ok then Some (c_str buf @ [NUL]) else None, w)
   }"

text \<open>\<open>fgets(buf, n + 1, stdin)\<close>: the characters read; None when it returns \<open>NULL\<close>.\<close>

fun fgets_stdin :: "nat \<Rightarrow> lnworld \<Rightarrow> string option \<times> lnworld" where
  "fgets_stdin 0 w = (Some [], w)"
| "fgets_stdin (Suc n) w =
     (case sys_read w of
        (Byte c, w) \<Rightarrow>
          if c = LF then (Some [c], w)
          else (case fgets_stdin n w of (None, w) \<Rightarrow> (None, w) | (Some s, w) \<Rightarrow> (Some (c # s), w))
      | (Eof, w) \<Rightarrow> (Some [], w)
      | (RdErr, w) \<Rightarrow> (None, w))"

definition readUnsupported :: "string \<Rightarrow> lnworld \<Rightarrow> (char list option \<times> lnworld) option" where
  "readUnsupported prompt w =
     (let w = out_printf prompt w;
          (s, w) = fgets_stdin (LINENOISE_MAX_LINE - 1) w
      in if s = None \<or> s = Some [] then Some (None, w)
         else do {
           let buf = the s @ [NUL];
           len \<leftarrow> strlen buf;
           len \<leftarrow> back_while (\<lambda>c. c = LF \<or> c = CR) buf len;
           buf \<leftarrow> mem_set len NUL buf;
           c_strdup buf w
         })"

text \<open>\<open>buf\<close> is the indeterminate contents of the local array.\<close>

definition linenoiseExtra :: "char list \<Rightarrow> string \<Rightarrow> lnworld \<Rightarrow> (char list option \<times> lnworld) option" where
  "linenoiseExtra buf prompt w =
     (if \<not> w_isatty w then linenoiseNoTTY w
      else if isUnsupportedTerm w then readUnsupported prompt w
      else do {
        (count, buf, w) \<leftarrow> linenoiseRaw buf LINENOISE_MAX_LINE prompt w;
        if count = -1 then Some (None, w) else c_strdup buf w
      })"

text \<open>The local \<open>linenoiseData\<close> is dropped at the end.\<close>

definition linenoise :: "char list \<Rightarrow> string \<Rightarrow> lnworld \<Rightarrow> (char list option \<times> lnworld) option" where
  "linenoise buf prompt w = do {
     (p, w') \<leftarrow> linenoiseExtra buf prompt (w\<lparr>data_status := ctrl_unknown\<rparr>);
     Some (p, w'\<lparr>data_status := data_status w\<rparr>)
   }"

definition linenoiseFree :: "hptr \<Rightarrow> hptr option" where
  "linenoiseFree p = (case p of Null \<Rightarrow> Some Null | Str _ \<Rightarrow> Some Freed | Freed \<Rightarrow> None)"

section \<open>The wrappers of the standard library\<close>

datatype Status = lnCtrlUnkown | lnCtrlC | lnCtrlD

record ReadLineResult =
  rl_line :: string
  rl_status :: Status

text \<open>The conversion \<open>data.status.ord.Status\<close>, and \<open>$\<close> of a \<open>cstring\<close> that may be nil.\<close>

fun status_of :: "linenoiseStatus \<Rightarrow> Status" where
  "status_of ctrl_unknown = lnCtrlUnkown"
| "status_of ctrl_C = lnCtrlC"
| "status_of ctrl_D = lnCtrlD"

definition nim_str :: "char list option \<Rightarrow> string" where
  "nim_str p = (case p of None \<Rightarrow> [] | Some b \<Rightarrow> c_str b)"

definition readLineStatus :: "char list \<Rightarrow> string \<Rightarrow> lnworld \<Rightarrow> (ReadLineResult \<times> lnworld) option" where
  "readLineStatus buf prompt w = do {
     (p, w') \<leftarrow> linenoiseExtra buf prompt (w\<lparr>data_status := ctrl_unknown\<rparr>);
     Some (\<lparr>rl_line = nim_str p, rl_status = status_of (data_status w')\<rparr>, w'\<lparr>data_status := data_status w\<rparr>)
   }"

definition readLineFromStdin :: "char list \<Rightarrow> string \<Rightarrow> lnworld \<Rightarrow> (bool \<times> string \<times> lnworld) option" where
  "readLineFromStdin buf prompt w = do {
     (p, w) \<leftarrow> linenoise buf prompt w;
     if p = None then Some (False, [], w)
     else do {
       let line = nim_str p;
       (_, w) \<leftarrow> (if length line > 0 then linenoiseHistoryAdd line w else Some (0, w));
       Some (True, line, w)
     }
   }"

section \<open>Key codes: the loop ends at the first \<open>quit\<close>\<close>

fun bytes_of :: "rd list \<Rightarrow> string" where
  "bytes_of [] = []"
| "bytes_of (Byte c # r) = c # bytes_of r"
| "bytes_of (_ # r) = bytes_of r"

text \<open>\<open>first_quit q s\<close>: with \<open>q\<close> as the last four keys, \<open>s\<close> completes the word \<open>quit\<close> at its end and
  not before.\<close>

fun first_quit :: "string \<Rightarrow> string \<Rightarrow> bool" where
  "first_quit q [] = False"
| "first_quit q (c # s) =
     (let q = tl q @ [c] in if q = ''quit'' then s = [] else first_quit q s)"

definition seven_bit :: "string \<Rightarrow> bool" where
  "seven_bit s \<longleftrightarrow> list_all (\<lambda>c. 0 \<le> int_of_schar c) s"

lemma window_shift:
  assumes "length q = 4"
  shows "\<exists>q'. mem_move 0 1 3 q = Some q' \<and> mem_set 3 c q' = Some (tl q @ [c])"
proof -
  obtain a b d e where "q = [a, b, d, e]"
    using assms by (auto simp: numeral_eq_Suc length_Suc_conv)
  then show ?thesis by (simp add: mem_move_def mem_set_def numeral_eq_Suc)
qed

lemma keyLoop_ok:
  assumes "length q = 4" and "w_in w = inp @ rest" and "first_quit q (bytes_of inp)"
    and "seven_bit (bytes_of inp)" and "inp \<noteq> []" and "\<exists>c. last inp = Byte c"
  shows "\<exists>t. keyLoop q w = Some (w\<lparr>w_in := rest, w_out := w_out w @ t\<rparr>)"
  using assms
proof (induction inp arbitrary: q w)
  case (Cons x inp)
  show ?case
  proof (cases "\<exists>c. x = Byte c")
    case False
    then have ne: "inp \<noteq> []" using Cons.prems(6) by (cases inp) auto
    have "keyLoop q w = keyLoop q (w\<lparr>w_in := inp @ rest\<rparr>)"
      using False Cons.prems(2) by (subst keyLoop.simps) (cases x; simp add: sys_read_def)
    moreover have "\<exists>t. keyLoop q (w\<lparr>w_in := inp @ rest\<rparr>) =
        Some (w\<lparr>w_in := inp @ rest\<rparr>\<lparr>w_in := rest, w_out := w_out (w\<lparr>w_in := inp @ rest\<rparr>) @ t\<rparr>)"
      by (rule Cons.IH) (use Cons.prems False ne in \<open>cases x; simp\<close>)+
    ultimately show ?thesis by simp
  next
    case True
    then obtain c where c: "x = Byte c" by blast
    obtain q' where q': "mem_move 0 1 3 q = Some q'" "mem_set 3 c q' = Some (tl q @ [c])"
      using window_shift [OF Cons.prems(1)] by blast
    have rd: "sys_read w = (Byte c, w\<lparr>w_in := inp @ rest\<rparr>)"
      using Cons.prems(2) c by (simp add: sys_read_def)
    show ?thesis
    proof (cases "tl q @ [c] = ''quit''")
      case True
      then have "bytes_of inp = []" using Cons.prems(3) c by (simp add: Let_def)
      moreover have "inp = []"
      proof (rule ccontr)
        assume "inp \<noteq> []"
        then obtain ys z where "inp = ys @ [z]" by (cases inp rule: rev_cases) auto
        moreover have "bytes_of (ys @ [Byte d]) \<noteq> []" for ys d
          by (induction ys rule: bytes_of.induct) auto
        ultimately show False using Cons.prems(6) \<open>bytes_of inp = []\<close> by auto
      qed
      ultimately have "keyLoop q w = Some (w\<lparr>w_in := rest, w_out := w_out w @ []\<rparr>)"
        using True rd q' by (subst keyLoop.simps) simp
      then show ?thesis by blast
    next
      case False
      obtain t where t: "key_line c = Some t"
        using Cons.prems(4) c by (auto simp: key_line_def seven_bit_def)
      define w2 where "w2 = w\<lparr>w_in := inp @ rest, w_out := w_out w @ t @ [CR]\<rparr>"
      have "keyLoop q w = keyLoop (tl q @ [c]) w2"
        using False rd q' t by (subst keyLoop.simps) (auto simp: out_printf_def w2_def)
      moreover have "inp \<noteq> []" using Cons.prems(3) False c by (auto simp: Let_def)
      then have "\<exists>u. keyLoop (tl q @ [c]) w2 = Some (w2\<lparr>w_in := rest, w_out := w_out w2 @ u\<rparr>)"
        by (intro Cons.IH)
          (use Cons.prems False c in \<open>simp_all add: w2_def Let_def seven_bit_def\<close>)
      ultimately show ?thesis by (auto simp: w2_def)
    qed
  qed
qed simp

lemma linenoisePrintKeyCodes_ok:
  assumes "w_isatty w" "w_tc w = []" "w_in w = inp @ rest" "inp \<noteq> []" "\<exists>c. last inp = Byte c"
    and "first_quit (replicate 4 (CHR '' '')) (bytes_of inp)" "seven_bit (bytes_of inp)"
  obtains t where "linenoisePrintKeyCodes w = Some (w\<lparr>atexit_registered := True,
      orig_termios := w_termios w, rawmode := False, w_in := rest, w_out := w_out w @ t\<rparr>)"
proof -
  define w1 where "w1 = w\<lparr>atexit_registered := True, orig_termios := w_termios w, rawmode := True,
      w_out := w_out w @ key_banner, w_termios := raw_termios (w_termios w)\<rparr>"
  have en: "enableRawMode (out_printf key_banner w) = (0, w1)"
    using assms(1,2) by (simp add: enableRawMode_plenty out_printf_def w1_def)
  obtain t where "keyLoop (replicate 4 (CHR '' '')) w1 = Some (w1\<lparr>w_in := rest, w_out := w_out w1 @ t\<rparr>)"
    using keyLoop_ok [of "replicate 4 (CHR '' '')" w1 inp rest] assms by (auto simp: w1_def)
  then have "linenoisePrintKeyCodes w =
      Some (disableRawMode (w1\<lparr>w_in := rest, w_out := w_out w1 @ t\<rparr>))"
    using en by (simp add: linenoisePrintKeyCodes_def)
  also have "disableRawMode (w1\<lparr>w_in := rest, w_out := w_out w1 @ t\<rparr>) =
      w\<lparr>atexit_registered := True, orig_termios := w_termios w, rawmode := False, w_in := rest,
        w_out := w_out w @ key_banner @ t\<rparr>"
    using assms(2) by (subst disableRawMode_plenty) (simp_all add: w1_def)
  finally show ?thesis by (rule that)
qed

text \<open>On an input that ends without the word, the loop never returns.\<close>

lemma keyLoop_eof: "w_in w = [] \<Longrightarrow> keyLoop q w = None"
proof (cases "keyLoop q w")
  case (Some r)
  assume "w_in w = []"
  moreover have "w_in w \<noteq> []"
    by (rule keyLoop.raw_induct [where P = "\<lambda>q w r. w_in w \<noteq> []", OF _ Some])
      (auto simp: sys_read_def split: list.splits rd.splits)
  ultimately show ?thesis by simp
qed

section \<open>Lines that do not come from a terminal\<close>

definition blk :: "char list option \<Rightarrow> nat \<Rightarrow> string \<Rightarrow> bool" where
  "blk line maxlen s \<longleftrightarrow>
     (case line of None \<Rightarrow> maxlen = 0 \<and> s = []
      | Some b \<Rightarrow> length b = maxlen \<and> length s \<le> maxlen \<and> take (length s) b = s)"

lemma nottyGrow_ok:
  assumes "blk line maxlen s" and "w_alloc w = []" and "length s < 2 ^ 62"
  obtains b maxlen' where "nottyGrow line (length s) maxlen w = (Some (Some b, maxlen'), w)"
    and "blk (Some b) maxlen' s" and "length s < maxlen'"
proof (cases "length s = maxlen")
  case False
  with assms(1) show ?thesis
    by (intro that [of "the line" maxlen]) (auto simp: nottyGrow_def blk_def split: option.splits)
next
  case True
  let ?m = "if maxlen = 0 then 16 else maxlen"
  let ?old = "case line of None \<Rightarrow> [] | Some b \<Rightarrow> b"
  have m: "size_add ?m ?m = ?m + ?m" using True assms(3) by simp
  have old: "?old = s" using assms(1) True by (auto simp: blk_def split: option.splits)
  show ?thesis
  proof (rule that)
    show "nottyGrow line (length s) maxlen w =
        (Some (Some (take (?m + ?m) s @ replicate (?m + ?m - length s) garbage), ?m + ?m), w)"
      using True assms(2) m old by (simp add: nottyGrow_def Let_def split del: if_split)
    show "length s < ?m + ?m" using True by auto
    then show "blk (Some (take (?m + ?m) s @ replicate (?m + ?m - length s) garbage)) (?m + ?m) s"
      by (simp add: blk_def split del: if_split)
  qed
qed

text \<open>The end of a line: a newline, or the end of the file.\<close>

definition line_end :: "rd list \<Rightarrow> bool" where
  "line_end inp \<longleftrightarrow> (case inp of Byte c # _ \<Rightarrow> c = LF | _ \<Rightarrow> True)"

lemma nottyLoop_ok:
  assumes "blk line maxlen s0" and "w_alloc w = []" and "length s0 + length s < 2 ^ 62"
    and "w_in w = map Byte s @ inp" and "line_end inp" and "LF \<notin> set s"
    and "s0 @ s \<noteq> [] \<or> (\<exists>r. inp = Byte LF # r)"
  shows "\<exists>junk. nottyLoop line (length s0) maxlen w = Some (Some ((s0 @ s) @ NUL # junk), w\<lparr>w_in := tl inp\<rparr>)"
  using assms
proof (induction s arbitrary: line maxlen s0 w)
  case Nil
  obtain b maxlen' where g: "nottyGrow line (length s0) maxlen w = (Some (Some b, maxlen'), w)"
      "blk (Some b) maxlen' s0" "length s0 < maxlen'"
    using nottyGrow_ok [OF Nil(1,2)] Nil(3) by auto
  have b: "length s0 < length b" "take (length s0) b = s0" using g by (auto simp: blk_def)
  then have set: "mem_set (length s0) NUL b = Some (s0 @ NUL # drop (Suc (length s0)) b)"
    by (simp add: upd_conv_take_nth_drop)
  obtain r where rd: "sys_read w = (r, w\<lparr>w_in := tl inp\<rparr>)" "r = Byte LF \<or> (\<forall>c. r \<noteq> Byte c) \<and> s0 \<noteq> []"
    using Nil(4,5,7) by (cases inp; cases "hd inp") (auto simp: sys_read_def line_end_def)
  have "nottyLoop line (length s0) maxlen w =
      Some (Some (s0 @ NUL # drop (Suc (length s0)) b), w\<lparr>w_in := tl inp\<rparr>)"
    using rd(2) by (subst nottyLoop.simps) (cases r; auto simp: g(1) rd(1) set)
  then show ?case by auto
next
  case (Cons c s)
  obtain b maxlen' where g: "nottyGrow line (length s0) maxlen w = (Some (Some b, maxlen'), w)"
      "blk (Some b) maxlen' s0" "length s0 < maxlen'"
    using nottyGrow_ok [OF Cons.prems(1,2)] Cons.prems(3) by auto
  have b: "length s0 < length b" "length b = maxlen'" "take (length s0) b = s0" using g by (auto simp: blk_def)
  let ?b = "b[length s0 := c]"
  have blk: "blk (Some ?b) maxlen' (s0 @ [c])"
    using b by (simp add: blk_def take_Suc_conv_app_nth)
  have rd: "sys_read w = (Byte c, w\<lparr>w_in := map Byte s @ inp\<rparr>)"
    using Cons.prems(4) by (simp add: sys_read_def)
  have "nottyLoop line (length s0) maxlen w =
      nottyLoop (Some ?b) (length (s0 @ [c])) maxlen' (w\<lparr>w_in := map Byte s @ inp\<rparr>)"
    using Cons.prems(6) b by (subst nottyLoop.simps) (auto simp: g(1) rd)
  moreover have "\<exists>junk. nottyLoop (Some ?b) (length (s0 @ [c])) maxlen' (w\<lparr>w_in := map Byte s @ inp\<rparr>) =
      Some (Some (((s0 @ [c]) @ s) @ NUL # junk), (w\<lparr>w_in := map Byte s @ inp\<rparr>)\<lparr>w_in := tl inp\<rparr>)"
    by (rule Cons.IH [OF blk]) (use Cons.prems in auto)
  ultimately show ?case by simp
qed

lemma linenoiseNoTTY_line:
  assumes "w_alloc w = []" "length s < 2 ^ 62" "w_in w = map Byte s @ inp" "line_end inp" "LF \<notin> set s"
    and "s \<noteq> [] \<or> (\<exists>r. inp = Byte LF # r)"
  obtains junk where "linenoiseNoTTY w = Some (Some (s @ NUL # junk), w\<lparr>w_in := tl inp\<rparr>)"
  using nottyLoop_ok [of None 0 "[]" w s inp] assms by (auto simp: linenoiseNoTTY_def blk_def)

lemma linenoiseNoTTY_eof:
  assumes "w_alloc w = []" and "w_in w = []"
  shows "linenoiseNoTTY w = Some (None, w)"
  using assms unfolding linenoiseNoTTY_def
  by (subst nottyLoop.simps) (simp add: nottyGrow_def sys_read_def)

section \<open>Lines from a terminal\<close>

text \<open>What a call on a terminal needs: a supported terminal that takes its settings and tells its width, and
  what \<open>linenoiseEdit\<close> needs.\<close>

definition tty_ready :: "string \<Rightarrow> nat \<Rightarrow> lnworld \<Rightarrow> bool" where
  "tty_ready prompt cols w \<longleftrightarrow>
     w_isatty w \<and> \<not> isUnsupportedTerm w \<and> w_tc w = [] \<and> w_winsize w = Some cols \<and>
     edit_ready (LINENOISE_MAX_LINE - 1) prompt cols w"

text \<open>What the abstract editor returns for a call.\<close>

definition spec_session :: "lnworld \<Rightarrow> abs_result" where
  "spec_session w =
     spec_loop (completionCallback w) (LINENOISE_MAX_LINE - 1)
       (hist_push (hist_cap w) [] (hist_lines w), 0, ([], [])) (w_in w)"

definition tty_frame :: "linenoiseStatus option \<Rightarrow> lnworld \<Rightarrow> lnworld \<Rightarrow> bool" where
  "tty_frame st w w' \<longleftrightarrow>
     result_frame st (w\<lparr>atexit_registered := True, orig_termios := w_termios w, rawmode := False\<rparr>) w'"

lemma linenoiseRaw_ok:
  assumes "tty_ready prompt cols w" and "length buf = LINENOISE_MAX_LINE"
  shows "ok_with (linenoiseRaw buf LINENOISE_MAX_LINE prompt w) (\<lambda>(n', buf', w'). \<exists>n ls line st r.
    spec_session w = (n, ls, line, st, r) \<and> n' = n \<and> NUL \<in> set buf' \<and> c_str buf' = c_str line \<and>
    hist_rep w' ls \<and> w_in w' = r \<and> tty_frame st w w')"
proof -
  from assms(1) have r: "w_isatty w" "w_tc w = []" "w_winsize w = Some cols"
    "edit_ready (LINENOISE_MAX_LINE - 1) prompt cols w"
    by (auto simp: tty_ready_def)
  define w1 where "w1 = w\<lparr>atexit_registered := True, orig_termios := w_termios w, rawmode := True,
      w_termios := raw_termios (w_termios w)\<rparr>"
  have en: "enableRawMode w = (0, w1)" using r(1,2) by (simp add: enableRawMode_plenty w1_def)
  have h: "hist_lines w1 = hist_lines w" "hist_inv w1 = hist_inv w"
    using hist_lines_cong [of w1 w] hist_rep_cong [of w1 w] by (simp_all add: w1_def hist_inv_def)
  have er: "edit_ready (LINENOISE_MAX_LINE - 1) prompt cols w1"
  proof -
    have "hints_ok w1 = hints_ok w" "completion_ok m w1 = completion_ok m w" for m
      by (simp_all add: w1_def hints_ok_def completion_ok_def)
    then show ?thesis using r(4) h by (simp add: edit_ready_def) (simp add: w1_def)
  qed
  then obtain k where k: "cols = Suc k" by (cases cols) (auto simp: edit_ready_def)
  have cols: "getColumns w1 = Some (int cols, w1)"
    using r(3) getColumns_winsize [of w1 k] by (simp add: w1_def k)
  have max: "LINENOISE_MAX_LINE = Suc (LINENOISE_MAX_LINE - 1)" by (simp add: LINENOISE_MAX_LINE_def)
  have spec: "spec_loop (completionCallback w1) (LINENOISE_MAX_LINE - 1)
      (hist_push (hist_cap w1) [] (hist_lines w1), 0, ([], [])) (w_in w1) = spec_session w"
    unfolding spec_session_def h by (simp add: w1_def hist_cap_def)
  have "length buf = Suc (LINENOISE_MAX_LINE - 1)" using assms(2) max by simp
  from linenoiseEdit_ok [OF cols er this, of 0 1, folded max, unfolded spec]
  obtain n l' w2 ls line st rest where 2: "linenoiseEdit 0 1 buf LINENOISE_MAX_LINE prompt w1 = Some (n, l', w2)"
      "spec_session w = (n, ls, line, st, rest)" "ln_inv l'" "line_of l' = line" "hist_rep w2 ls" "w_in w2 = rest"
      "result_frame st w1 w2"
    by (auto simp: ok_with_def)
  define w3 where "w3 = w2\<lparr>w_termios := orig_termios w2, rawmode := False\<rparr>"
  have dis: "disableRawMode w2 = w3"
    using 2(7) r(2) by (subst disableRawMode_plenty) (simp_all add: w3_def w1_def result_frame_def sess_frame_def)
  let ?w = "out_printf [LF] w3"
  have rep: "hist_rep ?w ls"
    using 2(5) hist_rep_cong [of ?w w2] by (simp add: w3_def out_printf_def)
  have fr: "tty_frame st w ?w"
    using 2(7) by (cases st) (simp_all add: tty_frame_def result_frame_def w3_def w1_def out_printf_def sess_frame_def)
  have code: "linenoiseRaw buf LINENOISE_MAX_LINE prompt w = Some (n, l_buf l', ?w)"
    using en 2(1) dis by (simp add: linenoiseRaw_def Let_def) (simp add: LINENOISE_MAX_LINE_def)
  show ?thesis
    unfolding code
    using 2(2,6) NUL_in_buf [OF 2(3)] c_str_line_of [OF 2(3)] 2(4) rep fr by (simp add: w3_def out_printf_def)
qed

lemma linenoiseExtra_tty:
  assumes "tty_ready prompt cols w" and "length buf = LINENOISE_MAX_LINE"
  obtains n ls line st r w' where "spec_session w = (n, ls, line, st, r)"
    and "linenoiseExtra buf prompt w = Some (if n = -1 then None else Some (c_str line @ [NUL]), w')"
    and "hist_rep w' ls" and "w_in w' = r" and "tty_frame st w w'"
proof -
  from linenoiseRaw_ok [OF assms] obtain n buf' w' ls line st r where
    1: "linenoiseRaw buf LINENOISE_MAX_LINE prompt w = Some (n, buf', w')" "spec_session w = (n, ls, line, st, r)"
      "NUL \<in> set buf'" "c_str buf' = c_str line" "hist_rep w' ls" "w_in w' = r" "tty_frame st w w'"
    by (auto simp: ok_with_def)
  have t: "w_isatty w" "\<not> isUnsupportedTerm w" "w_alloc w = []"
    using assms(1) by (auto simp: tty_ready_def edit_ready_def)
  have "w_alloc w' = []" using 1(7) t(3) by (cases st) (simp_all add: tty_frame_def result_frame_def sess_frame_def)
  then have "linenoiseExtra buf prompt w = Some (if n = -1 then None else Some (c_str line @ [NUL]), w')"
    using t 1 by (simp add: linenoiseExtra_def c_strdup_def strlen_def)
  with 1 show ?thesis using that by blast
qed

lemma spec_session_typed:
  assumes "w_in w = map Byte s @ Byte CR # r" and "list_all (plain_key (completionCallback w)) s"
    and "length s < LINENOISE_MAX_LINE"
  shows "spec_session w = (int (length s), butlast (hist_push (hist_cap w) [] (hist_lines w)), s, None, r)"
  using spec_loop_typed [OF assms(2), of "[]"] assms(1,3) by (simp add: spec_session_def)

text \<open>\<open>readLineFromStdin\<close>: the accepted line goes to the history unless it is empty.\<close>

lemma tty_ready_status: "tty_ready prompt cols (w\<lparr>data_status := s\<rparr>) = tty_ready prompt cols w"
proof -
  have "hist_lines (w\<lparr>data_status := s\<rparr>) = hist_lines w" by (rule hist_lines_cong) simp_all
  moreover have "hist_rep (w\<lparr>data_status := s\<rparr>) ls = hist_rep w ls" for ls by (rule hist_rep_cong) simp_all
  ultimately show ?thesis
    by (simp add: tty_ready_def edit_ready_def isUnsupportedTerm_def hist_inv_def hints_ok_def completion_ok_def)
qed

lemma spec_session_status: "spec_session (w\<lparr>data_status := s\<rparr>) = spec_session w"
proof -
  have "hist_lines (w\<lparr>data_status := s\<rparr>) = hist_lines w" by (rule hist_lines_cong) simp_all
  then show ?thesis by (simp add: spec_session_def hist_cap_def)
qed

lemma linenoise_tty:
  assumes "tty_ready prompt cols w" and "length buf = LINENOISE_MAX_LINE" and "spec_session w = (n, ls, line, st, r)"
  obtains w' where "linenoise buf prompt w = Some (if n = -1 then None else Some (c_str line @ [NUL]), w')"
    and "hist_rep w' ls" and "w_in w' = r" and "data_status w' = data_status w" and "w_termios w' = w_termios w"
    and "rawmode w' = False" and "w_alloc w' = []" and "history_max_len w' = history_max_len w"
proof -
  let ?w = "w\<lparr>data_status := ctrl_unknown\<rparr>"
  have "tty_ready prompt cols ?w" using assms(1) by (simp add: tty_ready_status)
  from linenoiseExtra_tty [OF this assms(2)] obtain w' where
    1: "linenoiseExtra buf prompt ?w = Some (if n = -1 then None else Some (c_str line @ [NUL]), w')"
      "hist_rep w' ls" "w_in w' = r" "tty_frame st ?w w'"
    using assms(3) by (metis prod.inject spec_session_status)
  let ?w' = "w'\<lparr>data_status := data_status w\<rparr>"
  have al: "w_alloc w = []" using assms(1) by (simp add: tty_ready_def edit_ready_def)
  have rep: "hist_rep ?w' ls" using 1(2) hist_rep_cong [of ?w' w'] by simp
  have "w_termios w' = w_termios w" "rawmode w' = False" "w_alloc w' = []" "history_max_len w' = history_max_len w"
    using 1(4) al by (simp_all add: tty_frame_def result_frame_def sess_frame_def)
  then show ?thesis using 1 rep by (intro that [of ?w']) (simp_all add: linenoise_def)
qed

lemma readLineFromStdin_tty:
  assumes "tty_ready prompt cols w" and "length buf = LINENOISE_MAX_LINE" and "spec_session w = (n, ls, line, st, r)"
    and "n \<noteq> -1"
  obtains w' where "readLineFromStdin buf prompt w = Some (True, c_str line, w')"
    and "hist_lines w' = (if c_str line = [] then ls else hist_push (hist_cap w) (c_str line) ls)" and "hist_inv w'"
    and "w_in w' = r" and "w_termios w' = w_termios w"
proof -
  from linenoise_tty [OF assms(1-3)] assms(4) obtain w1 where
    1: "linenoise buf prompt w = Some (Some (c_str line @ [NUL]), w1)" "hist_rep w1 ls" "w_in w1 = r"
      "w_termios w1 = w_termios w" "w_alloc w1 = []" "history_max_len w1 = history_max_len w"
    by auto
  have line: "nim_str (Some (c_str line @ [NUL])) = c_str line"
    by (simp add: nim_str_def)
  show ?thesis
  proof (cases "c_str line = []")
    case True
    with 1 line hist_rep_lines [OF 1(2)] hist_rep_inv [OF 1(2)] show ?thesis
      by (intro that [of w1]) (simp_all add: readLineFromStdin_def)
  next
    case False
    have ready: "hist_ready w1" using 1(2,5) by (simp add: hist_ready_def hist_rep_inv)
    note add = hadd_ok [OF ready is_c_string_c_str]
    have ls: "hist_lines w1 = ls" "hist_cap w1 = hist_cap w"
      using 1(2,6) by (simp_all add: hist_rep_lines hist_cap_def)
    show ?thesis
    proof (rule that)
      show "readLineFromStdin buf prompt w = Some (True, c_str line, hadd (c_str line) w1)"
        using 1(1) line add(1) [of line] False by (simp add: readLineFromStdin_def Let_def)
      show "hist_lines (hadd (c_str line) w1) = (if c_str line = [] then ls else hist_push (hist_cap w) (c_str line) ls)"
        using hist_rep_lines [OF add(3)] False ls by simp
      show "hist_inv (hadd (c_str line) w1)" using add(3) by (rule hist_rep_inv)
    qed (use 1 hist_frame_fields [OF add(2) [of line]] in simp_all)
  qed
qed

section \<open>Lines from a terminal without escape sequences\<close>

lemma fgets_stdin_line:
  "w_in w = map Byte s @ Byte LF # r \<Longrightarrow> LF \<notin> set s \<Longrightarrow> length s < n \<Longrightarrow>
   fgets_stdin n w = (Some (s @ [LF]), w\<lparr>w_in := r\<rparr>)"
proof (induction s arbitrary: n w)
  case Nil
  then show ?case by (cases n) (auto simp: sys_read_def)
next
  case (Cons c s)
  then obtain m where "n = Suc m" by (cases n) auto
  with Cons.prems Cons.IH [of "w\<lparr>w_in := map Byte s @ Byte LF # r\<rparr>" m]
  show ?case by (auto simp: sys_read_def)
qed

lemma readUnsupported_line:
  assumes "w_in w = map Byte s @ Byte LF # r" and "LF \<notin> set s" and "is_c_string s"
    and "length s < LINENOISE_MAX_LINE - 1" and "w_alloc w = []"
  shows "readUnsupported prompt w =
    Some (Some (rev (dropWhile (\<lambda>c. c = CR) (rev s)) @ [NUL]), w\<lparr>w_out := w_out w @ prompt, w_in := r\<rparr>)"
proof -
  let ?P = "\<lambda>c. c = LF \<or> c = CR" and ?w = "w\<lparr>w_out := w_out w @ prompt\<rparr>"
  define k where "k = rev (dropWhile (\<lambda>c. c = CR) (rev s))"
  obtain t where t: "s = k @ t"
    using dropWhile_rev_prefix unfolding k_def by blast
  have rd: "fgets_stdin (LINENOISE_MAX_LINE - 1) ?w = (Some (s @ [LF]), w\<lparr>w_out := w_out w @ prompt, w_in := r\<rparr>)"
    using fgets_stdin_line [of ?w s r "LINENOISE_MAX_LINE - 1"] assms by simp
  have c: "is_c_string (s @ [LF])" "is_c_string k" using assms(3) t by (auto simp: is_c_string_def)
  have "dropWhile ?P (rev s) = dropWhile (\<lambda>c. c = CR) (rev s)"
    using assms(2) by (intro dropWhile_cong) auto
  then have strip: "back_while ?P (s @ [LF, NUL]) (Suc (length s)) = Some (length k)"
    using back_while_eq [of ?P "s @ [LF]" "[NUL]"] by (simp add: k_def)
  have "(s @ [LF, NUL])[length k := NUL] = k @ NUL # drop 1 (t @ [LF, NUL])"
    using t by (cases t) (simp_all add: list_update_append)
  moreover have "mem_set (length k) NUL (s @ [LF, NUL]) = Some ((s @ [LF, NUL])[length k := NUL])"
    using t by simp
  ultimately have set: "mem_set (length k) NUL (s @ [LF, NUL]) = Some (k @ NUL # drop 1 (t @ [LF, NUL]))" by simp
  have len: "strlen (s @ [LF, NUL]) = Some (Suc (length s))"
    using c_str_append_NUL [OF c(1), of "[]"] by (simp add: strlen_def)
  show ?thesis
    using assms(5) c strip set rd len
    by (simp add: readUnsupported_def out_printf_def c_strdup_def strlen_def [of "k @ NUL # x" for x] flip: k_def
        del: One_nat_def)
qed

section \<open>Properties\<close>

text \<open>C3. \<open>linenoiseExtra\<close> on a terminal, in the conditions of \<open>tty_ready\<close>: the terminal is a supported one that
  tells its width and takes its settings, and those of \<open>linenoiseEdit\<close> (\<open>edit_ready\<close>) hold: a prompt narrower than
  the terminal in single line mode, callbacks that keep to their contract, an input without truncated
  escape sequences, and allocations and writes that succeed.  Then it returns, the result is \<open>NULL\<close> exactly
  when the abstract editor ends with -1 and else a copy of its line, up to the first zero byte; the
  terminal has the settings it had, and the history and the status are those of the abstract editor.\<close>

theorem linenoiseExtra_on_terminal:
  assumes "tty_ready prompt cols w" and "length buf = LINENOISE_MAX_LINE" and "spec_session w = (n, ls, line, st, r)"
  shows "\<exists>w'. linenoiseExtra buf prompt w = Some (if n = -1 then None else Some (c_str line @ [NUL]), w') \<and>
    w_termios w' = w_termios w \<and> \<not> rawmode w' \<and> hist_rep w' ls \<and> w_in w' = r \<and>
    data_status w' = (case st of None \<Rightarrow> data_status w | Some s \<Rightarrow> s)"
proof -
  from linenoiseExtra_tty [OF assms(1,2)] assms(3) obtain w' where
    1: "linenoiseExtra buf prompt w = Some (if n = -1 then None else Some (c_str line @ [NUL]), w')"
      "hist_rep w' ls" "w_in w' = r" "tty_frame st w w'" by (metis prod.inject)
  then show ?thesis
    by (intro exI [of _ w']) (cases st; simp add: tty_frame_def result_frame_def sess_frame_def)
qed

lemma tty_ready_init:
  "length prompt < 80 \<Longrightarrow> esc_ok inp \<Longrightarrow> tty_ready prompt 80 (init_world inp t)"
  using edit_ready_init [of 4095 prompt inp t]
  by (simp add: tty_ready_def LINENOISE_MAX_LINE_def isUnsupportedTerm_def unsupported_term_def strcasecmp_eq_def
      ascii_lower_def)

lemma spec_session_hi: "spec_session (init_world (map Byte ''hi'' @ [Byte CR]) t) = (2, [], ''hi'', None, [])"
  by (subst spec_session_typed [of _ "''hi''" "[]"])
    (simp_all add: plain_key_def key_table_def LINENOISE_MAX_LINE_def init_world_ready hist_push_def hist_dup_def)

lemma lines_4096: "length (replicate 4096 x) = LINENOISE_MAX_LINE"
  by (simp add: LINENOISE_MAX_LINE_def)

theorem linenoiseExtra_on_terminal_witness:
  "\<exists>w'. linenoiseExtra (replicate 4096 (CHR ''?'')) ''> '' (init_world (map Byte ''hi'' @ [Byte CR]) (termios0\<lparr>c_lflag := {ECHO}\<rparr>)) =
    Some (Some (''hi'' @ [NUL]), w') \<and> c_lflag (w_termios w') = {ECHO}"
  using linenoiseExtra_on_terminal [OF tty_ready_init lines_4096 spec_session_hi, of "''> ''" "CHR ''?''" "termios0\<lparr>c_lflag := {ECHO}\<rparr>"]
  by (auto simp: is_c_string_def)



text \<open>C32. \<open>linenoisePrintKeyCodes\<close> on a terminal, for 7 bit keys: whatever end-of-file and error results the
  reads give in between, it returns as soon as the last four keys are the word \<open>quit\<close>, has then
  consumed nothing beyond them, and leaves the terminal with its settings.\<close>

theorem print_key_codes_quits:
  assumes "w_isatty w" "w_tc w = []" "w_in w = inp @ Byte c # rest"
    and "first_quit (replicate 4 (CHR '' '')) (bytes_of (inp @ [Byte c]))" "seven_bit (bytes_of (inp @ [Byte c]))"
  shows "\<exists>w'. linenoisePrintKeyCodes w = Some w' \<and> w_in w' = rest \<and> w_termios w' = w_termios w \<and> \<not> rawmode w' \<and>
    hist_lines w' = hist_lines w"
proof -
  from assms(3) have inp: "w_in w = (inp @ [Byte c]) @ rest" by simp
  obtain t where t: "linenoisePrintKeyCodes w = Some (w\<lparr>atexit_registered := True,
      orig_termios := w_termios w, rawmode := False, w_in := rest, w_out := w_out w @ t\<rparr>)"
    using linenoisePrintKeyCodes_ok [OF assms(1,2) inp _ _ assms(4,5)] by auto
  let ?w = "w\<lparr>atexit_registered := True, orig_termios := w_termios w, rawmode := False, w_in := rest, w_out := w_out w @ t\<rparr>"
  have "hist_lines ?w = hist_lines w" by (rule hist_lines_cong) simp_all
  then show ?thesis by (intro exI [of _ ?w]) (simp add: t)
qed

theorem print_key_codes_quits_witness:
  "\<exists>w'. linenoisePrintKeyCodes (init_world (map Byte ''quiquit'' @ [Byte CR]) termios0) = Some w' \<and> w_in w' = [Byte CR]"
  using print_key_codes_quits [of "init_world (map Byte ''quiquit'' @ [Byte CR]) termios0" "map Byte ''quiqui''" "CHR ''t''" "[Byte CR]"]
  by (auto simp: numeral_eq_Suc seven_bit_def int_of_schar_def)

text \<open>When standard input is no terminal, \<open>linenoiseExtra\<close> returns the next line whatever its length,
  without its newline, and consumes nothing after it; the last line may end with the file, and at the
  end of the file the result is \<open>NULL\<close>.\<close>

theorem linenoiseExtra_from_file:
  assumes "\<not> w_isatty w" and "w_alloc w = []" and "LF \<notin> set s" and "is_c_string s" and "length s < 2 ^ 62"
    and "w_in w = map Byte s @ rest" and "rest = [] \<or> hd rest = Byte LF"
  shows "if s = [] \<and> rest = [] then linenoiseExtra buf prompt w = Some (None, w)
    else \<exists>b. linenoiseExtra buf prompt w = Some (Some b, w\<lparr>w_in := tl rest\<rparr>) \<and> c_str b = s"
proof (cases "s = [] \<and> rest = []")
  case True
  with assms show ?thesis by (simp add: linenoiseExtra_def linenoiseNoTTY_eof)
next
  case False
  have "line_end rest" "s \<noteq> [] \<or> (\<exists>r. rest = Byte LF # r)"
    using assms(7) False by (cases rest; auto simp: line_end_def)+
  from linenoiseNoTTY_line [OF assms(2,5,6) this(1) assms(3) this(2)] obtain junk where
    "linenoiseNoTTY w = Some (Some (s @ NUL # junk), w\<lparr>w_in := tl rest\<rparr>)" .
  with assms(1,4) False show ?thesis by (auto simp: linenoiseExtra_def)
qed

theorem linenoiseExtra_from_file_witness:
  "\<exists>b. linenoiseExtra [] [] ((init_world (map Byte ''one'' @ Byte LF # map Byte ''two'') termios0)\<lparr>w_isatty := False\<rparr>) =
    Some (Some b, (init_world (map Byte ''two'') termios0)\<lparr>w_isatty := False\<rparr>) \<and> c_str b = ''one''"
  using linenoiseExtra_from_file [of "(init_world (map Byte ''one'' @ Byte LF # map Byte ''two'') termios0)\<lparr>w_isatty := False\<rparr>"
      "''one''" "Byte LF # map Byte ''two''" "[]" "[]"]
  by (simp add: is_c_string_def) (simp add: init_world_def)

text \<open>On a terminal without escape sequences (\<open>dumb\<close>, \<open>cons25\<close> or \<open>emacs\<close>, in any case) \<open>linenoiseExtra\<close>
  prints the prompt and returns the line that is entered, without the carriage returns and the
  newline it ends with.\<close>

theorem linenoiseExtra_dumb:
  assumes "w_isatty w" and "w_TERM w = Some t" and "map ascii_lower t \<in> set unsupported_term"
    and "w_in w = map Byte s @ Byte LF # r" and "LF \<notin> set s" and "is_c_string s"
    and "length s < LINENOISE_MAX_LINE - 1" and "w_alloc w = []"
  shows "linenoiseExtra buf prompt w = Some (Some (rev (dropWhile (\<lambda>c. c = CR) (rev s)) @ [NUL]),
    w\<lparr>w_out := w_out w @ prompt, w_in := r\<rparr>)"
proof -
  have "\<forall>u \<in> set unsupported_term. map ascii_lower u = u"
    by (simp add: unsupported_term_def ascii_lower_def)
  then have "isUnsupportedTerm w"
    using assms(2,3) by (auto simp: isUnsupportedTerm_def strcasecmp_eq_def list_ex_iff)
  with assms(1) readUnsupported_line [OF assms(4-8)] show ?thesis by (simp add: linenoiseExtra_def)
qed

lemma lower_Dumb: "map ascii_lower ''Dumb'' = ''dumb''"
  by code_simp

theorem linenoiseExtra_dumb_witness:
  "\<exists>w'. linenoiseExtra [] ''> '' ((init_world (map Byte ''ls'' @ [Byte CR, Byte LF]) termios0)\<lparr>w_TERM := Some ''Dumb''\<rparr>) =
    Some (Some (''ls'' @ [NUL]), w') \<and> w_out w' = ''> ''"
  using linenoiseExtra_dumb [of "(init_world (map Byte ''ls'' @ [Byte CR, Byte LF]) termios0)\<lparr>w_TERM := Some ''Dumb''\<rparr>"
      "''Dumb''" "''ls'' @ [CR]" "[]" "[]" "''> ''"]
  by (simp add: unsupported_term_def lower_Dumb [simplified] is_c_string_def LINENOISE_MAX_LINE_def)

end
