(* ===== verification/Ln_Screen.thy ===== *)
theory Ln_Screen
  imports Ln_Edit
begin

text \<open>
  What the single line refresh shows.  The terminal is a row of cells with a cursor, and interprets
  the bytes it is sent as the comment at the head of \<open>linenoise.c\<close> documents the sequences the
  library relies on: \<open>CR\<close> (cursor to the first column), \<open>EL\<close> (clear from the cursor to the end of the
  line) and \<open>CUF\<close> (cursor forward \<open>n\<close> columns, where a terminal takes 0 as 1).  The property says that after
  \<open>refreshSingleLine\<close> the row shows the prompt and a window of the line that contains the cursor, and
  nothing else, whatever it showed before, and where the cursor is.
\<close>

section \<open>The bytes sent to a terminal\<close>

text \<open>What a terminal is told: a character, one of the two control characters the library sends, or a
  control sequence with a number and a final character.  The interpreter reads the bytes and leaves
  the meaning of the operations to its argument.\<close>

datatype term_op = Put char | CarriageReturn | LineFeed | Csi nat char

function term_run :: "(term_op \<Rightarrow> 't \<Rightarrow> 't option) \<Rightarrow> string \<Rightarrow> 't \<Rightarrow> 't option" where
  "term_run f s t =
     (case s of
        [] \<Rightarrow> Some t
      | c # s \<Rightarrow>
          if c = CR then Option.bind (f CarriageReturn t) (term_run f s)
          else if c = LF then Option.bind (f LineFeed t) (term_run f s)
          else if c = ESC
          then (case s of
                  [] \<Rightarrow> None
                | b # s \<Rightarrow>
                    if b = CHR ''[''
                    then (case dropWhile is_digit s of
                            [] \<Rightarrow> None
                          | d # r \<Rightarrow> Option.bind (f (Csi (nat_of_dec (takeWhile is_digit s)) d) t) (term_run f r))
                    else None)
          else Option.bind (f (Put c) t) (term_run f s))"
  by pat_completeness auto
termination
proof (relation "measure (\<lambda>(f, s, t). length s)")
  fix f :: "term_op \<Rightarrow> 't \<Rightarrow> 't option" and s :: string and t t' c s1 b s2 d r
  assume *: "s = c # s1" "s1 = b # s2" "dropWhile is_digit s2 = d # r"
  have "length (dropWhile is_digit s2) \<le> length s2" by (rule length_dropWhile_le)
  with * show "((f, r, t'), (f, s, t)) \<in> measure (\<lambda>(f, s, t). length s)" by simp
qed auto

declare term_run.simps [simp del]

lemma term_run_Nil [simp]: "term_run f [] t = Some t"
  by (subst term_run.simps) simp

lemma term_run_CR [simp]: "term_run f (CR # s) t = Option.bind (f CarriageReturn t) (term_run f s)"
  by (subst term_run.simps) simp

lemma term_run_LF [simp]: "term_run f (LF # s) t = Option.bind (f LineFeed t) (term_run f s)"
  by (subst term_run.simps) simp

text \<open>A printable character has no code below that of the blank, and is not the delete character.\<close>

definition printable :: "char \<Rightarrow> bool" where
  "printable c \<longleftrightarrow> 32 \<le> (of_char c :: nat) \<and> c \<noteq> CHR 0x7F"

lemma term_run_printable: "printable c \<Longrightarrow> term_run f (c # s) t = Option.bind (f (Put c) t) (term_run f s)"
  by (subst term_run.simps) (auto simp: printable_def)

lemma term_run_csi:
  assumes "\<not> is_digit d"
  shows "term_run f (csi (dec_of_nat n @ d # s)) t = Option.bind (f (Csi n d) t) (term_run f s)"
proof -
  have all: "\<forall>c \<in> set (dec_of_nat n). is_digit c" by (rule dec_of_nat_digits)
  have "takeWhile is_digit (dec_of_nat n @ d # s) = dec_of_nat n"
    "dropWhile is_digit (dec_of_nat n @ d # s) = d # s"
    using all assms by (simp_all add: takeWhile_append dropWhile_append)
  then show ?thesis by (subst term_run.simps) simp
qed

lemma term_run_csi_digit:
  assumes "\<not> is_digit d" and "is_digit n"
  shows "term_run f (csi (n # d # s)) t = Option.bind (f (Csi (nat_of_dec [n]) d) t) (term_run f s)"
  using assms by (subst term_run.simps) simp

lemma final_chars [simp]:
  "\<not> is_digit (CHR ''K'')" "\<not> is_digit (CHR ''A'')" "\<not> is_digit (CHR ''B'')" "\<not> is_digit (CHR ''C'')"
  "is_digit (CHR ''0'')" "is_digit (CHR ''1'')" "nat_of_dec ''0'' = 0" "nat_of_dec ''1'' = 1"
  by (simp_all add: is_digit_def nat_of_dec_def digit_val_def)

section \<open>A row of a terminal\<close>

text \<open>The cursor may stand after the last cell.\<close>

record vt =
  vt_row :: string
  vt_col :: nat

definition vt_put :: "char \<Rightarrow> vt \<Rightarrow> vt option" where
  "vt_put c t =
     (if printable c \<and> vt_col t < length (vt_row t)
      then Some (t\<lparr>vt_row := (vt_row t)[vt_col t := c], vt_col := vt_col t + 1\<rparr>)
      else None)"

definition vt_el :: "vt \<Rightarrow> vt" where
  "vt_el t = t\<lparr>vt_row := take (vt_col t) (vt_row t) @ replicate (length (vt_row t) - vt_col t) (CHR '' '')\<rparr>"

text \<open>The number 0 counts as 1 in a movement of the cursor.\<close>

definition vt_cuf :: "nat \<Rightarrow> vt \<Rightarrow> vt" where
  "vt_cuf n t = t\<lparr>vt_col := min (vt_col t + max 1 n) (length (vt_row t) - 1)\<rparr>"

fun vt_op :: "term_op \<Rightarrow> vt \<Rightarrow> vt option" where
  "vt_op (Put c) t = vt_put c t"
| "vt_op CarriageReturn t = Some (t\<lparr>vt_col := 0\<rparr>)"
| "vt_op LineFeed t = None"
| "vt_op (Csi n d) t =
     (if d = CHR ''K'' \<and> n = 0 then Some (vt_el t)
      else if d = CHR ''C'' then Some (vt_cuf n t)
      else None)"

definition vt_run :: "string \<Rightarrow> vt \<Rightarrow> vt option" where
  "vt_run = term_run vt_op"

definition vt_text :: "string \<Rightarrow> bool" where
  "vt_text s \<longleftrightarrow> list_all printable s"

lemma vt_run_CR [simp]: "vt_run (CR # s) t = vt_run s (t\<lparr>vt_col := 0\<rparr>)"
  by (simp add: vt_run_def)

lemma vt_run_Nil: "vt_run [] t = Some t"
  by (simp add: vt_run_def)

lemma vt_run_text:
  "vt_text p \<Longrightarrow> vt_col t + length p \<le> length (vt_row t) \<Longrightarrow>
   vt_run (p @ s) t = vt_run s
     (t\<lparr>vt_row := take (vt_col t) (vt_row t) @ p @ drop (vt_col t + length p) (vt_row t), vt_col := vt_col t + length p\<rparr>)"
proof (induction p arbitrary: t)
  case (Cons c p)
  from Cons.prems(1) have c: "printable c" "vt_text p" by (simp_all add: vt_text_def)
  let ?t = "t\<lparr>vt_row := (vt_row t)[vt_col t := c], vt_col := vt_col t + 1\<rparr>"
  have "vt_run ((c # p) @ s) t = vt_run (p @ s) ?t"
    using Cons.prems(2) c(1) by (simp add: vt_run_def term_run_printable vt_put_def)
  also have "\<dots> = vt_run s (?t\<lparr>vt_row := take (vt_col ?t) (vt_row ?t) @ p @ drop (vt_col ?t + length p) (vt_row ?t),
      vt_col := vt_col ?t + length p\<rparr>)"
    using Cons.prems(2) by (intro Cons.IH c(2)) simp
  also have "take (vt_col ?t) (vt_row ?t) = take (vt_col t) (vt_row t) @ [c]"
    using Cons.prems(2) by (simp add: take_Suc_conv_app_nth)
  finally show ?case by simp
qed simp

lemma vt_run_el: "vt_run (csi (CHR ''0'' # CHR ''K'' # s)) t = vt_run s (vt_el t)"
  by (simp add: vt_run_def term_run_csi_digit)

lemma vt_run_cuf: "vt_run (csi (dec_of_nat n @ CHR ''C'' # s)) t = vt_run s (vt_cuf n t)"
  by (simp add: vt_run_def term_run_csi)

section \<open>The refresh\<close>

lemma refreshSingleLine_output:
  assumes "shown_ok l" and "length (l_prompt l) < l_cols l" and "l_cols l < 2 ^ 29"
    and "hintsCallback w = None" and "w_alloc w = []" and "w_write w = []"
  shows "refreshSingleLine l w = Some (w\<lparr>w_out := w_out w @ CR # l_prompt l @
    take (win_len l) (drop (win_off l) (l_buf l)) @ csi ''0K'' @
    CR # csi (dec_of_nat (l_pos l - win_off l + length (l_prompt l)) @ ''C'')\<rparr>)"
proof -
  have len: "win_len l < 2 ^ 29" "int (win_len l) \<le> int (length (l_buf l) - win_off l)"
    using assms(1) by (auto simp: shown_ok_def win_len_def)
  define p where "p = l_pos l - win_off l + length (l_prompt l)"
  have p: "p < l_cols l" using assms(2) by (auto simp: p_def win_off_def)
  then have p31: "p < 2 ^ 31" using assms(3) by simp
  have dec: "dec_of_int (int p) = dec_of_nat p" by (simp add: dec_of_int_def)
  have "length (dec_of_nat p) \<le> 10" using p assms(3) by (intro length_dec_of_nat) auto
  then have short: "length (CR # csi (dec_of_nat p @ ''C'')) < 64" by simp
  have sum: "size_add (l_pos l - win_off l) (length (l_prompt l)) = p"
    using p assms(3) by (simp add: p_def)
  show ?thesis
    unfolding refreshSingleLine_def Let_def single_window(1) [OF assms(1-3)] bind.bind_lunit
      prod.case single_window(2) [OF assms(1-3)] p_def [symmetric]
    using len assms(4-6) short p31
    by (simp add: sum dec ab_flush_def ab_ok_def abInit_def nat_add_distrib)
qed

lemma window_of_line:
  assumes "ln_inv l"
  shows "take (win_len l) (drop (win_off l) (l_buf l)) = take (win_len l) (drop (win_off l) (line_of l))"
proof -
  obtain a b r where "l_buf l = (a @ b) @ NUL # r" "line_of l = a @ b" "l_len l = length (a @ b)"
    using assms line_of_zip by (metis append_assoc length_append ln_invE)
  moreover have "win_len l \<le> l_len l - win_off l" by (simp add: win_len_def)
  ultimately show ?thesis by (simp add: drop_append)
qed

lemma vt_el_after:
  "length q \<le> length (vt_row t) \<Longrightarrow>
   vt_el (t\<lparr>vt_row := q @ drop (length q) (vt_row t), vt_col := length q\<rparr>) =
   t\<lparr>vt_row := q @ replicate (length (vt_row t) - length q) (CHR '' ''), vt_col := length q\<rparr>"
  by (simp add: vt_el_def)

definition shown_row :: "linenoiseState \<Rightarrow> string" where
  "shown_row l =
     (let s = l_prompt l @ take (l_cols l - length (l_prompt l)) (drop (win_off l) (line_of l))
      in s @ replicate (l_cols l - length s) (CHR '' ''))"

text \<open>The column the cursor belongs on, and the one it gets: the sequence for column 0 moves it to column 1
  when there is one.\<close>

definition window_col :: "linenoiseState \<Rightarrow> nat" where
  "window_col l = length (l_prompt l) + (l_pos l - win_off l)"

definition shown_col :: "linenoiseState \<Rightarrow> nat" where
  "shown_col l = (if window_col l = 0 then min 1 (l_cols l - 1) else window_col l)"

section \<open>Properties\<close>


definition long_line :: linenoiseState where
  "long_line = \<lparr>l_ifd = 0, l_ofd = 1, l_buf = ''abcdefgh'' @ replicate 9 NUL, l_buflen = 16,
     l_prompt = ''$ '', l_plen = 2, l_pos = 7, l_oldpos = 0, l_len = 8, l_cols = 6,
     l_maxrows = 0, l_history_index = 0\<rparr>"

lemma long_line_facts:
  "ln_inv long_line" "line_of long_line = ''abcdefgh''" "win_off long_line = 4" "shown_row long_line = ''$ efgh''"
  "l_prompt long_line = ''$ ''" "l_cols long_line = 6" "l_pos long_line = 7" "shown_col long_line = 5"
  by (simp_all add: long_line_def ln_inv_def line_of_def win_off_def shown_row_def shown_col_def window_col_def)


end
