(* ===== verification/Ln_Page.thy ===== *)
theory Ln_Page
  imports Ln_Screen
begin

text \<open>
  What the multi line refresh (\<open>refreshMultiLine\<close> of \<open>lib/wrappers/linenoise/linenoise.c\<close>) shows.  The
  terminal is a page of rows, with the cursor of a VT100: a character written into the last cell of a
  row leaves the cursor there, and only the next character goes to the following row.  The page has
  as many rows as are needed; scrolling at the bottom of the screen is not modelled.  The lemma says
  that after a refresh the rows show the prompt and the line, broken at the width of the terminal, and
  nothing else of what the previous refresh had written, and that the cursor stands on the cell of its
  position.
\<close>

section \<open>A page\<close>

record page =
  pg_cols :: nat
  pg_cell :: "nat \<Rightarrow> nat \<Rightarrow> char"
  pg_row :: nat
  pg_col :: nat
  pg_wrap :: bool

abbreviation blank :: char where "blank \<equiv> CHR '' ''"

definition pg_set :: "nat \<Rightarrow> nat \<Rightarrow> char \<Rightarrow> page \<Rightarrow> page" where
  "pg_set r c x t = t\<lparr>pg_cell := (pg_cell t)(r := (pg_cell t r)(c := x))\<rparr>"

definition pg_put :: "char \<Rightarrow> page \<Rightarrow> page option" where
  "pg_put x t =
     (if printable x
      then let r = (if pg_wrap t then pg_row t + 1 else pg_row t);
               c = (if pg_wrap t then 0 else pg_col t);
               t = pg_set r c x t
           in Some (if c + 1 = pg_cols t then t\<lparr>pg_row := r, pg_col := c, pg_wrap := True\<rparr>
                    else t\<lparr>pg_row := r, pg_col := c + 1, pg_wrap := False\<rparr>)
      else None)"

definition pg_el :: "page \<Rightarrow> page" where
  "pg_el t = t\<lparr>pg_cell := (pg_cell t)(pg_row t := (\<lambda>c. if pg_col t \<le> c then blank else pg_cell t (pg_row t) c))\<rparr>"

text \<open>The number 0 counts as 1 in a movement of the cursor.\<close>

fun pg_op :: "term_op \<Rightarrow> page \<Rightarrow> page option" where
  "pg_op (Put x) t = pg_put x t"
| "pg_op CarriageReturn t = Some (t\<lparr>pg_col := 0, pg_wrap := False\<rparr>)"
| "pg_op LineFeed t = Some (t\<lparr>pg_row := pg_row t + 1, pg_wrap := False\<rparr>)"
| "pg_op (Csi n d) t =
     (if d = CHR ''K'' \<and> n = 0 then Some (pg_el t)
      else if d = CHR ''A'' then Some (t\<lparr>pg_row := pg_row t - max 1 n, pg_wrap := False\<rparr>)
      else if d = CHR ''B'' then Some (t\<lparr>pg_row := pg_row t + max 1 n, pg_wrap := False\<rparr>)
      else if d = CHR ''C'' then Some (t\<lparr>pg_col := min (pg_col t + max 1 n) (pg_cols t - 1), pg_wrap := False\<rparr>)
      else None)"

definition pg_run :: "string \<Rightarrow> page \<Rightarrow> page option" where
  "pg_run = term_run pg_op"

text \<open>The sequences of the refresh.\<close>

lemma pg_run_Nil [simp]: "pg_run [] t = Some t"
  by (simp add: pg_run_def)

lemma pg_run_CR [simp]: "pg_run (CR # s) t = pg_run s (t\<lparr>pg_col := 0, pg_wrap := False\<rparr>)"
  by (simp add: pg_run_def)

lemma pg_run_LF [simp]: "pg_run (LF # s) t = pg_run s (t\<lparr>pg_row := pg_row t + 1, pg_wrap := False\<rparr>)"
  by (simp add: pg_run_def)

lemma pg_run_el [simp]: "pg_run (csi (CHR ''0'' # CHR ''K'' # s)) t = pg_run s (pg_el t)"
  by (simp add: pg_run_def term_run_csi_digit)

lemma pg_run_up1 [simp]:
  "pg_run (csi (CHR ''1'' # CHR ''A'' # s)) t = pg_run s (t\<lparr>pg_row := pg_row t - 1, pg_wrap := False\<rparr>)"
  by (simp add: pg_run_def term_run_csi_digit)

lemma pg_run_up:
  "0 < n \<Longrightarrow> pg_run (csi (dec_of_nat n @ CHR ''A'' # s)) t = pg_run s (t\<lparr>pg_row := pg_row t - n, pg_wrap := False\<rparr>)"
  by (simp add: pg_run_def term_run_csi max_def Suc_le_eq)

lemma pg_run_down:
  "0 < n \<Longrightarrow> pg_run (csi (dec_of_nat n @ CHR ''B'' # s)) t = pg_run s (t\<lparr>pg_row := pg_row t + n, pg_wrap := False\<rparr>)"
  by (simp add: pg_run_def term_run_csi max_def Suc_le_eq)

lemma pg_run_forward:
  "0 < n \<Longrightarrow> pg_run (csi (dec_of_nat n @ CHR ''C'' # s)) t =
   pg_run s (t\<lparr>pg_col := min (pg_col t + n) (pg_cols t - 1), pg_wrap := False\<rparr>)"
  by (simp add: pg_run_def term_run_csi max_def Suc_le_eq)

section \<open>Writing a text\<close>

text \<open>The page with the cursor where it is after \<open>p\<close> characters were written from the start of row \<open>b\<close>.\<close>

definition pg_at :: "nat \<Rightarrow> nat \<Rightarrow> page \<Rightarrow> page" where
  "pg_at b p t =
     (let n = pg_cols t in
      if 0 < p \<and> p mod n = 0 then t\<lparr>pg_row := b + p div n - 1, pg_col := n - 1, pg_wrap := True\<rparr>
      else t\<lparr>pg_row := b + p div n, pg_col := p mod n, pg_wrap := False\<rparr>)"

text \<open>The cells of a text that starts at row \<open>b\<close>, from the \<open>p\<close>-th character on.\<close>

definition pg_write :: "nat \<Rightarrow> nat \<Rightarrow> string \<Rightarrow> page \<Rightarrow> page" where
  "pg_write b p s t =
     (let n = pg_cols t in
      t\<lparr>pg_cell := (\<lambda>r c. if b \<le> r \<and> c < n \<and> p \<le> (r - b) * n + c \<and> (r - b) * n + c < p + length s
                        then s ! ((r - b) * n + c - p) else pg_cell t r c)\<rparr>)"

lemma pg_write_Nil [simp]: "pg_write b p [] t = t"
  by (rule page.equality) (auto simp: pg_write_def Let_def fun_eq_iff)

lemma pg_write_cols [simp]: "pg_cols (pg_write b p s t) = pg_cols t"
  by (simp add: pg_write_def Let_def)

lemma pg_write_cell:
  "pg_cell (pg_write b p s t) r c =
     (if b \<le> r \<and> c < pg_cols t \<and> p \<le> (r - b) * pg_cols t + c \<and> (r - b) * pg_cols t + c < p + length s
      then s ! ((r - b) * pg_cols t + c - p) else pg_cell t r c)"
  by (simp add: pg_write_def Let_def)

lemma pg_set_fields:
  "pg_cell (pg_set r c x t) = (pg_cell t)(r := (pg_cell t r)(c := x))" "pg_cols (pg_set r c x t) = pg_cols t"
  by (simp_all add: pg_set_def)

lemma pg_write_Cons:
  assumes "0 < pg_cols t"
  shows "pg_write b p (x # s) t = pg_write b (Suc p) s (pg_set (b + p div pg_cols t) (p mod pg_cols t) x t)"
proof -
  let ?n = "pg_cols t"
  have cell: "(r - b) * ?n + c = p \<longleftrightarrow> r = b + p div ?n \<and> c = p mod ?n" if "b \<le> r" "c < ?n" for r c
  proof
    assume "(r - b) * ?n + c = p"
    then have "p div ?n = r - b" "p mod ?n = c" using that by auto
    then show "r = b + p div ?n \<and> c = p mod ?n" using that by simp
  qed simp
  have "(if b \<le> r \<and> c < ?n \<and> p \<le> (r - b) * ?n + c \<and> (r - b) * ?n + c < p + length (x # s)
      then (x # s) ! ((r - b) * ?n + c - p) else pg_cell t r c) =
    (if b \<le> r \<and> c < ?n \<and> Suc p \<le> (r - b) * ?n + c \<and> (r - b) * ?n + c < Suc p + length s
      then s ! ((r - b) * ?n + c - Suc p)
      else ((pg_cell t)(b + p div ?n := (pg_cell t (b + p div ?n))(p mod ?n := x))) r c)" for r c
  proof (cases "b \<le> r \<and> c < ?n")
    case True
    consider "(r - b) * ?n + c = p" | "(r - b) * ?n + c < p" | "p < (r - b) * ?n + c" by linarith
    then show ?thesis
    proof cases
      case 1
      then show ?thesis using True cell [of r c] by simp
    next
      case 2
      then show ?thesis using cell [of r c] True by (auto simp del: div_mult_self_is_m)
    next
      case 3
      then show ?thesis using cell [of r c] True by (auto simp: nth_Cons')
    qed
  next
    case False
    then show ?thesis using assms by auto
  qed
  note cellwise = this
  show ?thesis
  proof (rule page.equality)
    show "pg_cell (pg_write b p (x # s) t) = pg_cell (pg_write b (Suc p) s (pg_set (b + p div ?n) (p mod ?n) x t))"
      by (intro ext) (simp only: pg_write_cell pg_set_fields cellwise)
  qed (simp_all add: pg_write_def pg_set_def Let_def)
qed

lemma pg_put_at:
  assumes "printable x" and "0 < pg_cols t"
  shows "pg_put x (pg_at b p t) = Some (pg_at b (Suc p) (pg_set (b + p div pg_cols t) (p mod pg_cols t) x t))"
proof (cases "0 < p \<and> p mod pg_cols t = 0")
  case True
  then obtain q where "p = q * pg_cols t" by (auto elim: dvdE simp: mod_eq_0_iff_dvd mult.commute)
  moreover from this True have "0 < q" by auto
  ultimately show ?thesis
    using assms True by (auto simp: pg_put_def pg_at_def pg_set_def Let_def mod_Suc div_Suc)
next
  case False
  then show ?thesis
    using assms by (auto simp: pg_put_def pg_at_def pg_set_def Let_def mod_Suc div_Suc)
qed

lemma pg_run_text:
  "list_all printable s \<Longrightarrow> 0 < pg_cols t \<Longrightarrow>
   pg_run (s @ u) (pg_at b p t) = pg_run u (pg_at b (p + length s) (pg_write b p s t))"
proof (induction s arbitrary: p t)
  case (Cons x s)
  then have x: "printable x" "list_all printable s" by simp_all
  have "pg_run ((x # s) @ u) (pg_at b p t) =
      pg_run (s @ u) (pg_at b (Suc p) (pg_set (b + p div pg_cols t) (p mod pg_cols t) x t))"
    using x Cons.prems(2) by (simp add: pg_run_def term_run_printable pg_put_at)
  also have "\<dots> = pg_run u (pg_at b (Suc p + length s) (pg_write b (Suc p) s
      (pg_set (b + p div pg_cols t) (p mod pg_cols t) x t)))"
    using x(2) Cons.prems(2) by (intro Cons.IH) (simp_all add: pg_set_fields)
  finally show ?case using Cons.prems(2) by (simp add: pg_write_Cons)
qed simp

section \<open>Clearing rows\<close>

definition pg_clear :: "nat \<Rightarrow> nat \<Rightarrow> page \<Rightarrow> page" where
  "pg_clear b k t = t\<lparr>pg_cell := (\<lambda>r c. if b \<le> r \<and> r \<le> b + k then blank else pg_cell t r c)\<rparr>"

lemma pg_clear_cols [simp]: "pg_cols (pg_clear b k t) = pg_cols t"
  by (simp add: pg_clear_def)

lemma pg_at_0: "pg_at b 0 t = t\<lparr>pg_row := b, pg_col := 0, pg_wrap := False\<rparr>"
  by (simp add: pg_at_def)

lemma pg_at_over: "(pg_at b p t)\<lparr>pg_row := r, pg_col := a, pg_wrap := x\<rparr> = t\<lparr>pg_row := r, pg_col := a, pg_wrap := x\<rparr>"
  by (simp add: pg_at_def Let_def)

abbreviation clear_up :: string where
  "clear_up \<equiv> CR # csi ''0K'' @ csi ''1A''"

lemma pg_run_clear:
  "pg_row t = b + k \<Longrightarrow>
   pg_run (concat (replicate k clear_up) @ CR # csi ''0K'' @ u) t = pg_run u (pg_at b 0 (pg_clear b k t))"
proof (induction k arbitrary: t)
  case 0
  have "pg_el (t\<lparr>pg_col := 0, pg_wrap := False\<rparr>) = pg_at b 0 (pg_clear b 0 t)"
    by (rule page.equality) (use 0 in \<open>auto simp: pg_at_0 pg_el_def pg_clear_def fun_eq_iff\<close>)
  then show ?case by simp
next
  case (Suc k)
  let ?t = "(pg_el (t\<lparr>pg_col := 0, pg_wrap := False\<rparr>))\<lparr>pg_row := b + k, pg_wrap := False\<rparr>"
  have "pg_run (concat (replicate (Suc k) clear_up) @ CR # csi ''0K'' @ u) t =
      pg_run (concat (replicate k clear_up) @ CR # csi ''0K'' @ u) ?t"
    using Suc.prems by (simp add: pg_el_def)
  also have "\<dots> = pg_run u (pg_at b 0 (pg_clear b k ?t))" by (rule Suc.IH) simp
  also have "pg_at b 0 (pg_clear b k ?t) = pg_at b 0 (pg_clear b (Suc k) t)"
    by (rule page.equality) (use Suc.prems in \<open>auto simp: pg_at_0 pg_el_def pg_clear_def fun_eq_iff\<close>)
  finally show ?case .
qed

section \<open>The output of the refresh\<close>

text \<open>An append buffer that holds a text.\<close>

definition ab_of :: "string \<Rightarrow> abuf" where
  "ab_of s = \<lparr>ab_b = s, ab_len = int (length s)\<rparr>"

lemma abInit_of: "abInit = ab_of []"
  by (simp add: abInit_def ab_of_def)

lemma abAppend_of:
  "w_alloc w = [] \<Longrightarrow> 0 \<le> n \<Longrightarrow> n \<le> int (length x) \<Longrightarrow> abAppend (ab_of s) x n w = Some (ab_of (s @ take (nat n) x), w)"
  by (simp add: abAppend_plenty ab_of_def ab_ok_def)

lemma ab_puts_of: "w_alloc w = [] \<Longrightarrow> ab_puts (ab_of s) x w = Some (ab_of (s @ x), w)"
  by (simp add: ab_puts_def abAppend_of)

lemma ab_when_of: "w_alloc w = [] \<Longrightarrow> ab_when c (ab_of s) x w = Some (ab_of (s @ (if c then x else [])), w)"
  by (simp add: ab_when_def ab_puts_of)

lemma ab_flush_of: "w_write w = [] \<Longrightarrow> ab_flush (ab_of s) w = w\<lparr>w_out := w_out w @ s\<rparr>"
  by (simp add: ab_flush_def ab_of_def)

lemma clear_rows_of:
  "w_alloc w = [] \<Longrightarrow> clear_rows n (ab_of s) w = Some (ab_of (s @ concat (replicate n clear_up)), w)"
  by (induction n arbitrary: s) (simp_all add: ab_puts_of)

lemma snprintf_csi: "n < 2 ^ 31 \<Longrightarrow> length p < 8 \<Longrightarrow> snprintf 64 (p @ csi (dec_of_nat n @ [c])) = p @ csi (dec_of_nat n @ [c])"
  using length_dec_of_nat [of n 10] by simp

text \<open>The rows the prompt and the line need, with the row the cursor goes to when the text ends with a
  row and the cursor is at its end.\<close>

definition ends_row :: "linenoiseState \<Rightarrow> bool" where
  "ends_row l \<longleftrightarrow> l_pos l \<noteq> 0 \<and> l_pos l = l_len l \<and> (l_pos l + length (l_prompt l)) mod l_cols l = 0"

definition rows_used :: "linenoiseState \<Rightarrow> nat" where
  "rows_used l = (length (l_prompt l) + l_len l + l_cols l - 1) div l_cols l + (if ends_row l then 1 else 0)"

definition cursor_row :: "linenoiseState \<Rightarrow> nat \<Rightarrow> nat" where
  "cursor_row l p = (length (l_prompt l) + p) div l_cols l"

definition cursor_col :: "linenoiseState \<Rightarrow> nat" where
  "cursor_col l = (length (l_prompt l) + l_pos l) mod l_cols l"

definition multi_out :: "linenoiseState \<Rightarrow> string" where
  "multi_out l =
     (if l_maxrows l > Suc (cursor_row l (l_oldpos l))
      then csi (dec_of_nat (l_maxrows l - Suc (cursor_row l (l_oldpos l))) @ ''B'') else []) @
     concat (replicate (l_maxrows l - 1) clear_up) @ CR # csi ''0K'' @
     l_prompt l @ take (l_len l) (l_buf l) @
     (if ends_row l then [LF, CR] else []) @
     (if rows_used l > Suc (cursor_row l (l_pos l))
      then csi (dec_of_nat (rows_used l - Suc (cursor_row l (l_pos l))) @ ''A'') else []) @
     CR # (if cursor_col l \<noteq> 0 then csi (dec_of_nat (cursor_col l) @ ''C'') else [])"

lemma rows_le:
  fixes m c :: nat
  assumes "0 < c"
  shows "(m + c - 1) div c \<le> m"
proof (cases m)
  case (Suc k)
  have "m + c - 1 \<le> m * c" using assms Suc by (cases c) auto
  then show ?thesis using div_le_mono [of "m + c - 1" "m * c" c] assms by simp
qed (use assms in simp)

lemma raise_maxrows:
  assumes "l_maxrows l < 2 ^ 31" and "r < 2 ^ 31"
  shows "(if int r > int_of_size (l_maxrows l) then l\<lparr>l_maxrows := size_of_int (int r)\<rparr> else l) =
    l\<lparr>l_maxrows := max (l_maxrows l) r\<rparr>"
  using assms by (simp add: max_def)

lemma multi_newline_of:
  assumes "w_alloc w = []" and "l_maxrows l < 2 ^ 30" and "r < 2 ^ 30" and "l_len l < 2 ^ 29" "length (l_prompt l) < 2 ^ 29"
  shows "multi_newline l (int r) (length (l_prompt l)) (ab_of s) w =
    Some (if ends_row l then l\<lparr>l_maxrows := max (l_maxrows l) (Suc r)\<rparr> else l,
      int (r + (if ends_row l then 1 else 0)), ab_of (s @ (if ends_row l then [LF, CR] else [])), w)"
proof (cases "l_pos l = l_len l")
  case True
  then have "size_add (l_pos l) (length (l_prompt l)) = l_pos l + length (l_prompt l)" using assms(4,5) by simp
  then have ends: "(l_pos l \<noteq> 0 \<and> l_pos l = l_len l \<and> size_add (l_pos l) (length (l_prompt l)) mod l_cols l = 0) = ends_row l"
    by (simp only: ends_row_def)
  have one: "int r + 1 = int (Suc r)" by simp
  show ?thesis
    unfolding multi_newline_def ends
    using assms(1-3) raise_maxrows [of l "Suc r"]
    by (cases "ends_row l") (simp_all add: abAppend_of ab_puts_of one Let_def del: of_nat_Suc)
qed (simp add: multi_newline_def ends_row_def)

lemma maxrows_fields:
  "l_pos (l\<lparr>l_maxrows := m\<rparr>) = l_pos l" "l_len (l\<lparr>l_maxrows := m\<rparr>) = l_len l" "l_cols (l\<lparr>l_maxrows := m\<rparr>) = l_cols l"
  by simp_all

lemma maxrows_same:
  "ends_row (l\<lparr>l_maxrows := m\<rparr>) = ends_row l" "cursor_row (l\<lparr>l_maxrows := m\<rparr>) = cursor_row l"
  "cursor_col (l\<lparr>l_maxrows := m\<rparr>) = cursor_col l"
  by (simp_all add: ends_row_def cursor_row_def cursor_col_def fun_eq_iff)

lemma multi_draw_output:
  assumes "w_alloc w = []" "w_write w = []" "hintsCallback w = None"
    and "l_len l < 2 ^ 29" "l_pos l < 2 ^ 29" "length (l_prompt l) < 2 ^ 29" "0 < l_cols l" "l_cols l < 2 ^ 29"
    and "l_len l \<le> length (l_buf l)"
    and "l_maxrows l < 2 ^ 30" "r < 2 ^ 30" "rp \<le> 2 ^ 30" "old < 2 ^ 30" "cursor_row l (l_pos l) < 2 ^ 30"
    and rpos2: "int_of_size (size_add (size_add (length (l_prompt l)) (l_pos l)) (l_cols l) div l_cols l) =
      int (Suc (cursor_row l (l_pos l)))"
  shows "multi_draw l (int r) (int rp) (int old) w =
    (let r' = r + (if ends_row l then 1 else 0); q = Suc (cursor_row l (l_pos l)) in
     Some (l\<lparr>l_maxrows := (if ends_row l then max (l_maxrows l) r' else l_maxrows l), l_oldpos := l_pos l\<rparr>,
       w\<lparr>w_out := w_out w @
         (if old > rp then csi (dec_of_nat (old - rp) @ ''B'') else []) @
         concat (replicate (old - 1) clear_up) @ CR # csi ''0K'' @
         l_prompt l @ take (l_len l) (l_buf l) @
         (if ends_row l then [LF, CR] else []) @
         (if r' > q then csi (dec_of_nat (r' - q) @ ''A'') else []) @
         CR # (if cursor_col l \<noteq> 0 then csi (dec_of_nat (cursor_col l) @ ''C'') else [])\<rparr>))"
proof -
  let ?P = "length (l_prompt l)" and ?q = "Suc (cursor_row l (l_pos l))"
  let ?r = "r + (if ends_row l then 1 else 0)"
  have P: "int_of_size ?P = int ?P" "size_of_int (int ?P) = ?P" using assms(6) by simp_all
  have len: "int_of_size (l_len l) = int (l_len l)" "int_of_size (l_pos l) = int (l_pos l)" "int_of_size (l_cols l) = int (l_cols l)"
    using assms(4,5,8) by simp_all
  have diff: "(int a - int b > 0) = (a > b)" "a > b \<Longrightarrow> dec_of_int (int a - int b) = dec_of_nat (a - b)" for a b
    by (simp_all add: dec_of_int_def nat_diff_distrib)
  have col: "(int ?P + int (l_pos l)) mod int (l_cols l) = int (cursor_col l)"
    by (simp add: cursor_col_def zmod_int)
  have "cursor_col l < 2 ^ 31"
    unfolding cursor_col_def by (rule less_trans [OF mod_less_divisor]) (use assms(7,8) in simp_all)
  then have C: "snprintf 64 (CR # csi (dec_of_nat (cursor_col l) @ ''C'')) = CR # csi (dec_of_nat (cursor_col l) @ ''C'')"
    using snprintf_csi [of "cursor_col l" "[CR]"] by simp
  have colC: "(if int (cursor_col l) \<noteq> 0 then snprintf 64 (CR # csi (dec_of_int (int (cursor_col l)) @ ''C'')) else snprintf 64 [CR]) =
      CR # (if cursor_col l \<noteq> 0 then csi (dec_of_nat (cursor_col l) @ ''C'') else [])"
    using C by (simp add: dec_of_int_def)
  have moved: "(if int a - int b > 0 then snprintf 64 (csi (dec_of_int (int a - int b) @ [x])) else []) =
      (if a > b then csi (dec_of_nat (a - b) @ [x]) else [])" if "a \<le> 2 ^ 30" for a b x
    using that snprintf_csi [of "a - b" "[]" x] by (simp add: diff)
  have K: "snprintf 64 (CR # csi ''0K'') = CR # csi ''0K''" by simp
  have old1: "nat (int old - 1) = old - 1" by simp
  have hints: "refreshShowHints ab l' plen w = Some (ab, w)" for ab l' plen
    using assms(3) by (simp add: refreshShowHints_def)
  have buf: "abAppend (ab_of s) (l_buf l) (int (l_len l)) w = Some (ab_of (s @ take (l_len l) (l_buf l)), w)" for s
    using assms(1,9) by (simp add: abAppend_of)
  have r: "?r \<le> 2 ^ 30" using assms(11) by simp
  note calls = ab_when_of [OF assms(1)] clear_rows_of [OF assms(1)] ab_puts_of [OF assms(1)] buf hints
    multi_newline_of [OF assms(1,10,11,4,6)] ab_flush_of [OF assms(2)]
  have r: "r + 1 \<le> 2 ^ 30" "r + 0 \<le> 2 ^ 30" "old \<le> 2 ^ 30" using assms(11,13) by simp_all
  note vals = maxrows_fields len P rpos2 col colC moved [OF r(1)] moved [OF r(2)] moved [OF r(3)]
  show ?thesis
  proof (cases "ends_row l")
    case True
    show ?thesis
      unfolding multi_draw_def Let_def P len abInit_of old1 K calls bind.bind_lunit prod.case if_P [OF True]
      unfolding vals
      by simp
  next
    case False
    show ?thesis
      unfolding multi_draw_def Let_def P len abInit_of old1 K calls bind.bind_lunit prod.case if_not_P [OF False]
      unfolding vals
      by simp
  qed
qed

lemma refreshMultiLine_output:
  assumes "shown_ok l" and "0 < l_cols l" "l_cols l < 2 ^ 29" and "length (l_prompt l) < 2 ^ 29"
    and "l_maxrows l < 2 ^ 29" and "hintsCallback w = None" and "w_alloc w = []" and "w_write w = []"
  shows "refreshMultiLine l w =
    Some (l\<lparr>l_maxrows := max (l_maxrows l) (rows_used l), l_oldpos := l_pos l\<rparr>, w\<lparr>w_out := w_out w @ multi_out l\<rparr>)"
proof -
  let ?P = "length (l_prompt l)" and ?n = "l_len l" and ?p = "l_pos l" and ?o = "l_oldpos l" and ?c = "l_cols l"
  let ?rows = "(?P + ?n + ?c - 1) div ?c"
  let ?l = "l\<lparr>l_maxrows := max (l_maxrows l) ?rows\<rparr>"
  have b: "?n < 2 ^ 29" "?p < 2 ^ 29" "?o < 2 ^ 29" "?n < length (l_buf l)"
    using assms(1) by (auto simp: shown_ok_def)
  have P: "int_of_size ?P = int ?P" "size_of_int (int ?P) = ?P" using assms(4) by simp_all
  have "?rows \<le> ?P + ?n" using assms(2) by (rule rows_le)
  then have rows30: "?rows < 2 ^ 30" using b(1) assms(4) by simp
  have rows: "int_of_size (size_sub (size_add (size_add ?P ?n) ?c) 1 div ?c) = int ?rows"
    using b assms(2-4) rows30 by simp
  have row: "int_of_size (size_add (size_add ?P q) ?c div ?c) = int (Suc (cursor_row l q))"
    and row30: "cursor_row l q < 2 ^ 30" if "q < 2 ^ 29" for q
  proof -
    have eq: "(?P + q + ?c) div ?c = Suc (cursor_row l q)" using assms(2) by (simp add: cursor_row_def div_add_self2)
    show lt: "cursor_row l q < 2 ^ 30"
      unfolding cursor_row_def by (rule le_less_trans [OF div_le_dividend]) (use that assms(4) in simp)
    show "int_of_size (size_add (size_add ?P q) ?c div ?c) = int (Suc (cursor_row l q))"
      using that assms(3,4) lt by (simp add: eq del: of_nat_Suc)
  qed
  have mr30: "max (l_maxrows l) ?rows < 2 ^ 30" using rows30 assms(5) by simp
  have "refreshMultiLine l w = multi_draw ?l (int ?rows) (int (Suc (cursor_row l ?o))) (int (l_maxrows l)) w"
    using assms(2,5) rows30 raise_maxrows [of l ?rows] row [OF b(3)]
    unfolding refreshMultiLine_def Let_def P rows by (simp del: of_nat_Suc)
  also have "\<dots> = Some (l\<lparr>l_maxrows := max (l_maxrows l) (rows_used l), l_oldpos := l_pos l\<rparr>, w\<lparr>w_out := w_out w @ multi_out l\<rparr>)"
  proof -
    have draw: "multi_draw ?l (int ?rows) (int (Suc (cursor_row l ?o))) (int (l_maxrows l)) w =
      (let r' = ?rows + (if ends_row ?l then 1 else 0); q = Suc (cursor_row ?l (l_pos ?l)) in
       Some (?l\<lparr>l_maxrows := (if ends_row ?l then max (l_maxrows ?l) r' else l_maxrows ?l), l_oldpos := l_pos ?l\<rparr>,
         w\<lparr>w_out := w_out w @
           (if l_maxrows l > Suc (cursor_row l ?o) then csi (dec_of_nat (l_maxrows l - Suc (cursor_row l ?o)) @ ''B'') else []) @
           concat (replicate (l_maxrows l - 1) clear_up) @ CR # csi ''0K'' @
           l_prompt ?l @ take (l_len ?l) (l_buf ?l) @
           (if ends_row ?l then [LF, CR] else []) @
           (if r' > q then csi (dec_of_nat (r' - q) @ ''A'') else []) @
           CR # (if cursor_col ?l \<noteq> 0 then csi (dec_of_nat (cursor_col ?l) @ ''C'') else [])\<rparr>))"
      by (rule multi_draw_output)
        (use assms b rows30 mr30 row30 [OF b(2)] row30 [OF b(3)] row [OF b(2)] in \<open>simp_all add: maxrows_same del: of_nat_Suc\<close>)
    show ?thesis
      unfolding draw Let_def maxrows_same multi_out_def rows_used_def
      by (cases "ends_row l") (simp_all add: max.assoc)
  qed
  finally show ?thesis .
qed

section \<open>The page after the refresh\<close>

lemma rows_ceiling:
  fixes n c :: nat
  assumes "0 < c"
  shows "(n + c - 1) div c = n div c + (if n mod c = 0 then 0 else 1)"
proof (cases "n mod c")
  case 0
  then have "(n + c - 1) div c = (n div c * c + (c - 1)) div c" using assms div_mult_mod_eq [of n c] by simp
  also have "\<dots> = n div c" by (subst div_mult_self3) (use assms in simp_all)
  finally show ?thesis using 0 by simp
next
  case (Suc r)
  have "r < c" using mod_less_divisor [OF assms, of n] Suc by simp
  have "n div c * c + Suc r = n" using div_mult_mod_eq [of n c] Suc by simp
  then have "n + c - 1 = (n div c + 1) * c + r" unfolding add_mult_distrib by linarith
  then have "(n + c - 1) div c = ((n div c + 1) * c + r) div c" by (simp only:)
  also have "\<dots> = n div c + 1" by (subst div_mult_self3) (use \<open>r < c\<close> assms in simp_all)
  finally show ?thesis using Suc by simp
qed

lemma row_below_ceiling:
  fixes m n c :: nat
  assumes "0 < c" and "m < n \<or> m = n \<and> n mod c \<noteq> 0"
  shows "m div c < (n + c - 1) div c"
proof (cases "n mod c = 0")
  case True
  then have "m < n div c * c" using assms(2) div_mult_mod_eq [of n c] by simp
  then have "m div c < n div c" by (simp add: less_mult_imp_div_less)
  then show ?thesis using True unfolding rows_ceiling [OF assms(1)] by simp
next
  case False
  have "m div c \<le> n div c" using assms(2) by (intro div_le_mono) auto
  then show ?thesis using False unfolding rows_ceiling [OF assms(1)] by simp
qed

lemma ceiling_covers:
  fixes n c :: nat
  assumes "0 < c" and "(n + c - 1) div c \<le> k"
  shows "n \<le> k * c"
proof -
  have "n div c * c + n mod c = n" "n mod c < c" using assms(1) by simp_all
  then have "n \<le> (n + c - 1) div c * c"
    unfolding rows_ceiling [OF assms(1)] add_mult_distrib by (cases "n mod c = 0"; simp only: if_True if_False; linarith)
  also have "\<dots> \<le> k * c" using assms(2) by (rule mult_le_mono1)
  finally show ?thesis .
qed

text \<open>The page as the last refresh (or the prompt) left it: the cursor is on the row of the old position,
  among the rows that were used, and below them all is blank.\<close>

definition page_ready :: "linenoiseState \<Rightarrow> nat \<Rightarrow> page \<Rightarrow> bool" where
  "page_ready l b t \<longleftrightarrow>
     pg_cols t = l_cols l \<and> pg_row t = b + cursor_row l (l_oldpos l) \<and>
     cursor_row l (l_oldpos l) < max 1 (l_maxrows l) \<and>
     (\<forall>r c. b + max 1 (l_maxrows l) \<le> r \<and> c < pg_cols t \<longrightarrow> pg_cell t r c = blank)"

text \<open>A text from row \<open>b\<close> on, broken at the width of the page.\<close>

definition page_text :: "nat \<Rightarrow> nat \<Rightarrow> string \<Rightarrow> nat \<Rightarrow> nat \<Rightarrow> char" where
  "page_text n b s r c = (if (r - b) * n + c < length s then s ! ((r - b) * n + c) else blank)"

text \<open>An empty line after a prompt that fills its rows: the code does not go to the next row.\<close>

definition row_missed :: "linenoiseState \<Rightarrow> bool" where
  "row_missed l \<longleftrightarrow> l_len l = 0 \<and> l_prompt l \<noteq> [] \<and> length (l_prompt l) mod l_cols l = 0"

lemma line_room:
  assumes "\<not> row_missed l" and "0 < l_cols l" and "l_pos l \<le> l_len l"
  shows "cursor_row l (l_pos l) < max 1 (rows_used l)"
    and "\<not> ends_row l \<Longrightarrow> 0 < length (l_prompt l) + l_len l \<Longrightarrow> cursor_row l (l_pos l) < rows_used l"
proof -
  let ?m = "length (l_prompt l) + l_pos l" and ?n = "length (l_prompt l) + l_len l"
  have rest: "cursor_row l (l_pos l) < rows_used l" if "\<not> ends_row l" "0 < ?n"
  proof -
    have "?m < ?n \<or> ?m = ?n \<and> ?n mod l_cols l \<noteq> 0"
      using that assms(1,3) by (auto simp: ends_row_def row_missed_def add.commute)
    then have "?m div l_cols l < (?n + l_cols l - 1) div l_cols l" by (rule row_below_ceiling [OF assms(2)])
    then show ?thesis using that(1) by (simp add: cursor_row_def rows_used_def)
  qed
  then show "\<not> ends_row l \<Longrightarrow> 0 < ?n \<Longrightarrow> cursor_row l (l_pos l) < rows_used l" .
  show "cursor_row l (l_pos l) < max 1 (rows_used l)"
  proof (cases "ends_row l")
    case True
    then have n: "?n = ?m" "?n mod l_cols l = 0" by (auto simp: ends_row_def add.commute)
    then have "rows_used l = Suc (?n div l_cols l)" using True rows_ceiling [OF assms(2), of ?n] unfolding rows_used_def by simp
    then show ?thesis using \<open>?n = ?m\<close> by (simp add: cursor_row_def)
  next
    case False
    then show ?thesis using rest assms(3) by (cases "?n = 0") (auto simp: cursor_row_def)
  qed
qed

text \<open>The row the code takes for the last one used.\<close>

definition down_row :: "linenoiseState \<Rightarrow> page \<Rightarrow> nat" where
  "down_row l t = pg_row t + (l_maxrows l - Suc (cursor_row l (l_oldpos l)))"

lemma pg_run_multi_out:
  assumes start: "down_row l t = b + (l_maxrows l - 1)" and width: "pg_cols t = l_cols l" and cols: "0 < l_cols l" and len: "l_pos l \<le> l_len l" "l_len l \<le> length (l_buf l)"
    and print: "list_all printable (l_prompt l @ take (l_len l) (l_buf l))"
  shows "pg_run (multi_out l) t =
    Some ((pg_write b 0 (l_prompt l @ take (l_len l) (l_buf l)) (pg_clear b (l_maxrows l - 1) t))
      \<lparr>pg_row := b + cursor_row l (l_pos l) - (if row_missed l then 1 else 0), pg_col := cursor_col l, pg_wrap := False\<rparr>)"
proof -
  let ?c = "l_cols l" and ?s = "l_prompt l @ take (l_len l) (l_buf l)" and ?old = "l_maxrows l"
  let ?n = "length (l_prompt l) + l_len l" and ?q = "cursor_row l (l_pos l)"
  let ?miss = "if row_missed l then 1 else 0 :: nat"
  let ?P = "pg_write b 0 ?s (pg_clear b (?old - 1) t)"
  let ?tail = "CR # (if cursor_col l \<noteq> 0 then csi (dec_of_nat (cursor_col l) @ ''C'') else [])"
  let ?up = "(if rows_used l > Suc ?q then csi (dec_of_nat (rows_used l - Suc ?q) @ ''A'') else []) @ ?tail"
  have s: "length ?s = ?n" using len(2) by simp
  have c: "pg_cols t = ?c" "cursor_col l < ?c" using width cols by (simp_all add: cursor_col_def)
  let ?t1 = "if ?old > Suc (cursor_row l (l_oldpos l)) then t\<lparr>pg_row := b + (?old - 1), pg_wrap := False\<rparr> else t"
  have row1: "pg_row ?t1 = b + (?old - 1)" using start by (cases "?old > Suc (cursor_row l (l_oldpos l))") (simp_all add: down_row_def)
  have "pg_run (multi_out l) t = pg_run (concat (replicate (?old - 1) clear_up) @ CR # csi ''0K'' @ ?s @
      (if ends_row l then [LF, CR] else []) @ ?up) ?t1"
    using start pg_run_down [of "?old - Suc (cursor_row l (l_oldpos l))" _ t]
    by (simp add: multi_out_def down_row_def)
  also have "\<dots> = pg_run (?s @ (if ends_row l then [LF, CR] else []) @ ?up) (pg_at b 0 (pg_clear b (?old - 1) ?t1))"
    by (rule pg_run_clear [OF row1])
  also have "pg_at b 0 (pg_clear b (?old - 1) ?t1) = pg_at b 0 (pg_clear b (?old - 1) t)"
    by (rule page.equality) (auto simp: pg_at_0 pg_clear_def fun_eq_iff)
  also have "pg_run (?s @ (if ends_row l then [LF, CR] else []) @ ?up) \<dots> =
      pg_run ((if ends_row l then [LF, CR] else []) @ ?up) (pg_at b ?n ?P)"
    using pg_run_text [OF print, of "pg_clear b (?old - 1) t" _ b 0] c(1) cols by (simp only: s pg_clear_cols) simp
  also have "\<dots> = Some (?P\<lparr>pg_row := b + ?q - ?miss, pg_col := cursor_col l, pg_wrap := False\<rparr>)"
  proof -
    have tail: "pg_run ?tail y = Some (y\<lparr>pg_col := cursor_col l, pg_wrap := False\<rparr>)" if "pg_cols y = ?c" for y
      using that c(2) pg_run_forward [of "cursor_col l" "[]"] by (auto simp: min_def)
    have up: "pg_run ?up y = Some (y\<lparr>pg_row := pg_row y - (rows_used l - Suc ?q), pg_col := cursor_col l, pg_wrap := False\<rparr>)"
      if "pg_cols y = ?c" for y
      using that pg_run_up [of "rows_used l - Suc ?q" ?tail y] tail by (cases "rows_used l > Suc ?q") simp_all
    have P: "pg_cols ?P = ?c" using c(1) by simp
    show ?thesis
    proof (cases "ends_row l")
      case True
      then have n: "?n = length (l_prompt l) + l_pos l" "0 < ?n" "?n mod ?c = 0" by (auto simp: ends_row_def add.commute)
      then have "0 < ?n div ?c" using n(2,3) cols by (auto simp: div_greater_zero_iff mod_eq_0_iff_dvd intro!: dvd_imp_le)
      moreover have "rows_used l = Suc ?q" using True n rows_ceiling [OF cols, of ?n] unfolding rows_used_def cursor_row_def by simp
      moreover have "\<not> row_missed l" using True by (auto simp: ends_row_def row_missed_def)
      ultimately show ?thesis using True n P up by (simp add: pg_at_def Let_def cursor_row_def)
    next
      case False
      have "pg_row (pg_at b ?n ?P) - (rows_used l - Suc ?q) = b + ?q - ?miss"
      proof (cases "?n = 0")
        case True
        moreover have "rows_used l = 0" using True False cols unfolding rows_used_def by simp
        moreover have "\<not> row_missed l" using True by (simp add: row_missed_def)
        ultimately show ?thesis using True len(1) by (simp add: pg_at_0 cursor_row_def)
      next
        case n: False
        have row: "pg_row (pg_at b ?n ?P) = b + rows_used l - 1"
          using n False P rows_ceiling [OF cols, of ?n] unfolding pg_at_def Let_def rows_used_def by simp
        show ?thesis
        proof (cases "row_missed l")
          case True
          then have "rows_used l = ?q"
            using False len(1) rows_ceiling [OF cols, of ?n] by (simp add: row_missed_def rows_used_def cursor_row_def)
          then show ?thesis using row True by simp
        next
          case room: False
          then have "?q < rows_used l" using line_room(2) [OF room cols len(1) False] n by simp
          then show ?thesis using row room by simp
        qed
      qed
      moreover have "pg_cols (pg_at b ?n ?P) = ?c" using P by (simp add: pg_at_def Let_def)
      ultimately show ?thesis using False up [of "pg_at b ?n ?P"] by (simp only: if_False append_Nil pg_at_over)
    qed
  qed
  finally show ?thesis .
qed

section \<open>Properties\<close>

text \<open>C19. The multi line refresh of a sound line, without hints and with allocations and writes that
  succeed, on a page where the rows below those of the previous refresh are blank: afterwards the rows
  from that of the prompt on show the prompt and the line, broken at the width of the terminal, and then
  only blanks; the rows above are untouched; the cursor stands on the cell of its position; and the page
  is again one on which the next refresh can rely.  The exception is an empty line after a prompt that
  fills its rows to the last column (\<open>row_missed\<close>): the text is shown, but the cursor is one row too high,
  at the beginning of the last row of the prompt, and the next refresh does not find the page it expects.\<close>

theorem multi_line_refresh_shows:
  assumes "ln_inv l" and "0 < l_cols l" "l_cols l < 2 ^ 29" and "length (l_prompt l) < 2 ^ 29" and "l_maxrows l < 2 ^ 29"
    and "hintsCallback w = None" "w_alloc w = []" "w_write w = []"
    and "vt_text (l_prompt l)" and "vt_text (line_of l)" and "page_ready l b t"
  shows "\<exists>l' out t'. refreshMultiLine l w = Some (l', w\<lparr>w_out := w_out w @ out\<rparr>) \<and> pg_run out t = Some t' \<and>
    (\<forall>r c. c < l_cols l \<longrightarrow> pg_cell t' r c =
       (if r < b then pg_cell t r c else page_text (l_cols l) b (l_prompt l @ line_of l) r c)) \<and>
    pg_row t' = b + (length (l_prompt l) + l_pos l) div l_cols l - (if row_missed l then 1 else 0) \<and>
    pg_col t' = (length (l_prompt l) + l_pos l) mod l_cols l \<and> \<not> pg_wrap t' \<and>
    same_line l l' \<and> (page_ready l' b t' \<longleftrightarrow> \<not> row_missed l)"
proof -
  let ?s = "l_prompt l @ line_of l" and ?old = "l_maxrows l" and ?c = "l_cols l"
  let ?miss = "if row_missed l then 1 else 0 :: nat"
  let ?l = "l\<lparr>l_maxrows := max ?old (rows_used l), l_oldpos := l_pos l\<rparr>"
  let ?t = "(pg_write b 0 ?s (pg_clear b (?old - 1) t))\<lparr>pg_row := b + cursor_row l (l_pos l) - ?miss, pg_col := cursor_col l, pg_wrap := False\<rparr>"
  have len: "l_pos l \<le> l_len l" "l_len l \<le> length (l_buf l)" "line_of l = take (l_len l) (l_buf l)"
    using assms(1) by (simp_all add: ln_inv_def line_of_def)
  have start: "down_row l t = b + (?old - 1)" "pg_cols t = ?c"
    using assms(11) by (auto simp: page_ready_def down_row_def max_def split: if_splits)
  have run: "pg_run (multi_out l) t = Some ?t"
    using pg_run_multi_out [OF _ _ assms(2) len(1,2)] start assms(9,10) by (simp add: len(3) vt_text_def)
  have cols: "pg_cols t = ?c" using assms(11) by (simp add: page_ready_def)
  have n: "length ?s = length (l_prompt l) + l_len l" using len by simp
  have cells: "pg_cell ?t r c = (if r < b then pg_cell t r c else page_text ?c b ?s r c)" if "c < ?c" for r c
  proof (cases "b \<le> r")
    case True
    have "pg_cell t r c = blank" if "\<not> r \<le> b + (?old - 1)"
      using that \<open>c < ?c\<close> cols assms(11) by (simp add: page_ready_def max_def split: if_splits)
    then show ?thesis using True that cols by (simp add: pg_write_cell pg_clear_def page_text_def)
  qed (use cols in \<open>simp add: pg_write_cell pg_clear_def\<close>)
  have "page_ready ?l b ?t" if room: "\<not> row_missed l"
  proof -
    have "pg_cell ?t r c = blank" if "b + max 1 (max ?old (rows_used l)) \<le> r" "c < ?c" for r c
    proof -
      have "length ?s \<le> (r - b) * ?c"
      proof (rule ceiling_covers [OF assms(2)])
        show "(length ?s + ?c - 1) div ?c \<le> r - b" using that(1) unfolding n rows_used_def by simp
      qed
      then show ?thesis using cells [OF that(2), of r] that(1) by (simp add: page_text_def)
    qed
    moreover have "cursor_row l (l_pos l) < max 1 (max ?old (rows_used l))"
      using line_room(1) [OF room assms(2) len(1)] by simp
    ultimately show ?thesis using cols room by (simp add: page_ready_def cursor_row_def)
  qed
  moreover have "\<not> page_ready ?l b ?t" if missed: "row_missed l"
  proof -
    have "0 < length (l_prompt l) div ?c" using missed assms(2)
      by (auto simp: row_missed_def div_greater_zero_iff mod_eq_0_iff_dvd intro!: dvd_imp_le)
    then have "0 < cursor_row l (l_pos l)" using missed len(1) by (simp add: row_missed_def cursor_row_def)
    moreover have "cursor_row ?l (l_oldpos ?l) = cursor_row l (l_pos l)" by (simp add: cursor_row_def)
    ultimately have "pg_row ?t \<noteq> b + cursor_row ?l (l_oldpos ?l)" using missed by simp
    then show ?thesis unfolding page_ready_def by blast
  qed
  moreover have "refreshMultiLine l w = Some (?l, w\<lparr>w_out := w_out w @ multi_out l\<rparr>)"
    by (rule refreshMultiLine_output [OF ln_inv_shown_ok [OF assms(1)] assms(2-8)])
  moreover have "same_line l ?l" by (rule same_lineI [OF refl]) simp
  ultimately show ?thesis
    using run cells by (intro exI [of _ ?l] exI [of _ "multi_out l"] exI [of _ ?t]) (simp add: cursor_row_def cursor_col_def)
qed

theorem multi_line_refresh_shows_witness:
  "\<exists>l' out t'. refreshMultiLine long_line (init_world [] termios0) = Some (l', (init_world [] termios0)\<lparr>w_out := out\<rparr>) \<and>
    pg_run out \<lparr>pg_cols = 6, pg_cell = (\<lambda>_ _. blank), pg_row = 3, pg_col = 2, pg_wrap = False\<rparr> = Some t' \<and>
    pg_cell t' 3 5 = CHR ''d'' \<and> pg_cell t' 4 0 = CHR ''e'' \<and> pg_row t' = 4 \<and> pg_col t' = 3"
proof -
  let ?t = "\<lparr>pg_cols = 6, pg_cell = (\<lambda>_ _. blank), pg_row = 3, pg_col = 2, pg_wrap = False\<rparr>"
  have facts: "l_maxrows long_line = 0" "l_oldpos long_line = 0" "l_len long_line = 8"
    by (simp_all add: long_line_def)
  have ready: "page_ready long_line 3 ?t"
    by (simp add: page_ready_def long_line_facts facts cursor_row_def)
  have "\<exists>l' out t'. refreshMultiLine long_line (init_world [] termios0) = Some (l', (init_world [] termios0)\<lparr>w_out := w_out (init_world [] termios0) @ out\<rparr>) \<and>
    pg_run out ?t = Some t' \<and>
    (\<forall>r c. c < l_cols long_line \<longrightarrow> pg_cell t' r c =
       (if r < 3 then pg_cell ?t r c else page_text (l_cols long_line) 3 (l_prompt long_line @ line_of long_line) r c)) \<and>
    pg_row t' = 3 + (length (l_prompt long_line) + l_pos long_line) div l_cols long_line - (if row_missed long_line then 1 else 0) \<and>
    pg_col t' = (length (l_prompt long_line) + l_pos long_line) mod l_cols long_line \<and> \<not> pg_wrap t' \<and>
    same_line long_line l' \<and> (page_ready l' 3 t' \<longleftrightarrow> \<not> row_missed long_line)"
    by (rule multi_line_refresh_shows [OF long_line_facts(1) _ _ _ _ _ _ _ _ _ ready])
      (simp_all add: long_line_facts facts vt_text_def printable_def)
  then obtain l' out t' where
    run: "refreshMultiLine long_line (init_world [] termios0) = Some (l', (init_world [] termios0)\<lparr>w_out := w_out (init_world [] termios0) @ out\<rparr>)"
    "pg_run out ?t = Some t'" and
    cells: "\<forall>r c. c < l_cols long_line \<longrightarrow> pg_cell t' r c =
       (if r < 3 then pg_cell ?t r c else page_text (l_cols long_line) 3 (l_prompt long_line @ line_of long_line) r c)" and
    cursor: "pg_row t' = 3 + (length (l_prompt long_line) + l_pos long_line) div l_cols long_line - (if row_missed long_line then 1 else 0)"
    "pg_col t' = (length (l_prompt long_line) + l_pos long_line) mod l_cols long_line"
    by (elim exE conjE) (rule that)
  have "pg_cell t' 3 5 = CHR ''d''" "pg_cell t' 4 0 = CHR ''e''"
    using cells [rule_format, of 5 3] cells [rule_format, of 0 4] by (simp_all add: long_line_facts page_text_def)
  then show ?thesis using run cursor by (intro exI conjI) (simp_all add: long_line_facts row_missed_def facts)
qed

text \<open>C35. In multi line mode a prompt that needs more than one row is repeated: the first refresh after
  the prompt was written does not go back to its first row, so the rows above keep the beginning of the
  prompt and the whole prompt is written again from the row of its end.\<close>

theorem long_prompt_repeated:
  assumes "ln_inv l" and "0 < l_cols l" "l_cols l < 2 ^ 29" and "length (l_prompt l) < 2 ^ 29" and "l_maxrows l = 0"
    and "hintsCallback w = None" "w_alloc w = []" "w_write w = []"
    and "vt_text (l_prompt l)" and "vt_text (line_of l)" and "pg_cols t = l_cols l"
    and "l_cols l < length (l_prompt l)" and "length (l_prompt l) mod l_cols l \<noteq> 0" and "c < l_cols l"
  shows "\<exists>l' out t1 t2. pg_run (l_prompt l) (pg_at b 0 t) = Some t1 \<and>
    refreshMultiLine l w = Some (l', w\<lparr>w_out := w_out w @ out\<rparr>) \<and> pg_run out t1 = Some t2 \<and>
    pg_cell t2 b c = l_prompt l ! c \<and> pg_cell t2 (b + length (l_prompt l) div l_cols l) c = l_prompt l ! c"
proof -
  let ?P = "l_prompt l" and ?c = "l_cols l" and ?b = "b + length (l_prompt l) div l_cols l"
  let ?t1 = "pg_at b (length ?P) (pg_write b 0 ?P t)"
  let ?s = "?P @ line_of l"
  let ?t2 = "(pg_write ?b 0 ?s (pg_clear ?b (l_maxrows l - 1) ?t1))
    \<lparr>pg_row := ?b + cursor_row l (l_pos l), pg_col := cursor_col l, pg_wrap := False\<rparr>"
  have len: "l_pos l \<le> l_len l" "l_len l \<le> length (l_buf l)" "line_of l = take (l_len l) (l_buf l)"
    using assms(1) by (simp_all add: ln_inv_def line_of_def)
  have t1: "pg_run ?P (pg_at b 0 t) = Some ?t1"
    using pg_run_text [of ?P t "[]" b 0] assms(2,9,11) by (simp add: vt_text_def)
  have at: "pg_row ?t1 = ?b" "pg_cols ?t1 = ?c" "pg_cell ?t1 = pg_cell (pg_write b 0 ?P t)"
    using assms(11,13) by (simp_all add: pg_at_def Let_def)
  have "pg_run (multi_out l) ?t1 = Some ?t2"
    using pg_run_multi_out [of l ?t1 ?b] at assms(2,5,9,10,13) len by (simp add: down_row_def vt_text_def row_missed_def)
  moreover have "refreshMultiLine l w =
      Some (l\<lparr>l_maxrows := max (l_maxrows l) (rows_used l), l_oldpos := l_pos l\<rparr>, w\<lparr>w_out := w_out w @ multi_out l\<rparr>)"
    by (rule refreshMultiLine_output [OF ln_inv_shown_ok [OF assms(1)] assms(2-4) _ assms(6-8)]) (simp add: assms(5))
  moreover have "0 < length ?P div ?c" using assms(2,12) by (simp add: div_greater_zero_iff)
  then have "pg_cell ?t2 b c = ?P ! c"
    using assms(11,12,14) at by (simp add: pg_write_cell pg_clear_def)
  moreover have "pg_cell ?t2 ?b c = ?P ! c"
    using assms(11,12,14) at by (simp add: pg_write_cell nth_append)
  ultimately show ?thesis using t1 by blast
qed

theorem long_prompt_repeated_witness:
  "\<exists>l' out t1 t2. pg_run ''abcdefg'' (pg_at 0 0 \<lparr>pg_cols = 4, pg_cell = (\<lambda>_ _. blank), pg_row = 0, pg_col = 0, pg_wrap = False\<rparr>) = Some t1 \<and>
    refreshMultiLine (bare_line\<lparr>l_prompt := ''abcdefg'', l_plen := 7, l_cols := 4\<rparr>) (init_world [] termios0) =
      Some (l', (init_world [] termios0)\<lparr>w_out := out\<rparr>) \<and>
    pg_run out t1 = Some t2 \<and> pg_cell t2 0 1 = CHR ''b'' \<and> pg_cell t2 1 1 = CHR ''b''"
  using long_prompt_repeated [of "bare_line\<lparr>l_prompt := ''abcdefg'', l_plen := 7, l_cols := 4\<rparr>" "init_world [] termios0"
      "\<lparr>pg_cols = 4, pg_cell = (\<lambda>_ _. blank), pg_row = 0, pg_col = 0, pg_wrap = False\<rparr>" 1 0]
  by (simp add: bare_line_def ln_inv_def line_of_def vt_text_def printable_def)

end
