(* ===== verification/Nim_Intops.thy ===== *)
theory Nim_Intops
  imports Complex_Main "HOL-Library.Word" "HOL-Library.Signed_Division"
begin

text \<open>
  Checked and saturated integer arithmetic: the macros \<open>nimAddInt\<close>, \<open>nimSubInt\<close>, \<open>nimMulInt\<close> and
  \<open>nimModInt\<close> of \<open>lib/nimbase.h\<close> that generated code calls, the portable versions of
  \<open>lib/system/integerops.nim\<close> that replace the macros where the compiler has no overflow builtins, and
  \<open>compiler/saturate.nim\<close>.  An \<open>int\<close> is a word of any length (64 and 32 in the code), read signed; the
  result of a checked operation is the flag it returns and the contents of \<open>res\<close> afterwards.
  Multiplication without builtins compares with the floating point product: rounding is a function
  \<open>rnd\<close> on the reals of which only a bound on its relative error is used.
\<close>

unbundle bit_operations_syntax

section \<open>The macros of \<open>nimbase.h\<close>\<close>

text \<open>The builtins compute with infinite precision, store the wrapped result and return whether it
  differs.\<close>

definition builtin_overflow :: "int \<Rightarrow> bool \<times> 'a::len word" where
  "builtin_overflow k = (let r = word_of_int k in (sint (r :: 'a word) \<noteq> k, r))"

definition nimAddInt :: "'a::len word \<Rightarrow> 'a word \<Rightarrow> bool \<times> 'a word" where
  "nimAddInt a b = builtin_overflow (sint a + sint b)"

definition nimSubInt :: "'a::len word \<Rightarrow> 'a word \<Rightarrow> bool \<times> 'a word" where
  "nimSubInt a b = builtin_overflow (sint a - sint b)"

definition nimMulInt :: "'a::len word \<Rightarrow> 'a word \<Rightarrow> bool \<times> 'a word" where
  "nimMulInt a b = builtin_overflow (sint a * sint b)"

definition int_low :: "'a::len word" where
  "int_low = word_of_int (- (2 ^ (LENGTH('a) - 1)))"

definition int_high :: "'a::len word" where
  "int_high = word_of_int (2 ^ (LENGTH('a) - 1) - 1)"

text \<open>The remainder of C: undefined for a divisor of 0, and where the quotient overflows.\<close>

definition nimModInt :: "'a::len word \<Rightarrow> 'a word \<Rightarrow> (bool \<times> 'a word) option" where
  "nimModInt a b =
     (if b = 0 \<or> a = int_low \<and> b = -1 then None
      else Some (False, word_of_int (sint a smod sint b)))"

text \<open>The instances of the header: \<open>NI\<close> has the width of a pointer.\<close>

abbreviation nimAddInt64 :: "64 word \<Rightarrow> 64 word \<Rightarrow> bool \<times> 64 word" where "nimAddInt64 \<equiv> nimAddInt"
abbreviation nimSubInt64 :: "64 word \<Rightarrow> 64 word \<Rightarrow> bool \<times> 64 word" where "nimSubInt64 \<equiv> nimSubInt"
abbreviation nimMulInt64 :: "64 word \<Rightarrow> 64 word \<Rightarrow> bool \<times> 64 word" where "nimMulInt64 \<equiv> nimMulInt"
abbreviation nimModInt64 :: "64 word \<Rightarrow> 64 word \<Rightarrow> (bool \<times> 64 word) option" where "nimModInt64 \<equiv> nimModInt"
abbreviation nimAddInt32 :: "32 word \<Rightarrow> 32 word \<Rightarrow> bool \<times> 32 word" where "nimAddInt32 \<equiv> nimAddInt"
abbreviation nimSubInt32 :: "32 word \<Rightarrow> 32 word \<Rightarrow> bool \<times> 32 word" where "nimSubInt32 \<equiv> nimSubInt"
abbreviation nimMulInt32 :: "32 word \<Rightarrow> 32 word \<Rightarrow> bool \<times> 32 word" where "nimMulInt32 \<equiv> nimMulInt"

section \<open>The portable versions\<close>

text \<open>\<open>old\<close> is what \<open>res\<close> held: on overflow nothing is stored.\<close>

definition addImplFallback :: "'a::len word \<Rightarrow> 'a word \<Rightarrow> 'a word \<Rightarrow> bool \<times> 'a word" where
  "addImplFallback a b old =
     (let r = a + b in
      if sint (r XOR a) \<ge> 0 \<or> sint (r XOR b) \<ge> 0 then (False, r) else (True, old))"

definition subImplFallback :: "'a::len word \<Rightarrow> 'a word \<Rightarrow> 'a word \<Rightarrow> bool \<times> 'a word" where
  "subImplFallback a b old =
     (let r = a - b in
      if sint (r XOR a) \<ge> 0 \<or> sint (r XOR NOT b) \<ge> 0 then (False, r) else (True, old))"

definition to_float :: "(real \<Rightarrow> real) \<Rightarrow> 'a::len word \<Rightarrow> real" where
  "to_float rnd a = rnd (real_of_int (sint a))"

definition float_prod :: "(real \<Rightarrow> real) \<Rightarrow> 'a::len word \<Rightarrow> 'a word \<Rightarrow> real" where
  "float_prod rnd a b = rnd (to_float rnd a * to_float rnd b)"

definition close_enough :: "(real \<Rightarrow> real) \<Rightarrow> real \<Rightarrow> real \<Rightarrow> bool" where
  "close_enough rnd x p \<longleftrightarrow> 32 * \<bar>rnd (x - p)\<bar> \<le> \<bar>p\<bar>"

definition mulImplFallback ::
  "(real \<Rightarrow> real) \<Rightarrow> 'a::len word \<Rightarrow> 'a word \<Rightarrow> 'a word \<Rightarrow> bool \<times> 'a word" where
  "mulImplFallback rnd a b old =
     (let r = a * b; floatProd = float_prod rnd a b; resAsFloat = to_float rnd r in
      if resAsFloat = floatProd then (False, r)
      else if close_enough rnd resAsFloat floatProd then (False, r)
      else (True, old))"

definition divImplFallback :: "'a::len word \<Rightarrow> 'a word \<Rightarrow> 'a word \<Rightarrow> (bool \<times> 'a word) option" where
  "divImplFallback a b old =
     (if a = int_low \<and> b = -1 then Some (True, old)
      else if b = 0 then None
      else Some (False, word_of_int (sint a sdiv sint b)))"

section \<open>Saturated arithmetic\<close>

definition sat_add :: "'a::len word \<Rightarrow> 'a word \<Rightarrow> 'a word" where
  "sat_add a b =
     (let result = a + b in
      if sint (result XOR a) \<ge> 0 \<or> sint (result XOR b) \<ge> 0 then result
      else if sint a < 0 \<or> sint b < 0 then int_low else int_high)"

definition sat_sub :: "'a::len word \<Rightarrow> 'a word \<Rightarrow> 'a word" where
  "sat_sub a b =
     (let result = a - b in
      if sint (result XOR a) \<ge> 0 \<or> sint (result XOR NOT b) \<ge> 0 then result
      else if sint b > 0 then int_low else int_high)"

definition sat_abs :: "'a::len word \<Rightarrow> 'a word" where
  "sat_abs a = (if a \<noteq> int_low then if sint a \<ge> 0 then a else - a else int_low)"

definition sat_div :: "'a::len word \<Rightarrow> 'a word \<Rightarrow> 'a word" where
  "sat_div a b =
     (if b = 0 then a
      else if a = int_low \<and> b = -1 then int_high
      else word_of_int (sint a sdiv sint b))"

text \<open>\<open>a mod b\<close> is the remainder of C.\<close>

definition sat_mod :: "'a::len word \<Rightarrow> 'a word \<Rightarrow> 'a word option" where
  "sat_mod a b = (if b = 0 then Some a else map_option snd (nimModInt a b))"

definition sat_mul :: "(real \<Rightarrow> real) \<Rightarrow> 'a::len word \<Rightarrow> 'a word \<Rightarrow> 'a word" where
  "sat_mul rnd a b =
     (let result = a * b; floatProd = float_prod rnd a b; resAsFloat = to_float rnd result in
      if resAsFloat = floatProd then result
      else if close_enough rnd resAsFloat floatProd then result
      else if floatProd \<ge> 0 then int_high else int_low)"

section \<open>Signed values of words\<close>

definition half :: "'a::len itself \<Rightarrow> int" where
  "half _ = 2 ^ (LENGTH('a) - 1)"

lemma half_pos [simp]: "1 \<le> half TYPE('a::len)" "0 < half TYPE('a)"
  by (simp_all add: half_def)

lemma two_half: "2 ^ LENGTH('a::len) = 2 * half TYPE('a)"
  by (metis half_def len_gt_0 power_eq_if neq0_conv)

lemma sint_bounds: "- half TYPE('a) \<le> sint (a :: 'a::len word)" "sint a < half TYPE('a)"
  using sint_ge [of a] sint_lt [of a] by (simp_all only: half_def)

lemma sint_word_of_int_half:
  "sint (word_of_int k :: 'a::len word) = (k + half TYPE('a)) mod (2 * half TYPE('a)) - half TYPE('a)"
proof -
  have "Suc (LENGTH('a) - 1) = LENGTH('a)" by simp
  then show ?thesis
    unfolding sint_sbintrunc' signed_take_bit_eq_take_bit_shift take_bit_eq_mod
    by (simp only: two_half half_def)
qed

lemma sint_wrap:
  assumes "- half TYPE('a::len) \<le> k + j * (2 * half TYPE('a))" and "k + j * (2 * half TYPE('a)) < half TYPE('a)"
  shows "sint (word_of_int k :: 'a word) = k + j * (2 * half TYPE('a))"
proof -
  have "(k + half TYPE('a)) mod (2 * half TYPE('a)) =
      (k + half TYPE('a) + j * (2 * half TYPE('a))) mod (2 * half TYPE('a))" by (simp only: mod_mult_self1)
  also have "\<dots> = k + half TYPE('a) + j * (2 * half TYPE('a))"
    using assms by (intro mod_pos_pos_trivial) linarith+
  finally show ?thesis by (simp add: sint_word_of_int_half)
qed

lemma sint_fits: "- half TYPE('a::len) \<le> k \<Longrightarrow> k < half TYPE('a) \<Longrightarrow> sint (word_of_int k :: 'a word) = k"
  using sint_wrap [of k 0] by simp

lemma overflow_iff:
  "fst (builtin_overflow k :: bool \<times> 'a::len word) \<longleftrightarrow> k < - half TYPE('a) \<or> half TYPE('a) \<le> k"
  using sint_fits [of k, where 'a = 'a] sint_bounds [of "word_of_int k :: 'a word"]
  unfolding builtin_overflow_def Let_def fst_conv by linarith

lemma builtin_exact:
  "\<not> fst (builtin_overflow k :: bool \<times> 'a::len word) \<Longrightarrow>
   (builtin_overflow k :: bool \<times> 'a word) = (False, word_of_int k) \<and> sint (word_of_int k :: 'a word) = k"
  by (simp add: builtin_overflow_def Let_def)

lemma sint_low_high:
  "sint (int_low :: 'a::len word) = - half TYPE('a)" "sint (int_high :: 'a word) = half TYPE('a) - 1"
  using sint_fits [of "- half TYPE('a)", where 'a = 'a] sint_fits [of "half TYPE('a) - 1", where 'a = 'a]
  by (simp_all add: int_low_def int_high_def half_def)

lemma word_sum: "(a :: 'a::len word) + b = word_of_int (sint a + sint b)"
  "a - b = word_of_int (sint a - sint b)" "a * b = word_of_int (sint a * sint b)"
  by (simp_all add: wi_hom_add [symmetric] wi_hom_sub [symmetric] wi_hom_mult [symmetric])

lemma sint_xor_sign: "sint (x XOR y :: 'a::len word) \<ge> 0 \<longleftrightarrow> (sint x \<ge> 0) = (sint y \<ge> 0)"
proof -
  have "bit z (LENGTH('a) - Suc 0) \<longleftrightarrow> sint z < 0" for z :: "'a word" by (rule bit_last_iff)
  moreover have "bit (x XOR y) (LENGTH('a) - Suc 0) \<longleftrightarrow> bit x (LENGTH('a) - Suc 0) \<noteq> bit y (LENGTH('a) - Suc 0)"
    by (simp add: bit_xor_iff)
  ultimately show ?thesis by (metis linorder_not_less)
qed

lemma sint_not_sign: "sint (NOT y :: 'a::len word) \<ge> 0 \<longleftrightarrow> sint y < 0"
proof -
  have "bit (NOT y) (LENGTH('a) - Suc 0) \<longleftrightarrow> \<not> bit y (LENGTH('a) - Suc 0)"
    by (simp add: bit_not_iff)
  then show ?thesis using bit_last_iff [of y] bit_last_iff [of "NOT y"] by (metis linorder_not_less)
qed

text \<open>The sign test of the fallbacks is the overflow test.\<close>

lemma add_sign_test:
  fixes a b :: "'a::len word"
  shows "(sint ((a + b) XOR a) \<ge> 0 \<or> sint ((a + b) XOR b) \<ge> 0) \<longleftrightarrow>
    - half TYPE('a) \<le> sint a + sint b \<and> sint a + sint b < half TYPE('a)"
proof -
  let ?k = "sint a + sint b"
  note b = sint_bounds [of a] sint_bounds [of b]
  consider "- half TYPE('a) \<le> ?k" "?k < half TYPE('a)" | "?k < - half TYPE('a)" | "half TYPE('a) \<le> ?k" by linarith
  then show ?thesis
  proof cases
    case 1
    have "sint (a + b) = ?k" using sint_fits [OF 1] by (simp only: word_sum)
    then show ?thesis using 1 unfolding sint_xor_sign by auto
  next
    case 2
    then have "sint (a + b) = ?k + 1 * (2 * half TYPE('a))"
      unfolding word_sum using b by (intro sint_wrap) linarith+
    then show ?thesis using 2 b unfolding sint_xor_sign by auto
  next
    case 3
    then have "sint (a + b) = ?k + (-1) * (2 * half TYPE('a))"
      unfolding word_sum using b by (intro sint_wrap) linarith+
    then show ?thesis using 3 b unfolding sint_xor_sign by auto
  qed
qed

lemma sub_sign_test:
  fixes a b :: "'a::len word"
  shows "(sint ((a - b) XOR a) \<ge> 0 \<or> sint ((a - b) XOR NOT b) \<ge> 0) \<longleftrightarrow>
    - half TYPE('a) \<le> sint a - sint b \<and> sint a - sint b < half TYPE('a)"
proof -
  let ?k = "sint a - sint b"
  note b = sint_bounds [of a] sint_bounds [of b]
  consider "- half TYPE('a) \<le> ?k" "?k < half TYPE('a)" | "?k < - half TYPE('a)" | "half TYPE('a) \<le> ?k" by linarith
  then show ?thesis
  proof cases
    case 1
    have "sint (a - b) = ?k" using sint_fits [OF 1] by (simp only: word_sum)
    then show ?thesis using 1 unfolding sint_xor_sign sint_not_sign by auto
  next
    case 2
    then have "sint (a - b) = ?k + 1 * (2 * half TYPE('a))"
      unfolding word_sum using b by (intro sint_wrap) linarith+
    then show ?thesis using 2 b unfolding sint_xor_sign sint_not_sign by auto
  next
    case 3
    then have "sint (a - b) = ?k + (-1) * (2 * half TYPE('a))"
      unfolding word_sum using b by (intro sint_wrap) linarith+
    then show ?thesis using 3 b unfolding sint_xor_sign sint_not_sign by auto
  qed
qed

section \<open>The floating point product\<close>

text \<open>Rounding with a relative error of at most \<open>u\<close>; for \<open>float64\<close> it is \<open>2 ^ -53\<close>.\<close>

definition rounds :: "real \<Rightarrow> (real \<Rightarrow> real) \<Rightarrow> bool" where
  "rounds u rnd \<longleftrightarrow> 0 \<le> u \<and> u \<le> 1 / 1000 \<and> (\<forall>x. \<bar>rnd x - x\<bar> \<le> u * \<bar>x\<bar>)"

lemma rounds_near: "rounds u rnd \<Longrightarrow> \<bar>rnd x - x\<bar> \<le> \<bar>x\<bar> / 1000"
proof -
  assume *: "rounds u rnd"
  then have "\<bar>rnd x - x\<bar> \<le> u * \<bar>x\<bar>" "u * \<bar>x\<bar> \<le> 1 / 1000 * \<bar>x\<bar>"
    unfolding rounds_def by (blast, metis abs_ge_zero mult_right_mono)
  then show ?thesis by simp
qed

lemma product_near:
  fixes p q x y :: real
  assumes "\<bar>p - x\<bar> \<le> \<bar>x\<bar> / 1000" and "\<bar>q - y\<bar> \<le> \<bar>y\<bar> / 1000"
  shows "\<bar>p * q - x * y\<bar> \<le> 3 / 1000 * \<bar>x * y\<bar>"
proof -
  have q: "\<bar>q\<bar> \<le> 1001 / 1000 * \<bar>y\<bar>" using assms(2) by linarith
  have "p * q - x * y = (p - x) * q + x * (q - y)" by (simp add: algebra_simps)
  then have "\<bar>p * q - x * y\<bar> \<le> \<bar>p - x\<bar> * \<bar>q\<bar> + \<bar>x\<bar> * \<bar>q - y\<bar>"
    by (metis abs_mult abs_triangle_ineq)
  also have "\<bar>p - x\<bar> * \<bar>q\<bar> \<le> (\<bar>x\<bar> / 1000) * (1001 / 1000 * \<bar>y\<bar>)"
    by (rule mult_mono [OF assms(1) q]) simp_all
  also have "\<bar>x\<bar> * \<bar>q - y\<bar> \<le> \<bar>x\<bar> * (\<bar>y\<bar> / 1000)"
    by (rule mult_left_mono [OF assms(2)]) simp
  finally have "\<bar>p * q - x * y\<bar> \<le> (1001 / 1000000 + 1 / 1000) * (\<bar>x\<bar> * \<bar>y\<bar>)"
    by (simp add: algebra_simps)
  also have "\<dots> \<le> 3 / 1000 * (\<bar>x\<bar> * \<bar>y\<bar>)" by (rule mult_right_mono) simp_all
  finally show ?thesis by (simp add: abs_mult)
qed

lemma float_prod_near:
  fixes a b :: "'a::len word"
  assumes "rounds u rnd"
  shows "\<bar>float_prod rnd a b - of_int (sint a * sint b)\<bar> \<le> 1 / 200 * \<bar>of_int (sint a * sint b)\<bar>"
proof -
  note near = rounds_near [OF assms]
  let ?P = "of_int (sint a * sint b) :: real" and ?m = "to_float rnd a * to_float rnd b"
  have m: "\<bar>?m - ?P\<bar> \<le> 3 / 1000 * \<bar>?P\<bar>"
    using product_near [OF near near, of "of_int (sint a)" "of_int (sint b)"]
    by (simp add: to_float_def)
  moreover have "\<bar>float_prod rnd a b - ?m\<bar> \<le> \<bar>?m\<bar> / 1000" unfolding float_prod_def by (rule near)
  ultimately show ?thesis by linarith
qed

text \<open>With \<open>P\<close> the exact product, \<open>R\<close> the wrapped one, \<open>x\<close> and \<open>p\<close> their floating point versions and \<open>d\<close> the
  rounded difference.\<close>

lemma near_close:
  fixes x p d P :: real
  assumes "\<bar>x - P\<bar> \<le> \<bar>P\<bar> / 1000" and "\<bar>p - P\<bar> \<le> 1 / 200 * \<bar>P\<bar>" and "\<bar>d - (x - p)\<bar> \<le> \<bar>x - p\<bar> / 1000"
  shows "32 * \<bar>d\<bar> \<le> \<bar>p\<bar>"
proof -
  define e where "e = \<bar>x - p\<bar>"
  define f where "f = \<bar>d - (x - p)\<bar>"
  have "e \<le> 6 / 1000 * \<bar>P\<bar>" "995 / 1000 * \<bar>P\<bar> \<le> \<bar>p\<bar>" unfolding e_def using assms(1,2) by linarith+
  moreover have "\<bar>d\<bar> \<le> f + e" unfolding e_def f_def by linarith
  moreover have "f \<le> e / 1000" using assms(3) by (simp only: e_def f_def)
  ultimately show ?thesis by linarith
qed

lemma near_far:
  fixes x p d P :: real
  assumes "\<bar>P\<bar> / 2 \<le> \<bar>x - p\<bar>" and "0 < \<bar>P\<bar>" and "\<bar>p - P\<bar> \<le> 1 / 200 * \<bar>P\<bar>"
    and "\<bar>d - (x - p)\<bar> \<le> \<bar>x - p\<bar> / 1000"
  shows "\<not> 32 * \<bar>d\<bar> \<le> \<bar>p\<bar>" and "x \<noteq> p"
proof -
  define e where "e = \<bar>x - p\<bar>"
  define f where "f = \<bar>d - (x - p)\<bar>"
  have "\<bar>P\<bar> / 2 \<le> e" "\<bar>p\<bar> \<le> 201 / 200 * \<bar>P\<bar>" unfolding e_def using assms(1,3) by linarith+
  moreover have "e - f \<le> \<bar>d\<bar>" unfolding e_def f_def by linarith
  moreover have "f \<le> e / 1000" using assms(4) by (simp only: e_def f_def)
  ultimately show "\<not> 32 * \<bar>d\<bar> \<le> \<bar>p\<bar>" using assms(2) by linarith
  show "x \<noteq> p" using assms(1,2) by auto
qed

lemma close_enough_product:
  fixes a b :: "'a::len word"
  assumes "rounds u rnd" and "\<not> fst (nimMulInt a b)"
  shows "close_enough rnd (to_float rnd (a * b)) (float_prod rnd a b)"
proof -
  note near = rounds_near [OF assms(1)]
  let ?k = "sint a * sint b"
  let ?P = "of_int ?k :: real" and ?p = "float_prod rnd a b" and ?x = "to_float rnd (a * b)"
  have "sint (a * b) = ?k"
    using assms(2) sint_fits [of ?k, where 'a = 'a] unfolding nimMulInt_def overflow_iff word_sum by auto
  then have "\<bar>?x - ?P\<bar> \<le> \<bar>?P\<bar> / 1000" using near [of ?P] by (simp add: to_float_def)
  moreover have "\<bar>rnd (?x - ?p) - (?x - ?p)\<bar> \<le> \<bar>?x - ?p\<bar> / 1000" by (rule near)
  ultimately show ?thesis
    unfolding close_enough_def using float_prod_near [OF assms(1), of a b] near_close by blast
qed

lemma far_from_product:
  fixes a b :: "'a::len word"
  assumes "rounds u rnd" and "fst (nimMulInt a b)"
  shows "\<not> close_enough rnd (to_float rnd (a * b)) (float_prod rnd a b)"
    and "to_float rnd (a * b) \<noteq> float_prod rnd a b"
    and "(float_prod rnd a b \<ge> 0) = (sint a * sint b \<ge> 0)"
proof -
  note near = rounds_near [OF assms(1)]
  let ?k = "sint a * sint b" and ?h = "half TYPE('a)"
  let ?P = "of_int ?k :: real" and ?p = "float_prod rnd a b" and ?x = "to_float rnd (a * b)"
  let ?r = "sint (a * b)" and ?R = "of_int (sint (a * b)) :: real"
  have out: "?k < - ?h \<or> ?h \<le> ?k" using assms(2) unfolding nimMulInt_def overflow_iff .
  have r: "- ?h \<le> ?r" "?r < ?h" by (rule sint_bounds)+
  define d where "d = (?k + ?h) div (2 * ?h)"
  have "?r = ?k - d * (2 * ?h)"
    unfolding word_sum(3) sint_word_of_int_half d_def by (simp add: minus_div_mult_eq_mod [symmetric])
  moreover from this have "d \<noteq> 0" using out r by auto
  then have "1 \<le> \<bar>d\<bar>" by linarith
  then have "1 * (2 * ?h) \<le> \<bar>d\<bar> * (2 * ?h)" by (rule mult_right_mono) (simp add: less_imp_le)
  moreover have "\<bar>d * (2 * ?h)\<bar> = \<bar>d\<bar> * (2 * ?h)" by (simp add: abs_mult abs_of_pos)
  ultimately have gap: "2 * ?h \<le> \<bar>?r - ?k\<bar>" by linarith
  define H where "H = real_of_int ?h"
  have H: "2 * H \<le> \<bar>?R - ?P\<bar>" "- H \<le> ?R" "?R \<le> H" "1 \<le> H"
  proof -
    have "real_of_int (2 * ?h) \<le> real_of_int \<bar>?r - ?k\<bar>" using gap by (simp only: of_int_le_iff)
    then show "2 * H \<le> \<bar>?R - ?P\<bar>" by (simp add: H_def)
    have "real_of_int (- ?h) \<le> ?R" "?R \<le> real_of_int ?h" using r by (simp_all only: of_int_le_iff less_imp_le)
    then show "- H \<le> ?R" "?R \<le> H" by (simp_all add: H_def)
    have "real_of_int 1 \<le> real_of_int ?h" by (simp only: of_int_le_iff half_pos)
    then show "1 \<le> H" by (simp add: H_def)
  qed
  have x: "\<bar>?x - ?R\<bar> \<le> \<bar>?R\<bar> / 1000" unfolding to_float_def by (rule near)
  note p = float_prod_near [OF assms(1), of a b]
  have e: "\<bar>rnd (?x - ?p) - (?x - ?p)\<bar> \<le> \<bar>?x - ?p\<bar> / 1000" by (rule near)
  have diff: "\<bar>?P\<bar> / 2 \<le> \<bar>?x - ?p\<bar>" "0 < \<bar>?P\<bar>" using H x p by linarith+
  then show "\<not> close_enough rnd ?x ?p" "?x \<noteq> ?p"
    using near_far [OF diff p e] unfolding close_enough_def by simp_all
  have "?P \<ge> 0 \<longleftrightarrow> ?k \<ge> 0" by (rule of_int_0_le_iff)
  then show "(?p \<ge> 0) = (?k \<ge> 0)" using p diff(2) by linarith
qed

section \<open>Properties\<close>

text \<open>The portable checked addition and subtraction agree with the compiler's builtins on every pair of
  operands: the flag is the same, it is set exactly when the exact result is out of range, and
  without overflow the result stored is the exact one.\<close>

theorem add_sub_fallback_equiv:
  fixes a b old :: "'a::len word"
  shows "fst (addImplFallback a b old) = fst (nimAddInt a b) \<and> fst (subImplFallback a b old) = fst (nimSubInt a b) \<and>
    (if fst (nimAddInt a b) then snd (addImplFallback a b old) = old
     else addImplFallback a b old = nimAddInt a b \<and> sint (snd (nimAddInt a b)) = sint a + sint b) \<and>
    (if fst (nimSubInt a b) then snd (subImplFallback a b old) = old
     else subImplFallback a b old = nimSubInt a b \<and> sint (snd (nimSubInt a b)) = sint a - sint b)"
proof -
  have add: "fst (addImplFallback a b old) = fst (nimAddInt a b)"
    unfolding addImplFallback_def nimAddInt_def overflow_iff add_sign_test Let_def by auto
  have sub: "fst (subImplFallback a b old) = fst (nimSubInt a b)"
    unfolding subImplFallback_def nimSubInt_def overflow_iff sub_sign_test Let_def by auto
  show ?thesis
  proof (intro conjI add sub)
    show "if fst (nimAddInt a b) then snd (addImplFallback a b old) = old
      else addImplFallback a b old = nimAddInt a b \<and> sint (snd (nimAddInt a b)) = sint a + sint b"
      using add builtin_exact [of "sint a + sint b", where 'a = 'a]
      by (auto simp: addImplFallback_def nimAddInt_def Let_def split: if_splits)
    show "if fst (nimSubInt a b) then snd (subImplFallback a b old) = old
      else subImplFallback a b old = nimSubInt a b \<and> sint (snd (nimSubInt a b)) = sint a - sint b"
      using sub builtin_exact [of "sint a - sint b", where 'a = 'a]
      by (auto simp: subImplFallback_def nimSubInt_def Let_def split: if_splits)
  qed
qed

text \<open>C23. The portable checked multiplication, which decides by comparing the wrapped product with the floating
  point product, agrees with the builtin on every pair of operands, for any rounding with a relative
  error of at most one in a thousand.\<close>

theorem mul_fallback_equiv:
  fixes a b old :: "'a::len word"
  assumes "rounds u rnd"
  shows "mulImplFallback rnd a b old =
    (if fst (nimMulInt a b) then (True, old) else (False, word_of_int (sint a * sint b)))"
  using close_enough_product [OF assms, of a b] far_from_product(1,2) [OF assms, of a b]
  by (auto simp: mulImplFallback_def Let_def)

theorem mul_fallback_equiv_witness:
  "mulImplFallback id (5 :: 64 word) 7 0 = (False, 35) \<and> mulImplFallback id (2 ^ 62 :: 64 word) 2 1 = (True, 1)"
proof -
  have "rounds 0 id" by (simp add: rounds_def)
  from mul_fallback_equiv [OF this, of "5 :: 64 word" 7 0] mul_fallback_equiv [OF this, of "2 ^ 62 :: 64 word" 2 1]
  show ?thesis by (simp add: nimMulInt_def builtin_overflow_def Let_def)
qed

definition clamp :: "'a::len itself \<Rightarrow> int \<Rightarrow> int" where
  "clamp T k = max (- half T) (min (half T - 1) k)"

text \<open>Saturated addition, subtraction and multiplication return the exact result clamped to the range of
  the type.\<close>

theorem saturated_is_clamped:
  fixes a b :: "'a::len word"
  assumes "rounds u rnd"
  shows "sint (sat_add a b) = clamp TYPE('a) (sint a + sint b) \<and>
    sint (sat_sub a b) = clamp TYPE('a) (sint a - sint b) \<and>
    sint (sat_mul rnd a b) = clamp TYPE('a) (sint a * sint b)"
proof (intro conjI)
  note b = sint_bounds [of a] sint_bounds [of b] sint_low_high [where 'a = 'a]
  have in_range: "clamp TYPE('a) k = k" if "- half TYPE('a) \<le> k" "k < half TYPE('a)" for k
    using that by (simp add: clamp_def)
  show "sint (sat_add a b) = clamp TYPE('a) (sint a + sint b)"
  proof (cases "- half TYPE('a) \<le> sint a + sint b \<and> sint a + sint b < half TYPE('a)")
    case True
    then have "sat_add a b = word_of_int (sint a + sint b)"
      using add_sign_test [of a b] by (simp only: sat_add_def Let_def word_sum(1)) simp
    then show ?thesis using True sint_fits [of "sint a + sint b", where 'a = 'a] in_range by simp
  next
    case False
    then have "sat_add a b = (if sint a < 0 \<or> sint b < 0 then int_low else int_high)"
      using add_sign_test [of a b] by (simp only: sat_add_def Let_def) simp
    then show ?thesis using False b by (auto simp: clamp_def)
  qed
  show "sint (sat_sub a b) = clamp TYPE('a) (sint a - sint b)"
  proof (cases "- half TYPE('a) \<le> sint a - sint b \<and> sint a - sint b < half TYPE('a)")
    case True
    then have "sat_sub a b = word_of_int (sint a - sint b)"
      using sub_sign_test [of a b] by (simp only: sat_sub_def Let_def word_sum(2)) simp
    then show ?thesis using True sint_fits [of "sint a - sint b", where 'a = 'a] in_range by simp
  next
    case False
    then have "sat_sub a b = (if sint b > 0 then int_low else int_high)"
      using sub_sign_test [of a b] by (simp only: sat_sub_def Let_def) simp
    then show ?thesis using False b by (auto simp: clamp_def)
  qed
  show "sint (sat_mul rnd a b) = clamp TYPE('a) (sint a * sint b)"
  proof (cases "fst (nimMulInt a b)")
    case False
    then have r: "- half TYPE('a) \<le> sint a * sint b" "sint a * sint b < half TYPE('a)"
      unfolding nimMulInt_def overflow_iff by auto
    have "sat_mul rnd a b = a * b"
      using close_enough_product [OF assms False] by (simp add: sat_mul_def Let_def)
    then show ?thesis using sint_fits [OF r] in_range [OF r] by (simp only: word_sum(3))
  next
    case True
    then have "sat_mul rnd a b = (if sint a * sint b \<ge> 0 then int_high else int_low)"
      using far_from_product [OF assms True] by (simp add: sat_mul_def Let_def)
    moreover have "sint a * sint b < - half TYPE('a) \<or> half TYPE('a) \<le> sint a * sint b"
      using True unfolding nimMulInt_def overflow_iff .
    ultimately show ?thesis using b by (auto simp: clamp_def)
  qed
qed

theorem saturated_is_clamped_witness:
  "sint (sat_add (100 :: 8 word) 100) = 127 \<and> sint (sat_mul id (100 :: 8 word) (-2)) = -128"
proof -
  have "rounds 0 id" by (simp add: rounds_def)
  from saturated_is_clamped [OF this, of "100 :: 8 word" 100] saturated_is_clamped [OF this, of "100 :: 8 word" "-2"]
  show ?thesis by (simp add: clamp_def half_def)
qed

lemma sint_0_iff: "sint (b :: 'a::len word) = 0 \<longleftrightarrow> b = 0"
  by (metis sint_0 signed_word_eqI)

lemma smod_small: "l \<noteq> 0 \<Longrightarrow> \<bar>k smod l\<bar> < \<bar>l :: int\<bar>"
  by (auto simp: signed_modulo_int_def signed_divide_int_def minus_mult_div_eq_mod abs_mult sgn_if
      intro: order_le_less_trans)

text \<open>The smallest integer divided by -1: the checked division reports the overflow and stores nothing, and
  otherwise, for a divisor that is not 0, stores the quotient rounded towards 0; the remainder, which the
  macro passes on to C unchecked, is undefined there, although the exact remainder is 0; and the
  saturated absolute value of the smallest integer is negative.\<close>

theorem smallest_by_minus_one:
  fixes a b old :: "'a::len word"
  shows "divImplFallback int_low (-1) old = Some (True, old) \<and>
    (b \<noteq> 0 \<and> \<not> (a = int_low \<and> b = -1) \<longrightarrow>
       (\<exists>q r. divImplFallback a b old = Some (False, word_of_int q) \<and> nimModInt a b = Some (False, word_of_int r) \<and>
          sint a = q * sint b + r \<and> \<bar>r\<bar> < \<bar>sint b\<bar>)) \<and>
    nimModInt (int_low :: 'a word) (-1) = None \<and> sint (sat_abs (int_low :: 'a word)) < 0"
proof (intro conjI impI)
  assume b: "b \<noteq> 0 \<and> \<not> (a = int_low \<and> b = -1)"
  then have "sint b \<noteq> 0" by (simp add: sint_0_iff)
  moreover have "sint a = (sint a sdiv sint b) * sint b + (sint a smod sint b)"
    by (rule sdiv_mult_smod_eq [symmetric])
  moreover have "\<bar>sint a smod sint b\<bar> < \<bar>sint b\<bar>" by (rule smod_small) fact
  ultimately show "\<exists>q r. divImplFallback a b old = Some (False, word_of_int q) \<and>
      nimModInt a b = Some (False, word_of_int r) \<and> sint a = q * sint b + r \<and> \<bar>r\<bar> < \<bar>sint b\<bar>"
    using b by (auto simp: divImplFallback_def nimModInt_def)
qed (simp_all add: divImplFallback_def nimModInt_def sat_abs_def sint_low_high)

theorem smallest_by_minus_one_witness:
  "divImplFallback (-7 :: 8 word) 2 0 = Some (False, -3) \<and> nimModInt (-7 :: 8 word) 2 = Some (False, -1)"
  using smallest_by_minus_one [where a = "-7 :: 8 word" and b = 2 and old = 0]
  by (simp add: divImplFallback_def nimModInt_def int_low_def signed_divide_int_def signed_modulo_int_def)

lemma sdiv_fits:
  fixes a b :: "'a::len word"
  assumes "sint b \<noteq> 0" and "\<not> (a = int_low \<and> b = -1)"
  shows "- half TYPE('a) \<le> sint a sdiv sint b" and "sint a sdiv sint b < half TYPE('a)"
proof -
  let ?q = "\<bar>sint a\<bar> div \<bar>sint b\<bar>"
  have q: "sint a sdiv sint b = sgn (sint a) * sgn (sint b) * ?q" by (simp add: signed_divide_int_def)
  have le: "?q \<le> \<bar>sint a\<bar>" using zdiv_mono2 [of "\<bar>sint a\<bar>" 1 "\<bar>sint b\<bar>"] assms(1) by simp
  have "\<bar>sgn (sint a) * sgn (sint b) * x\<bar> \<le> x" if "0 \<le> x" for x :: int
    using that by (simp add: sgn_if)
  then have bound: "\<bar>sint a sdiv sint b\<bar> \<le> ?q"
    unfolding q by (simp add: pos_imp_zdiv_nonneg_iff assms(1) del: abs_mult)
  have abs: "\<bar>sint a\<bar> \<le> half TYPE('a)" using sint_bounds [of a] by auto
  show "- half TYPE('a) \<le> sint a sdiv sint b" using bound le abs by linarith
  show "sint a sdiv sint b < half TYPE('a)"
  proof (rule ccontr)
    assume "\<not> ?thesis"
    then have eq: "?q = half TYPE('a)" "\<bar>sint a\<bar> = half TYPE('a)" "sint a sdiv sint b = half TYPE('a)"
      using bound le abs by linarith+
    then have a: "sint a = - half TYPE('a)" using sint_bounds [of a] by linarith
    have "\<bar>sint b\<bar> = 1"
    proof (rule ccontr)
      assume "\<bar>sint b\<bar> \<noteq> 1"
      then have "1 < \<bar>sint b\<bar>" using assms(1) by linarith
      then have "\<bar>sint a\<bar> div \<bar>sint b\<bar> < \<bar>sint a\<bar>" using eq(2) by (intro int_div_less_self) simp_all
      then show False using eq by linarith
    qed
    moreover have "sint b \<noteq> 1"
    proof
      assume "sint b = 1"
      then have "sint a sdiv sint b = sint a" by (simp add: signed_divide_int_def sgn_mult_abs)
      then show False using eq(3) a half_pos(2) [where 'a = 'a] by linarith
    qed
    ultimately have "sint b = sint (-1 :: 'a word)" by auto
    moreover have "sint a = sint (int_low :: 'a word)" using a sint_low_high [where 'a = 'a] by simp
    ultimately show False using assms(2) signed_word_eqI by blast
  qed
qed

text \<open>Saturated division and remainder, for every divisor but 0 and the one overflow: the quotient times
  the divisor plus the remainder is the dividend, and the remainder is smaller than the divisor.  A divisor
  of 0 counts as 1 in the quotient and leaves the dividend in the remainder, and the overflowing quotient is
  the largest integer.\<close>

theorem saturated_div_mod:
  fixes a b :: "'a::len word"
  shows "(b \<noteq> 0 \<and> \<not> (a = int_low \<and> b = -1) \<longrightarrow>
      (\<exists>r. sat_mod a b = Some r \<and> sint a = sint (sat_div a b) * sint b + sint r \<and> \<bar>sint r\<bar> < \<bar>sint b\<bar>)) \<and>
    sat_div a 0 = a \<and> sat_mod a 0 = Some a \<and> sat_div (int_low :: 'a word) (-1) = int_high"
proof (intro conjI impI)
  assume b: "b \<noteq> 0 \<and> \<not> (a = int_low \<and> b = -1)"
  then have nz: "sint b \<noteq> 0" by (simp add: sint_0_iff)
  note q = sint_fits [OF sdiv_fits [OF nz, of a]]
  note r = smod_small [OF nz, of "sint a"]
  have "sint (word_of_int (sint a smod sint b) :: 'a word) = sint a smod sint b"
    using r sint_bounds [of b] by (intro sint_fits) linarith+
  then show "\<exists>r. sat_mod a b = Some r \<and> sint a = sint (sat_div a b) * sint b + sint r \<and> \<bar>sint r\<bar> < \<bar>sint b\<bar>"
    using b q r by (auto simp: sat_mod_def sat_div_def nimModInt_def sdiv_mult_smod_eq)
qed (simp_all add: sat_div_def sat_mod_def)

theorem saturated_div_mod_witness:
  "\<exists>r. sat_mod (-7 :: 8 word) 2 = Some r \<and> -7 = sint (sat_div (-7 :: 8 word) 2) * 2 + sint r \<and> \<bar>sint r\<bar> < 2"
  using saturated_div_mod [where a = "-7 :: 8 word" and b = 2] by (simp add: int_low_def)

end
