(* ===== verification/Genode_Locks.thy ===== *)
theory Genode_Locks
  imports Main
begin

text \<open>
  The locks and condition variables of the Genode port (\<open>struct SysLock\<close> and \<open>struct SysCond\<close> of
  \<open>lib/genode_cpp/syslocks.h\<close>): each method is the list of the blocking and state-changing steps of its
  body, any number of threads run them interleaved.  The mutex and the semaphore are those of the
  Genode framework, which is not part of the repository: they are a parameter, a record of operations,
  and what the code relies on is the hypothesis \<open>genode_ok\<close>.  The invariant says what
  the flag and the two mutexes mean; the theorems say what the lock guarantees, and that a thread
  that waits for a held lock makes its release impossible.
\<close>

section \<open>Threads and their steps\<close>

text \<open>\<open>LockA\<close> and \<open>UnlockA\<close> are the construction and the destruction of the guard of \<open>_mutex_a\<close>.
  \<open>TestLocked c\<close> is \<open>if (_locked) c\<close> where \<open>c\<close> ends with a return.\<close>

datatype instr = LockA | UnlockA | LockB | UnlockB | SetLocked bool | TestLocked "instr list"
  | Return bool | Down | Up

definition acquireSys :: "instr list" where
  "acquireSys = [LockA, SetLocked True, LockB, UnlockA]"

definition tryAcquireSys :: "instr list" where
  "tryAcquireSys =
     [TestLocked [Return False], LockA, TestLocked [UnlockA, Return False],
      SetLocked True, LockB, UnlockA, Return True]"

definition releaseSys :: "instr list" where
  "releaseSys = [LockA, SetLocked False, UnlockB, UnlockA]"

definition waitSysCond :: "instr list" where
  "waitSysCond = releaseSys @ [Down] @ acquireSys"

definition signalSysCond :: "instr list" where
  "signalSysCond = [Up]"

definition broadcastSysCond :: "instr list" where
  "broadcastSysCond = [Up]"

text \<open>\<open>Genode::Mutex\<close> and \<open>Genode::Semaphore\<close>, with what can be observed of them; \<open>None\<close> is a call
  that waits.\<close>

record ('m, 'q) genode =
  new_mutex :: 'm
  holder :: "'m \<Rightarrow> nat option"
  acquire :: "nat \<Rightarrow> 'm \<Rightarrow> 'm option"
  release :: "nat \<Rightarrow> 'm \<Rightarrow> 'm"
  new_semaphore :: 'q
  count :: "'q \<Rightarrow> nat"
  down :: "'q \<Rightarrow> 'q option"
  up :: "'q \<Rightarrow> 'q"

text \<open>The documented behaviour: \<open>acquire\<close> waits until nobody holds the mutex and makes the caller the
  holder, \<open>release\<close> by the holder frees it, \<open>down\<close> waits until the counter is positive.\<close>

definition genode_ok :: "('m, 'q) genode \<Rightarrow> bool" where
  "genode_ok G \<longleftrightarrow>
     holder G (new_mutex G) = None \<and>
     (\<forall>t m. holder G m = None \<longrightarrow> acquire G t m \<noteq> None) \<and>
     (\<forall>t m m'. acquire G t m = Some m' \<longrightarrow> holder G m = None \<and> holder G m' = Some t) \<and>
     (\<forall>t m. holder G m = Some t \<longrightarrow> holder G (release G t m) = None) \<and>
     count G (new_semaphore G) = 0 \<and>
     (\<forall>q. count G q > 0 \<longrightarrow> down G q \<noteq> None) \<and>
     (\<forall>q q'. down G q = Some q' \<longrightarrow> count G q = Suc (count G q')) \<and>
     (\<forall>q. count G (up G q) = Suc (count G q))"

lemma acquire_law: "genode_ok G \<Longrightarrow> acquire G t m = Some m' \<Longrightarrow> holder G m = None \<and> holder G m' = Some t"
  by (simp add: genode_ok_def)

lemma acquire_free: "genode_ok G \<Longrightarrow> holder G m = None \<Longrightarrow> \<exists>m'. acquire G t m = Some m'"
  by (simp add: genode_ok_def)

lemma acquire_held: "genode_ok G \<Longrightarrow> holder G m = Some u \<Longrightarrow> acquire G t m = None"
  by (cases "acquire G t m") (auto dest: acquire_law)

lemma release_law: "genode_ok G \<Longrightarrow> holder G m = Some t \<Longrightarrow> holder G (release G t m) = None"
  by (simp add: genode_ok_def)

lemma down_law:
  assumes "genode_ok G"
  shows "count G q > 0 \<Longrightarrow> down G q \<noteq> None" and "down G q = Some q' \<Longrightarrow> count G q = Suc (count G q')"
  using assms by (simp_all add: genode_ok_def)

lemma up_law: "genode_ok G \<Longrightarrow> count G (up G q) = Suc (count G q)"
  by (simp add: genode_ok_def)

text \<open>The plainest implementation: the holder and the counter.\<close>

definition plain_genode :: "(nat option, nat) genode" where
  "plain_genode =
     \<lparr>new_mutex = None, holder = id, acquire = (\<lambda>t m. if m = None then Some (Some t) else None), release = (\<lambda>_ _. None),
      new_semaphore = 0, count = id, down = (\<lambda>q. if q > 0 then Some (q - 1) else None), up = Suc\<rparr>"

lemma plain_genode_ok: "genode_ok plain_genode"
  by (auto simp: genode_ok_def plain_genode_def split: if_splits)

record ('m, 'q) lockst =
  mutex_a :: 'm
  mutex_b :: 'm
  locked :: bool
  semaphore :: 'q
  code :: "nat \<Rightarrow> instr list"
  returned :: "nat \<Rightarrow> bool option"

text \<open>A lock in zeroed storage.  The code gives the flag \<open>_locked\<close> no initial value (\<open>initSysLock\<close> does
  nothing), so elsewhere it may be true at the start.\<close>

definition lock0 :: "('m, 'q) genode \<Rightarrow> ('m, 'q) lockst" where
  "lock0 G = \<lparr>mutex_a = new_mutex G, mutex_b = new_mutex G, locked = False, semaphore = new_semaphore G,
     code = (\<lambda>_. []), returned = (\<lambda>_. None)\<rparr>"

abbreviation holder_a :: "('m, 'q) genode \<Rightarrow> ('m, 'q) lockst \<Rightarrow> nat option" where
  "holder_a G s \<equiv> holder G (mutex_a s)"

abbreviation holder_b :: "('m, 'q) genode \<Rightarrow> ('m, 'q) lockst \<Rightarrow> nat option" where
  "holder_b G s \<equiv> holder G (mutex_b s)"

text \<open>One step of thread \<open>t\<close>; None when it is blocked or has nothing to do.\<close>

definition exec1 :: "('m, 'q) genode \<Rightarrow> nat \<Rightarrow> ('m, 'q) lockst \<Rightarrow> ('m, 'q) lockst option" where
  "exec1 G t s =
     (case code s t of
        [] \<Rightarrow> None
      | i # c \<Rightarrow>
          let s' = s\<lparr>code := (code s)(t := c)\<rparr> in
          (case i of
             LockA \<Rightarrow> map_option (\<lambda>m. s'\<lparr>mutex_a := m\<rparr>) (acquire G t (mutex_a s))
           | UnlockA \<Rightarrow> Some (s'\<lparr>mutex_a := release G t (mutex_a s)\<rparr>)
           | LockB \<Rightarrow> map_option (\<lambda>m. s'\<lparr>mutex_b := m\<rparr>) (acquire G t (mutex_b s))
           | UnlockB \<Rightarrow> Some (s'\<lparr>mutex_b := release G t (mutex_b s)\<rparr>)
           | SetLocked b \<Rightarrow> Some (s'\<lparr>locked := b\<rparr>)
           | TestLocked d \<Rightarrow> if locked s then Some (s\<lparr>code := (code s)(t := d)\<rparr>) else Some s'
           | Return b \<Rightarrow> Some (s'\<lparr>returned := (returned s)(t := Some b)\<rparr>)
           | Down \<Rightarrow> map_option (\<lambda>q. s'\<lparr>semaphore := q\<rparr>) (down G (semaphore s))
           | Up \<Rightarrow> Some (s'\<lparr>semaphore := up G (semaphore s)\<rparr>)))"

definition idle :: "('m, 'q) lockst \<Rightarrow> nat \<Rightarrow> bool" where
  "idle s t \<longleftrightarrow> code s t = []"

definition call :: "instr list \<Rightarrow> nat \<Rightarrow> ('m, 'q) lockst \<Rightarrow> ('m, 'q) lockst" where
  "call c t s = s\<lparr>code := (code s)(t := c), returned := (returned s)(t := None)\<rparr>"

text \<open>What the threads of a program do: a thread acquires a lock it does not hold, and releases it, or
  waits on the condition, only while it holds it.\<close>

inductive lock_step :: "('m, 'q) genode \<Rightarrow> ('m, 'q) lockst \<Rightarrow> ('m, 'q) lockst \<Rightarrow> bool" for G where
  Run: "exec1 G t s = Some s' \<Longrightarrow> lock_step G s s'"
| Acquire: "idle s t \<Longrightarrow> holder_b G s \<noteq> Some t \<Longrightarrow> lock_step G s (call acquireSys t s)"
| TryAcquire: "idle s t \<Longrightarrow> holder_b G s \<noteq> Some t \<Longrightarrow> lock_step G s (call tryAcquireSys t s)"
| Release: "idle s t \<Longrightarrow> holder_b G s = Some t \<Longrightarrow> lock_step G s (call releaseSys t s)"
| Wait: "idle s t \<Longrightarrow> holder_b G s = Some t \<Longrightarrow> lock_step G s (call waitSysCond t s)"
| Signal: "idle s t \<Longrightarrow> lock_step G s (call signalSysCond t s)"
| Broadcast: "idle s t \<Longrightarrow> lock_step G s (call broadcastSysCond t s)"

inductive_cases lock_stepE: "lock_step G s s'"

inductive reachable :: "('m, 'q) genode \<Rightarrow> ('m, 'q) lockst \<Rightarrow> ('m, 'q) lockst \<Rightarrow> bool" for G s0 where
  Start: "reachable G s0 s0"
| Step: "reachable G s0 s \<Longrightarrow> lock_step G s s' \<Longrightarrow> reachable G s0 s'"

text \<open>A schedule of threads.\<close>

fun run_schedule :: "('m, 'q) genode \<Rightarrow> nat list \<Rightarrow> ('m, 'q) lockst \<Rightarrow> ('m, 'q) lockst option" where
  "run_schedule G [] s = Some s"
| "run_schedule G (t # ts) s = (case exec1 G t s of None \<Rightarrow> None | Some s \<Rightarrow> run_schedule G ts s)"

lemma reachable_run_schedule: "reachable G s0 s \<Longrightarrow> run_schedule G ts s = Some s' \<Longrightarrow> reachable G s0 s'"
proof (induction ts arbitrary: s)
  case (Cons t ts)
  then show ?case by (cases "exec1 G t s") (auto dest: reachable.Step [OF _ Run])
qed simp

section \<open>The invariant\<close>

text \<open>Where a thread that does not hold \<open>_mutex_a\<close> can be, \<open>b\<close> being the holder of \<open>_mutex_b\<close>: it holds the
  lock when it is about to release it, and does not when it is about to acquire it.\<close>

definition outside :: "nat option \<Rightarrow> nat \<Rightarrow> instr list \<Rightarrow> bool" where
  "outside b t c \<longleftrightarrow>
     c \<in> {[], [Return False], [Up]} \<or>
     c = [Return True] \<and> b = Some t \<or>
     c \<in> {acquireSys, tryAcquireSys, tl tryAcquireSys, Down # acquireSys} \<and> b \<noteq> Some t \<or>
     c \<in> {releaseSys, waitSysCond} \<and> b = Some t"

text \<open>Where the holder of \<open>_mutex_a\<close> can be, with the value of the flag.\<close>

definition inside :: "bool \<Rightarrow> nat option \<Rightarrow> nat \<Rightarrow> instr list \<Rightarrow> bool" where
  "inside f b t c \<longleftrightarrow>
     c \<in> {tl acquireSys, drop 2 tryAcquireSys} \<and> f = (b \<noteq> None) \<and> b \<noteq> Some t \<or>
     c = [LockB, UnlockA] \<and> f \<and> b \<noteq> Some t \<or>
     c = [UnlockA] \<and> f = (b \<noteq> None) \<or>
     c = [UnlockA, Return False] \<and> f \<and> b \<noteq> None \<or>
     c = drop 3 tryAcquireSys \<and> \<not> f \<and> b = None \<or>
     c = drop 4 tryAcquireSys \<and> f \<and> b = None \<or>
     c = [UnlockA, Return True] \<and> f \<and> b = Some t \<or>
     c \<in> {tl releaseSys, tl waitSysCond} \<and> f \<and> b = Some t \<or>
     c \<in> {drop 2 releaseSys, drop 2 waitSysCond} \<and> \<not> f \<and> b = Some t \<or>
     c = drop 3 waitSysCond \<and> \<not> f \<and> b = None"

definition lock_inv :: "('m, 'q) genode \<Rightarrow> ('m, 'q) lockst \<Rightarrow> bool" where
  "lock_inv G s \<longleftrightarrow>
     (\<forall>t. holder_a G s \<noteq> Some t \<longrightarrow> outside (holder_b G s) t (code s t)) \<and>
     (\<forall>t. returned s t = Some True \<longrightarrow> code s t = [] \<and> holder_b G s = Some t) \<and>
     (case holder_a G s of
        None \<Rightarrow> locked s = (holder_b G s \<noteq> None)
      | Some t \<Rightarrow> inside (locked s) (holder_b G s) t (code s t))"

text \<open>A step changes the holder of \<open>_mutex_b\<close> only to or from the thread itself.\<close>

definition b_change :: "nat \<Rightarrow> nat option \<Rightarrow> nat option \<Rightarrow> bool" where
  "b_change t b b' \<longleftrightarrow> b' = b \<or> b = None \<and> b' = Some t \<or> b = Some t \<and> b' = None"

lemma outside_other: "outside b u c \<Longrightarrow> u \<noteq> t \<Longrightarrow> b_change t b b' \<Longrightarrow> outside b' u c"
  unfolding outside_def b_change_def by blast

lemma exec1_others: "exec1 G t s = Some s' \<Longrightarrow> u \<noteq> t \<Longrightarrow> code s' u = code s u"
  by (auto simp: exec1_def Let_def split: list.splits instr.splits if_splits)

text \<open>The bodies and the control points written out.\<close>

lemmas points [simp] = acquireSys_def tryAcquireSys_def releaseSys_def waitSysCond_def signalSysCond_def
  broadcastSysCond_def numeral_2_eq_2 numeral_3_eq_3 numeral_eq_Suc

lemma exec1_others_returned: "exec1 G t s = Some s' \<Longrightarrow> u \<noteq> t \<Longrightarrow> returned s' u = returned s u"
  by (auto simp: exec1_def Let_def split: list.splits instr.splits if_splits)

lemma exec1_busy: "exec1 G t s = Some s' \<Longrightarrow> code s t \<noteq> []"
  by (auto simp: exec1_def)

lemma exec1_outside:
  assumes ok: "genode_ok G" and "exec1 G t s = Some s'" and "outside (holder_b G s) t (code s t)" and "holder_a G s \<noteq> Some t"
    and "holder_a G s = None \<Longrightarrow> locked s = (holder_b G s \<noteq> None)"
  shows "holder_b G s' = holder_b G s \<and> locked s' = locked s \<and>
    (returned s' t = Some True \<longrightarrow> code s' t = [] \<and> holder_b G s' = Some t \<or> returned s t = Some True) \<and>
    (holder_a G s' = holder_a G s \<and> outside (holder_b G s') t (code s' t) \<or>
     holder_a G s = None \<and> holder_a G s' = Some t \<and> inside (locked s') (holder_b G s') t (code s' t))"
  using assms
  unfolding outside_def [of "holder_b G s"] insert_iff empty_iff
  apply (elim disjE conjE)
  apply (simp_all add: exec1_def Let_def split: if_splits)
  apply ((elim exE conjE)?; (drule acquire_law [OF ok], elim conjE)?; hypsubst?; simp add: outside_def inside_def)+
  done

lemma exec1_inside:
  assumes ok: "genode_ok G" and "exec1 G t s = Some s'" and "inside (locked s) (holder_b G s) t (code s t)" and "holder_a G s = Some t"
  shows "b_change t (holder_b G s) (holder_b G s') \<and> returned s' t = returned s t \<and>
    (holder_a G s' = Some t \<and> inside (locked s') (holder_b G s') t (code s' t) \<or>
     holder_a G s' = None \<and> locked s' = (holder_b G s' \<noteq> None) \<and> outside (holder_b G s') t (code s' t))"
  using assms
  unfolding inside_def [of "locked s"] insert_iff empty_iff
  apply (elim disjE conjE)
  apply (simp_all add: exec1_def Let_def split: if_splits)
  apply ((elim exE conjE)?; (drule acquire_law [OF ok], elim conjE)?; hypsubst?; simp add: release_law [OF ok] outside_def inside_def b_change_def)+
  done

lemma returned_exec1:
  assumes "exec1 G t s = Some s'" and "\<forall>u. returned s u = Some True \<longrightarrow> code s u = [] \<and> holder_b G s = Some u"
    and "b_change t (holder_b G s) (holder_b G s')"
    and "returned s' t = Some True \<longrightarrow> code s' t = [] \<and> holder_b G s' = Some t \<or> returned s t = Some True"
  shows "returned s' u = Some True \<longrightarrow> code s' u = [] \<and> holder_b G s' = Some u"
proof (cases "u = t")
  case True
  then show ?thesis using assms(2,4) exec1_busy [OF assms(1)] by auto
next
  case False
  then show ?thesis
    using assms(2,3) exec1_others [OF assms(1) False] exec1_others_returned [OF assms(1) False]
    by (auto simp: b_change_def)
qed

lemma lock_inv_exec1:
  assumes ok: "genode_ok G" and A: "lock_inv G s" "exec1 G t s = Some s'"
  shows "lock_inv G s'"
proof (cases "holder_a G s = Some t")
  case True
  then have "inside (locked s) (holder_b G s) t (code s t)" using A(1) by (simp add: lock_inv_def)
  note * = exec1_inside [OF ok A(2) this True]
  then have b: "b_change t (holder_b G s) (holder_b G s')" by blast
  have "outside (holder_b G s') u (code s' u)" if "u \<noteq> t" for u
    using that A(1) True outside_other [OF _ that b] exec1_others [OF A(2) that] by (simp add: lock_inv_def)
  moreover have "returned s' u = Some True \<longrightarrow> code s' u = [] \<and> holder_b G s' = Some u" for u
    using returned_exec1 [OF A(2) _ b] A(1) * by (simp add: lock_inv_def)
  ultimately have rest: "\<forall>u. u \<noteq> t \<longrightarrow> outside (holder_b G s') u (code s' u)"
    "\<forall>u. returned s' u = Some True \<longrightarrow> code s' u = [] \<and> holder_b G s' = Some u" by blast+
  have "holder_a G s' = Some t \<and> inside (locked s') (holder_b G s') t (code s' t) \<or>
     holder_a G s' = None \<and> locked s' = (holder_b G s' \<noteq> None) \<and> outside (holder_b G s') t (code s' t)"
    using * by blast
  then show ?thesis
  proof (elim disjE conjE)
    assume "holder_a G s' = Some t" "inside (locked s') (holder_b G s') t (code s' t)"
    then show ?thesis using rest by (simp add: lock_inv_def)
  next
    assume a: "holder_a G s' = None" "locked s' = (holder_b G s' \<noteq> None)" and "outside (holder_b G s') t (code s' t)"
    then have "outside (holder_b G s') u (code s' u)" for u using rest(1) by (cases "u = t") simp_all
    then show ?thesis using rest(2) a by (simp add: lock_inv_def)
  qed
next
  case False
  then have out: "outside (holder_b G s) t (code s t)" "holder_a G s = None \<Longrightarrow> locked s = (holder_b G s \<noteq> None)"
    using A(1) by (auto simp: lock_inv_def)
  note * = exec1_outside [OF ok A(2) out(1) False out(2)]
  then have same: "holder_b G s' = holder_b G s" "locked s' = locked s" by blast+
  have others: "outside (holder_b G s') u (code s' u)" if "u \<noteq> t" "holder_a G s \<noteq> Some u" for u
    using that A(1) same exec1_others [OF A(2) that(1)] by (simp add: lock_inv_def)
  have ret: "returned s' u = Some True \<longrightarrow> code s' u = [] \<and> holder_b G s' = Some u" for u
  proof (rule returned_exec1 [OF A(2)])
    show "\<forall>u. returned s u = Some True \<longrightarrow> code s u = [] \<and> holder_b G s = Some u"
      using A(1) by (simp add: lock_inv_def)
    show "b_change t (holder_b G s) (holder_b G s')" using same by (simp add: b_change_def)
    show "returned s' t = Some True \<longrightarrow> code s' t = [] \<and> holder_b G s' = Some t \<or> returned s t = Some True"
      using * by blast
  qed
  have "holder_a G s' = holder_a G s \<and> outside (holder_b G s') t (code s' t) \<or>
    holder_a G s = None \<and> holder_a G s' = Some t \<and> inside (locked s') (holder_b G s') t (code s' t)"
    using * by blast
  then show ?thesis
  proof (elim disjE conjE)
    assume a: "holder_a G s' = holder_a G s" and "outside (holder_b G s') t (code s' t)"
    have "inside (locked s') (holder_b G s') u (code s' u)" if "holder_a G s = Some u" for u
      using that False A(1) same exec1_others [OF A(2), of u] by (auto simp: lock_inv_def)
    moreover have "outside (holder_b G s') u (code s' u)" if "holder_a G s \<noteq> Some u" for u
      using that others \<open>outside (holder_b G s') t (code s' t)\<close> by (cases "u = t") auto
    ultimately show ?thesis
      using ret out(2) same a by (simp add: lock_inv_def split: option.splits)
  next
    assume "holder_a G s = None" "holder_a G s' = Some t" "inside (locked s') (holder_b G s') t (code s' t)"
    then show ?thesis using others ret by (simp add: lock_inv_def)
  qed
qed

lemma lock_inv_call:
  assumes "lock_inv G s" and "idle s t" and "outside (holder_b G s) t c"
  shows "lock_inv G (call c t s)"
proof -
  have "holder_a G s \<noteq> Some t"
    using assms(1,2) by (auto simp: lock_inv_def idle_def inside_def)
  then show ?thesis
    using assms by (auto simp: lock_inv_def call_def split: option.splits)
qed

lemma lock_inv_step:
  assumes ok: "genode_ok G" and inv: "lock_inv G s" and step: "lock_step G s s'"
  shows "lock_inv G s'"
  using step
proof (cases rule: lock_step.cases)
  case (Run t)
  show ?thesis by (rule lock_inv_exec1 [OF ok inv Run])
qed (auto intro: lock_inv_call [OF inv] simp: outside_def)

lemma lock_inv_reachable: "reachable G s0 s \<Longrightarrow> genode_ok G \<Longrightarrow> lock_inv G s0 \<Longrightarrow> lock_inv G s"
  by (induction rule: reachable.induct) (blast intro: lock_inv_step)+

lemma lock_inv_lock0: "genode_ok G \<Longrightarrow> lock_inv G (lock0 G)"
  by (simp add: genode_ok_def lock_inv_def lock0_def outside_def)

section \<open>What the lock guarantees\<close>

lemma lock_inv_init: "genode_ok G \<Longrightarrow> reachable G (lock0 G) s \<Longrightarrow> lock_inv G s"
  by (rule lock_inv_reachable [OF _ _ lock_inv_lock0])

text \<open>C29. In every state that any number of threads can reach from a lock in zeroed storage, whatever their
  interleaving: when no thread is inside a method (\<open>_mutex_a\<close> is free) the flag \<open>_locked\<close> says whether the lock is held;
  a thread whose \<open>tryAcquireSys\<close> has returned true is the holder of the lock; and \<open>tryAcquireSys\<close>
  never waits at its \<open>_mutex_b.acquire()\<close>.\<close>

theorem lock_flag_and_try:
  assumes ok: "genode_ok G" and "reachable G (lock0 G) s"
  shows "(holder_a G s = None \<longrightarrow> locked s = (holder_b G s \<noteq> None)) \<and>
    (returned s t = Some True \<longrightarrow> holder_b G s = Some t) \<and>
    (code s t = drop 4 tryAcquireSys \<longrightarrow> exec1 G t s \<noteq> None)"
proof (intro conjI impI)
  note inv = lock_inv_init [OF assms]
  show "holder_a G s = None \<Longrightarrow> locked s = (holder_b G s \<noteq> None)"
    and "returned s t = Some True \<Longrightarrow> holder_b G s = Some t"
    using inv by (simp_all add: lock_inv_def)
  assume c: "code s t = drop 4 tryAcquireSys"
  then have "holder_a G s = Some t" using inv by (auto simp: lock_inv_def outside_def)
  then have "holder_b G s = None" using inv c by (simp add: lock_inv_def inside_def)
  then show "exec1 G t s \<noteq> None" using c acquire_free [OF ok, of "mutex_b s" t] by (auto simp: exec1_def)
qed

text \<open>A thread that starts a method and runs alone.\<close>

definition run_call :: "('m, 'q) genode \<Rightarrow> instr list \<Rightarrow> nat \<Rightarrow> nat \<Rightarrow> ('m, 'q) lockst \<Rightarrow> ('m, 'q) lockst option" where
  "run_call G c n t s = run_schedule G (replicate n t) (call c t s)"

lemma run_call_reachable:
  "reachable G s0 s \<Longrightarrow> lock_step G s (call c t s) \<Longrightarrow> run_call G c n t s = Some s' \<Longrightarrow> reachable G s0 s'"
  unfolding run_call_def by (rule reachable_run_schedule [OF reachable.Step])

definition one_holder :: "(nat option, nat) lockst" where
  "one_holder = the (run_call plain_genode tryAcquireSys 7 0 (lock0 plain_genode))"

lemmas one_holder_eval = one_holder_def run_call_def lock0_def call_def exec1_def plain_genode_def

lemma reachable_one_holder: "reachable plain_genode (lock0 plain_genode) one_holder"
proof (rule run_call_reachable [OF reachable.Start, where t = 0 and c = tryAcquireSys])
  show "lock_step plain_genode (lock0 plain_genode) (call tryAcquireSys 0 (lock0 plain_genode))"
    by (rule TryAcquire) (simp_all add: idle_def lock0_def plain_genode_def)
  show "run_call plain_genode tryAcquireSys 7 0 (lock0 plain_genode) = Some one_holder"
    by (simp add: one_holder_eval)
qed

theorem lock_flag_and_try_witness:
  "returned one_holder 0 = Some True \<and> holder_b plain_genode one_holder = Some 0"
  using lock_flag_and_try [OF plain_genode_ok reachable_one_holder, of 0] by (simp add: one_holder_eval)

text \<open>Without contention the methods do what their names say: on a free lock \<open>acquireSys\<close> and
  \<open>tryAcquireSys\<close> make the caller the holder and the latter returns true; on a held one
  \<open>tryAcquireSys\<close> touches neither the mutexes nor the flag and returns false; \<open>releaseSys\<close> frees it.
  Each call ends, leaves \<open>_mutex_a\<close> free and every thread's control point as it was.\<close>

theorem uncontended_lock:
  assumes ok: "genode_ok G" and a: "holder_a G s = None" "locked s = (holder_b G s \<noteq> None)" "idle s t"
  shows "(holder_b G s = None \<longrightarrow>
      (\<exists>ma mb. holder G ma = None \<and> holder G mb = Some t \<and>
        run_call G acquireSys 4 t s =
          Some (s\<lparr>mutex_a := ma, mutex_b := mb, locked := True, returned := (returned s)(t := None)\<rparr>) \<and>
        run_call G tryAcquireSys 7 t s =
          Some (s\<lparr>mutex_a := ma, mutex_b := mb, locked := True, returned := (returned s)(t := Some True)\<rparr>))) \<and>
    (holder_b G s \<noteq> None \<longrightarrow> run_call G tryAcquireSys 2 t s = Some (s\<lparr>returned := (returned s)(t := Some False)\<rparr>)) \<and>
    (holder_b G s = Some t \<longrightarrow>
      (\<exists>ma mb. holder G ma = None \<and> holder G mb = None \<and>
        run_call G releaseSys 4 t s =
          Some (s\<lparr>mutex_a := ma, mutex_b := mb, locked := False, returned := (returned s)(t := None)\<rparr>)))"
proof -
  obtain ma where ma: "acquire G t (mutex_a s) = Some ma" using acquire_free [OF ok a(1)] by blast
  then have ra: "holder G (release G t ma) = None" using acquire_law [OF ok ma] by (simp add: release_law [OF ok])
  have same: "(code s)(t := []) = code s" using a(3) by (simp add: idle_def fun_upd_idem)
  note run = run_call_def exec1_def call_def ma
  show ?thesis
  proof (intro conjI impI)
    assume b: "holder_b G s = None"
    then obtain mb where mb: "acquire G t (mutex_b s) = Some mb" using acquire_free [OF ok] by blast
    have "run_call G acquireSys 4 t s =
          Some (s\<lparr>mutex_a := release G t ma, mutex_b := mb, locked := True, returned := (returned s)(t := None)\<rparr>)"
      by (auto simp: run mb same intro!: lockst.equality)
    moreover have "run_call G tryAcquireSys 7 t s =
          Some (s\<lparr>mutex_a := release G t ma, mutex_b := mb, locked := True, returned := (returned s)(t := Some True)\<rparr>)"
      using a(2) b by (auto simp: run mb same intro!: lockst.equality)
    ultimately show "\<exists>ma mb. holder G ma = None \<and> holder G mb = Some t \<and>
        run_call G acquireSys 4 t s =
          Some (s\<lparr>mutex_a := ma, mutex_b := mb, locked := True, returned := (returned s)(t := None)\<rparr>) \<and>
        run_call G tryAcquireSys 7 t s =
          Some (s\<lparr>mutex_a := ma, mutex_b := mb, locked := True, returned := (returned s)(t := Some True)\<rparr>)"
      using ra acquire_law [OF ok mb] by blast
  next
    assume "holder_b G s \<noteq> None"
    then show "run_call G tryAcquireSys 2 t s = Some (s\<lparr>returned := (returned s)(t := Some False)\<rparr>)"
      using a(2) by (auto simp: run same intro!: lockst.equality)
  next
    assume b: "holder_b G s = Some t"
    have "run_call G releaseSys 4 t s =
          Some (s\<lparr>mutex_a := release G t ma, mutex_b := release G t (mutex_b s), locked := False,
            returned := (returned s)(t := None)\<rparr>)"
      by (auto simp: run same intro!: lockst.equality)
    then show "\<exists>ma mb. holder G ma = None \<and> holder G mb = None \<and>
        run_call G releaseSys 4 t s =
          Some (s\<lparr>mutex_a := ma, mutex_b := mb, locked := False, returned := (returned s)(t := None)\<rparr>)"
      using ra release_law [OF ok b] by blast
  qed
qed

theorem uncontended_lock_witness:
  "run_call plain_genode acquireSys 4 3 (lock0 plain_genode) \<noteq> None \<and>
   run_call plain_genode tryAcquireSys 7 3 (lock0 plain_genode) \<noteq> None"
  using uncontended_lock [OF plain_genode_ok, of "lock0 plain_genode" 3]
  by (auto simp: lock0_def idle_def plain_genode_def)

section \<open>What it does not guarantee\<close>

text \<open>Thread \<open>t\<close> waits in \<open>acquireSys\<close> for the lock that \<open>u\<close> holds.\<close>

definition waits_for :: "('m, 'q) genode \<Rightarrow> nat \<Rightarrow> nat \<Rightarrow> ('m, 'q) lockst \<Rightarrow> bool" where
  "waits_for G t u s \<longleftrightarrow> holder_a G s = Some t \<and> holder_b G s = Some u \<and> code s t = [LockB, UnlockA]"

lemma waits_for_step:
  assumes ok: "genode_ok G" and inv: "lock_inv G s" and w: "waits_for G t u s" and step: "lock_step G s s'"
  shows "waits_for G t u s'"
  using step
proof (cases rule: lock_step.cases)
  case (Run v)
  then have "v \<noteq> t" using w acquire_held [OF ok, of "mutex_b s" u t] by (auto simp: waits_for_def exec1_def)
  then have v: "holder_a G s \<noteq> Some v" and "outside (holder_b G s) v (code s v)"
    using w inv by (auto simp: waits_for_def lock_inv_def)
  from exec1_outside [OF ok Run this(2,1)] have "holder_b G s' = holder_b G s" "holder_a G s' = holder_a G s"
    using w by (auto simp: waits_for_def)
  then show ?thesis using w exec1_others [OF Run, of t] \<open>v \<noteq> t\<close> by (simp add: waits_for_def)
qed (use w in \<open>auto simp: waits_for_def call_def idle_def\<close>)

lemma waits_for_reachable:
  "reachable G s s' \<Longrightarrow> genode_ok G \<Longrightarrow> lock_inv G s \<Longrightarrow> waits_for G t u s \<Longrightarrow> waits_for G t u s'"
  by (induction rule: reachable.induct) (blast intro: waits_for_step lock_inv_reachable)+

text \<open>C22. A thread that calls \<open>acquireSys\<close> while another holds the lock deadlocks both: it keeps
  \<open>_mutex_a\<close> while it waits for \<open>_mutex_b\<close>, and the holder needs \<open>_mutex_a\<close> to release \<open>_mutex_b\<close>.
  After the call's first two steps the lock has the same holder in every state that can follow, the
  caller is blocked and so is the holder if it is in \<open>releaseSys\<close>.\<close>

theorem contended_acquire_deadlocks:
  assumes ok: "genode_ok G" and "reachable G (lock0 G) s" and "holder_a G s = None" and "holder_b G s = Some u"
    and "idle s t" and "t \<noteq> u" and "run_call G acquireSys 2 t s = Some s1" and "reachable G s1 s2"
  shows "holder_b G s2 = Some u \<and> holder_a G s2 = Some t \<and> exec1 G t s2 = None \<and>
    (code s2 u = releaseSys \<longrightarrow> exec1 G u s2 = None)"
proof -
  obtain ma where ma: "acquire G t (mutex_a s) = Some ma" using acquire_free [OF ok assms(3)] by blast
  have "waits_for G t u s1"
    using assms(4-7) acquire_law [OF ok ma] by (auto simp: waits_for_def run_call_def exec1_def call_def ma)
  moreover have "lock_inv G s1"
  proof (rule lock_inv_init [OF ok], rule run_call_reachable [OF assms(2) _ assms(7)])
    show "lock_step G s (call acquireSys t s)" by (rule Acquire) (use assms(4-6) in simp_all)
  qed
  ultimately have "waits_for G t u s2" using assms(8) ok by (blast intro: waits_for_reachable)
  then show ?thesis using acquire_held [OF ok] by (simp add: waits_for_def exec1_def)
qed

definition two_threads :: "(nat option, nat) lockst" where
  "two_threads = the (run_call plain_genode acquireSys 2 1 one_holder)"

theorem contended_acquire_deadlocks_witness:
  "let s2 = call releaseSys 0 two_threads in
   reachable plain_genode (lock0 plain_genode) s2 \<and> exec1 plain_genode 0 s2 = None \<and> exec1 plain_genode 1 s2 = None"
proof -
  let ?s2 = "call releaseSys 0 two_threads"
  have h: "holder_a plain_genode one_holder = None" "holder_b plain_genode one_holder = Some 0" "idle one_holder 1"
    by (simp_all add: idle_def one_holder_eval)
  have r: "run_call plain_genode acquireSys 2 1 one_holder = Some two_threads"
    by (simp add: two_threads_def one_holder_eval)
  have two: "reachable plain_genode (lock0 plain_genode) two_threads"
    by (rule run_call_reachable [OF reachable_one_holder _ r], rule Acquire) (use h in simp_all)
  have "lock_step plain_genode two_threads ?s2"
    by (rule Release) (simp_all add: two_threads_def idle_def one_holder_eval)
  then have s2: "reachable plain_genode two_threads ?s2" "reachable plain_genode (lock0 plain_genode) ?s2"
    by (rule reachable.Step [OF reachable.Start], rule reachable.Step [OF two])
  from contended_acquire_deadlocks [OF plain_genode_ok reachable_one_holder h _ r s2(1)]
  have "exec1 plain_genode 1 ?s2 = None \<and> exec1 plain_genode 0 ?s2 = None" by (simp add: call_def)
  then show ?thesis using s2(2) by (simp add: Let_def del: points)
qed

text \<open>\<open>broadcastSysCond\<close> wakes one waiter only, as \<open>signalSysCond\<close> does: of two threads that wait
  on the condition the first to go on leaves the other blocked, in the very state that
  \<open>signalSysCond\<close> would have led to.\<close>

theorem broadcast_wakes_one:
  assumes ok: "genode_ok G" and "code s t = Down # c" and "code s u = Down # d" and "t \<noteq> u" and "v \<notin> {t, u}"
    and "count G (semaphore s) = 0"
  shows "\<exists>s'. run_schedule G [v, t] (call broadcastSysCond v s) = Some s' \<and>
    run_schedule G [v, t] (call signalSysCond v s) = Some s' \<and>
    code s' t = c \<and> code s' u = Down # d \<and> exec1 G u s' = None"
proof -
  have "count G (up G (semaphore s)) = 1" using up_law [OF ok] assms(6) by simp
  moreover from this obtain q where q: "down G (up G (semaphore s)) = Some q"
    using down_law(1) [OF ok, of "up G (semaphore s)"] by auto
  ultimately have "count G q = 0" using down_law(2) [OF ok q] by simp
  then have "down G q = None" using down_law(2) [OF ok, of q] by (cases "down G q") auto
  then show ?thesis using assms(2-5) q by (simp add: exec1_def call_def)
qed

theorem broadcast_wakes_one_witness:
  "\<exists>s'. run_schedule plain_genode [2, 0]
      (call broadcastSysCond 2 ((lock0 plain_genode)\<lparr>code := (\<lambda>n. if n < 2 then Down # acquireSys else [])\<rparr>)) = Some s' \<and>
    code s' 1 = Down # acquireSys \<and> exec1 plain_genode 1 s' = None"
proof -
  let ?s = "(lock0 plain_genode)\<lparr>code := (\<lambda>n. if n < 2 then Down # acquireSys else [])\<rparr>"
  have "code ?s 0 = Down # acquireSys" "code ?s 1 = Down # acquireSys"
    "count plain_genode (semaphore ?s) = 0" "(0::nat) \<noteq> 1" "(2::nat) \<notin> {0, 1}"
    by (simp_all add: lock0_def plain_genode_def)
  from broadcast_wakes_one [OF plain_genode_ok this(1,2,4,5,3)] show ?thesis by (elim exE conjE) (rule exI, intro conjI)
qed

end
