(* ===== verification/Genode_Threads.thy ===== *)
theory Genode_Threads
  imports Nim_Prelude
begin

text \<open>
  The threads of the Genode port (\<open>struct SysThread\<close> of \<open>lib/genode_cpp/threads.h\<close>) and the thread
  variables built on them (\<open>lib/system/threadlocalstorage.nim\<close>).  A thread object has a pointer for
  the thread's variables, which its constructor leaves indeterminate; a static cast of the running
  thread to this class is undefined on the main thread, which is not one of them.  The locale says
  what a thread variable promises to the threads of a program, and is interpreted on the guarded
  accessors.
\<close>

section \<open>The thread objects\<close>

text \<open>The value of a pointer, and the thread that runs: the main thread, or one started by
  \<open>initThread\<close>, named by the address of its object.\<close>

type_synonym ptr = nat

datatype caller = MainThread | NimThread nat

record systhread =
  st_tls :: "ptr option"
  st_func :: ptr
  st_arg :: ptr

record thread_world =
  threads :: "nat \<Rightarrow> systhread option"
  mainTls :: ptr

definition thread_world0 :: thread_world where
  "thread_world0 = \<lparr>threads = (\<lambda>_. None), mainTls = 0\<rparr>"

text \<open>The object is constructed in place, and the thread is started.\<close>

definition initThread :: "nat \<Rightarrow> ptr \<Rightarrow> ptr \<Rightarrow> thread_world \<Rightarrow> thread_world" where
  "initThread i func arg s = s\<lparr>threads := (threads s)(i \<mapsto> \<lparr>st_tls = None, st_func = func, st_arg = arg\<rparr>)\<rparr>"

text \<open>The call \<open>entry\<close> makes: the function and its argument.\<close>

definition entry :: "nat \<Rightarrow> thread_world \<Rightarrow> (ptr \<times> ptr) option" where
  "entry i s = map_option (\<lambda>t. (st_func t, st_arg t)) (threads s i)"

definition offMainThread :: "caller \<Rightarrow> bool" where
  "offMainThread c = (case c of MainThread \<Rightarrow> False | NimThread _ \<Rightarrow> True)"

definition threadVarGetValue :: "caller \<Rightarrow> thread_world \<Rightarrow> ptr option" where
  "threadVarGetValue c s =
     (case c of MainThread \<Rightarrow> None | NimThread i \<Rightarrow> Option.bind (threads s i) st_tls)"

definition threadVarSetValue :: "caller \<Rightarrow> ptr \<Rightarrow> thread_world \<Rightarrow> thread_world option" where
  "threadVarSetValue c v s =
     (case c of
        MainThread \<Rightarrow> None
      | NimThread i \<Rightarrow> map_option (\<lambda>t. s\<lparr>threads := (threads s)(i \<mapsto> t\<lparr>st_tls := Some v\<rparr>)\<rparr>) (threads s i))"

section \<open>The guarded accessors\<close>

definition nimThreadVarSetValue :: "caller \<Rightarrow> ptr \<Rightarrow> thread_world \<Rightarrow> thread_world option" where
  "nimThreadVarSetValue c v s = (if offMainThread c then threadVarSetValue c v s else Some (s\<lparr>mainTls := v\<rparr>))"

definition nimThreadVarGetValue :: "caller \<Rightarrow> thread_world \<Rightarrow> ptr option" where
  "nimThreadVarGetValue c s = (if offMainThread c then threadVarGetValue c s else Some (mainTls s))"

section \<open>What a thread variable promises\<close>

locale thread_variable =
  fixes rd :: "'c \<Rightarrow> 's \<Rightarrow> 'v option" and wr :: "'c \<Rightarrow> 'v \<Rightarrow> 's \<Rightarrow> 's option" and running :: "'c \<Rightarrow> 's \<Rightarrow> bool"
  assumes wr_ok: "running c s \<Longrightarrow> \<exists>s'. wr c v s = Some s'"
    and wr_none: "\<not> running c s \<Longrightarrow> wr c v s = None"
    and wr_running: "wr c v s = Some s' \<Longrightarrow> running d s' = running d s"
    and rd_own: "wr c v s = Some s' \<Longrightarrow> rd c s' = Some v"
    and rd_other: "wr c v s = Some s' \<Longrightarrow> c \<noteq> d \<Longrightarrow> rd d s' = rd d s"
begin

lemma write_reads:
  assumes "running c s"
  shows "\<exists>s'. wr c v s = Some s' \<and> (\<forall>d. rd d s' = (if d = c then Some v else rd d s)) \<and>
    (\<forall>d. running d s' = running d s)"
proof -
  obtain s' where "wr c v s = Some s'" using wr_ok [OF assms] by blast
  then show ?thesis using wr_running rd_own rd_other by (intro exI [of _ s']) auto
qed

end

definition running :: "caller \<Rightarrow> thread_world \<Rightarrow> bool" where
  "running c s \<longleftrightarrow> (case c of MainThread \<Rightarrow> True | NimThread i \<Rightarrow> threads s i \<noteq> None)"

lemmas accessors = nimThreadVarSetValue_def nimThreadVarGetValue_def threadVarSetValue_def threadVarGetValue_def
  offMainThread_def running_def

interpretation tv: thread_variable nimThreadVarGetValue nimThreadVarSetValue running
  by unfold_locales (auto simp: accessors split: caller.splits if_splits)

section \<open>Programs of several threads\<close>

text \<open>What the threads of a program do, in the order it happens; the values read are the output.\<close>

datatype thread_op = Start nat ptr ptr | Write caller ptr | Read caller

fun run_thread :: "thread_op \<Rightarrow> ptr list \<times> thread_world \<Rightarrow> (ptr list \<times> thread_world) option" where
  "run_thread (Start i func arg) (out, s) = Some (out, initThread i func arg s)"
| "run_thread (Write c v) (out, s) = do { s \<leftarrow> nimThreadVarSetValue c v s; Some (out, s) }"
| "run_thread (Read c) (out, s) = do { v \<leftarrow> nimThreadVarGetValue c s; Some (out @ [v], s) }"

text \<open>What a thread should read, from what has happened so far, the latest first: the value it wrote last
  since it was started; the variable of the main thread starts with 0.\<close>

fun last_written :: "caller \<Rightarrow> thread_op list \<Rightarrow> ptr option" where
  "last_written c [] = (if c = MainThread then Some 0 else None)"
| "last_written c (Write d v # past) = (if d = c then Some v else last_written c past)"
| "last_written c (Start i func arg # past) = (if c = NimThread i then None else last_written c past)"
| "last_written c (Read d # past) = last_written c past"

definition started :: "caller \<Rightarrow> thread_op list \<Rightarrow> bool" where
  "started c past \<longleftrightarrow> c = MainThread \<or> (\<exists>i func arg. c = NimThread i \<and> Start i func arg \<in> set past)"

fun own_reads :: "thread_op list \<Rightarrow> thread_op list \<Rightarrow> ptr list option" where
  "own_reads past [] = Some []"
| "own_reads past (Start i func arg # ps) = own_reads (Start i func arg # past) ps"
| "own_reads past (Write c v # ps) = (if started c past then own_reads (Write c v # past) ps else None)"
| "own_reads past (Read c # ps) = do {
     v \<leftarrow> last_written c past;
     vs \<leftarrow> own_reads (Read c # past) ps;
     Some (v # vs) }"

lemma run_threads_ok:
  assumes "\<And>c. running c s = started c past" "\<And>c. nimThreadVarGetValue c s = last_written c past"
  shows "map_option fst (each run_thread ps (out, s)) = map_option (\<lambda>vs. out @ vs) (own_reads past ps)"
  using assms
proof (induction ps arbitrary: out s past)
  case (Cons p ps)
  show ?case
  proof (cases p)
    case (Start i func arg)
    have "running c (initThread i func arg s) = started c (p # past)" for c
      using Cons.prems(1) [of c] by (cases c) (auto simp: Start running_def started_def initThread_def)
    moreover have "nimThreadVarGetValue c (initThread i func arg s) = last_written c (p # past)" for c
      using Cons.prems(2) [of c] by (cases c) (auto simp: Start accessors initThread_def)
    ultimately show ?thesis using Cons.IH [of "initThread i func arg s" "p # past" out] by (simp add: Start)
  next
    case (Write c v)
    show ?thesis
    proof (cases "running c s")
      case True
      obtain s' where s': "nimThreadVarSetValue c v s = Some s'"
          "\<And>d. nimThreadVarGetValue d s' = (if d = c then Some v else nimThreadVarGetValue d s)" "\<And>d. running d s' = running d s"
        using tv.write_reads [OF True, of v] by blast
      have "running d s' = started d (p # past)" "nimThreadVarGetValue d s' = last_written d (p # past)" for d
        using Cons.prems s'(2,3) by (simp_all add: Write started_def)
      from Cons.IH [OF this, of out] show ?thesis using s'(1) True Cons.prems(1) by (simp add: Write)
    next
      case False
      then show ?thesis using tv.wr_none [OF False, of v] Cons.prems(1) by (simp add: Write)
    qed
  next
    case (Read c)
    have "running d s = started d (p # past)" "nimThreadVarGetValue d s = last_written d (p # past)" for d
      using Cons.prems by (simp_all add: Read started_def)
    note IH = Cons.IH [OF this]
    show ?thesis
    proof (cases "last_written c past")
      case (Some v)
      then show ?thesis using IH [of "out @ [v]"] Cons.prems(2) [of c]
        by (cases "own_reads (p # past) ps") (simp_all add: Read)
    qed (use Cons.prems(2) [of c] in \<open>simp add: Read\<close>)
  qed
qed simp

section \<open>Properties\<close>

text \<open>C34. Thread variables are private.  A program of any number of threads that are started, write and read
  the thread variable in any order is defined exactly if every thread that writes is the main thread or
  was started, and every thread that reads is the main thread or has written since it was started; and
  every read gives the value its own thread wrote last, whatever the others wrote.  The constructor leaves
  the variable of a new thread indeterminate, so reading it before the first write is undefined, and
  without the guard every access on the main thread is.\<close>

theorem thread_vars_private:
  "map_option fst (each run_thread ps ([], thread_world0)) = own_reads [] ps \<and>
    threadVarGetValue MainThread s = None \<and> threadVarSetValue MainThread v s = None \<and>
    entry i (initThread i func arg s) = Some (func, arg)"
proof -
  have "running c thread_world0 = started c []" "nimThreadVarGetValue c thread_world0 = last_written c []" for c
    by (cases c; simp add: accessors started_def thread_world0_def)+
  from run_threads_ok [OF this, of ps "[]"] show ?thesis
    by (simp add: accessors entry_def initThread_def option.map_id0 [unfolded id_def])
qed

theorem thread_vars_private_witness:
  "map_option fst (each run_thread [Start 1 100 0, Start 2 100 0, Write (NimThread 1) 6, Write MainThread 5, Write (NimThread 2) 7,
      Read (NimThread 1), Read MainThread] ([], thread_world0)) = Some [6, 5] \<and>
    map_option fst (each run_thread [Start 1 100 0, Write MainThread 5, Read (NimThread 1)] ([], thread_world0)) = None"
  using thread_vars_private [of "[Start 1 100 0, Start 2 100 0, Write (NimThread 1) 6, Write MainThread 5, Write (NimThread 2) 7,
      Read (NimThread 1), Read MainThread]"]
    thread_vars_private [of "[Start 1 100 0, Write MainThread 5, Read (NimThread 1)]"]
  by (simp add: started_def)

end
