(* ===== verification/Cycle_Counters.thy ===== *)
theory Cycle_Counters
  imports Complex_Main "HOL-Library.Word"
begin

text \<open>
  The cycle counters of \<open>lib/cycle.h\<close> that do more than read one register: the time base of the PowerPC
  and the time stamp counter of the x86-64, which are read in two halves, the 32 bit counter of the
  Alpha, and the memory mapped timer of the MIPS.  The values of the hardware's registers are
  parameters.  The lemmas say when a value read in halves is a value the counter had, what the
  difference of two wrapped values means, and what is left behind by a mapping that failed.
\<close>

unbundle bit_operations_syntax

section \<open>Halves\<close>

definition hi32 :: "64 word \<Rightarrow> 32 word" where
  "hi32 v = ucast (drop_bit 32 v)"

definition lo32 :: "64 word \<Rightarrow> 32 word" where
  "lo32 v = ucast v"

definition join32 :: "32 word \<Rightarrow> 32 word \<Rightarrow> 64 word" where
  "join32 h l = push_bit 32 (ucast h) OR ucast l"

lemma join32_halves: "join32 (hi32 v) (lo32 v) = v"
  by (rule bit_word_eqI) (auto simp: join32_def hi32_def lo32_def bit_simps)

lemma unat_hi32: "unat (hi32 v) = unat v div 2 ^ 32"
proof -
  have "unat (drop_bit 32 v) = unat v div 2 ^ 32" by (simp add: drop_bit_eq_div unat_div)
  moreover have "unat v < 2 ^ LENGTH(64)" by (rule unsigned_less)
  then have "unat v div 2 ^ 32 < 2 ^ 32" by (simp add: less_mult_imp_div_less)
  ultimately show ?thesis by (simp add: hi32_def unsigned_ucast_eq take_bit_nat_eq_self)
qed

lemma hi32_eq_iff: "hi32 u = hi32 v \<longleftrightarrow> unat u div 2 ^ 32 = unat v div 2 ^ 32"
  by (metis unat_hi32 word_unat_eq_iff)

section \<open>PowerPC\<close>

text \<open>\<open>tb k\<close> is the time base at the \<open>k\<close>-th instruction that reads one of its halves.\<close>

partial_function (option) getticks_ppc :: "(nat \<Rightarrow> 64 word) \<Rightarrow> nat \<Rightarrow> (64 word \<times> nat) option" where
  "getticks_ppc tb k =
     (let tbu0 = hi32 (tb k); tbl = lo32 (tb (k + 1)); tbu1 = hi32 (tb (k + 2)) in
      if tbu0 \<noteq> tbu1 then getticks_ppc tb (k + 3) else Some (join32 tbu0 tbl, k + 3))"

text \<open>When the upper half is the same before and after, the value is the one between.\<close>

lemma ppc_round:
  assumes "unat (tb k) \<le> unat (tb (k + 1))" "unat (tb (k + 1)) \<le> unat (tb (k + 2))" and "hi32 (tb k) = hi32 (tb (k + 2))"
  shows "join32 (hi32 (tb k)) (lo32 (tb (k + 1))) = tb (k + 1)"
proof -
  have "unat (tb k) div 2 ^ 32 \<le> unat (tb (k + 1)) div 2 ^ 32" "unat (tb (k + 1)) div 2 ^ 32 \<le> unat (tb (k + 2)) div 2 ^ 32"
    using assms(1,2) by (simp_all add: div_le_mono)
  then have "hi32 (tb k) = hi32 (tb (k + 1))" using assms(3) by (simp add: hi32_eq_iff)
  then show ?thesis by (simp add: join32_halves)
qed

section \<open>x86-64 and Alpha\<close>

definition getticks_x86_64 :: "64 word \<Rightarrow> 64 word" where
  "getticks_x86_64 tsc = (let a = lo32 tsc; d = hi32 tsc in ucast a OR push_bit 32 (ucast d))"

definition getticks_alpha :: "64 word \<Rightarrow> 32 word" where
  "getticks_alpha cc = ucast (cc AND 0xFFFFFFFF)"

text \<open>The conversions and the subtraction of \<open>elapsed\<close> round by \<open>rnd\<close>, which keeps the integers a \<open>double\<close> can
  hold.\<close>

definition elapsed :: "(real \<Rightarrow> real) \<Rightarrow> 'a::len word \<Rightarrow> 'a word \<Rightarrow> real" where
  "elapsed rnd t1 t0 = rnd (rnd (real (unat t1)) - rnd (real (unat t0)))"

definition exact_double :: "(real \<Rightarrow> real) \<Rightarrow> bool" where
  "exact_double rnd \<longleftrightarrow> (\<forall>i. \<bar>i\<bar> \<le> 2 ^ 53 \<longrightarrow> rnd (real_of_int i) = real_of_int i)"

lemma elapsed_exact:
  assumes "exact_double rnd" and "unat t1 \<le> 2 ^ 53" "unat t0 \<le> 2 ^ 53"
  shows "elapsed rnd t1 t0 = real (unat t1) - real (unat t0)"
proof -
  have r: "rnd (real_of_int i) = real_of_int i" if "\<bar>i\<bar> \<le> 2 ^ 53" for i
    using assms(1) that by (simp add: exact_double_def)
  have "rnd (rnd (real m) - rnd (real n)) = real m - real n" if "m \<le> 2 ^ 53" "n \<le> 2 ^ 53" for m n
  proof -
    have "rnd (real m) = real m" "rnd (real n) = real n" using r [of "int m"] r [of "int n"] that by simp_all
    moreover have "\<bar>int m - int n\<bar> \<le> 2 ^ 53" using that by simp
    ultimately show ?thesis using r [of "int m - int n"] by simp
  qed
  from this [OF assms(2,3)] show ?thesis by (simp only: elapsed_def)
qed

lemma unat_alpha: "unat (getticks_alpha cc) = unat cc mod 2 ^ 32"
proof -
  have "(0xFFFFFFFF :: 64 word) = mask 32" by (simp add: mask_eq_exp_minus_1)
  then have "getticks_alpha cc = ucast (cc AND mask 32)" by (simp only: getticks_alpha_def)
  also have "\<dots> = lo32 cc" unfolding lo32_def by (intro bit_word_eqI) (simp add: bit_simps del: mask_numeral)
  finally have "getticks_alpha cc = lo32 cc" .
  then show ?thesis by (simp add: lo32_def unsigned_ucast_eq take_bit_eq_mod)
qed

section \<open>MIPS\<close>

text \<open>The static pointer: \<open>NULL\<close>, the result \<open>-1\<close> of a failed \<open>mmap\<close>, or the mapping.\<close>

datatype zaddr = ZNull | ZFailed | ZMapped

record zbus =
  z_addr :: zaddr
  z_fds :: nat
  z_perror :: "string list"

text \<open>\<open>timer\<close> is the timer's value, \<open>opens\<close> and \<open>maps\<close> say whether the calls succeed; None is an access
  through a pointer that is no mapping.\<close>

definition getticks_mips :: "64 word \<Rightarrow> bool \<Rightarrow> bool \<Rightarrow> zbus \<Rightarrow> (64 word \<times> zbus) option" where
  "getticks_mips timer opens maps z =
     (let deref = (\<lambda>z. if z_addr z = ZMapped then Some (timer, z) else None) in
      if z_addr z = ZNull
      then if \<not> opens then Some (0, z\<lparr>z_perror := z_perror z @ [''open'']\<rparr>)
        else let z = z\<lparr>z_fds := Suc (z_fds z)\<rparr>;
                 z = z\<lparr>z_addr := (if maps then ZMapped else ZFailed)\<rparr>;
                 z = z\<lparr>z_fds := z_fds z - 1\<rparr>
             in if z_addr z = ZFailed then Some (0, z\<lparr>z_perror := z_perror z @ [''mmap'']\<rparr>) else deref z
      else deref z)"

section \<open>Properties\<close>

text \<open>C33. \<open>getticks\<close> on the PowerPC, with a time base that does not run backwards and needs more than five
  reads to advance by 2 to the 32: it returns after at most two rounds, and the value is one the time
  base had at a moment during the call, although it was read in two halves.\<close>

theorem ppc_read_is_atomic:
  assumes mono: "\<And>i. unat (tb i) \<le> unat (tb (Suc i))" and slow: "unat (tb (k + 5)) < unat (tb k) + 2 ^ 32"
  shows "\<exists>j. k < j \<and> j \<le> k + 4 \<and> getticks_ppc tb k = Some (tb j, j + 2)"
proof -
  have le: "unat (tb i) \<le> unat (tb j)" if "i \<le> j" for i j
    using lift_Suc_mono_le [of "\<lambda>i. unat (tb i)" i j] mono that by blast
  show ?thesis
  proof (cases "hi32 (tb k) = hi32 (tb (k + 2))")
    case True
    then have "getticks_ppc tb k = Some (tb (k + 1), k + 1 + 2)"
      using ppc_round [of tb k] le by (subst getticks_ppc.simps) simp
    then show ?thesis by (intro exI [of _ "k + 1"]) simp
  next
    case False
    let ?h = "\<lambda>i. unat (tb (k + i)) div 2 ^ 32"
    have "?h 0 < ?h 2" using False le [of k "k + 2"] div_le_mono [of "unat (tb k)" "unat (tb (k + 2))" "2 ^ 32"]
      by (auto simp: hi32_eq_iff)
    moreover have "?h 5 \<le> ?h 0 + 1"
      using div_le_mono [of "unat (tb (k + 5))" "unat (tb k) + 2 ^ 32" "2 ^ 32"] slow by simp
    moreover have "?h 2 \<le> ?h 3" "?h 3 \<le> ?h 5" using le by (simp_all add: div_le_mono)
    ultimately have "hi32 (tb (k + 3)) = hi32 (tb (k + 5))" by (simp add: hi32_eq_iff)
    then have "getticks_ppc tb (k + 3) = Some (tb (k + 4), k + 4 + 2)"
      using ppc_round [of tb "k + 3"] le by (subst getticks_ppc.simps) (simp add: numeral_eq_Suc)
    then have "getticks_ppc tb k = Some (tb (k + 4), k + 4 + 2)"
      using False by (subst getticks_ppc.simps) (simp add: Let_def)
    then show ?thesis by (intro exI [of _ "k + 4"]) simp
  qed
qed

theorem ppc_read_is_atomic_witness:
  "\<exists>j. 0 < j \<and> j \<le> 4 \<and> getticks_ppc (\<lambda>i. if i < 2 then 0xFFFFFFFF else 0x100000000) 0 =
    Some (if j < 2 then 0xFFFFFFFF else 0x100000000, j + 2)"
  using ppc_read_is_atomic [of "\<lambda>i. if i < 2 then 0xFFFFFFFF else 0x100000000" 0] by simp

text \<open>On the x86-64 the two halves make up the counter's value.  On the Alpha the elapsed time between two
  reads is the number of cycles less 2 to the 32 for each time the 32 bit counter has started again: it
  is exact when it has not, and negative when it has once within so many cycles.\<close>

theorem elapsed_of_wrapped_counter:
  assumes "exact_double rnd" and "unat c0 \<le> unat c1"
  shows "getticks_x86_64 c0 = c0 \<and>
    elapsed rnd (getticks_alpha c1) (getticks_alpha c0) =
      real (unat c1 - unat c0) - 2 ^ 32 * real (unat c1 div 2 ^ 32 - unat c0 div 2 ^ 32) \<and>
    (unat c1 div 2 ^ 32 = unat c0 div 2 ^ 32 + 1 \<and> unat c1 - unat c0 < 2 ^ 32 \<longrightarrow>
      elapsed rnd (getticks_alpha c1) (getticks_alpha c0) < 0)"
proof -
  have small: "unat (getticks_alpha c) \<le> 2 ^ 53" for c
    using mod_less_divisor [of "2 ^ 32 :: nat" "unat c"] unfolding unat_alpha by simp
  have split: "real (unat c) = 2 ^ 32 * real (unat c div 2 ^ 32) + real (unat c mod 2 ^ 32)" for c :: "64 word"
    using mult_div_mod_eq [of "2 ^ 32" "unat c"] by (metis of_nat_add of_nat_mult of_nat_numeral of_nat_power)
  have quot: "unat c0 div 2 ^ 32 \<le> unat c1 div 2 ^ 32" using assms(2) by (rule div_le_mono)
  have "elapsed rnd (getticks_alpha c1) (getticks_alpha c0) = real (unat c1 mod 2 ^ 32) - real (unat c0 mod 2 ^ 32)"
    unfolding elapsed_exact [OF assms(1) small small] unat_alpha ..
  also have "\<dots> = real (unat c1 - unat c0) - 2 ^ 32 * real (unat c1 div 2 ^ 32 - unat c0 div 2 ^ 32)"
    using split [of c0] split [of c1] assms(2) quot by (simp add: of_nat_diff algebra_simps)
  finally have eq: "elapsed rnd (getticks_alpha c1) (getticks_alpha c0) =
      real (unat c1 - unat c0) - 2 ^ 32 * real (unat c1 div 2 ^ 32 - unat c0 div 2 ^ 32)" .
  have "getticks_x86_64 c0 = c0"
    using join32_halves [of c0] by (simp add: getticks_x86_64_def join32_def Let_def or.commute)
  with eq show ?thesis by simp
qed

theorem elapsed_of_wrapped_counter_witness:
  "elapsed id (getticks_alpha 0x100000001) (getticks_alpha 0xFFFFFFFF) < 0 \<and> getticks_x86_64 0xFFFFFFFF = 0xFFFFFFFF"
  using elapsed_of_wrapped_counter [of id "0xFFFFFFFF" "0x100000001"] by (simp add: exact_double_def)

text \<open>On the MIPS a call whose mapping fails reports it, closes the device and returns 0, but leaves the
  failure in the static pointer, and the next call reads through it.  When the device cannot be opened a
  later call tries again, and once the mapping exists every call returns the timer.\<close>

theorem mips_timer:
  assumes "z_addr z = ZNull"
  shows "(\<exists>z1. getticks_mips v True False z = Some (0, z1) \<and> z_fds z1 = z_fds z \<and> getticks_mips v' o' m' z1 = None) \<and>
    (\<exists>z1 z2. getticks_mips v False m z = Some (0, z1) \<and> getticks_mips v True True z1 = Some (v, z2) \<and>
      z_fds z2 = z_fds z \<and> getticks_mips v' o' m' z2 = Some (v', z2))"
  using assms by (simp add: getticks_mips_def)

theorem mips_timer_witness:
  "\<exists>z1. getticks_mips 7 True False \<lparr>z_addr = ZNull, z_fds = 0, z_perror = []\<rparr> = Some (0, z1) \<and> getticks_mips 8 True True z1 = None"
  using mips_timer [of "\<lparr>z_addr = ZNull, z_fds = 0, z_perror = []\<rparr>" 7 8 True True] by auto

end
