(* ===== verification/Nim_Strings.thy ===== *)
theory Nim_Strings
  imports Nim_Prelude "HOL-Library.Word" "HOL-Library.Monad_Syntax"
begin

text \<open>
  The strings of Nim's runtime (\<open>lib/system/strs_v2.nim\<close>): a string is a length and a pointer to a
  payload with a capacity and the characters; payloads of string literals are in read only memory and
  carry the flag that \<open>nimbase.h\<close> sets (\<open>NIM_STRLIT_FLAG\<close>), so that they are shared
  until a string is changed.  The operations are functions on an explicit heap; None is an access
  outside a payload, to a freed one, or a write to a literal.  The lemmas say what every operation does
  to the text, to the other payloads and to the ownership of the heap, and the properties are about
  programs with several string variables.
\<close>

unbundle bit_operations_syntax

section \<open>Payloads and strings\<close>

text \<open>A character is None when it has never been written.\<close>

record NimStrPayload =
  pl_cap :: "64 word"
  pl_data :: "char option list"

record NimStringV2 =
  s_len :: int
  s_p :: "nat option"

text \<open>The heap; new blocks come from the counter.\<close>

record nheap =
  h_mem :: "nat \<Rightarrow> NimStrPayload option"
  h_next :: nat

definition NIM_STRLIT_FLAG :: "64 word" where
  "NIM_STRLIT_FLAG = push_bit (64 - 2) 1"

definition strlitFlag :: "64 word" where
  "strlitFlag = push_bit (8 * 8 - 2) 1"

text \<open>The payload of a literal, as the code generator emits it.\<close>

definition literal_payload :: "string \<Rightarrow> NimStrPayload" where
  "literal_payload str =
     \<lparr>pl_cap = word_of_int (int (length str)) OR NIM_STRLIT_FLAG, pl_data = map Some str @ [Some NUL]\<rparr>"

definition nil_str :: NimStringV2 where
  "nil_str = \<lparr>s_len = 0, s_p = None\<rparr>"

definition payload :: "nat option \<Rightarrow> nheap \<Rightarrow> NimStrPayload option" where
  "payload p h = Option.bind p (h_mem h)"

definition is_lit :: "NimStrPayload \<Rightarrow> bool" where
  "is_lit pl \<longleftrightarrow> pl_cap pl AND strlitFlag = strlitFlag"

definition cap_of :: "NimStrPayload \<Rightarrow> int" where
  "cap_of pl = sint (pl_cap pl AND NOT strlitFlag)"

definition isLiteral :: "NimStringV2 \<Rightarrow> nheap \<Rightarrow> bool option" where
  "isLiteral s h =
     (case s_p s of None \<Rightarrow> Some True | Some a \<Rightarrow> do { pl \<leftarrow> h_mem h a; Some (is_lit pl) })"

section \<open>The allocator\<close>

text \<open>A block for \<open>n\<close> characters and the terminator; \<open>c\<close> is what it is filled with.  A block that is
  reallocated moves.\<close>

definition new_payload :: "char option \<Rightarrow> int \<Rightarrow> nheap \<Rightarrow> (nat \<times> nheap) option" where
  "new_payload c n h =
     (if n < 0 then None
      else Some (h_next h, h\<lparr>h_mem := (h_mem h)(h_next h \<mapsto> \<lparr>pl_cap = 0, pl_data = replicate (nat n + 1) c\<rparr>),
                            h_next := Suc (h_next h)\<rparr>))"

definition allocPayload :: "int \<Rightarrow> nheap \<Rightarrow> (nat \<times> nheap) option" where
  "allocPayload newLen h = new_payload None newLen h"

definition allocPayload0 :: "int \<Rightarrow> nheap \<Rightarrow> (nat \<times> nheap) option" where
  "allocPayload0 newLen h = new_payload (Some NUL) newLen h"

definition dealloc :: "nat \<Rightarrow> nheap \<Rightarrow> nheap option" where
  "dealloc a h = do { pl \<leftarrow> h_mem h a; if is_lit pl then None else Some (h\<lparr>h_mem := (h_mem h)(a := None)\<rparr>) }"

definition move_payload :: "char option \<Rightarrow> nat \<Rightarrow> int \<Rightarrow> nheap \<Rightarrow> (nat \<times> nheap) option" where
  "move_payload c a n h = do {
     pl \<leftarrow> h_mem h a;
     h \<leftarrow> dealloc a h;
     (b, h) \<leftarrow> new_payload c n h;
     let d = take (nat n + 1) (pl_data pl);
     Some (b, h\<lparr>h_mem := (h_mem h)(b \<mapsto> pl\<lparr>pl_data := d @ replicate (nat n + 1 - length d) c\<rparr>)\<rparr>)
   }"

definition reallocPayload :: "nat \<Rightarrow> int \<Rightarrow> nheap \<Rightarrow> (nat \<times> nheap) option" where
  "reallocPayload a newLen h = move_payload None a newLen h"

definition reallocPayload0 :: "nat \<Rightarrow> int \<Rightarrow> int \<Rightarrow> nheap \<Rightarrow> (nat \<times> nheap) option" where
  "reallocPayload0 a oldLen newLen h = do {
     pl \<leftarrow> h_mem h a;
     if int (length (pl_data pl)) = oldLen + 1 then move_payload (Some NUL) a newLen h else None
   }"

text \<open>Reads and writes of characters; a literal cannot be written to.\<close>

definition set_cap :: "nat \<Rightarrow> int \<Rightarrow> nheap \<Rightarrow> nheap option" where
  "set_cap a n h = do {
     pl \<leftarrow> h_mem h a;
     if is_lit pl then None else Some (h\<lparr>h_mem := (h_mem h)(a \<mapsto> pl\<lparr>pl_cap := word_of_int n\<rparr>)\<rparr>)
   }"

definition read_data :: "nat option \<Rightarrow> int \<Rightarrow> nheap \<Rightarrow> char option list option" where
  "read_data p n h = do {
     pl \<leftarrow> payload p h;
     if 0 \<le> n \<and> n \<le> int (length (pl_data pl)) then Some (take (nat n) (pl_data pl)) else None
   }"

definition write_data :: "nat \<Rightarrow> int \<Rightarrow> char option list \<Rightarrow> nheap \<Rightarrow> nheap option" where
  "write_data a i cs h = do {
     pl \<leftarrow> h_mem h a;
     if is_lit pl \<or> i < 0 \<or> i + int (length cs) > int (length (pl_data pl)) then None
     else Some (h\<lparr>h_mem := (h_mem h)(a \<mapsto> pl\<lparr>pl_data :=
       take (nat i) (pl_data pl) @ cs @ drop (nat i + length cs) (pl_data pl)\<rparr>)\<rparr>)
   }"

definition put_char :: "nat option \<Rightarrow> int \<Rightarrow> char \<Rightarrow> nheap \<Rightarrow> nheap option" where
  "put_char p i c h = do { a \<leftarrow> p; write_data a i [Some c] h }"

section \<open>Operations\<close>

definition frees :: "NimStringV2 \<Rightarrow> nheap \<Rightarrow> nheap option" where
  "frees s h = do {
     lit \<leftarrow> isLiteral s h;
     if lit then Some h else do { a \<leftarrow> s_p s; dealloc a h }
   }"

definition resize :: "int \<Rightarrow> int" where
  "resize old = (if old \<le> 0 then 4 else if old \<le> 32767 then old * 2 else old div 2 + old)"

definition prepareAdd :: "NimStringV2 \<Rightarrow> int \<Rightarrow> nheap \<Rightarrow> (NimStringV2 \<times> nheap) option" where
  "prepareAdd s addLen h = do {
     let newLen = s_len s + addLen;
     lit \<leftarrow> isLiteral s h;
     if lit then do {
       let oldP = s_p s;
       (a, h) \<leftarrow> allocPayload newLen h;
       h \<leftarrow> set_cap a newLen h;
       h \<leftarrow> (if s_len s > 0 then do {
              cs \<leftarrow> read_data oldP (min (s_len s) newLen) h;
              write_data a 0 cs h
            }
            else if oldP = None then write_data a 0 [Some NUL] h
            else Some h);
       Some (s\<lparr>s_p := Some a\<rparr>, h)
     }
     else do {
       a \<leftarrow> s_p s;
       pl \<leftarrow> h_mem h a;
       let oldCap = cap_of pl;
       if newLen > oldCap then do {
         let newCap = max newLen (resize oldCap);
         (b, h) \<leftarrow> reallocPayload a newCap h;
         h \<leftarrow> set_cap b newCap h;
         h \<leftarrow> (if newLen < newCap then write_data b (newLen + 1) (replicate (nat (newCap - newLen)) (Some NUL)) h
              else Some h);
         Some (s\<lparr>s_p := Some b\<rparr>, h)
       }
       else Some (s, h)
     }
   }"

definition appendChar :: "NimStringV2 \<Rightarrow> char \<Rightarrow> nheap \<Rightarrow> (NimStringV2 \<times> nheap) option" where
  "appendChar dest c h = do {
     h \<leftarrow> put_char (s_p dest) (s_len dest) c h;
     let dest = dest\<lparr>s_len := s_len dest + 1\<rparr>;
     h \<leftarrow> put_char (s_p dest) (s_len dest) NUL h;
     Some (dest, h)
   }"

definition nimAddCharV1 :: "NimStringV2 \<Rightarrow> char \<Rightarrow> nheap \<Rightarrow> (NimStringV2 \<times> nheap) option" where
  "nimAddCharV1 s c h = do {
     (s, h) \<leftarrow> prepareAdd s 1 h;
     h \<leftarrow> put_char (s_p s) (s_len s) c h;
     let s = s\<lparr>s_len := s_len s + 1\<rparr>;
     h \<leftarrow> put_char (s_p s) (s_len s) NUL h;
     Some (s, h)
   }"

definition appendString :: "NimStringV2 \<Rightarrow> NimStringV2 \<Rightarrow> nheap \<Rightarrow> (NimStringV2 \<times> nheap) option" where
  "appendString dest src h =
     (if s_len src > 0 then do {
        a \<leftarrow> s_p dest;
        cs \<leftarrow> read_data (s_p src) (s_len src) h;
        h \<leftarrow> write_data a (s_len dest) cs h;
        let dest = dest\<lparr>s_len := s_len dest + s_len src\<rparr>;
        h \<leftarrow> put_char (s_p dest) (s_len dest) NUL h;
        Some (dest, h)
      }
      else Some (dest, h))"

definition nimAddStrV1 :: "NimStringV2 \<Rightarrow> NimStringV2 \<Rightarrow> nheap \<Rightarrow> (NimStringV2 \<times> nheap) option" where
  "nimAddStrV1 s src h = do { (s, h) \<leftarrow> prepareAdd s (s_len src) h; appendString s src h }"

text \<open>\<open>str\<close> is what can be read from the C string.\<close>

definition toNimStr :: "string \<Rightarrow> int \<Rightarrow> nheap \<Rightarrow> (NimStringV2 \<times> nheap) option" where
  "toNimStr str len h =
     (if len \<le> 0 then Some (nil_str, h)
      else do {
        (p, h) \<leftarrow> allocPayload len h;
        h \<leftarrow> set_cap p len h;
        if len + 1 > int (length str) then None
        else do {
          h \<leftarrow> write_data p 0 (map Some (take (nat (len + 1)) str)) h;
          Some (\<lparr>s_len = len, s_p = Some p\<rparr>, h)
        }
      })"

definition cstrToNimstr :: "string option \<Rightarrow> nheap \<Rightarrow> (NimStringV2 \<times> nheap) option" where
  "cstrToNimstr str h =
     (case str of
        None \<Rightarrow> toNimStr [] 0 h
      | Some s \<Rightarrow> do { n \<leftarrow> strlen s; toNimStr s (int n) h })"

text \<open>The C string a Nim string is passed as: the characters up to the first zero.\<close>

definition nimToCStringConv :: "NimStringV2 \<Rightarrow> nheap \<Rightarrow> string option" where
  "nimToCStringConv s h =
     (if s_len s = 0 then Some []
      else do {
        pl \<leftarrow> payload (s_p s) h;
        let cs = takeWhile (\<lambda>c. c \<noteq> Some NUL) (pl_data pl);
        if None \<in> set cs \<or> length cs = length (pl_data pl) then None else Some (map the cs)
      })"

definition rawNewString :: "int \<Rightarrow> nheap \<Rightarrow> (NimStringV2 \<times> nheap) option" where
  "rawNewString space h =
     (if space \<le> 0 then Some (nil_str, h)
      else do {
        (p, h) \<leftarrow> allocPayload space h;
        h \<leftarrow> set_cap p space h;
        h \<leftarrow> write_data p 0 [Some NUL] h;
        Some (\<lparr>s_len = 0, s_p = Some p\<rparr>, h)
      })"

definition mnewString :: "int \<Rightarrow> nheap \<Rightarrow> (NimStringV2 \<times> nheap) option" where
  "mnewString len h =
     (if len \<le> 0 then Some (nil_str, h)
      else do {
        (p, h) \<leftarrow> allocPayload0 len h;
        h \<leftarrow> set_cap p len h;
        Some (\<lparr>s_len = len, s_p = Some p\<rparr>, h)
      })"

definition setLengthStrV2 :: "NimStringV2 \<Rightarrow> int \<Rightarrow> nheap \<Rightarrow> (NimStringV2 \<times> nheap) option" where
  "setLengthStrV2 s newLen h =
     (if newLen = 0 then Some (s\<lparr>s_len := newLen\<rparr>, h)
      else do {
        lit \<leftarrow> isLiteral s h;
        (s, h) \<leftarrow>
          (if lit then do {
             let oldP = s_p s;
             (a, h) \<leftarrow> allocPayload newLen h;
             h \<leftarrow> set_cap a newLen h;
             h \<leftarrow> (if s_len s > 0 then do {
                    cs \<leftarrow> read_data oldP (min (s_len s) newLen) h;
                    h \<leftarrow> write_data a 0 cs h;
                    if newLen > s_len s
                    then write_data a (s_len s) (replicate (nat (newLen - s_len s + 1)) (Some NUL)) h
                    else write_data a newLen [Some NUL] h
                  }
                  else write_data a 0 (replicate (nat (newLen + 1)) (Some NUL)) h);
             Some (s\<lparr>s_p := Some a\<rparr>, h)
           }
           else if newLen > s_len s then do {
             a \<leftarrow> s_p s;
             pl \<leftarrow> h_mem h a;
             let oldCap = cap_of pl;
             if newLen > oldCap then do {
               let newCap = max newLen (resize oldCap);
               (b, h) \<leftarrow> reallocPayload0 a oldCap newCap h;
               h \<leftarrow> set_cap b newCap h;
               Some (s\<lparr>s_p := Some b\<rparr>, h)
             }
             else Some (s, h)
           }
           else Some (s, h));
        h \<leftarrow> put_char (s_p s) newLen NUL h;
        Some (s\<lparr>s_len := newLen\<rparr>, h)
      })"

definition nimAsgnStrV2 :: "NimStringV2 \<Rightarrow> NimStringV2 \<Rightarrow> nheap \<Rightarrow> (NimStringV2 \<times> nheap) option" where
  "nimAsgnStrV2 a b h =
     (if s_p a = s_p b \<and> s_len a = s_len b then Some (a, h)
      else do {
        litb \<leftarrow> isLiteral b h;
        if litb then do { h \<leftarrow> frees a h; Some (\<lparr>s_len = s_len b, s_p = s_p b\<rparr>, h) }
        else do {
          lita \<leftarrow> isLiteral a h;
          small \<leftarrow> (if lita then Some True
                    else do { pl \<leftarrow> payload (s_p a) h; Some (cap_of pl < s_len b) });
          (a, h) \<leftarrow> (if small then do {
                      h \<leftarrow> frees a h;
                      (p, h) \<leftarrow> allocPayload (s_len b) h;
                      h \<leftarrow> set_cap p (s_len b) h;
                      Some (a\<lparr>s_p := Some p\<rparr>, h)
                    }
                    else Some (a, h));
          let a = a\<lparr>s_len := s_len b\<rparr>;
          cs \<leftarrow> read_data (s_p b) (s_len b + 1) h;
          p \<leftarrow> s_p a;
          h \<leftarrow> write_data p 0 cs h;
          Some (a, h)
        }
      })"

definition nimPrepareStrMutationImpl :: "NimStringV2 \<Rightarrow> nheap \<Rightarrow> (NimStringV2 \<times> nheap) option" where
  "nimPrepareStrMutationImpl s h = do {
     let oldP = s_p s;
     (a, h) \<leftarrow> allocPayload (s_len s) h;
     h \<leftarrow> set_cap a (s_len s) h;
     cs \<leftarrow> read_data oldP (s_len s + 1) h;
     h \<leftarrow> write_data a 0 cs h;
     Some (s\<lparr>s_p := Some a\<rparr>, h)
   }"

definition nimPrepareStrMutationV2 :: "NimStringV2 \<Rightarrow> nheap \<Rightarrow> (NimStringV2 \<times> nheap) option" where
  "nimPrepareStrMutationV2 s h =
     (case s_p s of
        None \<Rightarrow> Some (s, h)
      | Some a \<Rightarrow> do { pl \<leftarrow> h_mem h a; if is_lit pl then nimPrepareStrMutationImpl s h else Some (s, h) })"

definition nimDestroyStrV1 :: "NimStringV2 \<Rightarrow> nheap \<Rightarrow> nheap option" where
  "nimDestroyStrV1 s h = frees s h"

definition capacity :: "NimStringV2 \<Rightarrow> nheap \<Rightarrow> int option" where
  "capacity s h = (case s_p s of None \<Rightarrow> Some 0 | Some a \<Rightarrow> do { pl \<leftarrow> h_mem h a; Some (cap_of pl) })"

text \<open>What the compiler emits for a move into a string.\<close>

definition genMove :: "NimStringV2 \<Rightarrow> NimStringV2 \<Rightarrow> nheap \<Rightarrow> (NimStringV2 \<times> nheap) option" where
  "genMove a src h = do {
     h \<leftarrow> (if s_p a \<noteq> s_p src then frees a h else Some h);
     Some (\<lparr>s_len = s_len src, s_p = s_p src\<rparr>, h)
   }"

section \<open>Capacities\<close>

text \<open>The flag is bit 62; capacities below it are stored as they are.\<close>

lemma and_single_bit: "(w AND push_bit k 1 = push_bit k 1) \<longleftrightarrow> bit w k" if "k < 64" for w :: "64 word"
proof
  assume "w AND push_bit k 1 = push_bit k 1"
  then have "bit (w AND push_bit k 1) k = bit (push_bit k 1 :: 64 word) k" by simp
  with that show "bit w k" by (simp add: bit_simps)
next
  assume "bit w k"
  then show "w AND push_bit k 1 = push_bit k 1" by (intro bit_eqI) (auto simp: bit_simps)
qed

lemma strlitFlag_bit: "strlitFlag = push_bit 62 1" "NIM_STRLIT_FLAG = push_bit 62 1"
  by (simp_all add: strlitFlag_def NIM_STRLIT_FLAG_def)

lemma bit_flag [simp]: "bit strlitFlag k \<longleftrightarrow> k = 62" "bit NIM_STRLIT_FLAG k \<longleftrightarrow> k = 62"
  by (simp_all only: strlitFlag_bit bit_push_bit_iff) (auto simp: bit_1_iff)

lemma is_lit_bit: "is_lit pl \<longleftrightarrow> bit (pl_cap pl) 62"
  unfolding is_lit_def strlitFlag_bit by (rule and_single_bit) simp

lemma small_bit: "0 \<le> n \<Longrightarrow> n < 2 ^ 62 \<Longrightarrow> 62 \<le> k \<Longrightarrow> \<not> bit (n :: int) k"
proof -
  assume n: "0 \<le> n" "n < 2 ^ 62" "62 \<le> k"
  have "(2 :: int) ^ 62 \<le> 2 ^ k" using n(3) by (rule power_increasing) simp
  with n have "n < 2 ^ k" by simp
  with n(1) show ?thesis by (simp add: bit_iff_odd)
qed

lemma sint_small: "0 \<le> n \<Longrightarrow> n < 2 ^ 62 \<Longrightarrow> sint (word_of_int n :: 64 word) = n"
  using signed_take_bit_int_eq_self [of 63 n] by (simp add: signed_of_int)

lemma cap_small [simp]:
  assumes "0 \<le> n" "n < 2 ^ 62"
  shows "\<not> is_lit \<lparr>pl_cap = word_of_int n, pl_data = d\<rparr>" "cap_of \<lparr>pl_cap = word_of_int n, pl_data = d\<rparr> = n"
proof -
  show "\<not> is_lit \<lparr>pl_cap = word_of_int n, pl_data = d\<rparr>"
    using small_bit [OF assms, of 62] by (simp add: is_lit_bit bit_simps)
  have "word_of_int n AND NOT strlitFlag = (word_of_int n :: 64 word)"
    using small_bit [OF assms, of 62] by (intro bit_eqI) (auto simp: bit_simps)
  then show "cap_of \<lparr>pl_cap = word_of_int n, pl_data = d\<rparr> = n"
    using sint_small [OF assms] by (simp add: cap_of_def)
qed

lemma cap_literal [simp]:
  assumes "int (length str) < 2 ^ 62"
  shows "is_lit (literal_payload str)" "cap_of (literal_payload str) = int (length str)"
proof -
  show "is_lit (literal_payload str)"
    by (simp add: is_lit_bit literal_payload_def bit_simps)
  have "(word_of_int (int (length str)) OR NIM_STRLIT_FLAG) AND NOT strlitFlag
      = (word_of_int (int (length str)) :: 64 word)"
    using small_bit [OF _ assms, of 62]
    by (intro bit_eqI) (auto simp: bit_simps)
  then show "cap_of (literal_payload str) = int (length str)"
    using sint_small [OF _ assms] by (simp add: cap_of_def literal_payload_def)
qed

lemma cap_zero [simp]: "\<not> is_lit \<lparr>pl_cap = 0, pl_data = d\<rparr>"
  using cap_small(1) [of 0 d] by simp

lemma lit_cap_updates [simp]:
  "is_lit (pl\<lparr>pl_data := d\<rparr>) = is_lit pl" "cap_of (pl\<lparr>pl_data := d\<rparr>) = cap_of pl"
  "0 \<le> n \<Longrightarrow> n < 2 ^ 62 \<Longrightarrow> \<not> is_lit (pl\<lparr>pl_cap := word_of_int n\<rparr>)"
  "0 \<le> n \<Longrightarrow> n < 2 ^ 62 \<Longrightarrow> cap_of (pl\<lparr>pl_cap := word_of_int n\<rparr>) = n"
  using cap_small [of n "[]"] by (simp_all add: is_lit_def cap_of_def)

section \<open>What a string stands for\<close>

text \<open>\<open>rep t h s v\<close>: the string \<open>s\<close> of the heap holds the characters \<open>v\<close>, and when \<open>t\<close> is set it
  also has the terminating zero behind them.\<close>

definition holds :: "bool \<Rightarrow> NimStrPayload \<Rightarrow> char option list \<Rightarrow> bool" where
  "holds t pl v \<longleftrightarrow>
     0 \<le> cap_of pl \<and> cap_of pl < 2 ^ 62 \<and> length (pl_data pl) = nat (cap_of pl) + 1 \<and>
     int (length v) \<le> cap_of pl \<and> take (length v) (pl_data pl) = v \<and>
     (t \<and> v \<noteq> [] \<longrightarrow> pl_data pl ! length v = Some NUL)"

definition rep :: "bool \<Rightarrow> nheap \<Rightarrow> NimStringV2 \<Rightarrow> char option list \<Rightarrow> bool" where
  "rep t h s v \<longleftrightarrow>
     s_len s = int (length v) \<and>
     (case s_p s of None \<Rightarrow> v = [] | Some a \<Rightarrow> (case h_mem h a of None \<Rightarrow> False | Some pl \<Rightarrow> holds t pl v))"

definition heap_ok :: "nheap \<Rightarrow> bool" where
  "heap_ok h \<longleftrightarrow> (\<forall>x \<ge> h_next h. h_mem h x = None)"

text \<open>The payload a string must free: its own, unless it is a literal.\<close>

definition owns :: "nheap \<Rightarrow> NimStringV2 \<Rightarrow> nat \<Rightarrow> bool" where
  "owns h s x \<longleftrightarrow> s_p s = Some x \<and> (\<exists>pl. h_mem h x = Some pl \<and> \<not> is_lit pl)"

text \<open>\<open>step h s h' s'\<close>: an operation on \<open>s\<close> touches no payload but the one the string owns, what the
  string owns afterwards is that payload or a new one, and everything else that is allocated was
  there before.\<close>

definition step :: "nheap \<Rightarrow> NimStringV2 \<Rightarrow> nheap \<Rightarrow> NimStringV2 \<Rightarrow> bool" where
  "step h s h' s' \<longleftrightarrow>
     heap_ok h' \<and> h_next h \<le> h_next h' \<and>
     (\<forall>x < h_next h. \<not> owns h s x \<longrightarrow> h_mem h' x = h_mem h x) \<and>
     (\<forall>x. owns h' s' x \<longrightarrow> owns h s x \<or> h_next h \<le> x) \<and>
     (\<forall>x pl. h_mem h' x = Some pl \<longrightarrow> \<not> is_lit pl \<longrightarrow> owns h' s' x \<or> x < h_next h \<and> \<not> owns h s x)"

lemma below: "\<forall>x \<ge> n. m x = None \<Longrightarrow> m x = Some pl \<Longrightarrow> x < n" for n :: nat
  by (metis linorder_not_less option.distinct(1))

lemma heap_okD: "heap_ok h \<Longrightarrow> h_mem h x = Some pl \<Longrightarrow> x < h_next h"
  unfolding heap_ok_def by (metis linorder_not_less option.distinct(1))

lemma step_refl: "heap_ok h \<Longrightarrow> step h s h s"
  unfolding step_def heap_ok_def by (auto intro: below)

lemma step_same: "heap_ok h \<Longrightarrow> s_p s' = s_p s \<Longrightarrow> step h s h s'"
  using step_refl [of h s] by (simp add: step_def owns_def)

lemma step_trans:
  assumes 1: "step h s h1 s1" and 2: "step h1 s1 h2 s2"
  shows "step h s h2 s2"
proof -
  have le: "h_next h \<le> h_next h1" "h_next h1 \<le> h_next h2" using 1 2 by (simp_all add: step_def)
  have own1: "owns h s x \<or> h_next h \<le> x" if "owns h1 s1 x" for x using 1 that by (simp add: step_def)
  have own2: "owns h1 s1 x \<or> h_next h1 \<le> x" if "owns h2 s2 x" for x using 2 that by (simp add: step_def)
  have frame1: "h_mem h1 x = h_mem h x" if "x < h_next h" "\<not> owns h s x" for x
    using 1 that by (simp add: step_def)
  have frame2: "h_mem h2 x = h_mem h1 x" if "x < h_next h1" "\<not> owns h1 s1 x" for x
    using 2 that by (simp add: step_def)
  have keep1: "owns h1 s1 x \<or> x < h_next h \<and> \<not> owns h s x" if "h_mem h1 x = Some pl" "\<not> is_lit pl" for x pl
    using 1 that unfolding step_def by blast
  have keep2: "owns h2 s2 x \<or> x < h_next h1 \<and> \<not> owns h1 s1 x" if "h_mem h2 x = Some pl" "\<not> is_lit pl" for x pl
    using 2 that unfolding step_def by blast
  have "h_mem h2 x = h_mem h x" if "x < h_next h" "\<not> owns h s x" for x
    using frame1 [OF that] frame2 [of x] own1 [of x] that le by fastforce
  moreover have "owns h s x \<or> h_next h \<le> x" if "owns h2 s2 x" for x
    using own2 [OF that] own1 [of x] le by fastforce
  moreover have "owns h2 s2 x \<or> x < h_next h \<and> \<not> owns h s x" if "h_mem h2 x = Some pl" "\<not> is_lit pl" for x pl
    using keep2 [OF that] keep1 [of x pl] frame2 [of x] that by auto
  ultimately show ?thesis using le 2 by (simp add: step_def)
qed

text \<open>The ways a heap changes: a new block for a string that owns none, a block that is replaced, one
  that is written to, one that is freed.\<close>

lemma step_new:
  "heap_ok h \<Longrightarrow> (\<And>x. \<not> owns h s x) \<Longrightarrow> \<not> is_lit pl \<Longrightarrow> s_p s' = Some (h_next h) \<Longrightarrow>
   step h s (h\<lparr>h_mem := (h_mem h)(h_next h \<mapsto> pl), h_next := Suc (h_next h)\<rparr>) s'"
  unfolding step_def heap_ok_def by (auto simp: owns_def intro: below)

lemma step_move:
  "heap_ok h \<Longrightarrow> owns h s a \<Longrightarrow> \<not> is_lit pl \<Longrightarrow> s_p s' = Some (h_next h) \<Longrightarrow>
   step h s (h\<lparr>h_mem := (h_mem h)(a := None, h_next h \<mapsto> pl), h_next := Suc (h_next h)\<rparr>) s'"
  unfolding step_def heap_ok_def by (auto simp: owns_def intro: below)

lemma step_write:
  "heap_ok h \<Longrightarrow> owns h s a \<Longrightarrow> \<not> is_lit pl \<Longrightarrow> s_p s' = Some a \<Longrightarrow>
   step h s (h\<lparr>h_mem := (h_mem h)(a \<mapsto> pl)\<rparr>) s'"
  unfolding step_def heap_ok_def by (auto simp: owns_def intro: below)

lemma step_free:
  "heap_ok h \<Longrightarrow> owns h s a \<Longrightarrow> (\<And>x. \<not> owns h s' x \<or> x = a) \<Longrightarrow>
   step h s (h\<lparr>h_mem := (h_mem h)(a := None)\<rparr>) s'"
  unfolding step_def heap_ok_def by (auto simp: owns_def intro: below)

section \<open>Every operation on one string\<close>

definition room :: "nheap \<Rightarrow> NimStringV2 \<Rightarrow> int \<Rightarrow> bool" where
  "room h s n \<longleftrightarrow> (\<exists>a pl. s_p s = Some a \<and> h_mem h a = Some pl \<and> \<not> is_lit pl \<and> n \<le> cap_of pl)"

lemma rep_len: "rep t h s v \<Longrightarrow> s_len s = int (length v)"
  by (simp add: rep_def)

lemma rep_weaken: "rep t h s v \<Longrightarrow> (t' \<Longrightarrow> t) \<Longrightarrow> rep t' h s v"
  by (auto simp: rep_def holds_def split: option.splits)

lemma rep_cases:
  assumes "rep t h s v"
  obtains (nil) "s_p s = None" "v = []" "\<And>x. \<not> owns h s x"
  | (lit) a pl where "s_p s = Some a" "h_mem h a = Some pl" "is_lit pl" "holds t pl v" "\<And>x. \<not> owns h s x"
  | (own) a pl where "s_p s = Some a" "h_mem h a = Some pl" "\<not> is_lit pl" "holds t pl v" "owns h s a"
proof (cases "s_p s")
  case None
  with assms show ?thesis by (intro nil) (auto simp: rep_def owns_def)
next
  case (Some a)
  with assms obtain pl where "h_mem h a = Some pl" "holds t pl v"
    by (auto simp: rep_def split: option.splits)
  with Some show ?thesis by (cases "is_lit pl") (auto simp: owns_def intro: lit own)
qed

lemma isLiteral_rep: "rep t h s v \<Longrightarrow> isLiteral s h = Some (\<not> (\<exists>x. owns h s x))"
  by (erule rep_cases) (auto simp: isLiteral_def owns_def)

lemma owns_unique: "owns h s x \<Longrightarrow> owns h s y \<Longrightarrow> x = y"
  by (simp add: owns_def)

lemma rep_frame: "rep t h s v \<Longrightarrow> (\<And>a. s_p s = Some a \<Longrightarrow> h_mem h' a = h_mem h a) \<Longrightarrow> rep t h' s v"
  by (auto simp: rep_def split: option.splits)

lemma holds_data: "holds t pl v \<Longrightarrow> \<exists>e. pl_data pl = v @ e"
  unfolding holds_def by (metis append_take_drop_id)

lemma resize_le: "0 \<le> n \<Longrightarrow> n < 2 ^ 61 \<Longrightarrow> n \<le> resize n \<and> resize n < 2 ^ 62"
  by (auto simp: resize_def)

text \<open>A new block that holds \<open>v\<close> in front of \<open>e\<close>.\<close>

lemma holds_block:
  "length d = nat n + 1 \<Longrightarrow> 0 \<le> n \<Longrightarrow> n < 2 ^ 62 \<Longrightarrow> int (length v) \<le> n \<Longrightarrow> take (length v) d = v \<Longrightarrow>
   (t \<Longrightarrow> v \<noteq> [] \<Longrightarrow> d ! length v = Some NUL) \<Longrightarrow> holds t \<lparr>pl_cap = word_of_int n, pl_data = d\<rparr> v"
  by (auto simp: holds_def)

lemma prepareAdd_lit:
  assumes s: "rep t h s v" "\<And>x. \<not> owns h s x" and h: "heap_ok h"
    and n: "0 \<le> n" "int (length v) + n \<le> 2 ^ 61"
  shows "\<exists>s' h'. prepareAdd s n h = Some (s', h') \<and> step h s h' s' \<and> rep False h' s' v \<and>
     room h' s' (int (length v) + n)"
proof -
  define m where "m = int (length v) + n"
  have m: "0 \<le> m" "m < 2 ^ 62" "int (length v) \<le> m" using n by (simp_all add: m_def)
  have new: "h_mem h (h_next h) = None" using h by (simp add: heap_ok_def)
  have lit: "isLiteral s h = Some True" using isLiteral_rep [OF s(1)] s(2) by simp
  have len: "s_len s = int (length v)" using s(1) by (rule rep_len)
  obtain d where d: "prepareAdd s n h = Some (s\<lparr>s_p := Some (h_next h)\<rparr>,
      h\<lparr>h_mem := (h_mem h)(h_next h \<mapsto> \<lparr>pl_cap = word_of_int m, pl_data = d\<rparr>), h_next := Suc (h_next h)\<rparr>)"
      "length d = nat m + 1" "take (length v) d = v"
  proof (cases "v = []")
    case True
    then show ?thesis
      using that [of "if s_p s = None then Some NUL # replicate (nat m) None else replicate (nat m + 1) None"]
        len lit m n
      by (simp add: prepareAdd_def allocPayload_def new_payload_def set_cap_def write_data_def m_def)
  next
    case False
    obtain a pl where a: "s_p s = Some a" "h_mem h a = Some pl" "holds t pl v"
      using s(1) False by (cases rule: rep_cases) auto
    then obtain e where e: "pl_data pl = v @ e" using holds_data by blast
    have "a \<noteq> h_next h" using a(2) new by auto
    with a e False show ?thesis
      using that [of "v @ replicate (nat m + 1 - length v) None"] len lit m
      by (simp add: prepareAdd_def allocPayload_def new_payload_def set_cap_def write_data_def
          read_data_def payload_def del: replicate_Suc flip: m_def)
  qed
  moreover have "holds False \<lparr>pl_cap = word_of_int m, pl_data = d\<rparr> v"
    by (rule holds_block) (use d m in auto)
  moreover have "\<not> is_lit \<lparr>pl_cap = word_of_int m, pl_data = d\<rparr>" using m by simp
  ultimately show ?thesis
    using step_new [OF h s(2)] m len by (simp add: rep_def room_def flip: m_def)
qed

lemma payload_eq:
  "pl\<lparr>pl_cap := w, pl_data := d\<rparr> = \<lparr>pl_cap = w, pl_data = d\<rparr>" "pl\<lparr>pl_data := d, pl_cap := w\<rparr> = \<lparr>pl_cap = w, pl_data = d\<rparr>"
  by (cases pl, simp)+

lemma prepareAdd_own:
  assumes s: "rep t h s v" "owns h s a" and h: "heap_ok h"
    and n: "0 \<le> n" "int (length v) + n \<le> 2 ^ 61"
  shows "\<exists>s' h'. prepareAdd s n h = Some (s', h') \<and> step h s h' s' \<and> rep t h' s' v \<and>
     room h' s' (int (length v) + n)"
proof -
  define m where "m = int (length v) + n"
  have m: "0 \<le> m" "m \<le> 2 ^ 61" "int (length v) \<le> m" using n by (simp_all add: m_def)
  have lit: "isLiteral s h = Some False" using isLiteral_rep [OF s(1)] s(2) by auto
  have len: "s_len s = int (length v)" using s(1) by (rule rep_len)
  obtain pl where pl: "s_p s = Some a" "h_mem h a = Some pl" "\<not> is_lit pl" "holds t pl v"
    using s by (auto simp: owns_def rep_def split: option.splits)
  define c where "c = cap_of pl"
  have c: "0 \<le> c" "length (pl_data pl) = nat c + 1" "int (length v) \<le> c"
    using pl(4) by (simp_all add: holds_def c_def)
  show ?thesis
  proof (cases "c < m")
    case False
    then have "prepareAdd s n h = Some (s, h)"
      using lit pl len by (simp add: prepareAdd_def c_def m_def)
    then show ?thesis using False pl s h by (auto simp: step_refl room_def c_def m_def)
  next
    case True
    define k where "k = max m (resize c)"
    have k: "m \<le> k" "k < 2 ^ 62" "0 \<le> k" "c < k" using resize_le [of c] c m True by (auto simp: k_def)
    have new: "h_mem h (h_next h) = None" using h by (simp add: heap_ok_def)
    have a: "a \<noteq> h_next h" using pl(2) new by auto
    obtain e where e: "pl_data pl = v @ e" using pl(4) holds_data by blast
    define d where "d = take (nat (m + 1)) (pl_data pl @ replicate (nat k - nat c) None) @
        replicate (nat (k - m)) (Some NUL)"
    have ld: "length d = nat k + 1" using c k True m by (simp add: d_def)
    have dv: "take (length v) d = v" using e m by (simp add: d_def)
    have dt: "t \<Longrightarrow> v \<noteq> [] \<Longrightarrow> d ! length v = Some NUL"
    proof -
      assume "t" "v \<noteq> []"
      then have "pl_data pl ! length v = Some NUL" using pl(4) by (simp add: holds_def)
      moreover have "length v < length (pl_data pl)" "length v < nat (m + 1)" using c m True by auto
      ultimately show ?thesis by (simp add: d_def nth_append)
    qed
    have tk: "take (Suc (nat k)) (pl_data pl) = pl_data pl" using c k by simp
    have d1: "m < k \<Longrightarrow> d = pl_data pl @ replicate (nat (m + 1) - Suc (nat c)) None @ replicate (nat (k - m)) (Some NUL)"
      using c True by (simp add: d_def min_def)
    have d2: "m = k \<Longrightarrow> d = pl_data pl @ replicate (nat k - nat c) None"
      using c True by (simp add: d_def)
    let ?b = "\<lparr>pl_cap = word_of_int k, pl_data = d\<rparr>"
    have "prepareAdd s n h = Some (s\<lparr>s_p := Some (h_next h)\<rparr>,
      h\<lparr>h_mem := (h_mem h)(a := None, h_next h \<mapsto> ?b), h_next := Suc (h_next h)\<rparr>)"
      using lit pl len True a k m c ld d1 d2
      by (simp add: prepareAdd_def reallocPayload_def move_payload_def dealloc_def new_payload_def set_cap_def
          write_data_def Let_def tk payload_eq del: replicate_Suc flip: m_def c_def k_def)
    moreover have "holds t ?b v" by (rule holds_block) (use ld dv dt k m in auto)
    moreover have "\<not> is_lit ?b" using k by simp
    ultimately show ?thesis
      using step_move [OF h s(2), of ?b "s\<lparr>s_p := Some (h_next h)\<rparr>"] k len
      by (simp add: rep_def room_def flip: m_def)
  qed
qed

lemma prepareAdd_ok:
  assumes "rep t h s v" "heap_ok h" "0 \<le> n" "int (length v) + n \<le> 2 ^ 61"
  shows "\<exists>s' h'. prepareAdd s n h = Some (s', h') \<and> step h s h' s' \<and>
     rep (t \<and> (\<exists>x. owns h s x)) h' s' v \<and> room h' s' (int (length v) + n)"
  using prepareAdd_lit [of t h s v n] prepareAdd_own [of t h s v _ n] assms
  by (cases "\<exists>x. owns h s x") auto

text \<open>Writing characters and the zero behind the end of a string that has room for them.\<close>

lemma append_chars:
  assumes s: "rep t h s v" "room h s (int (length v) + int (length w))" and h: "heap_ok h" and w: "w \<noteq> []"
  obtains a h1 h2 where "s_p s = Some a" "write_data a (s_len s) w h = Some h1"
    "put_char (Some a) (s_len s + int (length w)) NUL h1 = Some h2"
    "step h s h2 (s\<lparr>s_len := s_len s + int (length w)\<rparr>)"
    "rep True h2 (s\<lparr>s_len := s_len s + int (length w)\<rparr>) (v @ w)"
    "\<And>n. room h s n \<Longrightarrow> room h2 (s\<lparr>s_len := s_len s + int (length w)\<rparr>) n"
proof -
  obtain a pl where a: "s_p s = Some a" "h_mem h a = Some pl" "\<not> is_lit pl"
      "int (length v) + int (length w) \<le> cap_of pl"
    using s(2) by (auto simp: room_def)
  have pl: "holds t pl v" and len: "s_len s = int (length v)"
    using s(1) a by (simp_all add: rep_def)
  then obtain e where e: "pl_data pl = v @ e" using holds_data by blast
  have le: "length v + length e = nat (cap_of pl) + 1" using pl e by (simp add: holds_def)
  let ?d = "v @ w @ Some NUL # drop (length w + 1) e"
  let ?h = "h\<lparr>h_mem := (h_mem h)(a \<mapsto> pl\<lparr>pl_data := ?d\<rparr>)\<rparr>"
  let ?s = "s\<lparr>s_len := s_len s + int (length w)\<rparr>"
  let ?h1 = "h\<lparr>h_mem := (h_mem h)(a \<mapsto> pl\<lparr>pl_data := v @ w @ drop (length w) e\<rparr>)\<rparr>"
  have "length w < length e" using le a(4) by simp
  then have w1: "write_data a (s_len s) w h = Some ?h1"
    using a e len by (simp add: write_data_def)
  have w2: "put_char (Some a) (s_len s + int (length w)) NUL ?h1 = Some ?h"
    using a(3) len \<open>length w < length e\<close>
    by (simp add: put_char_def write_data_def nat_add_distrib)
  have st: "step h s ?h ?s"
    by (rule step_write) (use h a in \<open>auto simp: owns_def\<close>)
  have "holds True (pl\<lparr>pl_data := ?d\<rparr>) (v @ w)"
    using pl e le a(4) by (auto simp: holds_def nth_append)
  then have "rep True ?h ?s (v @ w)" using a len by (simp add: rep_def)
  moreover have "room ?h ?s n" if "room h s n" for n
    using that a by (auto simp: room_def)
  ultimately show ?thesis using that a(1) w1 w2 st by blast
qed

lemma read_rep:
  "rep t h s v \<Longrightarrow> v \<noteq> [] \<Longrightarrow> read_data (s_p s) (int (length v)) h = Some v"
  by (erule rep_cases) (auto simp: read_data_def payload_def holds_def)

lemma appendString_ok:
  assumes s: "rep t h s v" "room h s (int (length v) + int (length w))" and src: "rep u h src w"
    and h: "heap_ok h"
  shows "\<exists>s' h'. appendString s src h = Some (s', h') \<and> step h s h' s' \<and>
     rep (t \<or> w \<noteq> []) h' s' (v @ w) \<and> (\<forall>n. room h s n \<longrightarrow> room h' s' n)"
proof (cases "w = []")
  case True
  then show ?thesis using s rep_len [OF src] h by (simp add: appendString_def step_refl)
next
  case False
  show ?thesis
  proof (rule append_chars [OF s h False], goal_cases)
    case (1 a h1 h2)
    then show ?thesis
      using rep_len [OF src] read_rep [OF src False] False by (simp add: appendString_def)
  qed
qed

lemma appendChar_ok:
  assumes s: "rep t h s v" "room h s (int (length v) + 1)" and h: "heap_ok h"
  shows "\<exists>s' h'. appendChar s c h = Some (s', h') \<and> step h s h' s' \<and>
     rep True h' s' (v @ [Some c]) \<and> (\<forall>n. room h s n \<longrightarrow> room h' s' n)"
proof -
  have "room h s (int (length v) + int (length [Some c]))" using s by simp
  from append_chars [OF s(1) this h] show ?thesis
    by (rule, simp) (auto simp: appendChar_def put_char_def)
qed

lemma string_eta [simp]: "\<lparr>s_len = s_len s, s_p = s_p s\<rparr> = s"
  by (cases s) simp

lemma cap_small_nat [simp]:
  assumes "n < 2 ^ 62"
  shows "\<not> is_lit \<lparr>pl_cap = of_nat n, pl_data = d\<rparr>" "cap_of \<lparr>pl_cap = of_nat n, pl_data = d\<rparr> = int n"
  using cap_small [of "int n" d] assms by simp_all

lemma nat_int_Suc [simp]: "nat (int n + 1) = Suc n"
  by simp

lemma step_heap_ok: "step h s h' s' \<Longrightarrow> heap_ok h'"
  by (simp add: step_def)

lemma nimAddCharV1_eq: "nimAddCharV1 s c h = do { (s, h) \<leftarrow> prepareAdd s 1 h; appendChar s c h }"
  by (simp add: nimAddCharV1_def appendChar_def)

lemma nimAddCharV1_ok:
  assumes "rep t h s v" "heap_ok h" "int (length v) + 1 \<le> 2 ^ 61"
  shows "\<exists>s' h'. nimAddCharV1 s c h = Some (s', h') \<and> step h s h' s' \<and> rep True h' s' (v @ [Some c])"
proof -
  obtain s1 h1 where 1: "prepareAdd s 1 h = Some (s1, h1)" "step h s h1 s1"
      "rep (t \<and> (\<exists>x. owns h s x)) h1 s1 v" "room h1 s1 (int (length v) + 1)"
    using prepareAdd_ok [OF assms(1,2) _ assms(3)] by auto
  obtain s2 h2 where 2: "appendChar s1 c h1 = Some (s2, h2)" "step h1 s1 h2 s2" "rep True h2 s2 (v @ [Some c])"
    using appendChar_ok [OF 1(3,4) step_heap_ok [OF 1(2)]] by blast
  show ?thesis using 1(1) 2(1,3) step_trans [OF 1(2) 2(2)] by (simp add: nimAddCharV1_eq)
qed

subsection \<open>Assignment\<close>

lemma step_share:
  "heap_ok h \<Longrightarrow> (\<And>x. \<not> owns h s x) \<Longrightarrow> (\<And>x. \<not> owns h s' x) \<Longrightarrow> step h s h s'"
  unfolding step_def heap_ok_def by (auto intro: below)

text \<open>After \<open>frees\<close> nothing the string owned is left, and every other payload is.\<close>

lemma frees_ok:
  assumes s: "rep t h s v" and h: "heap_ok h"
  obtains h' where "frees s h = Some h'" "\<And>x. \<not> owns h' s x" "heap_ok h'" "h_next h' = h_next h"
    "\<And>x. \<not> owns h s x \<Longrightarrow> h_mem h' x = h_mem h x"
    "\<And>s'. (\<And>x. \<not> owns h' s' x) \<Longrightarrow> (\<And>x. owns h s' x \<Longrightarrow> owns h s x) \<Longrightarrow> step h s h' s'"
proof (cases "\<exists>x. owns h s x")
  case False
  then show ?thesis
    using that [of h] s h isLiteral_rep [OF s] by (auto simp: frees_def intro: step_share)
next
  case True
  then obtain a pl where a: "owns h s a" "s_p s = Some a" "h_mem h a = Some pl" "\<not> is_lit pl"
    by (auto simp: owns_def)
  show ?thesis
  proof (rule that [of "h\<lparr>h_mem := (h_mem h)(a := None)\<rparr>"], goal_cases)
    case 1
    then show ?case using a True isLiteral_rep [OF s] by (simp add: frees_def dealloc_def)
  next
    case (6 s')
    then show ?case using step_free [OF h a(1)] owns_unique [OF a(1)] by blast
  qed (use a h in \<open>auto simp: owns_def heap_ok_def\<close>)
qed

lemma read_all:
  assumes "rep t h s v" "s_p s = Some a" "h_mem h a = Some pl"
  shows "read_data (s_p s) (int (length v) + 1) h = Some (take (length v + 1) (pl_data pl))"
  using assms by (auto simp: rep_def read_data_def payload_def holds_def nat_add_distrib)

lemma holds_copy:
  assumes "holds t pl v" "length e = nat n - length v" "int (length v) \<le> n" "n < 2 ^ 62"
    "cap_of pl' = n" "pl_data pl' = take (length v + 1) (pl_data pl) @ e"
  shows "holds t pl' v"
  using assms by (auto simp: holds_def nth_append)

lemma nimAsgnStrV2_ok:
  assumes a: "rep t h a v" and b: "rep t h b w" and h: "heap_ok h"
    and ab: "\<And>x. owns h a x \<Longrightarrow> owns h b x \<Longrightarrow> a = b"
    and len: "int (length w) < 2 ^ 62"
  shows "\<exists>a' h'. nimAsgnStrV2 a b h = Some (a', h') \<and> step h a h' a' \<and> rep t h' a' w"
proof (cases "s_p a = s_p b \<and> s_len a = s_len b")
  case True
  then show ?thesis using h b by (auto simp: nimAsgnStrV2_def step_refl rep_def)
next
  case ne: False
  have lens: "s_len a = int (length v)" "s_len b = int (length w)" using a b by (simp_all add: rep_len)
  obtain h1 where f: "frees a h = Some h1" "\<And>x. \<not> owns h1 a x" "heap_ok h1" "h_next h1 = h_next h"
    "\<And>x. \<not> owns h a x \<Longrightarrow> h_mem h1 x = h_mem h x"
    "\<And>s'. (\<And>x. \<not> owns h1 s' x) \<Longrightarrow> (\<And>x. owns h s' x \<Longrightarrow> owns h a x) \<Longrightarrow> step h a h1 s'"
    using frees_ok [OF a h] by metis
  show ?thesis
  proof (cases "\<exists>y. owns h b y")
    case False
    have nb: "\<not> owns h a x" if "s_p b = Some x" for x
      using that False b by (auto simp: owns_def)
    then have "rep t h1 b w" using rep_frame [OF b, of h1] f(5) by blast
    moreover have "\<not> owns h1 b x" for x using False nb [of x] f(5) [of x] by (auto simp: owns_def)
    then have "step h a h1 b" using f(6) [of b] False by blast
    ultimately show ?thesis
      using ne isLiteral_rep [OF b] False f(1) by (auto simp: nimAsgnStrV2_def)
  next
    case True
    then obtain y pl where y: "owns h b y" "s_p b = Some y" "h_mem h y = Some pl" "\<not> is_lit pl"
      by (auto simp: owns_def)
    have pl: "holds t pl w" using b y by (simp add: rep_def)
    have lp: "length w + 1 \<le> length (pl_data pl)" using pl unfolding holds_def by linarith
    have nay: "\<not> owns h a y" using ab y(1) ne by blast
    have lb: "isLiteral b h = Some False" using isLiteral_rep [OF b] y(1) by auto
    let ?d = "take (length w + 1) (pl_data pl)"
    show ?thesis
    proof (cases "\<exists>x q. owns h a x \<and> h_mem h x = Some q \<and> int (length w) \<le> cap_of q")
      case True
      then obtain x q where x: "owns h a x" "h_mem h x = Some q" "int (length w) \<le> cap_of q" "s_p a = Some x" "\<not> is_lit q"
        by (auto simp: owns_def)
      have q: "holds t q v" using a x by (simp add: rep_def)
      let ?q = "q\<lparr>pl_data := ?d @ drop (length w + 1) (pl_data q)\<rparr>"
      have "nimAsgnStrV2 a b h = Some (a\<lparr>s_len := s_len b\<rparr>, h\<lparr>h_mem := (h_mem h)(x \<mapsto> ?q)\<rparr>)"
        using ne isLiteral_rep [OF a] isLiteral_rep [OF b] x y lens read_all [OF b y(2,3)] lp q
        by (auto simp: nimAsgnStrV2_def payload_def write_data_def holds_def)
      moreover have "holds t ?q w"
        by (rule holds_copy [OF pl]) (use q x lp in \<open>auto simp: holds_def\<close>)
      ultimately show ?thesis
        using step_write [OF h x(1), of ?q "a\<lparr>s_len := s_len b\<rparr>"] x lens by (simp add: rep_def)
    next
      case False
      let ?q = "\<lparr>pl_cap = word_of_int (int (length w)), pl_data = ?d\<rparr>"
      let ?h = "h1\<lparr>h_mem := (h_mem h1)(h_next h \<mapsto> ?q), h_next := Suc (h_next h)\<rparr>"
      have y1: "h_mem h1 y = Some pl" using f(5) [OF nay] y by simp
      then have "y \<noteq> h_next h" using f(3,4) by (auto simp: heap_ok_def)
      obtain l where la: "isLiteral a h = Some l" and
        small: "(if l then Some True else do { pl \<leftarrow> payload (s_p a) h; Some (cap_of pl < s_len b) }) = Some True"
      proof (cases "\<exists>x. owns h a x")
        case True
        then obtain x q where "owns h a x" "s_p a = Some x" "h_mem h x = Some q" by (auto simp: owns_def)
        moreover from this have "cap_of q < int (length w)" using False by force
        ultimately show ?thesis using that [of False] lens isLiteral_rep [OF a] True by (simp add: payload_def)
      next
        case False
        then show ?thesis using that [of True] isLiteral_rep [OF a] by simp
      qed
      have "nimAsgnStrV2 a b h = Some (a\<lparr>s_len := s_len b, s_p := Some (h_next h)\<rparr>, ?h)"
        by (simp only: nimAsgnStrV2_def if_not_P [OF ne] la lb small bind.bind_lunit if_False if_True)
          (use y y1 lens lp len f(1,4) \<open>y \<noteq> h_next h\<close> in \<open>simp add: payload_def write_data_def read_data_def allocPayload_def new_payload_def set_cap_def\<close>)
      moreover have "holds t ?q w"
        by (rule holds_copy [OF pl]) (use len lp in \<open>auto simp: holds_def\<close>)
      moreover have "step h1 a ?h (a\<lparr>s_len := s_len b, s_p := Some (h_next h)\<rparr>)"
        using step_new [OF f(3,2), of ?q "a\<lparr>s_len := s_len b, s_p := Some (h_next h)\<rparr>"] len f(4) by simp
      with f(6) [OF f(2)] have "step h a ?h (a\<lparr>s_len := s_len b, s_p := Some (h_next h)\<rparr>)"
        by (blast intro: step_trans)
      ultimately show ?thesis using lens by (simp add: rep_def)
    qed
  qed
qed

subsection \<open>Copy on write and changes of the length\<close>

lemma rep_small: "rep t h s v \<Longrightarrow> int (length v) < 2 ^ 62"
  by (erule rep_cases) (auto simp: holds_def)

lemma nimPrepareStrMutationV2_ok:
  assumes s: "rep t h s v" and h: "heap_ok h"
  shows "\<exists>s' h'. nimPrepareStrMutationV2 s h = Some (s', h') \<and> step h s h' s' \<and> rep t h' s' v \<and>
     (s_p s' = None \<or> (\<exists>x. owns h' s' x))"
  using s
proof (cases rule: rep_cases)
  case nil
  then show ?thesis using s h by (simp add: nimPrepareStrMutationV2_def step_refl)
next
  case (own a pl)
  then show ?thesis using s h by (auto simp: nimPrepareStrMutationV2_def intro: step_refl)
next
  case (lit a pl)
  have len: "s_len s = int (length v)" "int (length v) < 2 ^ 62" using rep_len [OF s] rep_small [OF s] .
  have lp: "length v + 1 \<le> length (pl_data pl)" using lit(4) unfolding holds_def by linarith
  have "a \<noteq> h_next h" using lit(2) h by (auto simp: heap_ok_def)
  let ?q = "\<lparr>pl_cap = word_of_int (int (length v)), pl_data = take (length v + 1) (pl_data pl)\<rparr>"
  let ?s = "s\<lparr>s_p := Some (h_next h)\<rparr>"
  have "nimPrepareStrMutationV2 s h =
      Some (?s, h\<lparr>h_mem := (h_mem h)(h_next h \<mapsto> ?q), h_next := Suc (h_next h)\<rparr>)"
    using lit(1-3) len lp \<open>a \<noteq> h_next h\<close>
    by (simp add: nimPrepareStrMutationV2_def nimPrepareStrMutationImpl_def payload_def write_data_def read_data_def
        allocPayload_def new_payload_def set_cap_def)
  moreover have "holds t ?q v"
    by (rule holds_copy [OF lit(4)]) (use len lp in \<open>auto simp: holds_def\<close>)
  moreover have "step h s (h\<lparr>h_mem := (h_mem h)(h_next h \<mapsto> ?q), h_next := Suc (h_next h)\<rparr>) ?s"
    by (rule step_new) (use h lit(5) len in auto)
  ultimately show ?thesis using len by (simp add: rep_def owns_def)
qed

text \<open>A write of the terminator at the new length.\<close>

lemma set_end:
  assumes "h_mem h a = Some pl" "\<not> is_lit pl" "owns h s a" and h: "heap_ok h"
    and c: "0 \<le> cap_of pl" "cap_of pl < 2 ^ 62" "length (pl_data pl) = nat (cap_of pl) + 1"
    and n: "0 \<le> n" "n \<le> cap_of pl"
  obtains h' where "put_char (Some a) n NUL h = Some h'" "step h s h' (s\<lparr>s_len := n\<rparr>)"
    "rep True h' (s\<lparr>s_len := n\<rparr>) (take (nat n) (pl_data pl))"
proof
  have a: "s_p s = Some a" using assms by (simp add: owns_def)
  let ?pl = "pl\<lparr>pl_data := take (nat n) (pl_data pl) @ Some NUL # drop (nat n + 1) (pl_data pl)\<rparr>"
  let ?h = "h\<lparr>h_mem := (h_mem h)(a \<mapsto> ?pl)\<rparr>"
  show "put_char (Some a) n NUL h = Some ?h"
    using assms by (simp add: put_char_def write_data_def)
  show "step h s ?h (s\<lparr>s_len := n\<rparr>)" by (rule step_write) (use assms a in auto)
  have le: "nat n < length (pl_data pl)" using c n by simp
  have "holds True ?pl (take (nat n) (pl_data pl))"
    using c n le by (auto simp: holds_def nth_append)
  then show "rep True ?h (s\<lparr>s_len := n\<rparr>) (take (nat n) (pl_data pl))"
    using a n le by (simp add: rep_def)
qed

text \<open>The contents after a change of the length: what was there, then \<open>e\<close>, which is all zeros when the
  string was a literal or had no payload.\<close>

definition resized :: "bool \<Rightarrow> char option list \<Rightarrow> int \<Rightarrow> char option list \<Rightarrow> bool" where
  "resized z v n v' \<longleftrightarrow>
     length v' = nat n \<and> take (length v) v' = take (nat n) v \<and>
     (z \<longrightarrow> drop (length v) v' = replicate (nat n - length v) (Some NUL))"

lemma resized_take: "nat n \<le> length v + length e \<Longrightarrow> resized False v n (take (nat n) (v @ e))"
  by (cases "nat n \<le> length v") (auto simp: resized_def)

lemma setLengthStrV2_lit:
  assumes s: "rep t h s v" "\<And>x. \<not> owns h s x" and h: "heap_ok h" and n: "0 < n" "n < 2 ^ 62"
  shows "\<exists>s' h' v'. setLengthStrV2 s n h = Some (s', h') \<and> step h s h' s' \<and> rep True h' s' v' \<and>
     resized True v n v'"
proof -
  have lit: "isLiteral s h = Some True" using isLiteral_rep [OF s(1)] s(2) by simp
  have len: "s_len s = int (length v)" using s(1) by (rule rep_len)
  define v' where "v' = take (nat n) v @ replicate (nat n - length v) (Some NUL)"
  have v': "length v' = nat n" "resized True v n v'" by (auto simp: v'_def resized_def min_def)
  let ?q = "\<lparr>pl_cap = word_of_int n, pl_data = v' @ [Some NUL]\<rparr>"
  let ?h = "h\<lparr>h_mem := (h_mem h)(h_next h \<mapsto> ?q), h_next := Suc (h_next h)\<rparr>"
  let ?s = "s\<lparr>s_len := n, s_p := Some (h_next h)\<rparr>"
  have "setLengthStrV2 s n h = Some (?s, ?h)"
  proof (cases "v = []")
    case True
    then show ?thesis using lit len n
      by (simp add: v'_def setLengthStrV2_def allocPayload_def new_payload_def set_cap_def write_data_def put_char_def
          nat_add_distrib del: replicate_Suc)
  next
    case False
    obtain a pl where a: "s_p s = Some a" "h_mem h a = Some pl" "holds t pl v"
      using s(1) False by (cases rule: rep_cases) auto
    then obtain e where e: "pl_data pl = v @ e" using holds_data by blast
    have "a \<noteq> h_next h" using a(2) h by (auto simp: heap_ok_def)
    then show ?thesis using lit len n a e False
      by (simp add: v'_def setLengthStrV2_def allocPayload_def new_payload_def set_cap_def write_data_def put_char_def
          read_data_def payload_def nat_add_distrib del: replicate_Suc) auto
  qed
  moreover have "holds True ?q v'"
    by (rule holds_block) (use n v'(1) nth_append_length [of v' "Some NUL" "[]"] in auto)
  moreover have "step h s ?h ?s" by (rule step_new) (use h s n in auto)
  moreover have "n = int (length v')" using v'(1) n by simp
  ultimately show ?thesis using v'(2) by (auto simp: rep_def)
qed

lemma setLengthStrV2_own:
  assumes s: "rep t h s v" "owns h s a" and h: "heap_ok h" and n: "0 < n" "n \<le> 2 ^ 61"
  shows "\<exists>s' h' v'. setLengthStrV2 s n h = Some (s', h') \<and> step h s h' s' \<and> rep True h' s' v' \<and>
     resized False v n v'"
proof -
  have lit: "isLiteral s h = Some False" using isLiteral_rep [OF s(1)] s(2) by auto
  have len: "s_len s = int (length v)" using s(1) by (rule rep_len)
  obtain pl where pl: "s_p s = Some a" "h_mem h a = Some pl" "\<not> is_lit pl" "holds t pl v"
    using s by (auto simp: owns_def rep_def split: option.splits)
  define c where "c = cap_of pl"
  have c: "0 \<le> c" "c < 2 ^ 62" "length (pl_data pl) = nat c + 1" "int (length v) \<le> c"
    using pl(4) by (simp_all add: holds_def c_def)
  obtain e where e: "pl_data pl = v @ e" using pl(4) holds_data by blast
  show ?thesis
  proof (cases "n \<le> c")
    case True
    obtain h' where "put_char (Some a) n NUL h = Some h'" "step h s h' (s\<lparr>s_len := n\<rparr>)"
      "rep True h' (s\<lparr>s_len := n\<rparr>) (take (nat n) (pl_data pl))"
      using set_end [OF pl(2,3) s(2) h, of n] c True n by (auto simp: c_def)
    moreover have "resized False v n (take (nat n) (pl_data pl))"
      unfolding e by (rule resized_take) (use c(3) True n in \<open>simp add: e\<close>)
    ultimately show ?thesis
      using lit pl True n by (auto simp: setLengthStrV2_def c_def)
  next
    case False
    define k where "k = max n (resize c)"
    have k: "n \<le> k" "k < 2 ^ 62" "0 \<le> k" "c < k" using resize_le [of c] c n False by (auto simp: k_def)
    let ?q = "\<lparr>pl_cap = word_of_int k, pl_data = pl_data pl @ replicate (nat k - nat c) (Some NUL)\<rparr>"
    let ?h = "h\<lparr>h_mem := (h_mem h)(a := None, h_next h \<mapsto> ?q), h_next := Suc (h_next h)\<rparr>"
    let ?s = "s\<lparr>s_p := Some (h_next h)\<rparr>"
    have tk: "take (Suc (nat k)) (pl_data pl) = pl_data pl" using c k by simp
    have "a \<noteq> h_next h" using pl(2) h by (auto simp: heap_ok_def)
    have re: "do { (b, h) \<leftarrow> reallocPayload0 a c k h; h \<leftarrow> set_cap b k h; Some (s\<lparr>s_p := Some b\<rparr>, h) } = Some (?s, ?h)"
      using pl \<open>a \<noteq> h_next h\<close> c k
      by (simp add: reallocPayload0_def move_payload_def dealloc_def new_payload_def set_cap_def Let_def tk payload_eq
          del: replicate_Suc)
    have st: "step h s ?h ?s" by (rule step_move [OF h s(2)]) (use k in auto)
    obtain h' where p: "put_char (Some (h_next h)) n NUL ?h = Some h'" "step ?h ?s h' (?s\<lparr>s_len := n\<rparr>)"
      "rep True h' (?s\<lparr>s_len := n\<rparr>) (take (nat n) (pl_data ?q))"
      by (rule set_end [of ?h "h_next h" ?q ?s n]) (use st k c n in \<open>auto simp: owns_def step_def\<close>)
    have "resized False v n (take (nat n) (pl_data ?q))"
      unfolding e NimStrPayload.simps append_assoc by (rule resized_take) (use c(3) k n False in \<open>simp add: e\<close>)
    moreover have "setLengthStrV2 s n h = Some (?s\<lparr>s_len := n\<rparr>, h')"
      using lit pl len False c n re p(1) by (simp add: setLengthStrV2_def flip: c_def k_def)
    ultimately show ?thesis using p(3) step_trans [OF st p(2)] by blast
  qed
qed

lemma setLengthStrV2_ok:
  assumes s: "rep t h s v" and h: "heap_ok h" and n: "0 \<le> n" "n \<le> 2 ^ 61"
  shows "\<exists>s' h' v'. setLengthStrV2 s n h = Some (s', h') \<and> step h s h' s' \<and> rep True h' s' v' \<and>
     resized (\<forall>x. \<not> owns h s x) v n v'"
proof (cases "n = 0")
  case True
  have "rep True h (s\<lparr>s_len := 0\<rparr>) []" using s by (auto simp: rep_def holds_def split: option.splits)
  moreover have "step h s h (s\<lparr>s_len := 0\<rparr>)" by (rule step_same [OF h]) simp
  ultimately show ?thesis using True by (auto simp: setLengthStrV2_def resized_def)
next
  case False
  show ?thesis
  proof (cases "\<exists>x. owns h s x")
    case True
    then obtain a where "owns h s a" by blast
    moreover have e: "(\<forall>x. \<not> owns h s x) = False" using True by blast
    ultimately show ?thesis unfolding e using setLengthStrV2_own [OF s _ h, of a n] n \<open>n \<noteq> 0\<close> by simp
  next
    case False
    then show ?thesis using setLengthStrV2_lit [OF s _ h, of n] n \<open>n \<noteq> 0\<close> by simp
  qed
qed

lemma takeWhile_Some:
  "takeWhile (\<lambda>c. c \<noteq> Some NUL) (map Some v @ Some NUL # d) = map Some (takeWhile (\<lambda>c. c \<noteq> NUL) v)"
  by (induction v) simp_all

lemma nimToCStringConv_ok:
  assumes s: "rep True h s (map Some v)"
  shows "nimToCStringConv s h = Some (takeWhile (\<lambda>c. c \<noteq> NUL) v)"
proof (cases "v = []")
  case True
  then show ?thesis using rep_len [OF s] by (simp add: nimToCStringConv_def)
next
  case False
  then obtain a pl where a: "s_p s = Some a" "h_mem h a = Some pl" "holds True pl (map Some v)"
    using s by (auto elim: rep_cases)
  let ?P = "\<lambda>c. c \<noteq> Some NUL"
  have lv: "length v < length (pl_data pl)" using a(3) by (auto simp: holds_def)
  have d: "pl_data pl = map Some v @ Some NUL # drop (Suc (length v)) (pl_data pl)"
    using id_take_nth_drop [OF lv] a(3) False by (simp add: holds_def)
  have tw: "takeWhile ?P (pl_data pl) = map Some (takeWhile (\<lambda>c. c \<noteq> NUL) v)"
    by (subst d) (rule takeWhile_Some)
  have "length (takeWhile (\<lambda>c. c \<noteq> NUL) v) \<le> length v" by (rule length_takeWhile_le)
  then show ?thesis
    using lv a False rep_len [OF s] by (simp add: nimToCStringConv_def payload_def tw comp_def)
qed

lemma rep_alloc: "rep t h s v \<Longrightarrow> s_p s = Some a \<Longrightarrow> \<exists>pl. h_mem h a = Some pl"
  by (auto simp: rep_def split: option.splits)

subsection \<open>New strings and moves\<close>

lemma nil_owns [simp]: "\<not> owns h nil_str x"
  by (simp add: owns_def nil_str_def)

lemma rep_nil: "rep t h nil_str []"
  by (simp add: rep_def nil_str_def)

lemma heap_swap: "h\<lparr>h_next := n, h_mem := m\<rparr> = h\<lparr>h_mem := m, h_next := n\<rparr>"
  by simp

text \<open>Creating a string leaves every other string alone.\<close>

lemma rep_step_nil: "rep t h s v \<Longrightarrow> heap_ok h \<Longrightarrow> step h nil_str h' r \<Longrightarrow> rep t h' s v"
proof (rule rep_frame)
  fix a assume "rep t h s v" "heap_ok h" "step h nil_str h' r" "s_p s = Some a"
  moreover from this obtain pl where "h_mem h a = Some pl" using rep_alloc by blast
  ultimately show "h_mem h' a = h_mem h a" using heap_okD by (simp add: step_def)
qed

lemma new_string:
  assumes "heap_ok h" "0 \<le> n" "n < 2 ^ 62" "length d = nat n + 1" "int (length v) \<le> n" "take (length v) d = v"
    "v \<noteq> [] \<Longrightarrow> d ! length v = Some NUL"
  shows "step h nil_str (h\<lparr>h_mem := (h_mem h)(h_next h \<mapsto> \<lparr>pl_cap = word_of_int n, pl_data = d\<rparr>), h_next := Suc (h_next h)\<rparr>)
      \<lparr>s_len = int (length v), s_p = Some (h_next h)\<rparr> \<and>
    rep True (h\<lparr>h_mem := (h_mem h)(h_next h \<mapsto> \<lparr>pl_cap = word_of_int n, pl_data = d\<rparr>), h_next := Suc (h_next h)\<rparr>)
      \<lparr>s_len = int (length v), s_p = Some (h_next h)\<rparr> v"
  using assms holds_block [of d n v True] by (auto simp: rep_def intro: step_new)

lemma cstrToNimstr_ok:
  assumes h: "heap_ok h" and s: "is_c_string s" "length s \<le> 2 ^ 61"
  shows "\<exists>r h'. cstrToNimstr (Some (s @ NUL # t)) h = Some (r, h') \<and> step h nil_str h' r \<and> rep True h' r (map Some s)"
proof (cases "s = []")
  case True
  then show ?thesis
    using h rep_nil c_str_append_NUL [of "[]" t] by (simp add: cstrToNimstr_def strlen_def toNimStr_def step_refl)
next
  case False
  have n: "int (length s) < 2 ^ 62" using s(2) by simp
  show ?thesis
    using new_string [OF h _ n, of "map Some s @ [Some NUL]" "map Some s"] s False n
      nth_append_length [of "map Some s" "Some NUL" "[]"]
    by (simp add: cstrToNimstr_def strlen_def toNimStr_def allocPayload_def new_payload_def set_cap_def write_data_def heap_swap)
qed

lemma mnewString_ok:
  assumes h: "heap_ok h" and n: "n < 2 ^ 62"
  shows "\<exists>r h'. mnewString n h = Some (r, h') \<and> step h nil_str h' r \<and> rep True h' r (map Some (replicate (nat n) NUL))"
proof (cases "n \<le> 0")
  case True
  then show ?thesis using h rep_nil by (simp add: mnewString_def step_refl)
next
  case False
  then show ?thesis
    using new_string [OF h _ n, of "replicate (nat n + 1) (Some NUL)" "replicate (nat n) (Some NUL)"] n
    by (simp add: mnewString_def allocPayload0_def new_payload_def set_cap_def heap_swap
        del: replicate_Suc)
qed

lemma rawNewString_ok:
  assumes h: "heap_ok h" and n: "n < 2 ^ 62"
  shows "\<exists>r h'. rawNewString n h = Some (r, h') \<and> step h nil_str h' r \<and> rep True h' r [] \<and>
    (0 < n \<longrightarrow> room h' r n)"
proof (cases "n \<le> 0")
  case True
  then show ?thesis using h rep_nil by (simp add: rawNewString_def step_refl)
next
  case False
  then show ?thesis
    using new_string [OF h _ n, of "Some NUL # replicate (nat n) None" "[]"] n
    by (simp add: rawNewString_def allocPayload_def new_payload_def set_cap_def write_data_def room_def heap_swap)
qed

text \<open>A string that was just created is moved into a variable.\<close>

lemma genMove_new:
  assumes a: "rep t h a v" and h: "heap_ok h" and r: "step h nil_str h1 r" "rep u h1 r w"
  shows "\<exists>s' h'. genMove a r h1 = Some (s', h') \<and> step h a h' s' \<and> rep u h' s' w"
proof -
  have a1: "rep t h1 a v" by (rule rep_step_nil [OF a h r(1)])
  have new: "h_next h \<le> x" if "owns h1 r x" for x using r(1) that by (simp add: step_def)
  have frame: "h_mem h1 x = h_mem h x" if "x < h_next h" for x using r(1) that by (simp add: step_def)
  have keep: "owns h1 r x \<or> x < h_next h" if "h_mem h1 x = Some pl" "\<not> is_lit pl" for x pl
    using r(1) that unfolding step_def by blast
  show ?thesis
  proof (cases "\<exists>x. owns h a x")
    case True
    then obtain x pl where x: "owns h a x" "s_p a = Some x" "h_mem h x = Some pl" "\<not> is_lit pl"
      by (auto simp: owns_def)
    have less: "x < h_next h" by (rule heap_okD [OF h x(3)])
    have x1: "h_mem h1 x = Some pl" using frame [OF less] x by simp
    have ne: "s_p r \<noteq> Some x" using new [of x] x1 x(4) less by (auto simp: owns_def)
    let ?h = "h1\<lparr>h_mem := (h_mem h1)(x := None)\<rparr>"
    have "frees a h1 = Some ?h" using x(2,4) x1 by (simp add: frees_def isLiteral_def dealloc_def)
    moreover have "rep u ?h r w" by (rule rep_frame [OF r(2)]) (use ne in auto)
    moreover have "step h a ?h r"
    proof -
      have xr: "\<not> owns h1 r x" using ne by (simp add: owns_def)
      have own: "owns ?h r y \<longleftrightarrow> owns h1 r y" for y using ne by (auto simp: owns_def)
      show ?thesis
        unfolding step_def own
      proof (intro conjI allI impI, goal_cases)
        case 1
        show ?case using step_heap_ok [OF r(1)] by (simp add: heap_ok_def)
      next
        case 2
        show ?case using r(1) by (simp add: step_def)
      next
        case (3 y)
        then have "y \<noteq> x" using x(1) by blast
        then show ?case using frame [OF 3(1)] by simp
      next
        case (4 y)
        then show ?case using new by blast
      next
        case (5 y pl)
        then have "y \<noteq> x" "h_mem h1 y = Some pl" by (simp_all split: if_splits)
        then show ?case using keep [of y pl] 5(2) owns_unique [OF x(1), of y] by blast
      qed
    qed
    ultimately show ?thesis using ne x(2) by (auto simp: genMove_def)
  next
    case False
    have "\<not> owns h1 a x" for x
    proof
      assume "owns h1 a x"
      then have "s_p a = Some x" "\<exists>pl. h_mem h1 x = Some pl \<and> \<not> is_lit pl" by (auto simp: owns_def)
      moreover from this have "x < h_next h" using rep_alloc [OF a] heap_okD [OF h] by blast
      ultimately have "owns h a x" using frame by (auto simp: owns_def)
      with False show False by blast
    qed
    then have "isLiteral a h1 = Some True" using isLiteral_rep [OF a1] by simp
    then have "genMove a r h1 = Some (r, h1)" by (simp add: genMove_def frees_def)
    moreover have "step h a h1 r" using r(1) False by (simp add: step_def)
    ultimately show ?thesis using r(2) by blast
  qed
qed

text \<open>A move from a variable: the source gives up its payload.\<close>

lemma genMove_var:
  assumes a: "rep t h a v" and h: "heap_ok h" and ab: "\<And>x. owns h a x \<Longrightarrow> \<not> owns h b x"
  obtains h' where "genMove a b h = Some (b, h')" "heap_ok h'" "h_next h' = h_next h"
    "\<And>x. \<not> owns h a x \<Longrightarrow> h_mem h' x = h_mem h x" "\<And>x. owns h a x \<Longrightarrow> h_mem h' x = None"
proof (cases "\<exists>x. owns h a x")
  case False
  then have "genMove a b h = Some (b, h)" using isLiteral_rep [OF a] by (simp add: genMove_def frees_def)
  then show ?thesis using that [of h] h False by blast
next
  case True
  then obtain x pl where x: "owns h a x" "s_p a = Some x" "h_mem h x = Some pl" "\<not> is_lit pl"
    by (auto simp: owns_def)
  let ?h = "h\<lparr>h_mem := (h_mem h)(x := None)\<rparr>"
  have "s_p b \<noteq> Some x" using ab [OF x(1)] x by (auto simp: owns_def)
  then have g: "genMove a b h = Some (b, ?h)"
    using x by (auto simp: genMove_def frees_def isLiteral_def dealloc_def)
  show ?thesis
  proof (rule that [OF g], goal_cases)
    case (4 y)
    then show ?case using owns_unique [OF x(1)] by auto
  qed (use h x(1) in \<open>auto simp: heap_ok_def\<close>)
qed

lemma room_capacity: "room h s n \<Longrightarrow> \<exists>c. capacity s h = Some c \<and> n \<le> c"
  by (auto simp: room_def capacity_def)

section \<open>Programs with several strings\<close>

text \<open>The variables of a program and the heap; a variable that was never assigned is nil.\<close>

record senv =
  e_vars :: "nat \<Rightarrow> NimStringV2"
  e_heap :: nheap

datatype part = PChar char | PStr nat

definition on_var :: "nat \<Rightarrow> (NimStringV2 \<Rightarrow> nheap \<Rightarrow> (NimStringV2 \<times> nheap) option) \<Rightarrow> senv \<Rightarrow> senv option" where
  "on_var i f e = do {
     (s, h) \<leftarrow> f (e_vars e i) (e_heap e);
     Some \<lparr>e_vars = (e_vars e)(i := s), e_heap = h\<rparr>
   }"

text \<open>What the compiler emits for \<open>s.add(a, b, ...)\<close>: room for all parts, then the parts.\<close>

fun part_len :: "senv \<Rightarrow> part \<Rightarrow> int" where
  "part_len e (PChar c) = 1"
| "part_len e (PStr j) = s_len (e_vars e j)"

fun append_parts :: "nat \<Rightarrow> part list \<Rightarrow> senv \<Rightarrow> senv option" where
  "append_parts i [] e = Some e"
| "append_parts i (PChar c # ps) e = do { e \<leftarrow> on_var i (\<lambda>s. appendChar s c) e; append_parts i ps e }"
| "append_parts i (PStr j # ps) e = do { e \<leftarrow> on_var i (\<lambda>s. appendString s (e_vars e j)) e; append_parts i ps e }"

definition genStrAppend :: "nat \<Rightarrow> part list \<Rightarrow> senv \<Rightarrow> senv option" where
  "genStrAppend i ps e = do {
     e \<leftarrow> on_var i (\<lambda>s. prepareAdd s (sum_list (map (part_len e) ps))) e;
     append_parts i ps e
   }"

text \<open>\<open>s = a & b & ...\<close>: a new string with room for all parts, the parts, and a move.\<close>

fun concat_parts :: "(nat \<Rightarrow> NimStringV2) \<Rightarrow> part list \<Rightarrow> NimStringV2 \<Rightarrow> nheap \<Rightarrow> (NimStringV2 \<times> nheap) option" where
  "concat_parts vars [] tmp h = Some (tmp, h)"
| "concat_parts vars (PChar c # ps) tmp h = do { (tmp, h) \<leftarrow> appendChar tmp c h; concat_parts vars ps tmp h }"
| "concat_parts vars (PStr j # ps) tmp h = do { (tmp, h) \<leftarrow> appendString tmp (vars j) h; concat_parts vars ps tmp h }"

definition genStrConcat :: "nat \<Rightarrow> part list \<Rightarrow> senv \<Rightarrow> senv option" where
  "genStrConcat i ps e = on_var i (\<lambda>s h. do {
     (tmp, h) \<leftarrow> rawNewString (sum_list (map (part_len e) ps)) h;
     (tmp, h) \<leftarrow> concat_parts (e_vars e) ps tmp h;
     genMove s tmp h
   }) e"

text \<open>\<open>x = move y\<close>: the source is nil afterwards.\<close>

definition move_var :: "nat \<Rightarrow> nat \<Rightarrow> senv \<Rightarrow> senv option" where
  "move_var i j e = do {
     (s, h) \<leftarrow> genMove (e_vars e i) (e_vars e j) (e_heap e);
     Some \<lparr>e_vars = (e_vars e)(i := s, j := nil_str), e_heap = h\<rparr>
   }"

datatype sop =
  AddChar nat char | Append nat "part list" | Concat nat "part list" | Assign nat nat | Move nat nat
| Literal nat nat | FromCString nat string | NewString nat int | NewStringOfCap nat int
| SetLen nat int | PrepareMutation nat | Destroy nat

definition literal :: "string list \<Rightarrow> nat \<Rightarrow> NimStringV2" where
  "literal lits k = \<lparr>s_len = int (length (lits ! k)), s_p = Some k\<rparr>"

fun run_op :: "string list \<Rightarrow> sop \<Rightarrow> senv \<Rightarrow> senv option" where
  "run_op lits (AddChar i c) e = on_var i (\<lambda>s. nimAddCharV1 s c) e"
| "run_op lits (Append i ps) e = genStrAppend i ps e"
| "run_op lits (Concat i ps) e = genStrConcat i ps e"
| "run_op lits (Move i j) e = move_var i j e"
| "run_op lits (FromCString i cs) e =
     on_var i (\<lambda>s h. do { (r, h) \<leftarrow> cstrToNimstr (Some (cs @ [NUL])) h; genMove s r h }) e"
| "run_op lits (NewString i n) e = on_var i (\<lambda>s h. do { (r, h) \<leftarrow> mnewString n h; genMove s r h }) e"
| "run_op lits (NewStringOfCap i n) e = on_var i (\<lambda>s h. do { (r, h) \<leftarrow> rawNewString n h; genMove s r h }) e"
| "run_op lits (Assign i j) e = on_var i (\<lambda>a. nimAsgnStrV2 a (e_vars e j)) e"
| "run_op lits (Literal i k) e = on_var i (\<lambda>a. nimAsgnStrV2 a (literal lits k)) e"
| "run_op lits (SetLen i n) e = on_var i (\<lambda>s. setLengthStrV2 s n) e"
| "run_op lits (PrepareMutation i) e = on_var i nimPrepareStrMutationV2 e"
| "run_op lits (Destroy i) e = on_var i (\<lambda>s h. do { h \<leftarrow> nimDestroyStrV1 s h; Some (nil_str, h) }) e"

abbreviation run_ops :: "string list \<Rightarrow> sop list \<Rightarrow> senv \<Rightarrow> senv option" where
  "run_ops lits \<equiv> each (run_op lits)"

text \<open>The program starts with its literals in memory and every variable nil.\<close>

definition start :: "string list \<Rightarrow> senv" where
  "start lits = \<lparr>e_vars = (\<lambda>_. nil_str),
     e_heap = \<lparr>h_mem = (\<lambda>k. if k < length lits then Some (literal_payload (lits ! k)) else None),
               h_next = length lits\<rparr>\<rparr>"

text \<open>What the same program does to plain values.  None leaves out what the properties do not
  speak of: texts of more than \<open>2^61\<close> characters; an append to a string that is also one of its parts, other
  than the first, where the code emits calls that take the text as it has grown; a length that grows,
  where old text may show; a move of a variable to itself; and where \<open>t\<close> is true an append of nothing.\<close>

fun part_val :: "(nat \<Rightarrow> string) \<Rightarrow> part \<Rightarrow> string" where
  "part_val vs (PChar c) = [c]"
| "part_val vs (PStr j) = vs j"

fun spec_op :: "bool \<Rightarrow> string list \<Rightarrow> sop \<Rightarrow> (nat \<Rightarrow> string) \<Rightarrow> (nat \<Rightarrow> string) option" where
  "spec_op t lits (AddChar i c) vs =
     (if length (vs i) < 2 ^ 61 then Some (vs(i := vs i @ [c])) else None)"
| "spec_op t lits (Append i ps) vs =
     (let w = concat (map (part_val vs) ps) in
      if length (vs i) + length w \<le> 2 ^ 61 \<and> PStr i \<notin> set (tl ps) \<and> (t \<longrightarrow> w \<noteq> []) then Some (vs(i := vs i @ w)) else None)"
| "spec_op t lits (Concat i ps) vs =
     (let w = concat (map (part_val vs) ps) in if length w \<le> 2 ^ 61 then Some (vs(i := w)) else None)"
| "spec_op t lits (Move i j) vs = (if i \<noteq> j then Some (vs(i := vs j, j := [])) else None)"
| "spec_op t lits (FromCString i cs) vs =
     (if is_c_string cs \<and> length cs \<le> 2 ^ 61 then Some (vs(i := cs)) else None)"
| "spec_op t lits (NewString i n) vs = (if n \<le> 2 ^ 61 then Some (vs(i := replicate (nat n) NUL)) else None)"
| "spec_op t lits (NewStringOfCap i n) vs = (if n \<le> 2 ^ 61 then Some (vs(i := [])) else None)"
| "spec_op t lits (Assign i j) vs = Some (vs(i := vs j))"
| "spec_op t lits (Literal i k) vs = (if k < length lits then Some (vs(i := lits ! k)) else None)"
| "spec_op t lits (SetLen i n) vs =
     (if 0 \<le> n \<and> n \<le> int (length (vs i)) \<and> n \<le> 2 ^ 61 then Some (vs(i := take (nat n) (vs i))) else None)"
| "spec_op t lits (PrepareMutation i) vs = Some vs"
| "spec_op t lits (Destroy i) vs = Some (vs(i := []))"

abbreviation spec_ops :: "bool \<Rightarrow> string list \<Rightarrow> sop list \<Rightarrow> (nat \<Rightarrow> string) \<Rightarrow> (nat \<Rightarrow> string) option" where
  "spec_ops t lits \<equiv> each (spec_op t lits)"

text \<open>The state agrees with the values: every variable holds its value (and the terminating zero where \<open>t\<close>
  says so), no payload has two owners or none, and the literals are what they were.\<close>

definition agrees :: "(nat \<Rightarrow> bool) \<Rightarrow> string list \<Rightarrow> senv \<Rightarrow> (nat \<Rightarrow> string) \<Rightarrow> bool" where
  "agrees t lits e vs \<longleftrightarrow>
     heap_ok (e_heap e) \<and>
     (\<forall>i. rep (t i) (e_heap e) (e_vars e i) (map Some (vs i))) \<and>
     (\<forall>i j x. owns (e_heap e) (e_vars e i) x \<longrightarrow> owns (e_heap e) (e_vars e j) x \<longrightarrow> i = j) \<and>
     (\<forall>x pl. h_mem (e_heap e) x = Some pl \<longrightarrow> \<not> is_lit pl \<longrightarrow> (\<exists>i. owns (e_heap e) (e_vars e i) x)) \<and>
     (\<forall>k < length lits. h_mem (e_heap e) k = Some (literal_payload (lits ! k)))"

definition lits_ok :: "string list \<Rightarrow> bool" where
  "lits_ok lits \<longleftrightarrow> (\<forall>l \<in> set lits. length l \<le> 2 ^ 61)"

lemma agrees_step:
  assumes e: "agrees t lits e vs" and lits: "lits_ok lits"
    and st: "step (e_heap e) (e_vars e i) h' s'" and r: "rep t' h' s' (map Some v)"
  shows "agrees (t(i := t')) lits \<lparr>e_vars = (e_vars e)(i := s'), e_heap = h'\<rparr> (vs(i := v))"
proof -
  let ?h = "e_heap e" and ?s = "e_vars e"
  have h: "heap_ok ?h" and rep: "\<And>j. rep (t j) ?h (?s j) (map Some (vs j))"
    and uniq: "\<And>j k x. owns ?h (?s j) x \<Longrightarrow> owns ?h (?s k) x \<Longrightarrow> j = k"
    and leak: "\<And>x pl. h_mem ?h x = Some pl \<Longrightarrow> \<not> is_lit pl \<Longrightarrow> \<exists>j. owns ?h (?s j) x"
    and lit: "\<And>k. k < length lits \<Longrightarrow> h_mem ?h k = Some (literal_payload (lits ! k))"
    using e by (auto simp: agrees_def)
  have frame: "h_mem h' x = h_mem ?h x" if "x < h_next ?h" "\<not> owns ?h (?s i) x" for x
    using st that by (simp add: step_def)
  have mine: "owns ?h (?s i) x \<or> h_next ?h \<le> x" if "owns h' s' x" for x using st that by (simp add: step_def)
  have keep: "owns h' s' x \<or> x < h_next ?h \<and> \<not> owns ?h (?s i) x" if "h_mem h' x = Some pl" "\<not> is_lit pl" for x pl
    using st that unfolding step_def by blast
  have other: "h_mem h' a = h_mem ?h a \<and> a < h_next ?h" if j: "j \<noteq> i" "s_p (?s j) = Some a" for j a
  proof -
    obtain pl where pl: "h_mem ?h a = Some pl" using rep_alloc [OF rep [of j] j(2)] by blast
    then have "a < h_next ?h" by (rule heap_okD [OF h])
    moreover have "\<not> owns ?h (?s i) a" using uniq [of i a j] j by (auto simp: owns_def)
    ultimately show ?thesis using frame by simp
  qed
  then have owns: "owns h' (?s j) x \<longleftrightarrow> owns ?h (?s j) x" if "j \<noteq> i" for j x
    using that by (auto simp: owns_def)
  have less: "x < h_next ?h" if "j \<noteq> i" "owns ?h (?s j) x" for j x
    using other [OF that(1), of x] that(2) by (simp add: owns_def)
  have others: "rep (t j) h' (?s j) (map Some (vs j))" if "j \<noteq> i" for j
    using rep_frame [OF rep [of j], of h'] other that by blast
  have one: "j = k" if "owns h' ((?s(i := s')) j) x" "owns h' ((?s(i := s')) k) x" for j k x
    using that owns mine [of x] uniq less by (auto split: if_splits simp: linorder_not_le [symmetric])
  have none: "\<exists>j. owns h' ((?s(i := s')) j) x" if "h_mem h' x = Some pl" "\<not> is_lit pl" for x pl
    using keep [OF that] 
  proof
    assume "owns h' s' x"
    then show ?thesis by (intro exI [of _ i]) simp
  next
    assume x: "x < h_next ?h \<and> \<not> owns ?h (?s i) x"
    with frame that obtain j where "owns ?h (?s j) x" using leak [of x pl] by auto
    then show ?thesis using x owns by (intro exI [of _ j]) auto
  qed
  have lits': "h_mem h' k = Some (literal_payload (lits ! k))" if "k < length lits" for k
  proof -
    have "is_lit (literal_payload (lits ! k))"
      using lits nth_mem [OF that] by (intro cap_literal) (force simp: lits_ok_def)
    then have "\<not> owns ?h (?s i) k" using lit [OF that] by (simp add: owns_def)
    then show ?thesis using frame [of k] heap_okD [OF h lit [OF that]] lit [OF that] by simp
  qed
  have "rep ((t(i := t')) j) h' ((?s(i := s')) j) (map Some ((vs(i := v)) j))" for j
    using others r by (cases "j = i") simp_all
  then show ?thesis
    unfolding agrees_def senv.simps using step_heap_ok [OF st] one none lits' by blast
qed

lemma agrees_weaken: "agrees t lits e vs \<Longrightarrow> (\<And>i. t' i \<Longrightarrow> t i) \<Longrightarrow> agrees t' lits e vs"
  unfolding agrees_def using rep_weaken by blast

lemma agreesD:
  assumes "agrees t lits e vs"
  shows "heap_ok (e_heap e)" "rep (t i) (e_heap e) (e_vars e i) (map Some (vs i))"
    "owns (e_heap e) (e_vars e i) x \<Longrightarrow> owns (e_heap e) (e_vars e j) x \<Longrightarrow> i = j"
    "k < length lits \<Longrightarrow> h_mem (e_heap e) k = Some (literal_payload (lits ! k))"
  using assms by (auto simp: agrees_def)

lemma on_var_ok:
  assumes "agrees t lits e vs" "lits_ok lits"
    and "\<exists>s' h'. f (e_vars e i) (e_heap e) = Some (s', h') \<and> step (e_heap e) (e_vars e i) h' s' \<and> rep t' h' s' (map Some v)"
  shows "\<exists>e'. on_var i f e = Some e' \<and> agrees (t(i := t')) lits e' (vs(i := v))"
  using assms agrees_step [OF assms(1,2)] by (fastforce simp: on_var_def)

lemma part_val_other: "PStr i \<noteq> p \<Longrightarrow> part_val (vs(i := v)) p = part_val vs p"
  by (cases p) auto

lemma append_parts_ok:
  assumes "agrees t lits e vs" "lits_ok lits" "PStr i \<notin> set (tl ps)"
    and "room (e_heap e) (e_vars e i) (int (length (vs i)) + int (length (concat (map (part_val vs) ps))))"
  shows "\<exists>e'. append_parts i ps e = Some e' \<and>
     agrees (t(i := t i \<or> concat (map (part_val vs) ps) \<noteq> [])) lits e' (vs(i := vs i @ concat (map (part_val vs) ps)))"
  using assms
proof (induction ps arbitrary: e t vs)
  case Nil
  then show ?case by simp
next
  case (Cons p ps)
  let ?w = "part_val vs p"
  let ?t = "t(i := t i \<or> ?w \<noteq> [])"
  let ?vs = "vs(i := vs i @ ?w)"
  have rest: "map (part_val ?vs) ps = map (part_val vs) ps"
    using Cons.prems(3) by (auto intro!: part_val_other)
  have room1: "room (e_heap e) (e_vars e i) (int (length (map Some (vs i))) + int (length (map Some ?w)))"
    using Cons.prems(4) by (auto simp: room_def)
  obtain e1 where e1: "append_parts i (p # ps) e = append_parts i ps e1" "agrees ?t lits e1 ?vs"
      "\<And>n. room (e_heap e) (e_vars e i) n \<Longrightarrow> room (e_heap e1) (e_vars e1 i) n"
  proof (cases p)
    case (PChar c)
    obtain s' h' where c: "appendChar (e_vars e i) c (e_heap e) = Some (s', h')"
        "step (e_heap e) (e_vars e i) h' s'" "rep True h' s' (map Some (vs i @ [c]))"
        "\<And>n. room (e_heap e) (e_vars e i) n \<Longrightarrow> room h' s' n"
      using appendChar_ok [OF agreesD(2) [OF Cons.prems(1)] _ agreesD(1) [OF Cons.prems(1)], of i c] room1 PChar
      by auto
    show ?thesis
      using that [of "\<lparr>e_vars = (e_vars e)(i := s'), e_heap = h'\<rparr>"] agrees_step [OF Cons.prems(1,2) c(2,3)] c(1,4) PChar
      by (simp add: on_var_def)
  next
    case (PStr j)
    obtain s' h' where c: "appendString (e_vars e i) (e_vars e j) (e_heap e) = Some (s', h')"
        "step (e_heap e) (e_vars e i) h' s'" "rep (t i \<or> vs j \<noteq> []) h' s' (map Some (vs i @ vs j))"
        "\<And>n. room (e_heap e) (e_vars e i) n \<Longrightarrow> room h' s' n"
      using appendString_ok [OF agreesD(2) [OF Cons.prems(1), of i] _ agreesD(2) [OF Cons.prems(1), of j]
          agreesD(1) [OF Cons.prems(1)]] room1 PStr
      by auto
    show ?thesis
      using that [of "\<lparr>e_vars = (e_vars e)(i := s'), e_heap = h'\<rparr>"] agrees_step [OF Cons.prems(1,2) c(2,3)] c(1,4) PStr
      by (simp add: on_var_def)
  qed
  have room2: "room (e_heap e1) (e_vars e1 i) (int (length (?vs i)) + int (length (concat (map (part_val ?vs) ps))))"
    using e1(3) [OF Cons.prems(4)] unfolding rest by (simp add: add.assoc)
  have "PStr i \<notin> set (tl ps)" using Cons.prems(3) by (cases ps) auto
  from Cons.IH [OF e1(2) Cons.prems(2) this room2] have "\<exists>e'. append_parts i ps e1 = Some e' \<and>
     agrees (?t(i := ?t i \<or> concat (map (part_val ?vs) ps) \<noteq> [])) lits e' (?vs(i := ?vs i @ concat (map (part_val ?vs) ps)))" .
  then show ?case unfolding rest e1(1) by (simp add: disj_assoc fun_upd_def cong: if_cong)
qed

lemma sum_part_len:
  "agrees t lits e vs \<Longrightarrow> sum_list (map (part_len e) ps) = int (length (concat (map (part_val vs) ps)))"
proof (induction ps)
  case (Cons p ps)
  have "part_len e p = int (length (part_val vs p))"
    by (cases p) (simp_all add: rep_len [OF agreesD(2) [OF Cons.prems]])
  then show ?case using Cons by simp
qed simp

lemma genStrAppend_ok:
  assumes e: "agrees t lits e vs" and lits: "lits_ok lits" and i: "PStr i \<notin> set (tl ps)"
    and w: "w = concat (map (part_val vs) ps)" "length (vs i) + length w \<le> 2 ^ 61"
  shows "\<exists>e'. genStrAppend i ps e = Some e' \<and> agrees (t(i := w \<noteq> [])) lits e' (vs(i := vs i @ w))"
proof -
  have le: "int (length (map Some (vs i))) + int (length w) \<le> 2 ^ 61"
    using w(2) by simp
  obtain s' h' where p: "prepareAdd (e_vars e i) (int (length w)) (e_heap e) = Some (s', h')"
      "step (e_heap e) (e_vars e i) h' s'" "rep False h' s' (map Some (vs i))"
      "room h' s' (int (length (map Some (vs i))) + int (length w))"
    using prepareAdd_ok [OF agreesD(2) [OF e, of i] agreesD(1) [OF e] _ le] rep_weaken by fastforce
  let ?e = "\<lparr>e_vars = (e_vars e)(i := s'), e_heap = h'\<rparr>"
  have "agrees (t(i := False)) lits ?e vs"
    using agrees_step [OF e lits p(2,3)] by simp
  from append_parts_ok [OF this lits i] p(4) w
  obtain e' where "append_parts i ps ?e = Some e'" "agrees (t(i := w \<noteq> [])) lits e' (vs(i := vs i @ w))"
    by (auto simp del: concat_eq_Nil_conv)
  then show ?thesis using p(1) sum_part_len [OF e, of ps] w(1) by (simp add: genStrAppend_def on_var_def)
qed

lemma rep_literal: "k < length lits \<Longrightarrow> lits_ok lits \<Longrightarrow> h_mem h k = Some (literal_payload (lits ! k)) \<Longrightarrow>
  rep t h (literal lits k) (map Some (lits ! k)) \<and> \<not> owns h (literal lits k) x"
proof -
  assume k: "k < length lits" "lits_ok lits" "h_mem h k = Some (literal_payload (lits ! k))"
  have le: "int (length (lits ! k)) < 2 ^ 62" using k(2) nth_mem [OF k(1)] by (force simp: lits_ok_def)
  have "holds t (literal_payload (lits ! k)) (map Some (lits ! k))"
    using le cap_literal(2) [OF le] nth_append_length [of "map Some (lits ! k)" "Some NUL" "[]"]
    by (auto simp: holds_def literal_payload_def)
  then show ?thesis using k cap_literal(1) [OF le] by (auto simp: rep_def literal_def owns_def)
qed

lemma concat_parts_ok:
  assumes "\<And>j. rep u h0 (vars j) (map Some (vs j))" "heap_ok h0"
    and "step h0 nil_str h tmp" "rep True h tmp (map Some v)"
    and "concat (map (part_val vs) ps) \<noteq> [] \<Longrightarrow> room h tmp (int (length v) + int (length (concat (map (part_val vs) ps))))"
  shows "\<exists>tmp' h'. concat_parts vars ps tmp h = Some (tmp', h') \<and> step h0 nil_str h' tmp' \<and>
     rep True h' tmp' (map Some (v @ concat (map (part_val vs) ps)))"
  using assms(3-5)
proof (induction ps arbitrary: tmp h v)
  case Nil
  then show ?case by simp
next
  case (Cons p ps)
  note ok = step_heap_ok [OF Cons.prems(1)]
  let ?w = "part_val vs p"
  have room: "?w \<noteq> [] \<Longrightarrow> room h tmp (int (length (map Some v)) + int (length (map Some ?w)))"
    using Cons.prems(3) by (auto simp: room_def)
  obtain tmp1 h1 where 1: "concat_parts vars (p # ps) tmp h = concat_parts vars ps tmp1 h1" "step h tmp h1 tmp1"
      "rep True h1 tmp1 (map Some (v @ ?w))" "\<And>n. room h tmp n \<Longrightarrow> room h1 tmp1 n"
  proof (cases p)
    case (PChar c)
    then show ?thesis using appendChar_ok [OF Cons.prems(2) _ ok, of c] room that by auto
  next
    case (PStr j)
    have src: "rep u h (vars j) (map Some (vs j))" by (rule rep_step_nil [OF assms(1,2) Cons.prems(1)])
    show ?thesis
    proof (cases "vs j = []")
      case True
      then have "appendString tmp (vars j) h = Some (tmp, h)" using rep_len [OF src] by (simp add: appendString_def)
      then show ?thesis using that [of tmp h] Cons.prems(2) True PStr step_refl [OF ok] by simp
    next
      case False
      then show ?thesis using appendString_ok [OF Cons.prems(2) _ src ok] room that PStr by auto
    qed
  qed
  have "room h1 tmp1 (int (length (v @ ?w)) + int (length (concat (map (part_val vs) ps))))"
    if "concat (map (part_val vs) ps) \<noteq> []"
    using 1(4) [OF Cons.prems(3)] that by (simp add: add.assoc)
  from Cons.IH [OF step_trans [OF Cons.prems(1) 1(2)] 1(3) this] show ?case by (simp add: 1(1))
qed

lemma genStrConcat_ok:
  assumes e: "agrees t lits e vs" and lits: "lits_ok lits"
    and w: "w = concat (map (part_val vs) ps)" "length w \<le> 2 ^ 61"
  shows "\<exists>e'. genStrConcat i ps e = Some e' \<and> agrees (t(i := True)) lits e' (vs(i := w))"
proof -
  note h = agreesD(1) [OF e] and r = agreesD(2) [OF e]
  have n: "int (length w) < 2 ^ 62" using w(2) by simp
  obtain tmp h1 where 1: "rawNewString (int (length w)) (e_heap e) = Some (tmp, h1)" "step (e_heap e) nil_str h1 tmp"
      "rep True h1 tmp []" "w \<noteq> [] \<Longrightarrow> room h1 tmp (int (length w))"
    using rawNewString_ok [OF h n] by auto
  have reps: "rep False (e_heap e) (e_vars e j) (map Some (vs j))" for j using rep_weaken [OF r] by simp
  obtain tmp2 h2 where 2: "concat_parts (e_vars e) ps tmp h1 = Some (tmp2, h2)" "step (e_heap e) nil_str h2 tmp2"
      "rep True h2 tmp2 (map Some w)"
    using concat_parts_ok [where vars = "e_vars e" and vs = vs and v = "[]" and ps = ps, OF reps h 1(2)] 1(3,4) w(1) by (auto simp del: concat_eq_Nil_conv)
  have sum: "sum_list (map (part_len e) ps) = int (length w)" unfolding w(1) by (rule sum_part_len [OF e])
  show ?thesis
    unfolding genStrConcat_def sum
    using genMove_new [OF r [of i] h 2(2,3)] by (intro on_var_ok [OF e lits]) (simp add: 1(1) 2(1))
qed

text \<open>A move between two variables hands the payload over.\<close>

lemma move_var_ok:
  assumes e: "agrees (\<lambda>_. t) lits e vs" and lits: "lits_ok lits" and ij: "i \<noteq> j"
  shows "\<exists>e'. move_var i j e = Some e' \<and> agrees (\<lambda>_. t) lits e' (vs(i := vs j, j := []))"
proof -
  note h = agreesD(1) [OF e] and r = agreesD(2) [OF e] and uniq = agreesD(3) [OF e] and lit = agreesD(4) [OF e]
  let ?h = "e_heap e" and ?s = "e_vars e"
  obtain h' where g: "genMove (?s i) (?s j) ?h = Some (?s j, h')" "heap_ok h'"
      "\<And>x. \<not> owns ?h (?s i) x \<Longrightarrow> h_mem h' x = h_mem ?h x" "\<And>x. owns ?h (?s i) x \<Longrightarrow> h_mem h' x = None"
    using genMove_var [OF r h, of i "?s j"] uniq ij by metis
  have same: "h_mem h' x = h_mem ?h x" if "s_p (?s k) = Some x" "k \<noteq> i" for k x
  proof (rule g(3), rule notI)
    assume "owns ?h (?s i) x"
    then have "owns ?h (?s k) x" using that(1) by (simp add: owns_def)
    then show False using uniq [OF \<open>owns ?h (?s i) x\<close>, of k] that(2) by simp
  qed
  then have owns: "owns h' (?s k) x \<longleftrightarrow> owns ?h (?s k) x" if "k \<noteq> i" for k x
    using that by (auto simp: owns_def)
  have reps: "rep t h' (?s k) (map Some (vs k))" if "k \<noteq> i" for k
    using rep_frame [OF r] same that by blast
  let ?v = "?s(i := ?s j, j := nil_str)"
  let ?f = "\<lambda>k. if k = i then j else k"
  have v: "owns h' (?v k) x \<Longrightarrow> k \<noteq> j \<and> ?f k \<noteq> i \<and> owns ?h (?s (?f k)) x" for k x
    using owns ij by (auto split: if_splits)
  have none: "\<exists>k. owns h' (?v k) x" if x: "h_mem h' x = Some pl" "\<not> is_lit pl" for x pl
  proof -
    have ni: "\<not> owns ?h (?s i) x" using g(4) x(1) by force
    then obtain k where k: "owns ?h (?s k) x" using e x g(3) unfolding agrees_def by metis
    then have "k \<noteq> i" using ni by blast
    then show ?thesis using owns [of k x] k ij by (intro exI [of _ "if k = j then i else k"]) auto
  qed
  have lits': "h_mem h' k = Some (literal_payload (lits ! k))" if "k < length lits" for k
  proof -
    have "is_lit (literal_payload (lits ! k))"
      using lits nth_mem [OF that] by (intro cap_literal) (force simp: lits_ok_def)
    then show ?thesis using g(3) [of k] lit [OF that] by (simp add: owns_def)
  qed
  have "rep t h' (?v k) (map Some ((vs(i := vs j, j := [])) k))" for k
    using reps ij by (auto simp: rep_nil)
  moreover have "k = l" if "owns h' (?v k) x" "owns h' (?v l) x" for k l x
    using v [OF that(1)] v [OF that(2)] uniq [of "?f k" x "?f l"] by (auto split: if_splits)
  ultimately have "agrees (\<lambda>_. t) lits \<lparr>e_vars = ?v, e_heap = h'\<rparr> (vs(i := vs j, j := []))"
    unfolding agrees_def senv.simps using g(2) none lits' by blast
  then show ?thesis using g(1) by (simp add: move_var_def)
qed

text \<open>Every operation of a program does to the strings what it does to the values.\<close>

lemma run_op_ok:
  assumes e: "agrees (\<lambda>_. t) lits e vs" and lits: "lits_ok lits" and sp: "spec_op t lits p vs = Some vs'"
  shows "\<exists>e'. run_op lits p e = Some e' \<and> agrees (\<lambda>_. t) lits e' vs'"
proof -
  note h = agreesD(1) [OF e] and r = agreesD(2) [OF e]
  note on = on_var_ok [OF e lits]
  have weak: "\<exists>e'. m = Some e' \<and> agrees (\<lambda>_. t) lits e' ws"
    if "\<exists>e'. m = Some e' \<and> agrees ((\<lambda>_. t)(i := t')) lits e' ws" "t \<longrightarrow> t'" for m i t' ws
    using that agrees_weaken [of "(\<lambda>_. t)(i := t')" lits _ ws "\<lambda>_. t"] by (auto split: if_splits)
  show ?thesis
  proof (cases p)
    case (AddChar i c)
    then have vs': "vs' = vs(i := vs i @ [c])" and "int (length (map Some (vs i))) + 1 \<le> 2 ^ 61"
      using sp by (auto split: if_splits)
    then show ?thesis
      unfolding AddChar run_op.simps vs'
      using nimAddCharV1_ok [OF r [of i] h, of c] by (intro weak [of _ i True] on) auto
  next
    case (Append i ps)
    let ?w = "concat (map (part_val vs) ps)"
    from Append sp have a: "vs' = vs(i := vs i @ ?w)" "PStr i \<notin> set (tl ps)" "length (vs i) + length ?w \<le> 2 ^ 61"
      "t \<longrightarrow> ?w \<noteq> []" by (auto simp: Let_def split: if_splits)
    show ?thesis
      unfolding Append run_op.simps
      using genStrAppend_ok [OF e lits a(2) refl a(3)] a(1,4) by (intro weak [of _ i "?w \<noteq> []"]) auto
  next
    case (Concat i ps)
    let ?w = "concat (map (part_val vs) ps)"
    from Concat sp have a: "vs' = vs(i := ?w)" "length ?w \<le> 2 ^ 61" by (auto simp: Let_def split: if_splits)
    show ?thesis
      unfolding Concat run_op.simps a(1)
      using genStrConcat_ok [OF e lits refl a(2)] by (intro weak [of _ i True]) auto
  next
    case (Move i j)
    then show ?thesis using move_var_ok [OF e lits, of i j] sp by (auto split: if_splits)
  next
    case (FromCString i cs)
    then have a: "vs' = vs(i := cs)" "is_c_string cs" "length cs \<le> 2 ^ 61" using sp by (auto split: if_splits)
    obtain x h' where n: "cstrToNimstr (Some (cs @ [NUL])) (e_heap e) = Some (x, h')" "step (e_heap e) nil_str h' x"
        "rep True h' x (map Some cs)"
      using cstrToNimstr_ok [OF h a(2,3)] by blast
    show ?thesis
      unfolding FromCString run_op.simps a(1)
      using genMove_new [OF r [of i] h n(2,3)] by (intro weak [of _ i True] on) (simp_all add: n(1))
  next
    case (NewString i n)
    then have a: "vs' = vs(i := replicate (nat n) NUL)" "n < 2 ^ 62" using sp by (auto split: if_splits)
    obtain x h' where n: "mnewString n (e_heap e) = Some (x, h')" "step (e_heap e) nil_str h' x"
        "rep True h' x (map Some (replicate (nat n) NUL))"
      using mnewString_ok [OF h a(2)] by blast
    show ?thesis
      unfolding NewString run_op.simps a(1)
      using genMove_new [OF r [of i] h n(2,3)] by (intro weak [of _ i True] on) (simp_all add: n(1))
  next
    case (NewStringOfCap i n)
    then have a: "vs' = vs(i := [])" "n < 2 ^ 62" using sp by (auto split: if_splits)
    obtain x h' where n: "rawNewString n (e_heap e) = Some (x, h')" "step (e_heap e) nil_str h' x" "rep True h' x []"
      using rawNewString_ok [OF h a(2)] by blast
    show ?thesis
      unfolding NewStringOfCap run_op.simps a(1)
      using genMove_new [OF r [of i] h n(2,3)] by (intro weak [of _ i True] on) (simp_all add: n(1))
  next
    case (Assign i j)
    then have vs': "vs' = vs(i := vs j)" using sp by simp
    have "int (length (map Some (vs j))) < 2 ^ 62" by (rule rep_small [OF r])
    then have "\<exists>a' h'. nimAsgnStrV2 (e_vars e i) (e_vars e j) (e_heap e) = Some (a', h') \<and>
        step (e_heap e) (e_vars e i) h' a' \<and> rep t h' a' (map Some (vs j))"
      using agreesD(3) [OF e, of i _ j] by (intro nimAsgnStrV2_ok [OF r r h]) auto
    then show ?thesis
      unfolding Assign run_op.simps vs' by (intro weak [of _ i t] on) auto
  next
    case (Literal i k)
    then have vs': "vs' = vs(i := lits ! k)" and k: "k < length lits" using sp by (auto split: if_splits)
    have rl: "rep t (e_heap e) (literal lits k) (map Some (lits ! k))" "\<And>x. \<not> owns (e_heap e) (literal lits k) x"
      using rep_literal [OF k lits agreesD(4) [OF e k]] by auto
    have "int (length (map Some (lits ! k))) < 2 ^ 62" by (rule rep_small [OF rl(1)])
    then have "\<exists>a' h'. nimAsgnStrV2 (e_vars e i) (literal lits k) (e_heap e) = Some (a', h') \<and>
        step (e_heap e) (e_vars e i) h' a' \<and> rep t h' a' (map Some (lits ! k))"
      using rl(2) by (intro nimAsgnStrV2_ok [OF r rl(1) h]) auto
    then show ?thesis
      unfolding Literal run_op.simps vs' by (intro weak [of _ i t] on) auto
  next
    case (SetLen i n)
    then have vs': "vs' = vs(i := take (nat n) (vs i))" and n: "0 \<le> n" "n \<le> int (length (vs i))" "n \<le> 2 ^ 61"
      using sp by (auto split: if_splits)
    have v: "v = map Some (take (nat n) (vs i))" if "resized z (map Some (vs i)) n v" for z v
    proof -
      have "length v \<le> length (vs i)" using that n(1,2) by (simp add: resized_def nat_le_iff)
      then show ?thesis using that by (simp add: resized_def take_map)
    qed
    obtain s' h' v where "setLengthStrV2 (e_vars e i) n (e_heap e) = Some (s', h')" "step (e_heap e) (e_vars e i) h' s'"
      "rep True h' s' v" "resized (\<forall>x. \<not> owns (e_heap e) (e_vars e i) x) (map Some (vs i)) n v"
      using setLengthStrV2_ok [OF r [of i] h n(1,3)] by blast
    then show ?thesis
      unfolding SetLen run_op.simps vs' using v by (intro weak [of _ i True] on) auto
  next
    case (PrepareMutation i)
    then have vs': "vs' = vs(i := vs i)" using sp by simp
    show ?thesis
      unfolding PrepareMutation run_op.simps vs'
      using nimPrepareStrMutationV2_ok [OF r [of i] h] by (intro weak [of _ i t] on) auto
  next
    case (Destroy i)
    then have vs': "vs' = vs(i := [])" using sp by simp
    have nil: "rep t h' nil_str []" "\<not> owns h' nil_str x" for h' x by (simp_all add: rep_def nil_str_def owns_def)
    obtain h' where "frees (e_vars e i) (e_heap e) = Some h'" "step (e_heap e) (e_vars e i) h' nil_str"
      using frees_ok [OF r [of i] h] nil(2) by metis
    then show ?thesis
      unfolding Destroy run_op.simps vs' using nil(1)
      by (intro weak [of _ i t] on) (auto simp: nimDestroyStrV1_def)
  qed
qed

lemma start_agrees: "lits_ok lits \<Longrightarrow> agrees t lits (start lits) (\<lambda>_. [])"
proof -
  assume l: "lits_ok lits"
  have "is_lit (literal_payload (lits ! k))" if "k < length lits" for k
    using l nth_mem [OF that] by (intro cap_literal) (force simp: lits_ok_def)
  then show ?thesis
    by (auto simp: agrees_def start_def heap_ok_def rep_def nil_str_def owns_def split: if_splits)
qed

interpretation sr: value_machine "run_op lits" "spec_op t lits" "\<lambda>e vs. lits_ok lits \<and> agrees (\<lambda>_. t) lits e vs"
  for lits t
  by unfold_locales (use run_op_ok in blast)

lemma run_ops_ok:
  assumes "lits_ok lits" "spec_ops t lits ps (\<lambda>_. []) = Some vs"
  shows "\<exists>e. run_ops lits ps (start lits) = Some e \<and> agrees (\<lambda>_. t) lits e vs"
  using sr.programs_ok [OF _ assms(2)] start_agrees [OF assms(1)] assms(1) by blast

section \<open>Appends to literals\<close>

lemma prepareAdd_literal_by:
  assumes k: "k < length lits" "lits_ok lits" "lits ! k \<noteq> []"
    and h: "heap_ok h" "h_mem h k = Some (literal_payload (lits ! k))" and m: "m < 2 ^ 61"
  defines "n \<equiv> length (lits ! k)"
  shows "prepareAdd (literal lits k) (int m) h = Some ((literal lits k)\<lparr>s_p := Some (h_next h)\<rparr>,
    h\<lparr>h_mem := (h_mem h)(h_next h \<mapsto> \<lparr>pl_cap = word_of_int (int (n + m)), pl_data = map Some (lits ! k) @ replicate (Suc m) None\<rparr>),
      h_next := Suc (h_next h)\<rparr>)"
proof -
  have n: "n < 2 ^ 62" "0 < n" "n \<le> 2 ^ 61" using k(2,3) nth_mem [OF k(1)] by (force simp: lits_ok_def n_def)+
  have lit: "is_lit (literal_payload (lits ! k))" using n(1) by (intro cap_literal) (simp add: n_def)
  define N where "N = n + m"
  have kn: "k \<noteq> h_next h" using h by (auto simp: heap_ok_def)
  have len: "int n + int m = int N" "0 < int n" "min (int n) (int N) = int n" using n by (simp_all add: N_def)
  have lt: "int N < 2 ^ 62" using n(3) m by (simp add: N_def)
  have nl: "\<not> is_lit \<lparr>pl_cap = word_of_int (int N), pl_data = d\<rparr>" "\<not> is_lit \<lparr>pl_cap = 0, pl_data = d\<rparr>" for d
    using cap_small [of "int N" d] cap_small [of 0 d] lt by simp_all
  let ?b = "h_next h"
  let ?pl = "\<lparr>pl_cap = word_of_int (int N), pl_data = replicate (Suc N) None\<rparr>"
  let ?h = "h\<lparr>h_mem := (h_mem h)(?b \<mapsto> ?pl), h_next := Suc ?b\<rparr>"
  have "allocPayload (int N) h = Some (?b, h\<lparr>h_mem := (h_mem h)(?b \<mapsto> \<lparr>pl_cap = 0, pl_data = replicate (Suc N) None\<rparr>), h_next := Suc ?b\<rparr>)"
    by (simp add: allocPayload_def new_payload_def del: of_nat_add replicate_Suc)
  moreover have "set_cap ?b (int N) (h\<lparr>h_mem := (h_mem h)(?b \<mapsto> \<lparr>pl_cap = 0, pl_data = replicate (Suc N) None\<rparr>), h_next := Suc ?b\<rparr>) = Some ?h"
    using nl(2) by (simp add: set_cap_def del: of_nat_add replicate_Suc)
  moreover have "read_data (Some k) (int n) ?h = Some (map Some (lits ! k))"
    using h(2) kn by (simp add: read_data_def payload_def literal_payload_def n_def)
  moreover have "write_data ?b 0 (map Some (lits ! k)) ?h =
      Some (h\<lparr>h_mem := (h_mem h)(?b \<mapsto> \<lparr>pl_cap = word_of_int (int N), pl_data = map Some (lits ! k) @ replicate (Suc m) None\<rparr>), h_next := Suc ?b\<rparr>)"
    using nl(1) by (simp add: write_data_def n_def [symmetric] N_def Suc_diff_le del: of_nat_add replicate_Suc) 
  moreover have "isLiteral (literal lits k) h = Some True" using h(2) lit by (simp add: isLiteral_def literal_def)
  moreover have "s_len (literal lits k) = int n" "s_p (literal lits k) = Some k" by (simp_all add: literal_def n_def)
  ultimately show ?thesis unfolding N_def [symmetric] using len by (simp add: prepareAdd_def del: replicate_Suc)
qed

lemma prepareAdd_literal:
  assumes k: "k < length lits" "lits_ok lits" "lits ! k \<noteq> []"
    and h: "heap_ok h" "h_mem h k = Some (literal_payload (lits ! k))"
  defines "n \<equiv> length (lits ! k)"
  shows "prepareAdd (literal lits k) 0 h = Some ((literal lits k)\<lparr>s_p := Some (h_next h)\<rparr>,
    h\<lparr>h_mem := (h_mem h)(h_next h \<mapsto> \<lparr>pl_cap = of_nat n, pl_data = map Some (lits ! k) @ [None]\<rparr>),
      h_next := Suc (h_next h)\<rparr>)"
  using prepareAdd_literal_by [OF assms(1-5), of 0] by (simp add: n_def)

text \<open>Room is made for the parts as they are before; a part that is the destination is appended as it has
  grown, and its terminator is written past the end of the payload.\<close>

lemma start_literal:
  assumes "lits_ok lits" "k < length lits"
  shows "run_op lits (Literal 0 k) (start lits) = Some \<lparr>e_vars = (\<lambda>_. nil_str)(0 := literal lits k), e_heap = e_heap (start lits)\<rparr>"
    and "heap_ok (e_heap (start lits))" "h_mem (e_heap (start lits)) k = Some (literal_payload (lits ! k))"
proof -
  show h: "heap_ok (e_heap (start lits))" "h_mem (e_heap (start lits)) k = Some (literal_payload (lits ! k))"
    using assms(2) by (auto simp: start_def heap_ok_def)
  have "is_lit (literal_payload (lits ! k))"
    using assms(1) nth_mem [OF assms(2)] by (intro cap_literal) (force simp: lits_ok_def)
  then have "nimAsgnStrV2 nil_str (literal lits k) (e_heap (start lits)) = Some (literal lits k, e_heap (start lits))"
    using h(2) by (simp add: nimAsgnStrV2_def literal_def isLiteral_def frees_def nil_str_def)
  then show "run_op lits (Literal 0 k) (start lits) = Some \<lparr>e_vars = (\<lambda>_. nil_str)(0 := literal lits k), e_heap = e_heap (start lits)\<rparr>"
    by (simp add: on_var_def) (simp add: start_def)
qed

lemma append_itself_overflows:
  assumes "lits_ok lits" "k < length lits" "lits ! k \<noteq> []" "length (lits ! k) < 2 ^ 60"
  shows "run_ops lits [Literal 0 k, Append 0 [PChar c, PStr 0]] (start lits) = None"
proof -
  define n where "n = length (lits ! k)"
  define cap where "cap = (word_of_int (int (n + (n + 1))) :: 64 word)"
  let ?h = "e_heap (start lits)" and ?s = "literal lits k"
  let ?b = "h_next ?h"
  let ?pl = "\<lambda>d. \<lparr>pl_cap = cap, pl_data = d\<rparr>"
  let ?h1 = "\<lambda>d. ?h\<lparr>h_mem := (h_mem ?h)(?b \<mapsto> ?pl d), h_next := Suc ?b\<rparr>"
  let ?s1 = "\<lambda>m. \<lparr>s_len = m, s_p = Some ?b\<rparr>"
  let ?d = "map Some (lits ! k) @ replicate (Suc (n + 1)) None"
  note st = start_literal [OF assms(1,2)]
  have n: "int (n + (n + 1)) < 2 ^ 62" "n + 1 < 2 ^ 61" using assms(4) by (simp_all add: n_def)
  have nl: "\<not> is_lit (?pl d)" for d using cap_small [of "int (n + (n + 1))" d] n(1) unfolding cap_def by simp
  have p: "prepareAdd ?s (int (n + 1)) ?h = Some (?s1 (int n), ?h1 ?d)"
    using prepareAdd_literal_by [OF assms(2,1,3) st(2,3) n(2)] unfolding cap_def n_def by (simp add: literal_def)
  have wr: "write_data ?b i cs (?h1 d) = (if i < 0 \<or> i + int (length cs) > int (length d) then None
      else Some (?h1 (take (nat i) d @ cs @ drop (nat i + length cs) d)))" for i cs d
    using nl by (simp add: write_data_def)
  have d: "length ?d = 2 * n + 2" by (simp add: n_def)
  obtain d2 where c: "appendChar (?s1 (int n)) c (?h1 ?d) = Some (?s1 (int n + 1), ?h1 d2)" and d2: "length d2 = 2 * n + 2"
    using d by (simp add: appendChar_def put_char_def wr del: replicate_Suc)
  have "appendString (?s1 (int n + 1)) (?s1 (int n + 1)) (?h1 d2) = None"
    using d2 by (simp add: appendString_def put_char_def wr read_data_def payload_def)
  then show ?thesis
    using st(1) p c by (simp add: genStrAppend_def on_var_def literal_def n_def [symmetric] del: run_op.simps(1,9))
qed

section \<open>Properties\<close>

text \<open>C5. Programs with string variables compute what they say.  A program of character and string
  appends, concatenations, assignments, moves, literals, C strings, new strings, shortenings, copies on
  write and destructions, as far as the same program is defined on plain values (\<open>spec_ops\<close>), is defined
  (no access outside a payload, to a freed one, no write to a literal) and leaves every variable with the
  value computed there; no payload has two owners, none is leaked, and the literals are what they were.
  \<open>spec_ops\<close> leaves out texts of more than \<open>2^61\<close> characters, lengths that grow, moves of a variable to
  itself, and appends whose destination is also one of the parts, other than the first; these do go wrong:
  a character and the string itself, appended to a string that holds a literal, are written past the end
  of the payload.\<close>

theorem string_programs_refine:
  assumes "lits_ok lits" and "spec_ops t lits ps (\<lambda>_. []) = Some vs"
  shows "(\<exists>e. run_ops lits ps (start lits) = Some e \<and> agrees (\<lambda>_. t) lits e vs) \<and>
    (\<forall>k c. k < length lits \<and> lits ! k \<noteq> [] \<and> length (lits ! k) < 2 ^ 60 \<longrightarrow>
      run_ops lits [Literal 0 k, Append 0 [PChar c, PStr 0]] (start lits) = None)"
  using run_ops_ok [OF assms] append_itself_overflows [OF assms(1)] by blast

theorem string_programs_refine_witness:
  "\<exists>e. run_ops [''ab'', ''c'']
      [Literal 0 0, Assign 1 0, Append 0 [PStr 1, PChar CHR ''x''], Append 1 [PStr 1, PChar CHR ''z''], AddChar 1 CHR ''y'', Literal 2 1, SetLen 0 2,
       PrepareMutation 2, Concat 2 [PStr 2, PStr 0], FromCString 3 ''q'', Move 0 3, Destroy 1]
      (start [''ab'', ''c'']) = Some e \<and>
    agrees (\<lambda>_. True) [''ab'', ''c''] e ((\<lambda>_. [])(0 := ''q'', 2 := ''cab''))"
  by (rule string_programs_refine [THEN conjunct1]) (simp_all add: lits_ok_def is_c_string_def fun_eq_iff)

text \<open>C17. What C sees.  After every program that is defined on plain values (\<open>spec_ops\<close>, with its exceptions: no
  append whose destination is one of the later parts, no length that grows, no move of a variable to
  itself, no text of more than \<open>2^61\<close> characters) and that never appends nothing, every string variable can
  be passed to C, and C sees its text up to the first zero.\<close>

theorem strings_passed_to_C:
  assumes "lits_ok lits" and "spec_ops True lits ps (\<lambda>_. []) = Some vs"
  shows "\<exists>e. run_ops lits ps (start lits) = Some e \<and>
    (\<forall>i. nimToCStringConv (e_vars e i) (e_heap e) = Some (takeWhile (\<lambda>c. c \<noteq> NUL) (vs i)))"
proof -
  obtain e where "run_ops lits ps (start lits) = Some e" "agrees (\<lambda>_. True) lits e vs"
    using run_ops_ok [OF assms] by blast
  then show ?thesis using nimToCStringConv_ok [OF agreesD(2)] by blast
qed

theorem strings_passed_to_C_witness:
  "\<exists>e. run_ops [''ab''] [Literal 0 0, Append 0 [PChar NUL, PChar CHR ''x'']] (start [''ab'']) = Some e \<and>
    (\<forall>i. nimToCStringConv (e_vars e i) (e_heap e) =
      Some (takeWhile (\<lambda>c. c \<noteq> NUL) (((\<lambda>_. [])(0 := [CHR ''a'', CHR ''b'', NUL, CHR ''x''])) i)))"
  by (rule strings_passed_to_C) (simp_all add: lits_ok_def fun_eq_iff)

text \<open>C36. A string variable that holds a literal, to which an empty string is appended, keeps its value
  but loses the terminating zero: passing it to C reads past its end.\<close>

theorem literal_plus_nothing_unterminated:
  assumes "lits_ok lits" "k < length lits" "lits ! k \<noteq> []" "NUL \<notin> set (lits ! k)"
  shows "\<exists>e. run_ops lits [Literal 0 k, Append 0 [PStr 1]] (start lits) = Some e \<and>
    agrees (\<lambda>_. False) lits e ((\<lambda>_. [])(0 := lits ! k)) \<and>
    nimToCStringConv (e_vars e 0) (e_heap e) = None"
proof -
  have "length (lits ! k) \<le> 2 ^ 61" using assms(1) nth_mem [OF assms(2)] by (simp add: lits_ok_def)
  then have "spec_ops False lits [Literal 0 k, Append 0 [PStr 1]] (\<lambda>_. []) = Some ((\<lambda>_. [])(0 := lits ! k))"
    using assms(2) by simp
  from run_ops_ok [OF assms(1) this]
  obtain e where e: "run_ops lits [Literal 0 k, Append 0 [PStr 1]] (start lits) = Some e"
      "agrees (\<lambda>_. False) lits e ((\<lambda>_. [])(0 := lits ! k))"
    by auto
  let ?h = "e_heap (start lits)"
  note st = start_literal [OF assms(1,2)] and h = start_literal(2,3) [OF assms(1,2)]
  let ?s = "(literal lits k)\<lparr>s_p := Some (h_next ?h)\<rparr>"
  let ?h' = "?h\<lparr>h_mem := (h_mem ?h)(h_next ?h \<mapsto>
      \<lparr>pl_cap = of_nat (length (lits ! k)), pl_data = map Some (lits ! k) @ [None]\<rparr>), h_next := Suc (h_next ?h)\<rparr>"
  have p: "prepareAdd (literal lits k) 0 ?h = Some (?s, ?h')" by (rule prepareAdd_literal [OF assms(2,1,3) h])
  note st(1)
  moreover have "run_op lits (Append 0 [PStr 1]) \<lparr>e_vars = (\<lambda>_. nil_str)(0 := literal lits k), e_heap = ?h\<rparr> =
      Some \<lparr>e_vars = (\<lambda>_. nil_str)(0 := ?s), e_heap = ?h'\<rparr>"
    using p by (simp add: genStrAppend_def on_var_def appendString_def nil_str_def)
  ultimately have e': "e = \<lparr>e_vars = (\<lambda>_. nil_str)(0 := ?s), e_heap = ?h'\<rparr>"
    using e(1) by (simp del: run_op.simps)
  have tw: "takeWhile (\<lambda>c. c \<noteq> Some NUL) (map Some (lits ! k) @ [None]) = map Some (lits ! k) @ [None]"
    using assms(4) by (subst takeWhile_eq_all_conv) auto
  have "nimToCStringConv (e_vars e 0) (e_heap e) = None"
    using assms(3) unfolding e' by (simp add: nimToCStringConv_def payload_def literal_def tw)
  with e show ?thesis by blast
qed

theorem literal_plus_nothing_unterminated_witness:
  "\<exists>e. run_ops [''ab''] [Literal 0 0, Append 0 [PStr 1]] (start [''ab'']) = Some e \<and>
    agrees (\<lambda>_. False) [''ab''] e ((\<lambda>_. [])(0 := [''ab''] ! 0)) \<and>
    nimToCStringConv (e_vars e 0) (e_heap e) = None"
  by (rule literal_plus_nothing_unterminated) (simp_all add: lits_ok_def)

lemma setLengthStrV2_within:
  assumes "rep t h s v" "owns h s a" "h_mem h a = Some pl" "0 < n" "n \<le> cap_of pl"
  shows "setLengthStrV2 s n h =
    Some (s\<lparr>s_len := n\<rparr>, h\<lparr>h_mem := (h_mem h)(a \<mapsto> pl\<lparr>pl_data := (pl_data pl)[nat n := Some NUL]\<rparr>)\<rparr>)"
proof -
  have lit: "isLiteral s h = Some False" using isLiteral_rep [OF assms(1)] assms(2) by auto
  have a: "s_p s = Some a" "\<not> is_lit pl" using assms(2,3) by (auto simp: owns_def)
  have "nat n < length (pl_data pl)" using assms a by (auto simp: rep_def holds_def)
  then show ?thesis
    using lit a assms(3-5) by (simp add: setLengthStrV2_def put_char_def write_data_def upd_conv_take_nth_drop)
qed

text \<open>Shortening a string that owns its payload to a length \<open>k\<close> and setting the old length again
  shows the old characters, except for a zero at position \<open>k\<close>: the memory is not zeroed on growth.\<close>

theorem grown_length_shows_old_text:
  assumes s: "rep t h s (map Some u)" "owns h s a" and k: "0 < k" "k < length u"
  shows "\<exists>s1 h1 s2 h2. setLengthStrV2 s (int k) h = Some (s1, h1) \<and>
    setLengthStrV2 s1 (int (length u)) h1 = Some (s2, h2) \<and> rep True h2 s2 (map Some (u[k := NUL]))"
proof -
  obtain pl where pl: "s_p s = Some a" "h_mem h a = Some pl" "\<not> is_lit pl" "holds t pl (map Some u)"
    using s by (auto simp: owns_def rep_def split: option.splits)
  have ne: "u \<noteq> []" using k by auto
  have le: "int (length u) \<le> cap_of pl" "length u < length (pl_data pl)" using pl(4) by (auto simp: holds_def)
  let ?pl = "pl\<lparr>pl_data := (pl_data pl)[k := Some NUL]\<rparr>"
  let ?h = "h\<lparr>h_mem := (h_mem h)(a \<mapsto> ?pl)\<rparr>" and ?s = "s\<lparr>s_len := int k\<rparr>"
  have 1: "setLengthStrV2 s (int k) h = Some (?s, ?h)"
    using setLengthStrV2_within [OF s pl(2), of "int k"] k le by simp
  have "take k (take (length u) (pl_data pl)) = take k (map Some u)"
    using pl(4) by (simp only: holds_def length_map)
  then have tk: "take k (pl_data pl) = map Some (take k u)" using k(2) by (simp add: take_map)
  have r: "rep True ?h ?s (map Some (take k u))"
    using pl k le by (auto simp: rep_def holds_def tk min_def)
  have o: "owns ?h ?s a" using pl by (simp add: owns_def)
  let ?q = "?pl\<lparr>pl_data := (pl_data ?pl)[length u := Some NUL]\<rparr>"
  have 2: "setLengthStrV2 ?s (int (length u)) ?h =
      Some (?s\<lparr>s_len := int (length u)\<rparr>, ?h\<lparr>h_mem := (h_mem ?h)(a \<mapsto> ?q)\<rparr>)"
    using setLengthStrV2_within [OF r o, of ?pl "int (length u)"] k le ne by simp
  have "holds True ?q (map Some (u[k := NUL]))"
    using pl(4) k le by (auto simp: holds_def map_update take_update_swap list_update_beyond)
  then have "rep True (?h\<lparr>h_mem := (h_mem ?h)(a \<mapsto> ?q)\<rparr>) (?s\<lparr>s_len := int (length u)\<rparr>) (map Some (u[k := NUL]))"
    using pl(1) by (simp add: rep_def)
  with 1 2 show ?thesis by blast
qed

definition abc :: NimStrPayload where
  "abc = \<lparr>pl_cap = 3, pl_data = map Some ''abc'' @ [Some NUL]\<rparr>"

lemma abc_cap: "\<not> is_lit abc" "cap_of abc = 3"
  using cap_small [of 3 "map Some ''abc'' @ [Some NUL]"] by (simp_all add: abc_def)

theorem grown_length_shows_old_text_witness:
  "\<exists>s1 h1 s2 h2. setLengthStrV2 \<lparr>s_len = 3, s_p = Some 0\<rparr> (int 1) \<lparr>h_mem = [0 \<mapsto> abc], h_next = 1\<rparr> = Some (s1, h1) \<and>
    setLengthStrV2 s1 (int (length ''abc'')) h1 = Some (s2, h2) \<and> rep True h2 s2 (map Some (''abc''[1 := NUL]))"
  by (rule grown_length_shows_old_text [of True])
    (auto simp: rep_def holds_def owns_def abc_cap, simp_all add: abc_def)

end
