(* ===== verification/Nim_Tables.thy ===== *)
theory Nim_Tables
  imports Nim_Prelude "HOL-Library.Word" "HOL-Library.Multiset"
begin

text \<open>
  The hash tables of the standard library (\<open>pure/collections/tables.nim\<close> with the templates of
  \<open>hashcommon.nim\<close> and \<open>tableimpl.nim\<close>): open addressing with linear probing, growth by doubling, and
  deletion by shifting the rest of a cluster back.  The hash function of the keys is a parameter.  A
  search is a loop that ends only because the table has an empty slot, so loops are
  \<open>partial_function (option)\<close> and None is a search that never ends, an index outside the table or a
  failed assertion.  The lemmas show that the probe sequences stay intact, and the properties that a
  table is a finite map for every sequence of operations.
\<close>

unbundle bit_operations_syntax

section \<open>Tables\<close>

text \<open>A slot; an \<open>hcode\<close> of 0 marks it empty, and a key or value that was never set or was reset is None.\<close>

record ('k, 'v) KeyValuePair =
  hcode :: "64 word"
  kv_key :: "'k option"
  kv_val :: "'v option"

record ('k, 'v) Table =
  t_data :: "('k, 'v) KeyValuePair list"
  t_counter :: int

abbreviation empty_slot :: "('k, 'v) KeyValuePair" where
  "empty_slot \<equiv> \<lparr>hcode = 0, kv_key = None, kv_val = None\<rparr>"

definition growthFactor :: nat where
  "growthFactor = 2"

definition defaultInitialSize :: nat where
  "defaultInitialSize = 32"

definition isEmpty :: "64 word \<Rightarrow> bool" where
  "isEmpty hc \<longleftrightarrow> hc = 0"

definition isFilled :: "64 word \<Rightarrow> bool" where
  "isFilled hc \<longleftrightarrow> hc \<noteq> 0"

definition dataLen :: "('k, 'v) Table \<Rightarrow> nat" where
  "dataLen t = length (t_data t)"

definition maxHash :: "('k, 'v) Table \<Rightarrow> nat" where
  "maxHash t = length (t_data t) - 1"

definition nextTry :: "nat \<Rightarrow> nat \<Rightarrow> nat" where
  "nextTry h msk = (h + 1) AND msk"

text \<open>The slot a hash code belongs to.\<close>

definition home :: "64 word \<Rightarrow> nat \<Rightarrow> nat" where
  "home hc msk = unat hc AND msk"

text \<open>\<open>mustRehash\<close> asserts that some slot is empty.\<close>

definition mustRehash :: "('k, 'v) Table \<Rightarrow> bool option" where
  "mustRehash t =
     (if int (dataLen t) > t_counter t
      then Some (int (dataLen t) < t_counter t + t_counter t div 2 \<or> int (dataLen t) - t_counter t < 4)
      else None)"

text \<open>\<open>result or (result shr n)\<close>.\<close>

definition or_shr :: "nat \<Rightarrow> 64 word \<Rightarrow> 64 word" where
  "or_shr n r = r OR signed_drop_bit n r"

definition nextPowerOfTwo :: "64 word \<Rightarrow> 64 word" where
  "nextPowerOfTwo x =
     (let r = x - 1;
          r = or_shr 32 r;
          r = or_shr 16 r;
          r = or_shr 8 r;
          r = or_shr 4 r;
          r = or_shr 2 r;
          r = or_shr 1 r
      in r + 1 + (if sint x \<le> 0 then 1 else 0))"

definition slotsNeeded :: "nat \<Rightarrow> nat" where
  "slotsNeeded n = unat (nextPowerOfTwo (of_nat (n div 2 + n + 4)))"

definition genHash :: "('k \<Rightarrow> 64 word) \<Rightarrow> 'k \<Rightarrow> 64 word" where
  "genHash hash key = (let hc = hash key in if hc = 0 then 314159265 else hc)"

section \<open>Searching\<close>

partial_function (option) rawGetLoop ::
    "('k, 'v) KeyValuePair list \<Rightarrow> 'k \<Rightarrow> 64 word \<Rightarrow> nat \<Rightarrow> int option" where
  "rawGetLoop d key hc h = do {
     s \<leftarrow> mem_get h d;
     if isFilled (hcode s) then
       if hcode s = hc \<and> kv_key s = Some key then Some (int h)
       else rawGetLoop d key hc (nextTry h (length d - 1))
     else Some (-1 - int h)
   }"

definition rawGetKnownHC :: "('k, 'v) Table \<Rightarrow> 'k \<Rightarrow> 64 word \<Rightarrow> int option" where
  "rawGetKnownHC t key hc =
     (if dataLen t = 0 then Some (-1) else rawGetLoop (t_data t) key hc (home hc (maxHash t)))"

definition rawGet :: "('k \<Rightarrow> 64 word) \<Rightarrow> ('k, 'v) Table \<Rightarrow> 'k \<Rightarrow> (int \<times> 64 word) option" where
  "rawGet hash t key = (let hc = genHash hash key in do { i \<leftarrow> rawGetKnownHC t key hc; Some (i, hc) })"

section \<open>Insertion and growth\<close>

definition rawInsert ::
    "'k \<Rightarrow> 'v \<Rightarrow> 64 word \<Rightarrow> int \<Rightarrow> ('k, 'v) KeyValuePair list \<Rightarrow> ('k, 'v) KeyValuePair list option" where
  "rawInsert key val hc h d =
     (if h < 0 then None else mem_set (nat h) \<lparr>hcode = hc, kv_key = Some key, kv_val = Some val\<rparr> d)"

partial_function (option) findEmpty :: "('k, 'v) KeyValuePair list \<Rightarrow> nat \<Rightarrow> nat option" where
  "findEmpty d j = do {
     s \<leftarrow> mem_get j d;
     if isFilled (hcode s) then findEmpty d (nextTry j (length d - 1)) else Some j
   }"

definition reinsert ::
    "('k, 'v) KeyValuePair \<Rightarrow> ('k, 'v) KeyValuePair list \<Rightarrow> ('k, 'v) KeyValuePair list option" where
  "reinsert s d =
     (if isFilled (hcode s) then do { j \<leftarrow> findEmpty d (home (hcode s) (length d - 1)); mem_set j s d }
      else Some d)"

definition enlarge :: "('k, 'v) Table \<Rightarrow> ('k, 'v) Table option" where
  "enlarge t = do {
     let n = t_data t;
     d \<leftarrow> each reinsert n (replicate (length n * growthFactor) empty_slot);
     Some (t\<lparr>t_data := d\<rparr>)
   }"

definition initImpl :: "nat \<Rightarrow> ('k, 'v) Table" where
  "initImpl n = \<lparr>t_data = replicate (slotsNeeded n) empty_slot, t_counter = 0\<rparr>"

definition checkIfInitialized :: "('k, 'v) Table \<Rightarrow> ('k, 'v) Table" where
  "checkIfInitialized t = (if dataLen t = 0 then initImpl defaultInitialSize else t)"

definition maybeRehashPut ::
    "('k, 'v) Table \<Rightarrow> 'k \<Rightarrow> 'v \<Rightarrow> 64 word \<Rightarrow> int \<Rightarrow> (int \<times> ('k, 'v) Table) option" where
  "maybeRehashPut t key val hc index = do {
     let t = checkIfInitialized t;
     re \<leftarrow> mustRehash t;
     (t, index) \<leftarrow>
       (if re then do { t \<leftarrow> enlarge t; index \<leftarrow> rawGetKnownHC t key hc; Some (t, index) }
        else Some (t, index));
     let index = -1 - index;
     d \<leftarrow> rawInsert key val hc index (t_data t);
     Some (index, t\<lparr>t_data := d, t_counter := t_counter t + 1\<rparr>)
   }"

definition set_val :: "int \<Rightarrow> 'v \<Rightarrow> ('k, 'v) Table \<Rightarrow> ('k, 'v) Table option" where
  "set_val index val t = do {
     s \<leftarrow> mem_get (nat index) (t_data t);
     Some (t\<lparr>t_data := (t_data t)[nat index := s\<lparr>kv_val := Some val\<rparr>]\<rparr>)
   }"

definition val_at :: "int \<Rightarrow> ('k, 'v) Table \<Rightarrow> 'v option" where
  "val_at index t = (if index < 0 then None else do { s \<leftarrow> mem_get (nat index) (t_data t); kv_val s })"

definition table_put :: "('k \<Rightarrow> 64 word) \<Rightarrow> 'k \<Rightarrow> 'v \<Rightarrow> ('k, 'v) Table \<Rightarrow> ('k, 'v) Table option" where
  "table_put hash key val t = do {
     let t = checkIfInitialized t;
     (index, hc) \<leftarrow> rawGet hash t key;
     if index \<ge> 0 then set_val index val t
     else do { (index, t) \<leftarrow> maybeRehashPut t key val hc index; Some t }
   }"

definition mgetOrPut :: "('k \<Rightarrow> 64 word) \<Rightarrow> 'k \<Rightarrow> 'v \<Rightarrow> ('k, 'v) Table \<Rightarrow> ('v \<times> ('k, 'v) Table) option" where
  "mgetOrPut hash key val t = do {
     let t = checkIfInitialized t;
     (index, hc) \<leftarrow> rawGet hash t key;
     (index, t) \<leftarrow> (if index < 0 then maybeRehashPut t key val hc index else Some (index, t));
     v \<leftarrow> val_at index t;
     Some (v, t)
   }"

definition hasKeyOrPut :: "('k \<Rightarrow> 64 word) \<Rightarrow> 'k \<Rightarrow> 'v \<Rightarrow> ('k, 'v) Table \<Rightarrow> (bool \<times> ('k, 'v) Table) option" where
  "hasKeyOrPut hash key val t = do {
     let t = checkIfInitialized t;
     (index, hc) \<leftarrow> rawGet hash t key;
     if index < 0 then do { (index, t) \<leftarrow> maybeRehashPut t key val hc index; Some (False, t) }
     else Some (True, t)
   }"

section \<open>Lookup\<close>

datatype 'k table_error = KeyError 'k

definition table_get :: "('k \<Rightarrow> 64 word) \<Rightarrow> 'k \<Rightarrow> ('k, 'v) Table \<Rightarrow> ('k table_error + 'v) option" where
  "table_get hash key t = do {
     (index, hc) \<leftarrow> rawGet hash t key;
     if index \<ge> 0 then do { v \<leftarrow> val_at index t; Some (Inr v) } else Some (Inl (KeyError key))
   }"

definition hasKey :: "('k \<Rightarrow> 64 word) \<Rightarrow> 'k \<Rightarrow> ('k, 'v) Table \<Rightarrow> bool option" where
  "hasKey hash key t = do { (index, hc) \<leftarrow> rawGet hash t key; Some (index \<ge> 0) }"

definition getOrDefault :: "('k \<Rightarrow> 64 word) \<Rightarrow> 'k \<Rightarrow> 'v \<Rightarrow> ('k, 'v) Table \<Rightarrow> 'v option" where
  "getOrDefault hash key dflt t = do {
     (index, hc) \<leftarrow> rawGet hash t key;
     if index \<ge> 0 then val_at index t else Some dflt
   }"

section \<open>Deletion\<close>

text \<open>The inner loop of \<open>delImplIdx\<close>: the next element that has to move into the hole \<open>j\<close>, or None at the
  end of the cluster.\<close>

partial_function (option) delScan ::
    "('k, 'v) KeyValuePair list \<Rightarrow> nat \<Rightarrow> nat \<Rightarrow> nat \<Rightarrow> nat option option" where
  "delScan d msk j i = do {
     let i = (i + 1) AND msk;
     s \<leftarrow> mem_get i d;
     if isEmpty (hcode s) then Some None
     else do {
       let r = home (hcode s) msk;
       if \<not> ((i \<ge> r \<and> r > j) \<or> (r > j \<and> j > i) \<or> (j > i \<and> i \<ge> r)) then Some (Some i)
       else delScan d msk j i
     }
   }"

partial_function (option) delShift ::
    "('k, 'v) KeyValuePair list \<Rightarrow> nat \<Rightarrow> nat \<Rightarrow> ('k, 'v) KeyValuePair list option" where
  "delShift d msk i = do {
     let j = i;
     d \<leftarrow> mem_set i empty_slot d;
     next \<leftarrow> delScan d msk j i;
     (case next of
        None \<Rightarrow> Some d
      | Some i \<Rightarrow> do {
          s \<leftarrow> mem_get i d;
          d \<leftarrow> mem_set j s d;
          delShift d msk i
        })
   }"

definition delImplIdx :: "('k, 'v) Table \<Rightarrow> int \<Rightarrow> ('k, 'v) Table option" where
  "delImplIdx t i =
     (let msk = maxHash t in
      if i \<ge> 0 then do {
        let t = t\<lparr>t_counter := t_counter t - 1\<rparr>;
        d \<leftarrow> delShift (t_data t) msk (nat i);
        Some (t\<lparr>t_data := d\<rparr>)
      }
      else Some t)"

definition table_del :: "('k \<Rightarrow> 64 word) \<Rightarrow> 'k \<Rightarrow> ('k, 'v) Table \<Rightarrow> ('k, 'v) Table option" where
  "table_del hash key t = do { (i, hc) \<leftarrow> rawGet hash t key; delImplIdx t i }"

definition table_pop :: "('k \<Rightarrow> 64 word) \<Rightarrow> 'k \<Rightarrow> ('k, 'v) Table \<Rightarrow> ('v option \<times> ('k, 'v) Table) option" where
  "table_pop hash key t = do {
     (index, hc) \<leftarrow> rawGet hash t key;
     if index \<ge> 0 then do {
       s \<leftarrow> mem_get (nat index) (t_data t);
       let t = t\<lparr>t_data := (t_data t)[nat index := s\<lparr>kv_val := None\<rparr>]\<rparr>;
       t \<leftarrow> delImplIdx t index;
       Some (kv_val s, t)
     }
     else Some (None, t)
   }"

definition table_clear :: "('k, 'v) Table \<Rightarrow> ('k, 'v) Table" where
  "table_clear t = \<lparr>t_data = replicate (dataLen t) empty_slot, t_counter = 0\<rparr>"

section \<open>Whole tables\<close>

definition default_table :: "('k, 'v) Table" where
  "default_table = \<lparr>t_data = [], t_counter = 0\<rparr>"

definition toTable :: "('k \<Rightarrow> 64 word) \<Rightarrow> ('k \<times> 'v) list \<Rightarrow> ('k, 'v) Table option" where
  "toTable hash pairs = each (\<lambda>(key, val). table_put hash key val) pairs (initImpl (length pairs))"

definition table_pairs :: "('k, 'v) Table \<Rightarrow> ('k option \<times> 'v option) list" where
  "table_pairs t = map (\<lambda>s. (kv_key s, kv_val s)) (filter (\<lambda>s. isFilled (hcode s)) (t_data t))"

section \<open>Rings of slots\<close>

text \<open>How many steps it takes from \<open>a\<close> to \<open>b\<close> in a ring of \<open>N\<close> slots.\<close>

definition dist :: "nat \<Rightarrow> nat \<Rightarrow> nat \<Rightarrow> nat" where
  "dist N a b = (if a \<le> b then b - a else b + N - a)"

definition ring_size :: "nat \<Rightarrow> bool" where
  "ring_size N \<longleftrightarrow> (\<exists>k. N = 2 ^ k)"

lemma ring_sizeE:
  assumes "ring_size N"
  obtains k where "N = 2 ^ k" "0 < N"
  using assms by (auto simp: ring_size_def)

lemma and_ring: "ring_size N \<Longrightarrow> i AND (N - 1) = i mod N" for i :: nat
proof (erule ring_sizeE)
  fix k assume "N = 2 ^ k"
  moreover have "i AND mask k = i mod 2 ^ k" by (simp only: take_bit_eq_mod flip: take_bit_eq_mask)
  ultimately show "i AND (N - 1) = i mod N" by (simp add: mask_eq_exp_minus_1)
qed

lemma nextTry_ring: "ring_size N \<Longrightarrow> i < N \<Longrightarrow> nextTry i (N - 1) = (if i + 1 = N then 0 else i + 1)"
  unfolding nextTry_def by (subst and_ring) auto

lemma home_less: "ring_size N \<Longrightarrow> home hc (N - 1) < N"
  unfolding home_def by (subst and_ring) (auto elim: ring_sizeE)

lemma dist_less [simp]: "a < N \<Longrightarrow> b < N \<Longrightarrow> dist N a b < N"
  by (auto simp: dist_def)

lemma dist_self [simp]: "dist N a a = 0"
  by (simp add: dist_def)

lemma dist_0 [simp]: "a < N \<Longrightarrow> b < N \<Longrightarrow> dist N a b = 0 \<longleftrightarrow> a = b"
  by (auto simp: dist_def)

lemma dist_inj: "a < N \<Longrightarrow> b < N \<Longrightarrow> c < N \<Longrightarrow> dist N a b = dist N a c \<Longrightarrow> b = c"
  by (simp add: dist_def split: if_splits)

lemma dist_next:
  "a < N \<Longrightarrow> i < N \<Longrightarrow> dist N a i + 1 < N \<Longrightarrow> dist N a (if i + 1 = N then 0 else i + 1) = dist N a i + 1"
  by (auto simp: dist_def split: if_splits)

lemma dist_split: "a < N \<Longrightarrow> b < N \<Longrightarrow> c < N \<Longrightarrow> dist N a b \<le> dist N a c \<Longrightarrow> dist N a c = dist N a b + dist N b c"
  by (auto simp: dist_def split: if_splits)

lemma dist_rotate: "a < N \<Longrightarrow> b < N \<Longrightarrow> c < N \<Longrightarrow> dist N a b < dist N a c \<Longrightarrow>
   dist N b y \<le> dist N b c \<Longrightarrow> y < N \<Longrightarrow> dist N a y = dist N a b + dist N b y"
  by (auto simp: dist_def split: if_splits)

text \<open>The condition of \<open>delImplIdx\<close>: the home \<open>r\<close> of slot \<open>i\<close> is not behind the hole \<open>j\<close>.\<close>

lemma shift_condition:
  "r < N \<Longrightarrow> j < N \<Longrightarrow> i < N \<Longrightarrow> i \<noteq> j \<Longrightarrow>
   (i \<ge> r \<and> r > j) \<or> (r > j \<and> j > i) \<or> (j > i \<and> i \<ge> r) \<longleftrightarrow> \<not> dist N r j < dist N r i"
  by (auto simp: dist_def)

section \<open>Intact probe sequences\<close>

abbreviation filled :: "('k, 'v) KeyValuePair \<Rightarrow> bool" where
  "filled s \<equiv> hcode s \<noteq> 0"

lemmas filled_defs = isFilled_def isEmpty_def

definition slot_home :: "('k, 'v) KeyValuePair list \<Rightarrow> nat \<Rightarrow> nat" where
  "slot_home d s = home (hcode (d ! s)) (length d - 1)"

text \<open>Every element can be reached from its home without meeting an empty slot, except those in \<open>H\<close>.\<close>

definition intact :: "nat set \<Rightarrow> ('k, 'v) KeyValuePair list \<Rightarrow> bool" where
  "intact H d \<longleftrightarrow>
     (\<forall>s < length d. filled (d ! s) \<longrightarrow>
        (\<forall>x < length d. dist (length d) (slot_home d s) x < dist (length d) (slot_home d s) s \<longrightarrow>
           filled (d ! x) \<or> x \<in> H))"

lemma intactD:
  "intact H d \<Longrightarrow> s < length d \<Longrightarrow> filled (d ! s) \<Longrightarrow> x < length d \<Longrightarrow>
   dist (length d) (slot_home d s) x < dist (length d) (slot_home d s) s \<Longrightarrow> filled (d ! x) \<or> x \<in> H"
  by (simp add: intact_def)

lemma slot_home_less: "ring_size (length d) \<Longrightarrow> slot_home d s < length d"
  unfolding slot_home_def by (rule home_less)

text \<open>A search from \<open>r\<close> on ends at the first slot with \<open>P\<close>, when there is one.\<close>

lemma ring_search:
  assumes N: "ring_size N" and e: "e < N" "P e" and r: "r < N" "i < N"
    and seen: "\<And>x. x < N \<Longrightarrow> dist N r x < dist N r i \<Longrightarrow> \<not> P x"
    and step: "\<And>i. i < N \<Longrightarrow> \<not> P i \<Longrightarrow> f i = f (nextTry i (N - 1))"
  shows "\<exists>q < N. P q \<and> (\<forall>x < N. dist N r x < dist N r q \<longrightarrow> \<not> P x) \<and> f i = f q"
  using r seen
proof (induction "N - dist N r i" arbitrary: i rule: less_induct)
  case less
  show ?case
  proof (cases "P i")
    case True
    then show ?thesis using less.prems by blast
  next
    case False
    let ?i = "nextTry i (N - 1)"
    have i: "?i = (if i + 1 = N then 0 else i + 1)" using nextTry_ring [OF N less.prems(2)] .
    have "dist N r i \<noteq> dist N r e" using dist_inj [of r N i e] less.prems False e by auto
    moreover have "\<not> dist N r e < dist N r i" using less.prems(3) [of e] e by auto
    ultimately have lt: "dist N r i + 1 < N" using dist_less [OF less.prems(1) e(1)] by linarith
    then have nxt: "dist N r ?i = dist N r i + 1" unfolding i by (rule dist_next [OF less.prems(1,2)])
    have less_i: "?i < N" using less.prems(2) i by auto
    have seen: "\<not> P x" if "x < N" "dist N r x < dist N r ?i" for x
    proof (cases "x = i")
      case False
      then have "dist N r x \<noteq> dist N r i" using dist_inj less.prems that by blast
      then show ?thesis using that nxt by (intro less.prems(3)) auto
    qed (use False in simp)
    have "N - dist N r ?i < N - dist N r i" using nxt lt by simp
    from less.hyps [OF this less.prems(1) less_i seen] step [OF less.prems(2) False]
    show ?thesis by simp
  qed
qed

text \<open>A search for a key ends at its slot or at the first empty one.\<close>

lemma rawGetLoop_ok:
  assumes N: "N = length d" "ring_size N" and e: "e < N" "\<not> filled (d ! e)" and r: "r < N"
  shows "\<exists>q < N. (\<forall>x < N. dist N r x < dist N r q \<longrightarrow> filled (d ! x) \<and> \<not> (hcode (d ! x) = hc \<and> kv_key (d ! x) = Some key)) \<and>
    (if filled (d ! q) then hcode (d ! q) = hc \<and> kv_key (d ! q) = Some key \<and> rawGetLoop d key hc r = Some (int q)
     else rawGetLoop d key hc r = Some (-1 - int q))"
proof -
  let ?P = "\<lambda>q. \<not> filled (d ! q) \<or> hcode (d ! q) = hc \<and> kv_key (d ! q) = Some key"
  obtain q where q: "q < N" "?P q" "\<forall>x < N. dist N r x < dist N r q \<longrightarrow> \<not> ?P x"
      "rawGetLoop d key hc r = rawGetLoop d key hc q"
  proof -
    have "rawGetLoop d key hc i = rawGetLoop d key hc (nextTry i (N - 1))" if "i < N" "\<not> ?P i" for i
      using that N(1) by (subst rawGetLoop.simps) (auto simp: filled_defs)
    then show ?thesis using ring_search [OF N(2) e(1) _ r r, of ?P "rawGetLoop d key hc"] e r that by auto
  qed
  then show ?thesis using N(1)
    by (intro exI [of _ q]) (auto simp: rawGetLoop.simps [of d key hc q] filled_defs)
qed

lemma findEmpty_ok:
  assumes N: "N = length d" "ring_size N" and e: "e < N" "\<not> filled (d ! e)" and r: "r < N"
  shows "\<exists>q < N. (\<forall>x < N. dist N r x < dist N r q \<longrightarrow> filled (d ! x)) \<and> \<not> filled (d ! q) \<and> findEmpty d r = Some q"
proof -
  obtain q where q: "q < N" "\<not> filled (d ! q)" "\<forall>x < N. dist N r x < dist N r q \<longrightarrow> filled (d ! x)"
      "findEmpty d r = findEmpty d q"
  proof -
    have "findEmpty d i = findEmpty d (nextTry i (N - 1))" if "i < N" "\<not> \<not> filled (d ! i)" for i
      using that N(1) by (subst findEmpty.simps) (auto simp: filled_defs)
    then show ?thesis using ring_search [OF N(2) e(1) _ r r, of "\<lambda>q. \<not> filled (d ! q)" "findEmpty d"] e r that by auto
  qed
  then show ?thesis using N(1) by (intro exI [of _ q]) (auto simp: findEmpty.simps [of d q] filled_defs)
qed

section \<open>The elements of a table\<close>

definition elems :: "('k, 'v) KeyValuePair list \<Rightarrow> ('k, 'v) KeyValuePair multiset" where
  "elems d = filter_mset filled (mset d)"

lemma elems_update:
  "i < length d \<Longrightarrow> elems (d[i := s]) =
     (elems d - (if filled (d ! i) then {#d ! i#} else {#})) + (if filled s then {#s#} else {#})"
  by (simp add: elems_def mset_update)

lemma elems_empty [simp]: "elems (replicate n empty_slot) = {#}"
  by (induction n) (simp_all add: elems_def)

lemma elems_nth: "i < length d \<Longrightarrow> filled (d ! i) \<Longrightarrow> d ! i \<in># elems d"
  by (simp add: elems_def)

lemma elems_index: "s \<in># elems d \<Longrightarrow> \<exists>i < length d. d ! i = s \<and> filled s"
  by (auto simp: elems_def in_set_conv_nth)

lemma slot_home_update [simp]: "s \<noteq> i \<Longrightarrow> slot_home (d[i := x]) s = slot_home d s"
  by (simp add: slot_home_def)

section \<open>Deletion keeps the probe sequences\<close>

text \<open>\<open>delScan\<close> from \<open>i\<close> finds the next element that its probe sequence takes over the hole \<open>j\<close>, or the
  end of the cluster.\<close>

definition crosses :: "('k, 'v) KeyValuePair list \<Rightarrow> nat \<Rightarrow> nat \<Rightarrow> bool" where
  "crosses d j s \<longleftrightarrow> dist (length d) (slot_home d s) j < dist (length d) (slot_home d s) s"

lemma delScan_ok:
  assumes N: "N = length d" "ring_size N" and e: "e < N" "\<not> filled (d ! e)" "e \<noteq> j" and j: "j < N" "i < N"
    and seen: "\<And>x. x < N \<Longrightarrow> 0 < dist N j x \<Longrightarrow> dist N j x \<le> dist N j i \<Longrightarrow> filled (d ! x) \<and> \<not> crosses d j x"
    and le: "dist N j i < dist N j e"
  shows "\<exists>q < N. q \<noteq> j \<and> dist N j q \<le> dist N j e \<and>
    (\<forall>x < N. 0 < dist N j x \<longrightarrow> dist N j x < dist N j q \<longrightarrow> filled (d ! x) \<and> \<not> crosses d j x) \<and>
    (if filled (d ! q) then crosses d j q \<and> delScan d (N - 1) j i = Some (Some q)
     else delScan d (N - 1) j i = Some None)"
  using j(2) seen le
proof (induction "N - dist N j i" arbitrary: i rule: less_induct)
  case less
  let ?i = "nextTry i (N - 1)"
  have i: "?i = (if i + 1 = N then 0 else i + 1)" using nextTry_ring [OF N(2) less.prems(1)] .
  have lt: "dist N j i + 1 < N" using less.prems(3) dist_less [OF j(1) e(1)] by linarith
  then have nxt: "dist N j ?i = dist N j i + 1" unfolding i by (rule dist_next [OF j(1) less.prems(1)])
  have iN: "?i < N" using less.prems(1) i by auto
  then have ij: "?i \<noteq> j" using nxt j by (auto simp: dist_0)
  have g: "mem_get ?i d = Some (d ! ?i)" using iN N(1) by simp
  have before: "filled (d ! x) \<and> \<not> crosses d j x" if "x < N" "0 < dist N j x" "dist N j x < dist N j ?i" for x
    using that nxt by (intro less.prems(2)) auto
  have cond: "(?i \<ge> r \<and> r > j) \<or> (r > j \<and> j > ?i) \<or> (j > ?i \<and> ?i \<ge> r) \<longleftrightarrow> \<not> crosses d j ?i"
    if "r = home (hcode (d ! ?i)) (N - 1)" for r
    using shift_condition [of r N j ?i] home_less [OF N(2)] j(1) iN ij that
    by (simp add: crosses_def slot_home_def N(1))
  have unf: "delScan d (N - 1) j i =
      (if isEmpty (hcode (d ! ?i)) then Some None
       else if crosses d j ?i then Some (Some ?i) else delScan d (N - 1) j ?i)"
  proof -
    have ni: "(i + 1) AND (N - 1) = ?i" by (simp add: nextTry_def)
    show ?thesis
      by (subst delScan.simps) (simp only: ni Let_def g bind.bind_lunit cond [OF refl] not_not)
  qed
  show ?case
  proof (cases "filled (d ! ?i) \<and> \<not> crosses d j ?i")
    case False
    then show ?thesis
      using unf iN ij before nxt less.prems(3) by (intro exI [of _ ?i]) (auto simp: filled_defs)
  next
    case True
    have seen: "filled (d ! x) \<and> \<not> crosses d j x" if "x < N" "0 < dist N j x" "dist N j x \<le> dist N j ?i" for x
    proof (cases "x = ?i")
      case False
      then have "dist N j x \<noteq> dist N j ?i" using dist_inj j(1) iN that(1) by blast
      then show ?thesis using that by (intro before) auto
    qed (use True in simp)
    have "dist N j ?i \<noteq> dist N j e" using dist_inj [OF j(1) iN e(1)] True e(2) by auto
    then have le: "dist N j ?i < dist N j e" using nxt less.prems(3) by linarith
    have "N - dist N j ?i < N - dist N j i" using nxt lt by simp
    moreover have eq: "delScan d (N - 1) j i = delScan d (N - 1) j ?i" using True by (simp only: unf filled_defs) simp
    ultimately show ?thesis using less.hyps [of ?i, OF _ iN seen le] unfolding eq by blast
  qed
qed

lemma delShift_ok:
  assumes N: "N = length d" "ring_size N" and e: "e < N" "\<not> filled (d ! e)" "e \<noteq> i" and i: "i < N"
    and ok: "intact {i} (d[i := empty_slot])"
  shows "\<exists>d'. delShift d (N - 1) i = Some d' \<and> length d' = N \<and> intact {} d' \<and> elems d' = elems (d[i := empty_slot])"
  using N(1) e i ok
proof (induction "dist N i e" arbitrary: i d rule: less_induct)
  case less
  let ?d = "d[i := empty_slot]"
  have N': "N = length ?d" using less.prems by simp
  have e': "\<not> filled (?d ! e)" using less.prems by simp
  have hole: "\<not> filled (?d ! i)" using less.prems by simp
  have "0 < dist N i e" using less.prems dist_0 [of i N e] by (intro gr0I) auto
  then obtain q where q: "q < N" "q \<noteq> i" "dist N i q \<le> dist N i e"
      "\<And>x. x < N \<Longrightarrow> 0 < dist N i x \<Longrightarrow> dist N i x < dist N i q \<Longrightarrow> filled (?d ! x) \<and> \<not> crosses ?d i x"
      "if filled (?d ! q) then crosses ?d i q \<and> delScan ?d (N - 1) i i = Some (Some q)
       else delScan ?d (N - 1) i i = Some None"
    using delScan_ok [OF N' N(2) less.prems(2) e' less.prems(4,5,5)] by (auto simp: dist_self)
  have set: "mem_set i empty_slot d = Some ?d" using less.prems by simp
  show ?case
  proof (cases "filled (?d ! q)")
    case False
    have "intact {} ?d"
      unfolding intact_def
    proof (intro allI impI disjI1)
      fix s x
      assume s: "s < length ?d" "filled (?d ! s)" "x < length ?d"
        "dist (length ?d) (slot_home ?d s) x < dist (length ?d) (slot_home ?d s) s"
      show "filled (?d ! x)"
      proof (rule ccontr)
        assume "\<not> filled (?d ! x)"
        then have x: "x = i" using intactD [OF less.prems(6) s] by simp
        let ?r = "slot_home ?d s"
        have r: "?r < N" using slot_home_less [of ?d] N' N(2) by simp
        have si: "s \<noteq> i" using s(2) hole by auto
        have "dist N i s < dist N i q"
        proof (rule ccontr)
          assume "\<not> dist N i s < dist N i q"
          then have le: "dist N i q \<le> dist N i s" by simp
          have qs: "q \<noteq> s" using s(2) False by auto
          have "dist N i q \<noteq> dist N i s" using dist_inj [OF less.prems(5) q(1), of s] s(1) N' qs by auto
          then have lt: "dist N i q < dist N i s" using le by simp
          have "dist N ?r s = dist N ?r i + dist N i s"
            using dist_rotate [of ?r N i s s] r less.prems(5) s x N' by simp
          moreover have "dist N ?r q = dist N ?r i + dist N i q"
            using dist_rotate [of ?r N i s q] r less.prems(5) s x N' q(1) le by simp
          ultimately have "dist N ?r q < dist N ?r s" using lt by simp
          then show False using intactD [OF less.prems(6) s(1,2), of q] q(1,2) False N' by auto
        qed
        moreover have "0 < dist N i s" using dist_0 [OF less.prems(5), of s] si s(1) N' by simp
        ultimately have "\<not> crosses ?d i s" using q(4) s(1) N' by simp
        then show False using s(4) x by (simp add: crosses_def)
      qed
    qed
    then show ?thesis using q(5) False set N' by (subst delShift.simps) simp
  next
    case True
    let ?s = "?d ! q"
    let ?e = "?d[i := ?s]"
    have dq: "?s = d ! q" using q(2) by simp
    have e_eq: "?e = d[i := ?s]" by simp
    have cr: "crosses ?d i q" "delScan ?d (N - 1) i i = Some (Some q)" using q(5) True by auto
    have eq: "e \<noteq> q" using True e' by auto
    have "dist N i q \<noteq> dist N i e" using dist_inj [OF less.prems(5) q(1) less.prems(2)] eq by auto
    then have lt: "dist N i q < dist N i e" using q(3) by simp
    have qe: "dist N q e < dist N i e"
      using dist_split [OF less.prems(5) q(1) less.prems(2) q(3)] dist_0 [OF less.prems(5) q(1)] q(2) by simp
    have "intact {q} (?e[q := empty_slot])"
      unfolding intact_def
    proof (intro allI impI)
      fix s x
      let ?n = "length (?e[q := empty_slot])"
      assume a: "s < ?n" "filled (?e[q := empty_slot] ! s)" "x < ?n"
        "dist ?n (slot_home (?e[q := empty_slot]) s) x < dist ?n (slot_home (?e[q := empty_slot]) s) s"
      have n: "?n = N" using N' by simp
      have sq: "s \<noteq> q" using a by (auto simp: nth_list_update)
      show "filled (?e[q := empty_slot] ! x) \<or> x \<in> {q}"
      proof (cases "s = i")
        case True
        have home: "slot_home (?e[q := empty_slot]) i = slot_home ?d q"
          using q(2) less.prems(5) N' by (simp add: slot_home_def)
        then have "dist N (slot_home ?d q) x < dist N (slot_home ?d q) q"
          using a(4) True n cr(1) N' unfolding crosses_def by simp
        then have "filled (?d ! x) \<or> x = i"
          using intactD [OF less.prems(6), of q x] \<open>filled (?d ! q)\<close> q(1) a(3) N' n by auto
        moreover have "x \<noteq> i" using a(4) True home n by auto
        ultimately show ?thesis using a(3) by (cases "x = q") simp_all
      next
        case False
        then have h: "slot_home (?e[q := empty_slot]) s = slot_home ?d s" using sq by (simp add: slot_home_def)
        have f: "filled (?d ! s)" using a(2) False sq by simp
        have "filled (?d ! x) \<or> x = i" using intactD [OF less.prems(6) _ f, of x] a(1,3,4) h N' n by auto
        then show ?thesis using \<open>filled (?d ! q)\<close> a(3) q(2) by (cases "x = q"; cases "x = i") simp_all
      qed
    qed
    moreover have "\<not> filled (?e ! e)" using e' less.prems by simp
    ultimately obtain d' where d': "delShift ?e (N - 1) q = Some d'" "length d' = N" "intact {} d'"
        "elems d' = elems (?e[q := empty_slot])"
      using less.hyps [OF qe, of ?e] N' less.prems(2) eq q(1) by auto
    have "elems (?e[q := empty_slot]) = elems ?d"
    proof -
      have "elems ?e = add_mset ?s (elems ?d)"
        using elems_update [of i ?d ?s] less.prems(5) N' hole True by simp
      moreover have "?e ! q = ?s" using q(2) by simp
      ultimately show ?thesis using elems_update [of q ?e empty_slot] q(1) N' True by simp
    qed
    moreover have "delShift d (N - 1) i = delShift ?e (N - 1) q"
      using set cr(2) q(1) less.prems(5) N' by (subst delShift.simps) simp
    ultimately show ?thesis using d' by auto
  qed
qed

section \<open>What a table stands for\<close>

definition slot_of :: "('k \<Rightarrow> 64 word) \<Rightarrow> 'k \<Rightarrow> 'v \<Rightarrow> ('k, 'v) KeyValuePair" where
  "slot_of hash k v = \<lparr>hcode = genHash hash k, kv_key = Some k, kv_val = Some v\<rparr>"

definition slots :: "('k \<Rightarrow> 64 word) \<Rightarrow> ('k \<rightharpoonup> 'v) \<Rightarrow> ('k, 'v) KeyValuePair multiset" where
  "slots hash m = image_mset (\<lambda>k. slot_of hash k (the (m k))) (mset_set (dom m))"

text \<open>The table holds the finite map \<open>m\<close>: one slot per key, every slot reachable, some slot empty unless
  nothing was allocated.\<close>

definition maps :: "('k \<Rightarrow> 64 word) \<Rightarrow> ('k, 'v) Table \<Rightarrow> ('k \<rightharpoonup> 'v) \<Rightarrow> bool" where
  "maps hash t m \<longleftrightarrow>
     finite (dom m) \<and> t_counter t = int (card (dom m)) \<and> elems (t_data t) = slots hash m \<and>
     intact {} (t_data t) \<and>
     (t_data t = [] \<or> ring_size (length (t_data t)) \<and> card (dom m) < length (t_data t))"

lemma genHash_filled [simp]: "genHash hash k \<noteq> 0" "0 \<noteq> genHash hash k"
  by (simp_all add: genHash_def Let_def)

lemma slot_of_simps [simp]:
  "hcode (slot_of hash k v) = genHash hash k" "kv_key (slot_of hash k v) = Some k" "kv_val (slot_of hash k v) = Some v"
  by (simp_all add: slot_of_def)

lemma in_slots: "finite (dom m) \<Longrightarrow> s \<in># slots hash m \<longleftrightarrow> (\<exists>k v. m k = Some v \<and> s = slot_of hash k v)"
proof -
  assume "finite (dom m)"
  then have "s \<in># slots hash m \<longleftrightarrow> (\<exists>k \<in> dom m. s = slot_of hash k (the (m k)))" by (auto simp: slots_def)
  also have "\<dots> \<longleftrightarrow> (\<exists>k v. m k = Some v \<and> s = slot_of hash k v)" by (force simp: Bex_def)
  finally show ?thesis .
qed

lemma slots_put: "finite (dom m) \<Longrightarrow> m k = None \<Longrightarrow> slots hash (m(k \<mapsto> v)) = add_mset (slot_of hash k v) (slots hash m)"
proof -
  assume m: "finite (dom m)" "m k = None"
  then have "k \<notin> dom m" by auto
  with m show ?thesis
    unfolding slots_def by (auto intro!: image_mset_cong split: if_splits)
qed

lemma slots_remove:
  assumes "finite (dom m)" "m k = Some v"
  shows "slots hash m = add_mset (slot_of hash k v) (slots hash (m(k := None)))"
proof -
  have "m = (m(k := None))(k \<mapsto> v)" using assms(2) by (simp add: fun_upd_idem)
  then show ?thesis using slots_put [of "m(k := None)" k hash v] assms(1) by simp
qed

lemma size_slots: "finite (dom m) \<Longrightarrow> size (slots hash m) = card (dom m)"
  by (simp add: slots_def)

lemma some_empty:
  assumes "size (elems d) < length d"
  shows "\<exists>e < length d. \<not> filled (d ! e)"
proof (rule ccontr)
  assume "\<not> (\<exists>e < length d. \<not> filled (d ! e))"
  then have "\<forall>s \<in># mset d. filled s" by (auto simp: in_set_conv_nth)
  then have "elems d = mset d" unfolding elems_def by (simp add: filter_mset_eq_conv)
  with assms show False by simp
qed

lemma maps_empty_slot: "maps hash t m \<Longrightarrow> t_data t \<noteq> [] \<Longrightarrow> \<exists>e < length (t_data t). \<not> filled (t_data t ! e)"
  by (rule some_empty) (auto simp: maps_def size_slots)

text \<open>A search finds the slot of the key, or the slot where the key belongs.\<close>

lemma rawGetKnownHC_ok:
  fixes t :: "('k, 'v) Table" and key :: 'k
  assumes t: "maps hash t m" and ne: "t_data t \<noteq> []"
  defines "d \<equiv> t_data t" and "r \<equiv> home (genHash hash key) (length (t_data t) - 1)"
  obtains (found) q v where "q < length d" "m key = Some v" "d ! q = slot_of hash key v"
      "rawGetKnownHC t key (genHash hash key) = Some (int q)"
  | (missing) q where "q < length d" "m key = None" "\<not> filled (d ! q)"
      "\<And>x. x < length d \<Longrightarrow> dist (length d) r x < dist (length d) r q \<Longrightarrow> filled (d ! x)"
      "rawGetKnownHC t key (genHash hash key) = Some (-1 - int q)"
proof -
  let ?hc = "genHash hash key" and ?N = "length d"
  have N: "ring_size ?N" and fin: "finite (dom m)" and el: "elems d = slots hash m" and int: "intact {} d"
    using t ne by (auto simp: maps_def d_def)
  obtain e where e: "e < ?N" "\<not> filled (d ! e)" using maps_empty_slot [OF t ne] by (auto simp: d_def)
  have r: "r < ?N" unfolding r_def d_def by (rule home_less) (use N in \<open>simp add: d_def\<close>)
  have raw: "rawGetKnownHC t key ?hc = rawGetLoop d key ?hc r"
    using ne by (simp add: rawGetKnownHC_def dataLen_def maxHash_def d_def r_def)
  obtain q where q: "q < ?N"
      "\<And>x. x < ?N \<Longrightarrow> dist ?N r x < dist ?N r q \<Longrightarrow> filled (d ! x) \<and> \<not> (hcode (d ! x) = ?hc \<and> kv_key (d ! x) = Some key)"
      "if filled (d ! q) then hcode (d ! q) = ?hc \<and> kv_key (d ! q) = Some key \<and> rawGetLoop d key ?hc r = Some (int q)
       else rawGetLoop d key ?hc r = Some (-1 - int q)"
    using rawGetLoop_ok [OF refl N e r, of ?hc key] by blast
  show ?thesis
  proof (cases "filled (d ! q)")
    case True
    then obtain k v where kv: "m k = Some v" "d ! q = slot_of hash k v"
      using elems_nth [OF q(1) True] unfolding el in_slots [OF fin] by blast
    have q3: "kv_key (d ! q) = Some key" "rawGetLoop d key ?hc r = Some (int q)" using q(3) True by simp_all
    then have "k = key" using kv(2) by simp
    then show ?thesis using found [OF q(1)] kv q3(2) raw by simp
  next
    case False
    have "m key = None"
    proof (rule ccontr)
      assume "m key \<noteq> None"
      then obtain v where v: "m key = Some v" by auto
      then have "slot_of hash key v \<in># elems d" unfolding el in_slots [OF fin] by blast
      then obtain s where s: "s < ?N" "d ! s = slot_of hash key v" using elems_index by blast
      have sh: "slot_home d s = r" using s(2) by (simp add: slot_home_def r_def d_def)
      have "dist ?N r q \<noteq> dist ?N r s" using dist_inj [OF r q(1) s(1)] s(2) False by auto
      moreover have "\<not> dist ?N r q < dist ?N r s"
        using intactD [OF int s(1) _ q(1)] s(2) sh False by auto
      moreover have "\<not> dist ?N r s < dist ?N r q" using q(2) [OF s(1)] s(2) by auto
      ultimately show False by linarith
    qed
    moreover have "rawGetLoop d key ?hc r = Some (-1 - int q)" using q(3) False by simp
    ultimately show ?thesis using missing [OF q(1) _ False] q(2) raw by simp
  qed
qed

text \<open>Filling the slot where a key belongs.\<close>

lemma intact_fill:
  assumes int: "intact {} d" and N: "ring_size (length d)" and q: "q < length d" "\<not> filled (d ! q)" "filled s"
    and path: "\<And>x. x < length d \<Longrightarrow>
      dist (length d) (home (hcode s) (length d - 1)) x < dist (length d) (home (hcode s) (length d - 1)) q \<Longrightarrow> filled (d ! x)"
  shows "intact {} (d[q := s])"
  unfolding intact_def
proof (intro allI impI disjI1)
  fix i x
  assume a: "i < length (d[q := s])" "filled (d[q := s] ! i)" "x < length (d[q := s])"
    "dist (length (d[q := s])) (slot_home (d[q := s]) i) x < dist (length (d[q := s])) (slot_home (d[q := s]) i) i"
  have "filled (d ! x) \<or> x = q"
  proof (cases "i = q")
    case True
    then show ?thesis using a path [of x] q(1) by (simp add: slot_home_def)
  next
    case False
    then show ?thesis using a intactD [OF int, of i x] by simp
  qed
  then show "filled (d[q := s] ! x)" using q by (cases "x = q") simp_all
qed

lemma maps_insert:
  assumes t: "maps hash t m" and ne: "t_data t \<noteq> []" and k: "m key = None"
    and q: "q < length (t_data t)" "\<not> filled (t_data t ! q)"
      "\<And>x. x < length (t_data t) \<Longrightarrow>
         dist (length (t_data t)) (home (genHash hash key) (length (t_data t) - 1)) x
           < dist (length (t_data t)) (home (genHash hash key) (length (t_data t) - 1)) q \<Longrightarrow> filled (t_data t ! x)"
    and room: "card (dom m) + 1 < length (t_data t)"
  shows "maps hash (t\<lparr>t_data := (t_data t)[q := slot_of hash key val], t_counter := t_counter t + 1\<rparr>) (m(key \<mapsto> val))"
proof -
  have fin: "finite (dom m)" and N: "ring_size (length (t_data t))" and int: "intact {} (t_data t)"
    and el: "elems (t_data t) = slots hash m" and c: "t_counter t = int (card (dom m))"
    using t ne by (auto simp: maps_def)
  have card: "card (dom (m(key \<mapsto> val))) = card (dom m) + 1" using fin k by (simp add: domIff)
  have "intact {} ((t_data t)[q := slot_of hash key val])"
    using int N q by (intro intact_fill) simp_all
  moreover have "elems ((t_data t)[q := slot_of hash key val]) = slots hash (m(key \<mapsto> val))"
    using elems_update [OF q(1)] q(2) by (simp add: slots_put [OF fin k] el)
  ultimately show ?thesis using fin N c card room by (simp add: maps_def)
qed

lemma intact_replace:
  "intact {} d \<Longrightarrow> q < length d \<Longrightarrow> hcode s = hcode (d ! q) \<Longrightarrow> intact {} (d[q := s])"
proof -
  assume int: "intact {} d" and q: "q < length d" "hcode s = hcode (d ! q)"
  have h: "hcode (d[q := s] ! i) = hcode (d ! i)" for i using q by (cases "i = q") simp_all
  show ?thesis using int unfolding intact_def slot_home_def h length_list_update .
qed

lemma maps_replace:
  assumes t: "maps hash t m" and k: "m key = Some v" and q: "q < length (t_data t)" "t_data t ! q = slot_of hash key v"
  shows "maps hash (t\<lparr>t_data := (t_data t)[q := slot_of hash key val]\<rparr>) (m(key \<mapsto> val))"
proof -
  have fin: "finite (dom m)" and el: "elems (t_data t) = slots hash m" using t by (auto simp: maps_def)
  have dom: "dom (m(key \<mapsto> val)) = dom m" using k by auto
  have "elems ((t_data t)[q := slot_of hash key val]) = slots hash (m(key \<mapsto> val))"
    using elems_update [OF q(1), of "slot_of hash key val"] slots_remove [OF fin k, of hash]
      slots_put [of "m(key := None)" key hash val] fin q(2) by (simp add: el)
  moreover have "intact {} ((t_data t)[q := slot_of hash key val])"
    using t q by (intro intact_replace) (simp_all add: maps_def)
  ultimately show ?thesis using t unfolding maps_def dom by simp
qed

section \<open>Powers of two\<close>

text \<open>\<open>spread S r x\<close>: the bits of \<open>r\<close> are those of \<open>x\<close> moved down by the distances in \<open>S\<close>.\<close>

definition spread :: "nat set \<Rightarrow> 64 word \<Rightarrow> 64 word \<Rightarrow> bool" where
  "spread S r x \<longleftrightarrow> (\<forall>i. bit r i \<longleftrightarrow> (\<exists>d \<in> S. bit x (i + d)))"

lemma signed_drop_bit_pos: "\<not> bit r 63 \<Longrightarrow> signed_drop_bit n r = drop_bit n r" for r :: "64 word"
  by (rule bit_eqI) (auto simp: bit_signed_drop_bit_iff bit_drop_bit_eq not_le dest: bit_imp_le_length)

lemma spread_step:
  assumes "spread S r x" "\<not> bit x 63"
  shows "spread (S \<union> (+) n ` S) (or_shr n r) x"
proof -
  have top: "\<not> bit x j" if "63 \<le> j" for j
    using assms(2) that by (cases "j = 63") (auto dest: bit_imp_le_length)
  then have "\<not> bit r 63" using assms(1) by (auto simp: spread_def)
  then show ?thesis
    using assms(1) by (auto simp: spread_def or_shr_def signed_drop_bit_pos bit_or_iff bit_drop_bit_eq ac_simps)
qed

lemma smeared:
  assumes "\<not> bit x 63"
  shows "spread {..<64} (or_shr 1 (or_shr 2 (or_shr 4 (or_shr 8 (or_shr 16 (or_shr 32 x)))))) x"
proof -
  let ?p = "\<lambda>n S. S \<union> (+) n ` S"
  have "spread {0} x x" by (simp add: spread_def)
  note s = spread_step [OF _ assms]
  have "spread (?p 1 (?p 2 (?p 4 (?p 8 (?p 16 (?p 32 {0}))))))
      (or_shr 1 (or_shr 2 (or_shr 4 (or_shr 8 (or_shr 16 (or_shr 32 x)))))) x"
    by (intro s) fact
  moreover have "?p 1 (?p 2 (?p 4 (?p 8 (?p 16 (?p 32 {0}))))) = set [0..<64]" by code_simp
  ultimately show ?thesis by (simp add: atLeast0LessThan)
qed

lemma bit_of_range:
  fixes n :: nat
  assumes "2 ^ k \<le> n" "n < 2 ^ (k + 1)"
  shows "bit n k" "bit n j \<Longrightarrow> j \<le> k"
proof -
  have "n div 2 ^ k = 1" using assms by (simp add: div_nat_eqI)
  then show "bit n k" by (simp add: bit_iff_odd)
  show "j \<le> k" if "bit n j"
  proof (rule ccontr)
    assume "\<not> j \<le> k"
    then have "(2 :: nat) ^ (k + 1) \<le> 2 ^ j" by (intro power_increasing) auto
    then have "n div 2 ^ j = 0" using assms(2) by simp
    with that show False by (simp add: bit_iff_odd)
  qed
qed

text \<open>The bit trick computes the least power of two that is not below its argument.\<close>

lemma nextPowerOfTwo_ok:
  assumes x: "1 \<le> n" "n \<le> 2 ^ 62"
  shows "\<exists>k. unat (nextPowerOfTwo (of_nat n)) = 2 ^ k \<and> n \<le> 2 ^ k \<and> (k = 0 \<or> 2 ^ (k - 1) < n)"
proof -
  let ?x = "of_nat n :: 64 word"
  define q where "q = n - 1"
  have n: "n = q + 1" using x by (simp add: q_def)
  then have m: "?x - 1 = of_nat q" by simp
  have small: "q < 2 ^ 62" "n < 2 ^ 63" using x n by auto
  have bits: "bit (of_nat q :: 64 word) i \<longleftrightarrow> i < 64 \<and> bit q i" for i by (simp add: bit_simps)
  let ?r = "or_shr 1 (or_shr 2 (or_shr 4 (or_shr 8 (or_shr 16 (or_shr 32 (of_nat q))))))"
  have "sint ?x = int n"
    using signed_take_bit_int_eq_self [of 63 "int n"] small(2) by (simp add: signed_of_nat)
  then have pos: "0 < sint ?x" using x by simp
  have np: "nextPowerOfTwo ?x = ?r + 1" using pos by (simp add: nextPowerOfTwo_def m Let_def)
  show ?thesis
  proof (cases "q = 0")
    case True
    then have "?r = 0" by (simp add: or_shr_def)
    then show ?thesis using np True n by (intro exI [of _ 0]) simp
  next
    case False
    then have "1 \<le> q" by simp
    from ex_power_ivl1 [OF order.refl this] obtain k where k: "2 ^ k \<le> q" "q < 2 ^ (k + 1)" by blast
    have "k < 62"
    proof (rule ccontr)
      assume "\<not> k < 62"
      then have "(2 :: nat) ^ 62 \<le> 2 ^ k" by (intro power_increasing) auto
      with k small show False by simp
    qed
    have "\<not> bit (of_nat q :: 64 word) 63" using bit_of_range(2) [OF k, of 63] \<open>k < 62\<close> by (auto simp: bits)
    from smeared [OF this] have r: "bit ?r i \<longleftrightarrow> (\<exists>d < 64. i + d < 64 \<and> bit q (i + d))" for i
      unfolding spread_def bits by (auto simp: Bex_def)
    have "?r = mask (k + 1)"
    proof (rule bit_word_eqI)
      fix i assume "i < LENGTH(64)"
      have "(\<exists>d < 64. i + d < 64 \<and> bit q (i + d)) \<longleftrightarrow> i \<le> k"
      proof
        assume "i \<le> k"
        then show "\<exists>d < 64. i + d < 64 \<and> bit q (i + d)"
          using bit_of_range(1) [OF k] \<open>k < 62\<close> by (intro exI [of _ "k - i"]) simp
      next
        assume "\<exists>d < 64. i + d < 64 \<and> bit q (i + d)"
        then show "i \<le> k" using bit_of_range(2) [OF k] by force
      qed
      then show "bit ?r i = bit (mask (k + 1) :: 64 word) i"
        unfolding r using \<open>i < LENGTH(64)\<close> by (simp add: bit_mask_iff less_Suc_eq_le)
    qed
    then have "nextPowerOfTwo ?x = 2 ^ (k + 1)" using np by (simp add: mask_eq_exp_minus_1)
    moreover have "unat (2 ^ (k + 1) :: 64 word) = 2 ^ (k + 1)"
    proof -
      have "(2 :: nat) ^ (k + 1) < 2 ^ 64" by (rule power_strict_increasing) (use \<open>k < 62\<close> in auto)
      then have "unat (of_nat (2 ^ (k + 1)) :: 64 word) = 2 ^ (k + 1)" unfolding unat_of_nat by (intro mod_less) simp
      then show ?thesis by simp
    qed
    ultimately show ?thesis using k n by (intro exI [of _ "k + 1"]) auto
  qed
qed

lemma slotsNeeded_ok:
  assumes "n \<le> 2 ^ 60"
  shows "ring_size (slotsNeeded n)" "n div 2 + n + 4 \<le> slotsNeeded n"
proof -
  have "n div 2 + n + 4 \<le> 2 ^ 62" "1 \<le> n div 2 + n + 4" using assms by auto
  from nextPowerOfTwo_ok [OF this(2,1)] show "ring_size (slotsNeeded n)" "n div 2 + n + 4 \<le> slotsNeeded n"
    unfolding ring_size_def slotsNeeded_def by auto
qed

section \<open>Every operation on the map\<close>

lemma maps_initImpl: "n \<le> 2 ^ 60 \<Longrightarrow> maps hash (initImpl n) (\<lambda>_. None)"
  using slotsNeeded_ok [of n] by (auto simp: maps_def initImpl_def slots_def intact_def)

lemma maps_default: "maps hash default_table (\<lambda>_. None)"
  by (simp add: maps_def default_table_def slots_def intact_def elems_def)

lemma checkIfInitialized_ok:
  assumes "maps hash t m"
  shows "maps hash (checkIfInitialized t) m" "t_data (checkIfInitialized t) \<noteq> []"
proof -
  have init: "t_data (initImpl defaultInitialSize) \<noteq> []"
    using slotsNeeded_ok(2) [of 32] by (auto simp: initImpl_def defaultInitialSize_def)
  have "maps hash (checkIfInitialized t) m \<and> t_data (checkIfInitialized t) \<noteq> []"
  proof (cases "t_data t = []")
    case True
    then have "elems (t_data t) = {#}" by (simp add: elems_def)
    then have "m = (\<lambda>_. None)" using assms by (auto simp: maps_def slots_def mset_set_empty_iff)
    moreover have "maps hash (initImpl defaultInitialSize) (\<lambda>_. None)"
      by (rule maps_initImpl) (simp add: defaultInitialSize_def)
    ultimately show ?thesis using True init by (simp add: checkIfInitialized_def dataLen_def)
  next
    case False
    then show ?thesis using assms by (simp add: checkIfInitialized_def dataLen_def)
  qed
  then show "maps hash (checkIfInitialized t) m" "t_data (checkIfInitialized t) \<noteq> []" by auto
qed

text \<open>Growing puts every element into a table of twice the size.\<close>

lemma elems_Cons: "elems (s # d) = (if filled s then add_mset s (elems d) else elems d)"
  by (simp add: elems_def)

lemma reinsert_all:
  assumes "intact {} d" "ring_size (length d)" "size (elems d) + size (elems xs) < length d"
  shows "\<exists>d'. each reinsert xs d = Some d' \<and> length d' = length d \<and> intact {} d' \<and> elems d' = elems d + elems xs"
  using assms
proof (induction xs arbitrary: d)
  case Nil
  then show ?case by (simp add: elems_def)
next
  case (Cons s xs)
  show ?case
  proof (cases "filled s")
    case False
    then show ?thesis using Cons.IH [OF Cons.prems(1,2)] Cons.prems(3)
      by (simp add: reinsert_def filled_defs elems_Cons)
  next
    case True
    obtain e where e: "e < length d" "\<not> filled (d ! e)" using some_empty [of d] Cons.prems(3) by auto
    obtain q where q: "q < length d" "\<not> filled (d ! q)"
        "findEmpty d (home (hcode s) (length d - 1)) = Some q"
        "\<And>x. x < length d \<Longrightarrow> dist (length d) (home (hcode s) (length d - 1)) x
             < dist (length d) (home (hcode s) (length d - 1)) q \<Longrightarrow> filled (d ! x)"
      using findEmpty_ok [OF refl Cons.prems(2) e home_less [OF Cons.prems(2)], of "hcode s"] by blast
    have ins: "reinsert s d = Some (d[q := s])" using True q by (simp add: reinsert_def filled_defs)
    have int: "intact {} (d[q := s])" by (rule intact_fill [OF Cons.prems(1,2) q(1,2) True q(4)])
    have el: "elems (d[q := s]) = add_mset s (elems d)" using elems_update [OF q(1), of s] q(2) True by simp
    have "\<exists>d'. each reinsert xs (d[q := s]) = Some d' \<and> length d' = length (d[q := s]) \<and> intact {} d' \<and>
        elems d' = elems (d[q := s]) + elems xs"
      by (rule Cons.IH [OF int]) (use Cons.prems(2,3) True el in \<open>simp_all add: elems_Cons\<close>)
    then show ?thesis using ins el True by (simp add: elems_Cons)
  qed
qed

lemma ring_double: "ring_size n \<Longrightarrow> ring_size (2 * n)"
  unfolding ring_size_def by (metis power_Suc)

lemma enlarge_ok:
  assumes t: "maps hash t m" and ne: "t_data t \<noteq> []"
  shows "\<exists>t'. enlarge t = Some t' \<and> maps hash t' m \<and> length (t_data t') = 2 * length (t_data t)"
proof -
  let ?n = "length (t_data t) * growthFactor"
  have fin: "finite (dom m)" and N: "ring_size (length (t_data t))" and el: "elems (t_data t) = slots hash m"
    and c: "card (dom m) < length (t_data t)"
    using t ne by (auto simp: maps_def)
  have n: "?n = 2 * length (t_data t)" by (simp add: growthFactor_def)
  have "\<exists>d'. each reinsert (t_data t) (replicate ?n empty_slot) = Some d' \<and>
      length d' = length (replicate ?n (empty_slot :: ('a, 'b) KeyValuePair)) \<and> intact {} d' \<and>
      elems d' = elems (replicate ?n empty_slot) + elems (t_data t)"
    by (rule reinsert_all) (use ring_double [OF N] c in \<open>simp_all add: intact_def n el size_slots fin\<close>)
  then show ?thesis using t c ring_double [OF N] by (auto simp: enlarge_def maps_def n el)
qed

text \<open>Insertion of a key that is not there, after the search for it has failed.\<close>

lemma mustRehash_ok:
  assumes "maps hash t m" "t_data t \<noteq> []"
  obtains b where "mustRehash t = Some b" "\<not> b \<Longrightarrow> card (dom m) + 4 \<le> length (t_data t)"
  using assms by (auto simp: mustRehash_def maps_def dataLen_def)

lemma maybeRehashPut_ok:
  assumes t: "maps hash t m" and ne: "t_data t \<noteq> []" and k: "m key = None"
    and i: "rawGetKnownHC t key (genHash hash key) = Some i"
  shows "\<exists>q t'. maybeRehashPut t key val (genHash hash key) i = Some (int q, t') \<and>
    maps hash t' (m(key \<mapsto> val)) \<and> val_at (int q) t' = Some val"
proof -
  let ?hc = "genHash hash key"
  have check: "checkIfInitialized t = t" using ne by (simp add: checkIfInitialized_def dataLen_def)
  obtain b where b: "mustRehash t = Some b" "\<not> b \<Longrightarrow> card (dom m) + 4 \<le> length (t_data t)"
    using mustRehash_ok [OF t ne] by blast
  obtain t1 i1 where t1: "(if b then do { t \<leftarrow> enlarge t; i \<leftarrow> rawGetKnownHC t key ?hc; Some (t, i) } else Some (t, i)) = Some (t1, i1)"
      "maps hash t1 m" "t_data t1 \<noteq> []" "rawGetKnownHC t1 key ?hc = Some i1" "card (dom m) + 1 < length (t_data t1)"
  proof (cases b)
    case False
    then show ?thesis using that [of t i] t ne i b(2) by simp
  next
    case True
    obtain t' where t': "enlarge t = Some t'" "maps hash t' m" "length (t_data t') = 2 * length (t_data t)"
      using enlarge_ok [OF t ne] by blast
    have ne': "t_data t' \<noteq> []" using t'(3) ne by auto
    obtain i' where "rawGetKnownHC t' key ?hc = Some i'" using rawGetKnownHC_ok [OF t'(2) ne'] by metis
    moreover have "card (dom m) < length (t_data t)" using t ne by (simp add: maps_def)
    ultimately show ?thesis using that [of t' i'] t' ne' True by simp
  qed
  show ?thesis
  proof (rule rawGetKnownHC_ok [OF t1(2,3), of key], goal_cases)
    case (1 q v)
    then show ?thesis using k by simp
  next
    case (2 q)
    let ?t = "t1\<lparr>t_data := (t_data t1)[q := slot_of hash key val], t_counter := t_counter t1 + 1\<rparr>"
    have q: "-1 - i1 = int q" using 2(5) t1(4) by simp
    have "maps hash ?t (m(key \<mapsto> val))" by (rule maps_insert [OF t1(2,3) k 2(1,3,4) t1(5)])
    moreover have "rawInsert key val ?hc (int q) (t_data t1) = Some ((t_data t1)[q := slot_of hash key val])"
      using 2(1) by (simp add: rawInsert_def slot_of_def)
    ultimately have "maybeRehashPut t key val ?hc i = Some (int q, ?t)"
      using b(1) t1(1) by (simp add: maybeRehashPut_def check q)
    then show ?thesis using \<open>maps hash ?t (m(key \<mapsto> val))\<close> 2(1) by (auto simp: val_at_def)
  qed
qed

lemma slot_of_update: "(slot_of hash key v)\<lparr>kv_val := Some val\<rparr> = slot_of hash key val"
  by (simp add: slot_of_def)

lemma rawGet_cases:
  fixes t :: "('k, 'v) Table" and key :: 'k
  assumes t: "maps hash t m"
  obtains (found) q v where "q < length (t_data t)" "m key = Some v" "t_data t ! q = slot_of hash key v"
      "rawGet hash t key = Some (int q, genHash hash key)" "val_at (int q) t = Some v"
  | (missing) i where "i < 0" "m key = None" "rawGet hash t key = Some (i, genHash hash key)"
      "t_data t \<noteq> [] \<Longrightarrow> rawGetKnownHC t key (genHash hash key) = Some i"
proof (cases "t_data t = []")
  case True
  then have "elems (t_data t) = {#}" by (simp add: elems_def)
  then have "m key = None" using t by (auto simp: maps_def slots_def mset_set_empty_iff)
  then show ?thesis using missing [of "-1"] True by (simp add: rawGet_def rawGetKnownHC_def dataLen_def Let_def)
next
  case False
  show ?thesis
  proof (rule rawGetKnownHC_ok [OF t False, of key], goal_cases)
    case (1 q v)
    then show ?thesis using found [of q v] by (simp add: rawGet_def Let_def val_at_def)
  next
    case (2 q)
    then show ?thesis using missing [of "-1 - int q"] by (simp add: rawGet_def Let_def)
  qed
qed

lemma set_val_ok:
  assumes "maps hash t m" "m key = Some v" "q < length (t_data t)" "t_data t ! q = slot_of hash key v"
  shows "\<exists>t'. set_val (int q) val t = Some t' \<and> maps hash t' (m(key \<mapsto> val))"
  using maps_replace [OF assms, of val] assms(3,4) by (simp add: set_val_def slot_of_update)

lemma table_put_ok:
  assumes "maps hash t m"
  shows "\<exists>t'. table_put hash key val t = Some t' \<and> maps hash t' (m(key \<mapsto> val))"
proof -
  note t = checkIfInitialized_ok [OF assms]
  show ?thesis
  proof (cases rule: rawGet_cases [OF t(1), of key])
    case (1 q v)
    then show ?thesis using set_val_ok [OF t(1), of key v q val] by (simp add: table_put_def Let_def)
  next
    case (2 i)
    then show ?thesis using maybeRehashPut_ok [OF t 2(2) 2(4) [OF t(2)], of val]
      by (auto simp: table_put_def Let_def)
  qed
qed

lemma mgetOrPut_ok:
  assumes "maps hash t m"
  shows "\<exists>t'. mgetOrPut hash key val t = Some (case m key of Some v \<Rightarrow> v | None \<Rightarrow> val, t') \<and>
    maps hash t' (case m key of Some v \<Rightarrow> m | None \<Rightarrow> m(key \<mapsto> val))"
proof -
  note t = checkIfInitialized_ok [OF assms]
  show ?thesis
  proof (cases rule: rawGet_cases [OF t(1), of key])
    case (1 q v)
    then show ?thesis using t(1) by (simp add: mgetOrPut_def Let_def)
  next
    case (2 i)
    then show ?thesis using maybeRehashPut_ok [OF t 2(2) 2(4) [OF t(2)], of val]
      by (auto simp: mgetOrPut_def Let_def)
  qed
qed

lemma hasKeyOrPut_ok:
  assumes "maps hash t m"
  shows "\<exists>t'. hasKeyOrPut hash key val t = Some (m key \<noteq> None, t') \<and>
    maps hash t' (case m key of Some v \<Rightarrow> m | None \<Rightarrow> m(key \<mapsto> val))"
proof -
  note t = checkIfInitialized_ok [OF assms]
  show ?thesis
  proof (cases rule: rawGet_cases [OF t(1), of key])
    case (1 q v)
    then show ?thesis using t(1) by (simp add: hasKeyOrPut_def Let_def)
  next
    case (2 i)
    then show ?thesis using maybeRehashPut_ok [OF t 2(2) 2(4) [OF t(2)], of val]
      by (auto simp: hasKeyOrPut_def Let_def)
  qed
qed

lemma lookup_ok:
  assumes "maps hash t m"
  shows "table_get hash key t = Some (case m key of Some v \<Rightarrow> Inr v | None \<Rightarrow> Inl (KeyError key))"
    "hasKey hash key t = Some (m key \<noteq> None)"
    "getOrDefault hash key dflt t = Some (case m key of Some v \<Rightarrow> v | None \<Rightarrow> dflt)"
  by (cases rule: rawGet_cases [OF assms, of key]; simp add: table_get_def hasKey_def getOrDefault_def)+

text \<open>Deletion of the slot of a key.\<close>

lemma delImplIdx_ok:
  assumes t: "maps hash t m" and k: "m key = Some v" and q: "q < length (t_data t)" "t_data t ! q = slot_of hash key v"
    and d: "\<And>i. i < length d \<Longrightarrow> i \<noteq> q \<Longrightarrow> d ! i = t_data t ! i" "length d = length (t_data t)"
  shows "\<exists>t'. delImplIdx (t\<lparr>t_data := d\<rparr>) (int q) = Some t' \<and> maps hash t' (m(key := None))"
proof -
  let ?N = "length (t_data t)"
  have ne: "t_data t \<noteq> []" using q by auto
  have fin: "finite (dom m)" and N: "ring_size ?N" and int: "intact {} (t_data t)"
    and el: "elems (t_data t) = slots hash m" and c: "t_counter t = int (card (dom m))" "card (dom m) < ?N"
    using t ne by (auto simp: maps_def)
  obtain e where e: "e < ?N" "\<not> filled (t_data t ! e)" using maps_empty_slot [OF t ne] by blast
  have eq: "e \<noteq> q" using e q by auto
  have upd: "d[q := empty_slot] = (t_data t)[q := empty_slot]"
  proof (rule nth_equalityI)
    fix i assume "i < length (d[q := empty_slot])"
    then show "d[q := empty_slot] ! i = (t_data t)[q := empty_slot] ! i"
      using d by (cases "i = q") simp_all
  qed (simp add: d(2))
  have "intact {q} ((t_data t)[q := empty_slot])"
    unfolding intact_def
  proof (intro allI impI)
    fix s x
    assume a: "s < length ((t_data t)[q := empty_slot])" "filled ((t_data t)[q := empty_slot] ! s)"
      "x < length ((t_data t)[q := empty_slot])"
      "dist (length ((t_data t)[q := empty_slot])) (slot_home ((t_data t)[q := empty_slot]) s) x
        < dist (length ((t_data t)[q := empty_slot])) (slot_home ((t_data t)[q := empty_slot]) s) s"
    have "s \<noteq> q" using a(1,2) by (auto simp: nth_list_update)
    then show "filled ((t_data t)[q := empty_slot] ! x) \<or> x \<in> {q}"
      using intactD [OF int, of s x] a by (cases "x = q") simp_all
  qed
  then have "intact {q} (d[q := empty_slot])" unfolding upd .
  moreover have "\<not> filled (d ! e)" "e < length d" using d e eq by auto
  ultimately obtain d' where d': "delShift d (?N - 1) q = Some d'" "length d' = ?N" "intact {} d'"
      "elems d' = elems (d[q := empty_slot])"
    using delShift_ok [of ?N d e q] d(2) N e(1) eq q(1) by auto
  have "elems d' = slots hash (m(key := None))"
    using d'(4) elems_update [OF q(1), of empty_slot] slots_remove [OF fin k, of hash] q(2) unfolding upd by (simp add: el)
  moreover have "card (dom (m(key := None))) = card (dom m) - 1" using fin k by (simp add: domIff)
  moreover have "0 < card (dom m)" using fin k by (auto simp: card_gt_0_iff)
  ultimately show ?thesis
    using d' N c fin by (auto simp: delImplIdx_def maxHash_def Let_def d(2) maps_def)
qed

lemma table_del_ok:
  assumes t: "maps hash t m"
  shows "\<exists>t'. table_del hash key t = Some t' \<and> maps hash t' (m(key := None))"
proof (cases rule: rawGet_cases [OF t, of key])
  case (1 q v)
  then show ?thesis using delImplIdx_ok [OF t 1(2,1,3), of "t_data t"] by (simp add: table_del_def)
next
  case (2 i)
  then have "m(key := None) = m" by auto
  then show ?thesis using 2 t by (simp add: table_del_def delImplIdx_def Let_def)
qed

lemma table_pop_ok:
  assumes t: "maps hash t m"
  shows "\<exists>t'. table_pop hash key t = Some (m key, t') \<and> maps hash t' (m(key := None))"
proof (cases rule: rawGet_cases [OF t, of key])
  case (1 q v)
  then show ?thesis
    using delImplIdx_ok [OF t 1(2,1,3), of "(t_data t)[q := (t_data t ! q)\<lparr>kv_val := None\<rparr>]"]
    by (auto simp: table_pop_def Let_def)
next
  case (2 i)
  then have "m(key := None) = m" by auto
  then show ?thesis using 2 t by (simp add: table_pop_def)
qed

lemma table_clear_ok: "maps hash t m \<Longrightarrow> maps hash (table_clear t) (\<lambda>_. None)"
  by (auto simp: maps_def table_clear_def dataLen_def slots_def intact_def)

section \<open>Tables as values\<close>

text \<open>\<open>==\<close> on tables; \<open>dflt\<close> is the default value of the value type.\<close>

fun equalsLoop :: "('k \<Rightarrow> 64 word) \<Rightarrow> 'v \<Rightarrow> ('k, 'v) Table \<Rightarrow> ('k option \<times> 'v option) list \<Rightarrow> bool option" where
  "equalsLoop hash dflt t [] = Some True"
| "equalsLoop hash dflt t ((k, v) # ps) = do {
     key \<leftarrow> k;
     val \<leftarrow> v;
     b \<leftarrow> hasKey hash key t;
     if \<not> b then Some False
     else do {
       w \<leftarrow> getOrDefault hash key dflt t;
       if w \<noteq> val then Some False else equalsLoop hash dflt t ps
     }
   }"

definition table_equals :: "('k \<Rightarrow> 64 word) \<Rightarrow> 'v \<Rightarrow> ('k, 'v) Table \<Rightarrow> ('k, 'v) Table \<Rightarrow> bool option" where
  "table_equals hash dflt s t =
     (if t_counter s = t_counter t then equalsLoop hash dflt t (table_pairs s) else Some False)"

lemma set_table_pairs:
  assumes "maps hash t m"
  shows "set (table_pairs t) = {(Some k, Some v) | k v. m k = Some v}"
proof -
  have fin: "finite (dom m)" and el: "elems (t_data t) = slots hash m" using assms by (auto simp: maps_def)
  have "set (filter filled (t_data t)) = set_mset (elems (t_data t))" by (simp add: elems_def)
  also have "\<dots> = {slot_of hash k v | k v. m k = Some v}" unfolding el using in_slots [OF fin] by blast
  finally have eq: "set (filter filled (t_data t)) = {slot_of hash k v | k v. m k = Some v}" .
  have "set (table_pairs t) = (\<lambda>s. (kv_key s, kv_val s)) ` {slot_of hash k v | k v. m k = Some v}"
    unfolding table_pairs_def filled_defs set_map eq ..
  also have "\<dots> = {(Some k, Some v) | k v. m k = Some v}" by force
  finally show ?thesis .
qed

lemma equalsLoop_ok:
  assumes "maps hash t m" "\<forall>p \<in> set ps. \<exists>k v. p = (Some k, Some v)"
  shows "equalsLoop hash dflt t ps = Some (\<forall>k v. (Some k, Some v) \<in> set ps \<longrightarrow> m k = Some v)"
  using assms(2)
proof (induction ps)
  case (Cons p ps)
  then obtain k v where p: "p = (Some k, Some v)" by auto
  show ?case
    using Cons by (cases "m k") (auto simp: p lookup_ok [OF assms(1)])
qed simp

lemma map_eq_card:
  assumes "finite (dom n)" "card (dom m) = card (dom n)" "\<forall>k v. m k = Some v \<longrightarrow> n k = Some v"
  shows "m = n"
proof -
  have "dom m \<subseteq> dom n" using assms(3) by auto
  then have d: "dom m = dom n" by (rule card_subset_eq [OF assms(1) _ assms(2)])
  show ?thesis
  proof
    fix k
    show "m k = n k"
    proof (cases "m k")
      case None
      then have "k \<notin> dom n" using d by blast
      then show ?thesis using None by (simp add: domIff)
    qed (use assms(3) in simp)
  qed
qed

text \<open>Programs over one table, with what their operations return.\<close>

datatype ('k, 'v) tab_op =
  TInit nat | TPut 'k 'v | TGet 'k | THasKey 'k | TGetOrDefault 'k 'v | TMgetOrPut 'k 'v | THasKeyOrPut 'k 'v
| TDel 'k | TPop 'k | TLen | TClear

datatype ('k, 'v) tab_out =
  Done | OGet "'k table_error + 'v" | OBool bool | OVal 'v | OPop "'v option" | OLen int

type_synonym ('k, 'v) tab_run = "('k, 'v) tab_out list \<times> ('k, 'v) Table"

fun run_tab :: "('k \<Rightarrow> 64 word) \<Rightarrow> ('k, 'v) tab_op \<Rightarrow> ('k, 'v) tab_run \<Rightarrow> ('k, 'v) tab_run option" where
  "run_tab hash (TInit n) (out, t) = Some (out @ [Done], initImpl n)"
| "run_tab hash (TPut k v) (out, t) = do { t \<leftarrow> table_put hash k v t; Some (out @ [Done], t) }"
| "run_tab hash (TGet k) (out, t) = do { r \<leftarrow> table_get hash k t; Some (out @ [OGet r], t) }"
| "run_tab hash (THasKey k) (out, t) = do { b \<leftarrow> hasKey hash k t; Some (out @ [OBool b], t) }"
| "run_tab hash (TGetOrDefault k v) (out, t) = do { w \<leftarrow> getOrDefault hash k v t; Some (out @ [OVal w], t) }"
| "run_tab hash (TMgetOrPut k v) (out, t) = do { (w, t) \<leftarrow> mgetOrPut hash k v t; Some (out @ [OVal w], t) }"
| "run_tab hash (THasKeyOrPut k v) (out, t) = do { (b, t) \<leftarrow> hasKeyOrPut hash k v t; Some (out @ [OBool b], t) }"
| "run_tab hash (TDel k) (out, t) = do { t \<leftarrow> table_del hash k t; Some (out @ [Done], t) }"
| "run_tab hash (TPop k) (out, t) = do { (v, t) \<leftarrow> table_pop hash k t; Some (out @ [OPop v], t) }"
| "run_tab hash TLen (out, t) = Some (out @ [OLen (t_counter t)], t)"
| "run_tab hash TClear (out, t) = Some (out @ [Done], table_clear t)"

type_synonym ('k, 'v) map_run = "('k, 'v) tab_out list \<times> ('k \<rightharpoonup> 'v)"

text \<open>The same on a finite map; the initial size has to leave room for the computation of the capacity.\<close>

fun run_map :: "('k, 'v) tab_op \<Rightarrow> ('k, 'v) map_run \<Rightarrow> ('k, 'v) map_run option" where
  "run_map (TInit n) (out, m) = (if n \<le> 2 ^ 60 then Some (out @ [Done], \<lambda>_. None) else None)"
| "run_map (TPut k v) (out, m) = Some (out @ [Done], m(k \<mapsto> v))"
| "run_map (TGet k) (out, m) =
     Some (out @ [OGet (case m k of Some v \<Rightarrow> Inr v | None \<Rightarrow> Inl (KeyError k))], m)"
| "run_map (THasKey k) (out, m) = Some (out @ [OBool (m k \<noteq> None)], m)"
| "run_map (TGetOrDefault k v) (out, m) = Some (out @ [OVal (case m k of Some w \<Rightarrow> w | None \<Rightarrow> v)], m)"
| "run_map (TMgetOrPut k v) (out, m) =
     (case m k of Some w \<Rightarrow> Some (out @ [OVal w], m) | None \<Rightarrow> Some (out @ [OVal v], m(k \<mapsto> v)))"
| "run_map (THasKeyOrPut k v) (out, m) =
     (case m k of Some w \<Rightarrow> Some (out @ [OBool True], m) | None \<Rightarrow> Some (out @ [OBool False], m(k \<mapsto> v)))"
| "run_map (TDel k) (out, m) = Some (out @ [Done], m(k := None))"
| "run_map (TPop k) (out, m) = Some (out @ [OPop (m k)], m(k := None))"
| "run_map TLen (out, m) = Some (out @ [OLen (int (card (dom m)))], m)"
| "run_map TClear (out, m) = Some (out @ [Done], \<lambda>_. None)"

definition tab_agrees :: "('k \<Rightarrow> 64 word) \<Rightarrow> ('k, 'v) tab_run \<Rightarrow> ('k, 'v) map_run \<Rightarrow> bool" where
  "tab_agrees hash r s \<longleftrightarrow> fst r = fst s \<and> maps hash (snd r) (snd s)"

lemma run_tab_ok:
  assumes "tab_agrees hash r s" "run_map p s = Some s'"
  shows "\<exists>r'. run_tab hash p r = Some r' \<and> tab_agrees hash r' s'"
proof -
  obtain out t m where rs: "r = (out, t)" "s = (out, m)" and t: "maps hash t m"
    using assms(1) by (cases r; cases s) (simp add: tab_agrees_def)
  show ?thesis
  proof (cases p)
    case (TInit n)
    then show ?thesis using assms(2) maps_initImpl by (auto simp: rs tab_agrees_def split: if_splits)
  next
    case (TPut k v)
    then show ?thesis using assms(2) table_put_ok [OF t, of k v] by (auto simp: rs tab_agrees_def)
  next
    case (TMgetOrPut k v)
    then show ?thesis using assms(2) mgetOrPut_ok [OF t, of k v] by (auto simp: rs tab_agrees_def split: option.splits)
  next
    case (THasKeyOrPut k v)
    then show ?thesis using assms(2) hasKeyOrPut_ok [OF t, of k v] by (auto simp: rs tab_agrees_def split: option.splits)
  next
    case (TDel k)
    then show ?thesis using assms(2) table_del_ok [OF t, of k] by (auto simp: rs tab_agrees_def)
  next
    case (TPop k)
    then show ?thesis using assms(2) table_pop_ok [OF t, of k] by (auto simp: rs tab_agrees_def)
  next
    case TLen
    then show ?thesis using assms(2) t by (auto simp: rs tab_agrees_def maps_def)
  next
    case TClear
    then show ?thesis using assms(2) table_clear_ok [OF t] by (auto simp: rs tab_agrees_def)
  qed (use assms(2) t lookup_ok [OF t] in \<open>auto simp: rs tab_agrees_def\<close>)
qed

interpretation tm: value_machine "run_tab hash" run_map "tab_agrees hash" for hash
  by unfold_locales (rule run_tab_ok)

section \<open>Room\<close>

text \<open>A put leaves the size of the table alone when \<open>mustRehash\<close> says so.\<close>

lemma table_put_length:
  assumes t: "maps hash t m" and ne: "t_data t \<noteq> []" and re: "mustRehash t = Some False"
    and p: "table_put hash key val t = Some t'"
  shows "length (t_data t') = length (t_data t)"
proof -
  have c: "checkIfInitialized t = t" using ne by (simp add: checkIfInitialized_def dataLen_def)
  show ?thesis
    using p re by (auto simp: table_put_def c Let_def set_val_def maybeRehashPut_def rawInsert_def mem_set_def
        split: bind_splits if_splits)
qed

lemma puts_in_room:
  assumes "maps hash t m" "t_data t \<noteq> []" "n div 2 + n + 4 \<le> length (t_data t)" "card (dom m) + length ps \<le> n"
  shows "\<exists>t'. each (\<lambda>(key, val). table_put hash key val) ps t = Some t' \<and>
    maps hash t' (fold (\<lambda>(key, val) m. m(key \<mapsto> val)) ps m) \<and> length (t_data t') = length (t_data t)"
  using assms
proof (induction ps arbitrary: t m)
  case (Cons p ps)
  obtain k v where p: "p = (k, v)" by fastforce
  obtain t1 where t1: "table_put hash k v t = Some t1" "maps hash t1 (m(k \<mapsto> v))"
    using table_put_ok [OF Cons.prems(1)] by blast
  have "t_counter t = int (card (dom m))" using Cons.prems(1) by (simp add: maps_def)
  then have "mustRehash t = Some False"
    using Cons.prems(3,4) by (auto simp: mustRehash_def dataLen_def)
  then have len: "length (t_data t1) = length (t_data t)"
    using table_put_length [OF Cons.prems(1,2) _ t1(1)] by blast
  have "card (dom (m(k \<mapsto> v))) \<le> card (dom m) + 1"
    using Cons.prems(1) by (simp add: maps_def card_insert_if)
  then have c: "card (dom (m(k \<mapsto> v))) + length ps \<le> n" using Cons.prems(4) by simp
  have "t_data t1 \<noteq> []" "n div 2 + n + 4 \<le> length (t_data t1)" using len Cons.prems(2,3) by auto
  from Cons.IH [OF t1(2) this c] show ?case using t1(1) len by (simp add: p)
qed simp

section \<open>Well-formed tables\<close>

text \<open>What the fields of a table promise, without a map: the counter counts the filled slots; an allocated
  table has a power of two of slots and an empty one; every filled slot carries a key, a value and the
  hash code of its key; no two filled slots carry the same key; no empty slot lies between a filled
  slot and the slot its hash code belongs to.\<close>

definition table_wf :: "('k \<Rightarrow> 64 word) \<Rightarrow> ('k, 'v) Table \<Rightarrow> bool" where
  "table_wf hash t \<longleftrightarrow>
     t_counter t = int (card {i. i < dataLen t \<and> filled (t_data t ! i)}) \<and>
     (t_data t = [] \<or> ring_size (dataLen t) \<and> (\<exists>e < dataLen t. \<not> filled (t_data t ! e))) \<and>
     (\<forall>i < dataLen t. filled (t_data t ! i) \<longrightarrow>
        (\<exists>k v. t_data t ! i = slot_of hash k v \<and>
           (\<forall>j < dataLen t. filled (t_data t ! j) \<and> kv_key (t_data t ! j) = Some k \<longrightarrow> j = i))) \<and>
     intact {} (t_data t)"

lemma card_filled: "card {i. i < length d \<and> filled (d ! i)} = size (elems d)"
  by (simp add: elems_def flip: mset_filter, simp add: length_filter_conv_card)

lemma count_filled_twice:
  assumes "i < length d" "j < length d" "i \<noteq> j" "d ! i = d ! j" "filled (d ! i)"
  shows "2 \<le> count (elems d) (d ! i)"
proof -
  have "elems d = elems (d[i := empty_slot]) + {#d ! i#}"
    using assms elems_update [of i d empty_slot] elems_nth [of i d] by (simp add: filled_defs)
  moreover have "d ! i \<in># elems (d[i := empty_slot])"
    using assms elems_nth [of j "d[i := empty_slot]"] by simp
  ultimately show ?thesis by (simp add: Suc_le_eq)
qed

lemma maps_wf:
  assumes t: "maps hash t m"
  shows "table_wf hash t"
proof -
  let ?d = "t_data t"
  have fin: "finite (dom m)" and el: "elems ?d = slots hash m" using t by (auto simp: maps_def)
  have slot: "\<exists>k v. m k = Some v \<and> ?d ! i = slot_of hash k v" if "i < length ?d" "filled (?d ! i)" for i
    using elems_nth [OF that] by (simp add: el in_slots [OF fin])
  have one: "count (elems ?d) (slot_of hash k v) = 1" if "m k = Some v" for k v
    using slots_remove [OF fin that, of hash] fin
    by (auto simp: el in_slots count_eq_zero_iff slot_of_def split: if_splits)
  have "j = i" if i: "i < length ?d" "?d ! i = slot_of hash k v" and j: "j < length ?d" "filled (?d ! j)"
    "kv_key (?d ! j) = Some k" for i j k v
  proof (rule ccontr)
    assume "j \<noteq> i"
    have fi: "filled (?d ! i)" using i(2) by (simp add: filled_defs)
    have "?d ! j = ?d ! i" using slot [OF i(1) fi] slot [OF j(1,2)] i(2) j(3) by (auto simp: slot_of_def)
    then show False
      using count_filled_twice [OF j(1) i(1) \<open>j \<noteq> i\<close>] one slot [OF j(1,2)] j(2) by fastforce
  qed
  then have "\<forall>i < length ?d. filled (?d ! i) \<longrightarrow> (\<exists>k v. ?d ! i = slot_of hash k v \<and>
      (\<forall>j < length ?d. filled (?d ! j) \<and> kv_key (?d ! j) = Some k \<longrightarrow> j = i))"
    using slot by blast
  moreover have "?d = [] \<or> ring_size (length ?d) \<and> (\<exists>e < length ?d. \<not> filled (?d ! e))"
    using maps_empty_slot [OF t] t by (auto simp: maps_def)
  ultimately show ?thesis
    using t unfolding table_wf_def dataLen_def card_filled by (simp add: maps_def size_slots)
qed

lemma table_wf_unique:
  assumes "table_wf hash t" "i < length (t_data t)" "j < length (t_data t)" "filled (t_data t ! i)" "filled (t_data t ! j)"
    "kv_key (t_data t ! i) = kv_key (t_data t ! j)"
  shows "i = j"
proof -
  from assms(1,3,5) obtain k v where "t_data t ! j = slot_of hash k v"
    "\<And>i. i < length (t_data t) \<Longrightarrow> filled (t_data t ! i) \<Longrightarrow> kv_key (t_data t ! i) = Some k \<Longrightarrow> i = j"
    unfolding table_wf_def dataLen_def by blast
  with assms(2,4,6) show ?thesis by simp
qed

lemma run_map_defined:
  assumes "\<And>n. TInit n \<in> set ops \<Longrightarrow> n \<le> 2 ^ 60"
  shows "\<exists>r. each run_map ops s = Some r"
  using assms
proof (induction ops arbitrary: s)
  case (Cons p ops)
  obtain out m where s: "s = (out, m)" by fastforce
  have "\<exists>s'. run_map p (out, m) = Some s'"
    using Cons.prems by (cases p) (auto split: option.splits)
  then show ?case using Cons.IH Cons.prems by (auto simp: s)
qed simp

section \<open>Properties\<close>

text \<open>C6. A table is a finite map.  Every sequence of operations on a table, whatever the hash function,
  ends, stays inside the table, returns what the same operations on a finite map return, and leaves a
  table that holds that map: deletions keep every other key reachable, growing loses nothing, and the
  assertion of \<open>mustRehash\<close> never fails.\<close>

theorem tables_are_maps:
  assumes "each run_map ops ([], \<lambda>_. None) = Some (out, m)"
  shows "\<exists>t. each (run_tab hash) ops ([], default_table) = Some (out, t) \<and> maps hash t m"
  using tm.programs_ok [OF _ assms, of hash "([], default_table)"] maps_default
  by (auto simp: tab_agrees_def)

theorem tables_are_maps_witness:
  "\<exists>t. each (run_tab (\<lambda>_. 0)) [TPut CHR ''a'' 1, TPut CHR ''b'' 2, TDel CHR ''a'', TGet CHR ''b'', TGet CHR ''a'', TLen]
      ([], default_table) =
        Some ([Done, Done, Done, OGet (Inr 2), OGet (Inl (KeyError CHR ''a'')), OLen 1], t) \<and>
    maps (\<lambda>_. 0) t [CHR ''b'' \<mapsto> (2 :: int)]"
  by (rule tables_are_maps) (simp add: fun_upd_twist)

text \<open>C7. Whatever a program does with a table, and whatever the hash function, the table is well formed:
  its counter counts its filled slots, its size is a power of two with an empty slot, each filled slot
  carries a key, a value and the hash code of the key, no key occurs twice, and no empty slot separates a
  filled slot from the slot its hash code belongs to.\<close>

theorem tables_well_formed:
  assumes "\<And>n. TInit n \<in> set ops \<Longrightarrow> n \<le> 2 ^ 60"
  shows "\<exists>out t. each (run_tab hash) ops ([], default_table) = Some (out, t) \<and> table_wf hash t"
proof -
  obtain r where "each run_map ops ([], \<lambda>_. None) = Some r" using run_map_defined [OF assms] by blast
  then show ?thesis
    using tm.programs_ok [of hash "([], default_table)" "([], \<lambda>_. None)" ops] maps_default maps_wf
    by (fastforce simp: tab_agrees_def)
qed

theorem tables_well_formed_witness:
  "\<exists>out t. each (run_tab (\<lambda>_. 5)) [TInit 2, TPut CHR ''a'' True, TPut CHR ''b'' False, TDel CHR ''a'']
     ([], default_table) = Some (out, t) \<and> table_wf (\<lambda>_. 5) t"
  by (rule tables_well_formed) auto

text \<open>\<open>nextPowerOfTwo\<close>, a sequence of shifts and ors, computes the least power of two that is not
  below its argument.\<close>

theorem nextPowerOfTwo_is_least:
  assumes "1 \<le> n" "n \<le> 2 ^ 62"
  shows "\<exists>k. unat (nextPowerOfTwo (of_nat n)) = 2 ^ k \<and> n \<le> 2 ^ k \<and> (\<forall>j. n \<le> 2 ^ j \<longrightarrow> k \<le> j)"
proof -
  obtain k where k: "unat (nextPowerOfTwo (of_nat n)) = 2 ^ k" "n \<le> 2 ^ k" "k = 0 \<or> 2 ^ (k - 1) < n"
    using nextPowerOfTwo_ok [OF assms] by blast
  have "k \<le> j" if "n \<le> 2 ^ j" for j
  proof (rule ccontr)
    assume "\<not> k \<le> j"
    then have "(2 :: nat) ^ j \<le> 2 ^ (k - 1)" by (intro power_increasing) auto
    moreover have "2 ^ (k - 1) < n" using k(3) \<open>\<not> k \<le> j\<close> by auto
    ultimately show False using that by linarith
  qed
  with k show ?thesis by blast
qed

theorem nextPowerOfTwo_is_least_witness:
  "\<exists>k. unat (nextPowerOfTwo (of_nat 52)) = 2 ^ k \<and> 52 \<le> (2 :: nat) ^ k \<and> (\<forall>j. 52 \<le> (2 :: nat) ^ j \<longrightarrow> k \<le> j)"
  by (rule nextPowerOfTwo_is_least) simp_all

text \<open>The size computed for a number of pairs is enough: \<open>toTable\<close> never has to grow the table it
  allocates, and the table holds the pairs, later ones winning.\<close>

theorem toTable_never_grows:
  assumes "length ps \<le> 2 ^ 60"
  shows "\<exists>t. toTable hash ps = Some t \<and> maps hash t (map_of (rev ps)) \<and> dataLen t = slotsNeeded (length ps)"
proof -
  have size: "length ps div 2 + length ps + 4 \<le> slotsNeeded (length ps)" by (rule slotsNeeded_ok [OF assms])
  have "fold (\<lambda>(key, val) m. m(key \<mapsto> val)) ps m = m ++ map_of (rev ps)" for m :: "'a \<Rightarrow> 'b option"
    by (induction ps arbitrary: m) (auto simp: map_add_def fun_eq_iff split: option.splits)
  then have "fold (\<lambda>(key, val) m. m(key \<mapsto> val)) ps (\<lambda>_. None) = map_of (rev ps)" by simp
  then show ?thesis
    using puts_in_room [OF maps_initImpl [OF assms, of hash], of "length ps" ps] size
    by (auto simp: toTable_def dataLen_def initImpl_def)
qed

theorem toTable_never_grows_witness:
  "\<exists>t. toTable (\<lambda>_. 7) [(CHR ''a'', 1 :: int), (CHR ''b'', 2), (CHR ''a'', 3)] = Some t \<and>
    maps (\<lambda>_. 7) t (map_of (rev [(CHR ''a'', 1), (CHR ''b'', 2), (CHR ''a'', 3)])) \<and>
    dataLen t = slotsNeeded (length [(CHR ''a'', 1 :: int), (CHR ''b'', 2), (CHR ''a'', 3)])"
  by (rule toTable_never_grows) simp

text \<open>C26. \<open>==\<close> on tables compares the maps they hold, whatever the order of insertion.\<close>

theorem table_equals_maps:
  assumes s: "maps hash s m" and t: "maps hash t n"
  shows "table_equals hash dflt s t = Some (m = n)"
proof -
  have c: "t_counter s = t_counter t \<longleftrightarrow> card (dom m) = card (dom n)" "finite (dom n)"
    using s t by (auto simp: maps_def)
  have loop: "equalsLoop hash dflt t (table_pairs s) = Some (\<forall>k v. m k = Some v \<longrightarrow> n k = Some v)"
    using equalsLoop_ok [OF t, of "table_pairs s" dflt] by (auto simp: set_table_pairs [OF s])
  have "m = n" if "card (dom m) = card (dom n)" "\<forall>k v. m k = Some v \<longrightarrow> n k = Some v"
    using map_eq_card [OF c(2) that] .
  then show ?thesis unfolding table_equals_def c loop by auto
qed

theorem table_equals_maps_witness:
  "\<exists>s t. toTable (\<lambda>_. 3) [(1 :: nat, True), (2, False)] = Some s \<and> toTable (\<lambda>_. 3) [(2, False), (1, True)] = Some t \<and>
    table_equals (\<lambda>_. 3) False s t = Some True"
proof -
  have put: "\<exists>t'. each (\<lambda>(key, val). table_put (\<lambda>_. 3) key val) [(a, x), (b, y)] (initImpl 2) = Some t' \<and>
      maps (\<lambda>_. 3) t' [a \<mapsto> x, b \<mapsto> y]" for a b :: nat and x y :: bool
    using puts_in_room [OF maps_initImpl [of 2 "\<lambda>_. 3"], of 2 "[(a, x), (b, y)]"] slotsNeeded_ok [of 2]
    by (auto simp: initImpl_def)
  obtain s t where st: "toTable (\<lambda>_. 3) [(1 :: nat, True), (2, False)] = Some s"
      "maps (\<lambda>_. 3) s [1 \<mapsto> True, 2 \<mapsto> False]"
      "toTable (\<lambda>_. 3) [(2, False), (1 :: nat, True)] = Some t" "maps (\<lambda>_. 3) t [2 \<mapsto> False, 1 \<mapsto> True]"
    using put [of 1 True 2 False] put [of 2 False 1 True] by (auto simp: toTable_def numeral_2_eq_2)
  have "[1 \<mapsto> True, 2 \<mapsto> False] = [2 \<mapsto> False, 1 :: nat \<mapsto> True]" by (auto simp: fun_eq_iff)
  then show ?thesis using st table_equals_maps [OF st(2,4), of False] by auto
qed

end
