(* ===== verification/Nim_Sorting.thy ===== *)
theory Nim_Sorting
  imports Nim_Prelude "HOL-Library.Multiset"
begin

text \<open>
  What the sorting procedures of the standard library compute, on lists: the stable sort of a list by a
  total preorder, as insertion sort, and the merge steps of a bottom-up merge sort, which turn a list whose
  blocks of \<open>n\<close> elements are sorted into one whose blocks of \<open>2 * n\<close> elements are; and the results of comparisons, with the order
  they are taken in (\<open>SortOrder\<close> of \<open>pure/algorithm.nim\<close>).
\<close>

unbundle bit_operations_syntax

section \<open>Stable sorting\<close>

definition preorder_on :: "'a set \<Rightarrow> ('a \<Rightarrow> 'a \<Rightarrow> bool) \<Rightarrow> bool" where
  "preorder_on A le \<longleftrightarrow> (\<forall>x \<in> A. \<forall>y \<in> A. le x y \<or> le y x) \<and> (\<forall>x \<in> A. \<forall>y \<in> A. \<forall>z \<in> A. le x y \<and> le y z \<longrightarrow> le x z)"

fun insort_by :: "('a \<Rightarrow> 'a \<Rightarrow> bool) \<Rightarrow> 'a \<Rightarrow> 'a list \<Rightarrow> 'a list" where
  "insort_by le x [] = [x]"
| "insort_by le x (y # ys) = (if le x y then x # y # ys else y # insort_by le x ys)"

definition isort :: "('a \<Rightarrow> 'a \<Rightarrow> bool) \<Rightarrow> 'a list \<Rightarrow> 'a list" where
  "isort le xs = foldr (insort_by le) xs []"

fun merge_by :: "('a \<Rightarrow> 'a \<Rightarrow> bool) \<Rightarrow> 'a list \<Rightarrow> 'a list \<Rightarrow> 'a list" where
  "merge_by le [] ys = ys"
| "merge_by le xs [] = xs"
| "merge_by le (x # xs) (y # ys) = (if le x y then x # merge_by le xs (y # ys) else y # merge_by le (x # xs) ys)"

lemma preorder_onD:
  "preorder_on A le \<Longrightarrow> x \<in> A \<Longrightarrow> y \<in> A \<Longrightarrow> le x y \<or> le y x"
  "preorder_on A le \<Longrightarrow> x \<in> A \<Longrightarrow> y \<in> A \<Longrightarrow> z \<in> A \<Longrightarrow> le x y \<Longrightarrow> le y z \<Longrightarrow> le x z"
  unfolding preorder_on_def by blast+

lemma preorder_on_subset: "preorder_on A le \<Longrightarrow> B \<subseteq> A \<Longrightarrow> preorder_on B le"
  unfolding preorder_on_def by (meson subsetD)

lemma isort_simps [simp]: "isort le [] = []" "isort le (x # xs) = insort_by le x (isort le xs)"
  by (simp_all add: isort_def)

lemma isort_append: "isort le (xs @ ys) = foldr (insort_by le) xs (isort le ys)"
  by (simp add: isort_def)

lemma mset_insort_by [simp]: "mset (insort_by le x xs) = add_mset x (mset xs)"
  by (induction xs) auto

lemma mset_isort [simp]: "mset (isort le xs) = mset xs"
  by (induction xs) auto

lemma set_insort_by [simp]: "set (insort_by le x xs) = insert x (set xs)"
  by (induction xs) auto

lemma set_isort [simp]: "set (isort le xs) = set xs"
  by (induction xs) auto

lemma length_insort_by [simp]: "length (insort_by le x xs) = Suc (length xs)"
  by (induction xs) auto

lemma length_isort [simp]: "length (isort le xs) = length xs"
  by (induction xs) auto

lemma sorted_insort_by:
  assumes "preorder_on A le" "insert x (set xs) \<subseteq> A" "sorted_wrt le xs"
  shows "sorted_wrt le (insort_by le x xs)"
  using assms(2,3)
proof (induction xs)
  case (Cons y ys)
  show ?case
  proof (cases "le x y")
    case True
    then show ?thesis
      using Cons.prems preorder_onD(2) [OF assms(1), of x y] by auto
  next
    case False
    then have "le y x" using preorder_onD(1) [OF assms(1), of x y] Cons.prems(1) by auto
    then show ?thesis using False Cons by auto
  qed
qed simp

lemma sorted_isort: "preorder_on A le \<Longrightarrow> set xs \<subseteq> A \<Longrightarrow> sorted_wrt le (isort le xs)"
  by (induction xs) (auto intro!: sorted_insort_by)

text \<open>Elements of one class keep their order.\<close>

definition equiv_by :: "('a \<Rightarrow> 'a \<Rightarrow> bool) \<Rightarrow> 'a \<Rightarrow> 'a \<Rightarrow> bool" where
  "equiv_by le x y \<longleftrightarrow> le x y \<and> le y x"

lemma filter_insort_by:
  assumes "preorder_on A le" "insert z (insert x (set xs)) \<subseteq> A"
  shows "filter (equiv_by le z) (insort_by le x xs) = filter (equiv_by le z) (x # xs)"
  using assms(2)
proof (induction xs)
  case (Cons y ys)
  have "\<not> (equiv_by le z x \<and> equiv_by le z y)" if "\<not> le x y"
    using that preorder_onD(2) [OF assms(1), of x z y] Cons.prems by (auto simp: equiv_by_def)
  then show ?case using Cons by auto
qed simp

lemma filter_isort:
  "preorder_on A le \<Longrightarrow> insert z (set xs) \<subseteq> A \<Longrightarrow> filter (equiv_by le z) (isort le xs) = filter (equiv_by le z) xs"
proof (induction xs)
  case (Cons x xs)
  then show ?case using filter_insort_by [of A le z x "isort le xs"] by simp
qed simp

lemma map_insort_by: "map f (insort_by (\<lambda>i j. le (f i) (f j)) x xs) = insort_by le (f x) (map f xs)"
  by (induction xs) auto

lemma map_isort: "map f (isort (\<lambda>i j. le (f i) (f j)) xs) = isort le (map f xs)"
  by (induction xs) (simp_all add: map_insort_by)

lemma insort_by_cong: "(\<And>y. y \<in> set xs \<Longrightarrow> le x y = le' x y) \<Longrightarrow> insort_by le x xs = insort_by le' x xs"
  by (induction xs) auto

lemma isort_cong: "(\<And>x y. x \<in> set xs \<Longrightarrow> y \<in> set xs \<Longrightarrow> le x y = le' x y) \<Longrightarrow> isort le xs = isort le' xs"
proof (induction xs)
  case (Cons a xs)
  have "insort_by le a (isort le' xs) = insort_by le' a (isort le' xs)"
    by (rule insort_by_cong) (use Cons.prems in simp)
  then show ?case using Cons by simp
qed simp

section \<open>Merging\<close>

lemma merge_by_Nil2 [simp]: "merge_by le xs [] = xs"
  by (cases xs) auto

lemma mset_merge_by [simp]: "mset (merge_by le xs ys) = mset xs + mset ys"
  by (induction le xs ys rule: merge_by.induct) auto

lemma set_merge_by [simp]: "set (merge_by le xs ys) = set xs \<union> set ys"
  by (induction le xs ys rule: merge_by.induct) auto

lemma length_merge_by [simp]: "length (merge_by le xs ys) = length xs + length ys"
  by (induction le xs ys rule: merge_by.induct) auto

lemma merge_insort_by:
  assumes "preorder_on A le" "insert x (set xs \<union> set ys) \<subseteq> A"
  shows "merge_by le (insort_by le x xs) ys = insort_by le x (merge_by le xs ys)"
  using assms
proof (induction le xs ys rule: merge_by.induct)
  case (1 le ys)
  show ?case by (induction ys) auto
next
  case (3 le a xs b ys)
  note D = preorder_onD [OF "3.prems"(1)]
  have A: "x \<in> A" "a \<in> A" "b \<in> A" using "3.prems"(2) by auto
  show ?case
  proof (cases "le x a")
    case True
    then have "le x b" if "le a b" using D(2) [OF A] that by blast
    then show ?thesis using True 3 by (cases "le a b") auto
  next
    case False
    then have "le a x" using D(1) A by blast
    then have "le a b" if "le x b" using D(2) [OF A(2,1,3)] that by blast
    then show ?thesis using False 3 by (cases "le a b") auto
  qed
qed simp

text \<open>Merging two sorted lists sorts their concatenation, stably.\<close>

lemma merge_isort:
  "preorder_on A le \<Longrightarrow> set xs \<union> set ys \<subseteq> A \<Longrightarrow> merge_by le (isort le xs) (isort le ys) = isort le (xs @ ys)"
  by (induction xs) (simp_all add: merge_insort_by [of A])

section \<open>Blocks\<close>

text \<open>\<open>sort_blocks n\<close> sorts every block of \<open>n\<close> elements, \<open>merge_blocks n\<close> merges neighbouring blocks.\<close>

function sort_blocks :: "('a \<Rightarrow> 'a \<Rightarrow> bool) \<Rightarrow> nat \<Rightarrow> 'a list \<Rightarrow> 'a list" where
  "sort_blocks le n xs =
     (if xs = [] \<or> n = 0 then [] else isort le (take n xs) @ sort_blocks le n (drop n xs))"
  by auto
termination by (relation "measure (\<lambda>(le, n, xs). length xs)") auto

function merge_blocks :: "('a \<Rightarrow> 'a \<Rightarrow> bool) \<Rightarrow> nat \<Rightarrow> 'a list \<Rightarrow> 'a list" where
  "merge_blocks le n xs =
     (if xs = [] \<or> n = 0 then []
      else merge_by le (take n xs) (take n (drop n xs)) @ merge_blocks le n (drop (2 * n) xs))"
  by auto
termination by (relation "measure (\<lambda>(le, n, xs). length xs)") auto

declare sort_blocks.simps [simp del] merge_blocks.simps [simp del]

lemma length_sort_blocks [simp]: "0 < n \<Longrightarrow> length (sort_blocks le n xs) = length xs"
  by (induction le n xs rule: sort_blocks.induct) (subst sort_blocks.simps, auto)

lemma mset_sort_blocks: "0 < n \<Longrightarrow> mset (sort_blocks le n xs) = mset xs"
proof (induction le n xs rule: sort_blocks.induct)
  case (1 le n xs)
  have "mset xs = mset (take n xs) + mset (drop n xs)" by (metis append_take_drop_id mset_append)
  then show ?case using 1 by (subst sort_blocks.simps) auto
qed

lemma set_sort_blocks: "set (sort_blocks le n xs) \<subseteq> set xs"
proof (induction le n xs rule: sort_blocks.induct)
  case (1 le n xs)
  then show ?case by (subst sort_blocks.simps) (auto dest: in_set_takeD in_set_dropD)
qed

lemma sort_blocks_all: "length xs \<le> n \<Longrightarrow> sort_blocks le n xs = isort le xs"
  by (cases "xs = []"; cases "n = 0") (subst sort_blocks.simps, simp add: sort_blocks.simps)+

lemma sort_blocks_1: "sort_blocks le (Suc 0) xs = xs"
proof (induction xs)
  case (Cons x xs)
  then show ?case by (subst sort_blocks.simps) simp
qed (simp add: sort_blocks.simps)

lemma sort_blocks_take: "0 < n \<Longrightarrow> take n (sort_blocks le n xs) = isort le (take n xs)"
proof (cases "n < length xs")
  case True
  then show "0 < n \<Longrightarrow> ?thesis" by (subst sort_blocks.simps) auto
qed (simp add: sort_blocks_all)

lemma sort_blocks_drop: "0 < n \<Longrightarrow> drop n (sort_blocks le n xs) = sort_blocks le n (drop n xs)"
proof (cases "n < length xs")
  case True
  then show "0 < n \<Longrightarrow> ?thesis" by (subst sort_blocks.simps) auto
qed (simp add: sort_blocks.simps)

lemma merge_sort_blocks:
  assumes "preorder_on A le" "set xs \<subseteq> A" "0 < n"
  shows "merge_blocks le n (sort_blocks le n xs) = sort_blocks le (2 * n) xs"
  using assms(2)
proof (induction "length xs" arbitrary: xs rule: less_induct)
  case less
  show ?case
  proof (cases "xs = []")
    case False
    let ?b = "sort_blocks le n xs"
    have sub: "set (take n xs) \<union> set (take n (drop n xs)) \<subseteq> A" "set (drop (2 * n) xs) \<subseteq> A"
      using less.prems by (auto dest: in_set_takeD in_set_dropD)
    have "?b \<noteq> []" using False length_sort_blocks [OF assms(3), of le xs] by auto
    then have "merge_blocks le n ?b = merge_by le (take n ?b) (take n (drop n ?b)) @ merge_blocks le n (drop n (drop n ?b))"
      using assms(3) by (subst merge_blocks.simps) (simp add: mult_2)
    also have "\<dots> = isort le (take n xs @ take n (drop n xs)) @ merge_blocks le n (sort_blocks le n (drop (2 * n) xs))"
      using merge_isort [OF assms(1) sub(1)] assms(3)
      by (simp add: sort_blocks_take sort_blocks_drop mult_2 add.commute)
    also have "merge_blocks le n (sort_blocks le n (drop (2 * n) xs)) = sort_blocks le (2 * n) (drop (2 * n) xs)"
      by (rule less.hyps) (use False assms(3) sub(2) in auto)
    also have "take n xs @ take n (drop n xs) = take (2 * n) xs"
      by (simp add: mult_2 take_add)
    finally show ?thesis using False assms(3) by (subst (2) sort_blocks.simps) simp
  qed (simp add: sort_blocks.simps merge_blocks.simps)
qed

section \<open>Comparisons and orders\<close>

datatype SortOrder = Descending | Ascending

definition order_ord :: "SortOrder \<Rightarrow> int" where
  "order_ord order = (case order of Descending \<Rightarrow> 0 | Ascending \<Rightarrow> 1)"

text \<open>The product of a comparison and an order; the subtraction is checked.\<close>

definition order_mult :: "int \<Rightarrow> SortOrder \<Rightarrow> int option" where
  "order_mult x order =
     (let y = order_ord order - 1;
          r = (x XOR y) - y
      in if - (2 ^ 63) \<le> r \<and> r < 2 ^ 63 then Some r else None)"

definition cmp_le :: "('a \<Rightarrow> 'a \<Rightarrow> int) \<Rightarrow> SortOrder \<Rightarrow> 'a \<Rightarrow> 'a \<Rightarrow> bool" where
  "cmp_le cmp order x y = (case order of Ascending \<Rightarrow> cmp x y \<le> 0 | Descending \<Rightarrow> 0 \<le> cmp x y)"

text \<open>A comparison that orders the elements, and whose results the order can be applied to: the
  smallest integer has no negation.\<close>

definition comparable :: "('a \<Rightarrow> 'a \<Rightarrow> int) \<Rightarrow> SortOrder \<Rightarrow> 'a set \<Rightarrow> bool" where
  "comparable cmp order A \<longleftrightarrow> preorder_on A (cmp_le cmp order) \<and> (\<forall>x \<in> A. \<forall>y \<in> A. order_mult (cmp x y) order \<noteq> None)"

lemma order_mult_ok: "order_mult (cmp x y) order = Some c \<Longrightarrow> c \<le> 0 \<longleftrightarrow> cmp_le cmp order x y"
  by (cases order) (auto simp: order_mult_def order_ord_def cmp_le_def Let_def not_int_def split: if_splits)

end
