(* ===== verification/Nim_Ordered.thy ===== *)
theory Nim_Ordered
  imports Nim_Tables Nim_Sorting "HOL-Library.AList"
begin

text \<open>
  The ordered hash tables of \<open>pure/collections/tables.nim\<close>: the slots of a hash table, linked by indices in
  the order of insertion.  The search templates are those of theory \<open>Nim_Tables\<close>: they read no field
  \<open>next\<close>, so they work on the plain view of an ordered table.  Insertion, growth, deletion, iteration,
  comparison and sorting follow the links.  The properties: an ordered table is a list of pairs without
  repeated keys, and sorting, a merge sort on the links, sorts that list and is stable.
\<close>

section \<open>Ordered tables\<close>

record ('k, 'v) OrderedKeyValuePair = "('k, 'v) KeyValuePair" +
  kv_next :: int

record ('k, 'v) OrderedTable =
  o_data :: "('k, 'v) OrderedKeyValuePair list"
  o_counter :: int
  o_first :: int
  o_last :: int

abbreviation empty_oslot :: "('k, 'v) OrderedKeyValuePair" where
  "empty_oslot \<equiv> \<lparr>hcode = 0, kv_key = None, kv_val = None, kv_next = 0\<rparr>"

definition plain_slot :: "('k, 'v) OrderedKeyValuePair \<Rightarrow> ('k, 'v) KeyValuePair" where
  "plain_slot s = \<lparr>hcode = hcode s, kv_key = kv_key s, kv_val = kv_val s\<rparr>"

definition plain :: "('k, 'v) OrderedTable \<Rightarrow> ('k, 'v) Table" where
  "plain t = \<lparr>t_data = map plain_slot (o_data t), t_counter = o_counter t\<rparr>"

text \<open>\<open>data[h]\<close> with an index of type \<open>int\<close>.\<close>

definition oslot :: "('k, 'v) OrderedKeyValuePair list \<Rightarrow> int \<Rightarrow> ('k, 'v) OrderedKeyValuePair option" where
  "oslot d h = (if h < 0 then None else mem_get (nat h) d)"

definition set_next :: "int \<Rightarrow> int \<Rightarrow> ('k, 'v) OrderedKeyValuePair list \<Rightarrow> ('k, 'v) OrderedKeyValuePair list option" where
  "set_next h next d = do { s \<leftarrow> oslot d h; Some (d[nat h := s\<lparr>kv_next := next\<rparr>]) }"

definition oRawInsert :: "'k \<Rightarrow> 'v \<Rightarrow> 64 word \<Rightarrow> int \<Rightarrow> ('k, 'v) OrderedTable \<Rightarrow> ('k, 'v) OrderedTable option" where
  "oRawInsert key val hc h t = do {
     s \<leftarrow> oslot (o_data t) h;
     let d = (o_data t)[nat h := \<lparr>hcode = hc, kv_key = Some key, kv_val = Some val, kv_next = -1\<rparr>];
     let first = (if o_first t < 0 then h else o_first t);
     d \<leftarrow> (if o_last t \<ge> 0 then set_next (o_last t) h d else Some d);
     Some (t\<lparr>o_data := d, o_first := first, o_last := h\<rparr>)
   }"

text \<open>The elements of the old data go to the new ones in the order of the links.\<close>

partial_function (option) oEnlargeLoop ::
    "('k, 'v) OrderedKeyValuePair list \<Rightarrow> int \<Rightarrow> ('k, 'v) OrderedTable \<Rightarrow> ('k, 'v) OrderedTable option" where
  "oEnlargeLoop n h t =
     (if h \<ge> 0 then do {
        s \<leftarrow> oslot n h;
        let nxt = kv_next s;
        t \<leftarrow> (if isFilled (hcode s) then do {
               j \<leftarrow> findEmpty (t_data (plain t)) (home (hcode s) (maxHash (plain t)));
               key \<leftarrow> kv_key s;
               val \<leftarrow> kv_val s;
               oRawInsert key val (hcode s) (int j) t }
             else Some t);
        oEnlargeLoop n nxt t }
      else Some t)"

definition oEnlarge :: "('k, 'v) OrderedTable \<Rightarrow> ('k, 'v) OrderedTable option" where
  "oEnlarge t =
     (let n = o_data t;
          h = o_first t
      in oEnlargeLoop n h
           (t\<lparr>o_first := -1, o_last := -1, o_data := replicate (length n * growthFactor) empty_oslot\<rparr>))"

definition oInitImpl :: "nat \<Rightarrow> ('k, 'v) OrderedTable" where
  "oInitImpl n = \<lparr>o_data = replicate (slotsNeeded n) empty_oslot, o_counter = 0, o_first = -1, o_last = -1\<rparr>"

definition oCheckIfInitialized :: "('k, 'v) OrderedTable \<Rightarrow> ('k, 'v) OrderedTable" where
  "oCheckIfInitialized t = (if dataLen (plain t) = 0 then oInitImpl defaultInitialSize else t)"

definition oMaybeRehashPut ::
    "('k, 'v) OrderedTable \<Rightarrow> 'k \<Rightarrow> 'v \<Rightarrow> 64 word \<Rightarrow> int \<Rightarrow> (int \<times> ('k, 'v) OrderedTable) option" where
  "oMaybeRehashPut t key val hc index = do {
     let t = oCheckIfInitialized t;
     re \<leftarrow> mustRehash (plain t);
     (t, index) \<leftarrow>
       (if re then do { t \<leftarrow> oEnlarge t; index \<leftarrow> rawGetKnownHC (plain t) key hc; Some (t, index) }
        else Some (t, index));
     let index = -1 - index;
     t \<leftarrow> oRawInsert key val hc index t;
     Some (index, t\<lparr>o_counter := o_counter t + 1\<rparr>)
   }"

definition o_set_val :: "int \<Rightarrow> 'v \<Rightarrow> ('k, 'v) OrderedTable \<Rightarrow> ('k, 'v) OrderedTable option" where
  "o_set_val index val t = do {
     s \<leftarrow> oslot (o_data t) index;
     Some (t\<lparr>o_data := (o_data t)[nat index := s\<lparr>kv_val := Some val\<rparr>]\<rparr>)
   }"

definition ordered_put :: "('k \<Rightarrow> 64 word) \<Rightarrow> 'k \<Rightarrow> 'v \<Rightarrow> ('k, 'v) OrderedTable \<Rightarrow> ('k, 'v) OrderedTable option" where
  "ordered_put hash key val t = do {
     let t = oCheckIfInitialized t;
     (index, hc) \<leftarrow> rawGet hash (plain t) key;
     if index \<ge> 0 then o_set_val index val t
     else do { (index, t) \<leftarrow> oMaybeRehashPut t key val hc index; Some t }
   }"

definition ordered_mgetOrPut ::
    "('k \<Rightarrow> 64 word) \<Rightarrow> 'k \<Rightarrow> 'v \<Rightarrow> ('k, 'v) OrderedTable \<Rightarrow> ('v \<times> ('k, 'v) OrderedTable) option" where
  "ordered_mgetOrPut hash key val t = do {
     let t = oCheckIfInitialized t;
     (index, hc) \<leftarrow> rawGet hash (plain t) key;
     (index, t) \<leftarrow> (if index < 0 then oMaybeRehashPut t key val hc index else Some (index, t));
     v \<leftarrow> val_at index (plain t);
     Some (v, t)
   }"

definition ordered_hasKeyOrPut ::
    "('k \<Rightarrow> 64 word) \<Rightarrow> 'k \<Rightarrow> 'v \<Rightarrow> ('k, 'v) OrderedTable \<Rightarrow> (bool \<times> ('k, 'v) OrderedTable) option" where
  "ordered_hasKeyOrPut hash key val t = do {
     let t = oCheckIfInitialized t;
     (index, hc) \<leftarrow> rawGet hash (plain t) key;
     if index < 0 then do { (index, t) \<leftarrow> oMaybeRehashPut t key val hc index; Some (False, t) }
     else Some (True, t)
   }"

definition ordered_get :: "('k \<Rightarrow> 64 word) \<Rightarrow> 'k \<Rightarrow> ('k, 'v) OrderedTable \<Rightarrow> ('k table_error + 'v) option" where
  "ordered_get hash key t = table_get hash key (plain t)"

definition ordered_hasKey :: "('k \<Rightarrow> 64 word) \<Rightarrow> 'k \<Rightarrow> ('k, 'v) OrderedTable \<Rightarrow> bool option" where
  "ordered_hasKey hash key t = hasKey hash key (plain t)"

definition ordered_getOrDefault :: "('k \<Rightarrow> 64 word) \<Rightarrow> 'k \<Rightarrow> 'v \<Rightarrow> ('k, 'v) OrderedTable \<Rightarrow> 'v option" where
  "ordered_getOrDefault hash key dflt t = getOrDefault hash key dflt (plain t)"

text \<open>Deletion rebuilds the table without the key.\<close>

partial_function (option) oDelLoop ::
    "'k \<Rightarrow> 64 word \<Rightarrow> ('k, 'v) OrderedKeyValuePair list \<Rightarrow> int \<Rightarrow> ('k, 'v) OrderedTable \<Rightarrow> ('k, 'v) OrderedTable option" where
  "oDelLoop key hc n h t =
     (if h \<ge> 0 then do {
        s \<leftarrow> oslot n h;
        let nxt = kv_next s;
        t \<leftarrow> (if isFilled (hcode s) then
               if hcode s = hc \<and> kv_key s = Some key then Some (t\<lparr>o_counter := o_counter t - 1\<rparr>)
               else do {
                 k \<leftarrow> kv_key s;
                 v \<leftarrow> kv_val s;
                 i \<leftarrow> rawGetKnownHC (plain t) k (hcode s);
                 let j = -1 - i;
                 oRawInsert k v (hcode s) j t }
             else Some t);
        oDelLoop key hc n nxt t }
      else Some t)"

definition ordered_del :: "('k \<Rightarrow> 64 word) \<Rightarrow> 'k \<Rightarrow> ('k, 'v) OrderedTable \<Rightarrow> ('k, 'v) OrderedTable option" where
  "ordered_del hash key t =
     (if o_counter t = 0 then Some t
      else let n = o_data t;
               h = o_first t;
               t = t\<lparr>o_first := -1, o_last := -1, o_data := replicate (length n) empty_oslot\<rparr>;
               hc = genHash hash key
           in oDelLoop key hc n h t)"

definition ordered_pop ::
    "('k \<Rightarrow> 64 word) \<Rightarrow> 'k \<Rightarrow> ('k, 'v) OrderedTable \<Rightarrow> ('v option \<times> ('k, 'v) OrderedTable) option" where
  "ordered_pop hash key t = do {
     (index, hc) \<leftarrow> rawGet hash (plain t) key;
     if index \<ge> 0 then do {
       s \<leftarrow> oslot (o_data t) index;
       let t = t\<lparr>o_data := (o_data t)[nat index := s\<lparr>kv_val := None\<rparr>]\<rparr>;
       t \<leftarrow> ordered_del hash key t;
       Some (kv_val s, t)
     }
     else Some (None, t)
   }"

definition ordered_clear :: "('k, 'v) OrderedTable \<Rightarrow> ('k, 'v) OrderedTable" where
  "ordered_clear t =
     t\<lparr>o_data := map (\<lambda>s. s\<lparr>hcode := 0, kv_key := None, kv_val := None\<rparr>) (o_data t), o_counter := 0,
       o_first := -1, o_last := -1\<rparr>"

text \<open>\<open>forAllOrderedPairs\<close>, collecting the pairs.\<close>

partial_function (option) oPairsLoop ::
    "('k, 'v) OrderedKeyValuePair list \<Rightarrow> int \<Rightarrow> ('k option \<times> 'v option) list \<Rightarrow> ('k option \<times> 'v option) list option" where
  "oPairsLoop d h out =
     (if h \<ge> 0 then do {
        s \<leftarrow> oslot d h;
        let nxt = kv_next s;
        let out = (if isFilled (hcode s) then out @ [(kv_key s, kv_val s)] else out);
        oPairsLoop d nxt out }
      else Some out)"

definition ordered_pairs :: "('k, 'v) OrderedTable \<Rightarrow> ('k option \<times> 'v option) list option" where
  "ordered_pairs t = (if o_counter t > 0 then oPairsLoop (o_data t) (o_first t) [] else Some [])"

definition default_ordered :: "('k, 'v) OrderedTable" where
  "default_ordered = \<lparr>o_data = [], o_counter = 0, o_first = 0, o_last = 0\<rparr>"

definition toOrderedTable :: "('k \<Rightarrow> 64 word) \<Rightarrow> ('k \<times> 'v) list \<Rightarrow> ('k, 'v) OrderedTable option" where
  "toOrderedTable hash pairs = each (\<lambda>(key, val). ordered_put hash key val) pairs (oInitImpl (length pairs))"

partial_function (option) oEqualsLoop ::
    "('k, 'v) OrderedKeyValuePair list \<Rightarrow> ('k, 'v) OrderedKeyValuePair list \<Rightarrow> int \<Rightarrow> int \<Rightarrow> bool option" where
  "oEqualsLoop sd td hs ht =
     (if ht \<ge> 0 \<and> hs \<ge> 0 then do {
        t \<leftarrow> oslot td ht;
        let nxtt = kv_next t;
        s \<leftarrow> oslot sd hs;
        let nxts = kv_next s;
        if isFilled (hcode t) \<and> isFilled (hcode s) \<and> (kv_key s \<noteq> kv_key t \<or> kv_val s \<noteq> kv_val t) then Some False
        else oEqualsLoop sd td nxts nxtt }
      else Some True)"

definition ordered_equals :: "('k, 'v) OrderedTable \<Rightarrow> ('k, 'v) OrderedTable \<Rightarrow> bool option" where
  "ordered_equals s t =
     (if o_counter s \<noteq> o_counter t then Some False
      else if o_counter s = 0 \<and> o_counter t = 0 then Some True
      else oEqualsLoop (o_data s) (o_data t) (o_first s) (o_first t))"

section \<open>Sorting\<close>

type_synonym ('k, 'v) oslots = "('k, 'v) OrderedKeyValuePair list"
type_synonym ('k, 'v) cmp_fun = "'k \<times> 'v \<Rightarrow> 'k \<times> 'v \<Rightarrow> int"

definition slot_pair :: "('k, 'v) OrderedKeyValuePair \<Rightarrow> ('k \<times> 'v) option" where
  "slot_pair s = do { k \<leftarrow> kv_key s; v \<leftarrow> kv_val s; Some (k, v) }"

text \<open>The loop that finds the end of the first run: the length of the run and the slot after it.\<close>

primrec runLoop :: "('k, 'v) oslots \<Rightarrow> nat \<Rightarrow> nat \<Rightarrow> int \<Rightarrow> (nat \<times> int) option" where
  "runLoop d 0 psize q = Some (psize, q)"
| "runLoop d (Suc left) psize q = do {
     s \<leftarrow> oslot d q;
     let q = kv_next s;
     if q < 0 then Some (psize + 1, q) else runLoop d left (psize + 1) q }"

text \<open>\<open>e\<close> goes to the end of the list.\<close>

definition append_slot :: "int \<Rightarrow> ('k, 'v) oslots \<times> int \<times> int \<Rightarrow> (('k, 'v) oslots \<times> int \<times> int) option" where
  "append_slot e st = (case st of (d, lst, tail) \<Rightarrow>
     if tail \<ge> 0 then do { d \<leftarrow> set_next tail e d; Some (d, lst, e) } else Some (d, e, e))"

text \<open>Whether the next element comes from the first run.\<close>

definition from_first :: "('k, 'v) cmp_fun \<Rightarrow> SortOrder \<Rightarrow> ('k, 'v) oslots \<Rightarrow> int \<times> nat \<Rightarrow> int \<times> nat \<Rightarrow> bool option" where
  "from_first cmp order d pp qq = (case pp of (p, psize) \<Rightarrow> case qq of (q, qsize) \<Rightarrow>
     if psize = 0 then Some False
     else if qsize = 0 \<or> q < 0 then Some True
     else do {
       sp \<leftarrow> oslot d p;
       x \<leftarrow> slot_pair sp;
       sq \<leftarrow> oslot d q;
       y \<leftarrow> slot_pair sq;
       c \<leftarrow> order_mult (cmp x y) order;
       Some (c \<le> 0) })"

partial_function (option) mergeLoop ::
    "('k, 'v) cmp_fun \<Rightarrow> SortOrder \<Rightarrow> ('k, 'v) oslots \<times> int \<times> int \<Rightarrow> int \<times> nat \<Rightarrow> int \<times> nat \<Rightarrow>
       (('k, 'v) oslots \<times> int \<times> int \<times> int) option" where
  "mergeLoop cmp order st pp qq =
     (case st of (d, lst, tail) \<Rightarrow> case pp of (p, psize) \<Rightarrow> case qq of (q, qsize) \<Rightarrow>
        if psize > 0 \<or> (qsize > 0 \<and> q \<ge> 0) then do {
          left \<leftarrow> from_first cmp order d pp qq;
          if left then do {
            s \<leftarrow> oslot d p;
            st \<leftarrow> append_slot p st;
            mergeLoop cmp order st (kv_next s, psize - 1) qq }
          else do {
            s \<leftarrow> oslot d q;
            st \<leftarrow> append_slot q st;
            mergeLoop cmp order st pp (kv_next s, qsize - 1) } }
        else Some (d, lst, tail, q))"

partial_function (option) passLoop ::
    "('k, 'v) cmp_fun \<Rightarrow> SortOrder \<Rightarrow> nat \<Rightarrow> int \<Rightarrow> nat \<Rightarrow> ('k, 'v) oslots \<times> int \<times> int \<Rightarrow>
       (('k, 'v) oslots \<times> int \<times> int \<times> nat) option" where
  "passLoop cmp order insize p nmerges st =
     (if p \<ge> 0 then do {
        (psize, q) \<leftarrow> runLoop (fst st) insize 0 p;
        (d, lst, tail, q) \<leftarrow> mergeLoop cmp order st (p, psize) (q, insize);
        passLoop cmp order insize q (nmerges + 1) (d, lst, tail) }
      else Some (fst st, fst (snd st), snd (snd st), nmerges))"

partial_function (option) sortLoop ::
    "('k, 'v) cmp_fun \<Rightarrow> SortOrder \<Rightarrow> nat \<Rightarrow> ('k, 'v) oslots \<Rightarrow> int \<Rightarrow> (('k, 'v) oslots \<times> int \<times> int) option" where
  "sortLoop cmp order insize d lst = do {
     (d, lst, tail, nmerges) \<leftarrow> passLoop cmp order insize lst 0 (d, -1, -1);
     d \<leftarrow> set_next tail (-1) d;
     if nmerges \<le> 1 then Some (d, lst, tail)
     else sortLoop cmp order (insize * 2) d lst }"

definition ordered_sort ::
    "('k, 'v) cmp_fun \<Rightarrow> SortOrder \<Rightarrow> ('k, 'v) OrderedTable \<Rightarrow> ('k, 'v) OrderedTable option" where
  "ordered_sort cmp order t =
     (if o_counter t = 0 then Some t
      else do {
        (d, lst, tail) \<leftarrow> sortLoop cmp order 1 (o_data t) (o_first t);
        Some (t\<lparr>o_data := d, o_first := lst, o_last := tail\<rparr>) })"

section \<open>Links\<close>

text \<open>The slots \<open>is\<close> are linked from \<open>p\<close> to \<open>r\<close>.\<close>

primrec lseg :: "('k, 'v) oslots \<Rightarrow> int \<Rightarrow> nat list \<Rightarrow> int \<Rightarrow> bool" where
  "lseg d p [] r \<longleftrightarrow> p = r"
| "lseg d p (i # is) r \<longleftrightarrow> p = int i \<and> i < length d \<and> lseg d (kv_next (d ! i)) is r"

lemma lseg_append: "lseg d p (is @ js) r \<longleftrightarrow> (\<exists>q. lseg d p is q \<and> lseg d q js r)"
  by (induction "is" arbitrary: p) auto

lemma lseg_update [simp]: "i \<notin> set is \<Longrightarrow> lseg (d[i := s]) p is r = lseg d p is r"
  by (induction "is" arbitrary: p) auto

lemma lseg_less: "lseg d p is r \<Longrightarrow> i \<in> set is \<Longrightarrow> i < length d"
  by (induction "is" arbitrary: p) auto

lemma lseg_nil: "lseg d p is (-1) \<Longrightarrow> p < 0 \<longleftrightarrow> is = []"
  by (cases "is") auto

lemma oslot_nat [simp]: "i < length d \<Longrightarrow> oslot d (int i) = Some (d ! i)"
  by (simp add: oslot_def)

lemma set_next_ok [simp]: "i < length d \<Longrightarrow> set_next (int i) x d = Some (d[i := (d ! i)\<lparr>kv_next := x\<rparr>])"
  by (simp add: set_next_def)

lemma plain_next [simp]: "i < length d \<Longrightarrow> map plain_slot (d[i := (d ! i)\<lparr>kv_next := x\<rparr>]) = map plain_slot d"
  by (simp add: list_eq_iff_nth_eq nth_list_update plain_slot_def)

text \<open>The list built so far: its last link is open.\<close>

definition built :: "('k, 'v) oslots \<Rightarrow> int \<Rightarrow> int \<Rightarrow> nat list \<Rightarrow> bool" where
  "built d lst tail os \<longleftrightarrow>
     (if os = [] then lst = -1 \<and> tail = -1 else tail = int (last os) \<and> (\<exists>r. lseg d lst os r))"

lemma lseg_last:
  "lseg d p os r \<Longrightarrow> os \<noteq> [] \<Longrightarrow> distinct os \<Longrightarrow> lseg (d[last os := (d ! last os)\<lparr>kv_next := x\<rparr>]) p os x"
  by (cases os rule: rev_cases) (auto simp: lseg_append)

lemma append_slot_ok:
  assumes b: "built d lst tail os" and os: "distinct os" "i \<notin> set os" "i < length d"
  obtains d' lst' where "append_slot (int i) (d, lst, tail) = Some (d', lst', int i)" "built d' lst' (int i) (os @ [i])"
    "map plain_slot d' = map plain_slot d" "\<And>p js r. set os \<inter> set js = {} \<Longrightarrow> lseg d' p js r = lseg d p js r"
proof (cases "os = []")
  case True
  have "lseg d (int i) [i] (kv_next (d ! i))" using os(3) by simp
  then have "Ex (lseg d (int i) [i])" by (rule exI)
  then show thesis using that [of d "int i"] b True by (auto simp: append_slot_def built_def)
next
  case False
  let ?d = "d[last os := (d ! last os)\<lparr>kv_next := int i\<rparr>]"
  obtain r where r: "lseg d lst os r" "tail = int (last os)" using b False by (auto simp: built_def)
  have l: "last os < length d" using lseg_less [OF r(1)] False by simp
  have "lseg ?d lst (os @ [i]) (kv_next (?d ! i))"
    using lseg_last [OF r(1) False os(1)] os(3) by (auto simp: lseg_append)
  moreover have "set os \<inter> set js = {} \<Longrightarrow> lseg ?d p js r' = lseg d p js r'" for p js r'
    using False last_in_set [of os] by (intro lseg_update) blast
  ultimately show thesis
    using that [of ?d lst] l r(2) False by (auto simp: append_slot_def built_def)
qed

lemma runLoop_ok:
  assumes "lseg d p is (-1)" "is \<noteq> []" "0 < left"
  shows "\<exists>q. runLoop d left n p = Some (n + length (take left is), q) \<and> lseg d p (take left is) q \<and> lseg d q (drop left is) (-1)"
  using assms
proof (induction left arbitrary: p "is" n)
  case (Suc left)
  obtain i js where "is": "is = i # js" using Suc.prems(2) by (cases "is") auto
  have i: "p = int i" "i < length d" "lseg d (kv_next (d ! i)) js (-1)" using Suc.prems(1) "is" by auto
  show ?case
  proof (cases "js = [] \<or> left = 0")
    case True
    then show ?thesis using i "is" lseg_nil [OF i(3)] by (cases left) auto
  next
    case False
    then obtain q where "runLoop d left (n + 1) (kv_next (d ! i)) = Some (n + 1 + length (take left js), q)"
        "lseg d (kv_next (d ! i)) (take left js) q" "lseg d q (drop left js) (-1)"
      using Suc.IH [OF i(3)] by blast
    then show ?thesis using i "is" False lseg_nil [OF i(3)] by auto
  qed
qed simp

section \<open>The merge sort\<close>

text \<open>The comparison of the pairs in slots never fails and decides \<open>le\<close>.\<close>

definition cmp_decides ::
    "('k, 'v) cmp_fun \<Rightarrow> SortOrder \<Rightarrow> ('k, 'v) oslots \<Rightarrow> nat set \<Rightarrow> (nat \<Rightarrow> nat \<Rightarrow> bool) \<Rightarrow> bool" where
  "cmp_decides cmp order d S le \<longleftrightarrow>
     (\<forall>i \<in> S. \<forall>j \<in> S. \<exists>x y c. slot_pair (d ! i) = Some x \<and> slot_pair (d ! j) = Some y \<and>
        order_mult (cmp x y) order = Some c \<and> (c \<le> 0 \<longleftrightarrow> le i j))"

lemma slot_pair_plain:
  assumes "map plain_slot d' = map plain_slot d" "i < length d"
  shows "slot_pair (d' ! i) = slot_pair (d ! i)"
proof -
  have "length d' = length d" using assms(1) by (metis length_map)
  then have "plain_slot (d' ! i) = plain_slot (d ! i)" using assms by (metis nth_map)
  then show ?thesis by (simp add: slot_pair_def plain_slot_def)
qed

lemma cmp_decides_plain:
  assumes "cmp_decides cmp order d S le" "map plain_slot d' = map plain_slot d" "S \<subseteq> {..< length d}"
  shows "cmp_decides cmp order d' S le"
proof -
  have "\<forall>i \<in> S. slot_pair (d' ! i) = slot_pair (d ! i)" using slot_pair_plain [OF assms(2)] assms(3) by auto
  then show ?thesis using assms(1) by (simp add: cmp_decides_def)
qed

lemma mergeLoop_ok:
  assumes "built d lst tail os" "lseg d p ps pe" "lseg d q (qs @ rest) (-1)"
    and "length qs \<le> qsize" "rest \<noteq> [] \<Longrightarrow> length qs = qsize" "distinct (os @ ps @ qs @ rest)"
    and "cmp_decides cmp order d (set ps \<union> set qs) le"
  shows "\<exists>d' lst' tail' q'. mergeLoop cmp order (d, lst, tail) (p, length ps) (q, qsize) = Some (d', lst', tail', q') \<and>
    built d' lst' tail' (os @ merge_by le ps qs) \<and> lseg d' q' rest (-1) \<and> map plain_slot d' = map plain_slot d"
  using assms
proof (induction "length ps + length qs" arbitrary: d lst tail os p ps q qs qsize)
  case 0
  have "\<not> (qsize > 0 \<and> q \<ge> 0)" using 0 lseg_nil [OF "0.prems"(3)] by (cases "rest = []") auto
  then have "mergeLoop cmp order (d, lst, tail) (p, length ps) (q, qsize) = Some (d, lst, tail, q)"
    using 0(1) by (subst mergeLoop.simps) auto
  then show ?case using 0(1) "0.prems"(1,3) by simp
next
  case (Suc n)
  note prems = Suc.prems
  have len: "i < length d" if "i \<in> set ps \<union> set qs" for i
    using that lseg_less [OF prems(2)] lseg_less [OF prems(3)] by auto
  have sub: "set ps \<union> set qs \<subseteq> {..< length d}" using len by auto
  have qnil: "qsize = 0 \<or> q < 0 \<longleftrightarrow> qs = []"
    using prems(4,5) lseg_nil [OF prems(3)] by (cases qs; cases "rest = []") auto
  define left where "left \<longleftrightarrow> ps \<noteq> [] \<and> (qs = [] \<or> le (hd ps) (hd qs))"
  let ?m = "mergeLoop cmp order (d, lst, tail) (p, length ps) (q, qsize)"
  have go: "length ps > 0 \<or> (qsize > 0 \<and> q \<ge> 0)" using Suc.hyps(2) qnil by (cases ps) auto
  have test: "from_first cmp order d (p, length ps) (q, qsize) = Some left"
  proof (cases "ps = [] \<or> qs = []")
    case True
    then show ?thesis using qnil by (auto simp: left_def from_first_def)
  next
    case False
    then obtain i ps' j qs' where ij: "ps = i # ps'" "qs = j # qs'" by (meson neq_Nil_conv)
    then obtain x y c where "slot_pair (d ! i) = Some x" "slot_pair (d ! j) = Some y"
        "order_mult (cmp x y) order = Some c" "c \<le> 0 \<longleftrightarrow> le i j"
      using prems(7) unfolding cmp_decides_def by fastforce
    then show ?thesis using ij prems(2,3) qnil by (auto simp: left_def from_first_def)
  qed
  show ?case
  proof (cases left)
    case True
    then obtain i ps' where ps: "ps = i # ps'" by (cases ps) (auto simp: left_def)
    have i: "p = int i" "i < length d" "lseg d (kv_next (d ! i)) ps' pe" using prems(2) ps by auto
    obtain d1 lst1 where d1: "append_slot (int i) (d, lst, tail) = Some (d1, lst1, int i)" "built d1 lst1 (int i) (os @ [i])"
        "map plain_slot d1 = map plain_slot d" "\<And>p js r. set os \<inter> set js = {} \<Longrightarrow> lseg d1 p js r = lseg d p js r"
      using append_slot_ok [OF prems(1), of i] prems(6) ps i(2) by auto
    have step: "?m = mergeLoop cmp order (d1, lst1, int i) (kv_next (d ! i), length ps') (q, qsize)"
      using go test True i d1(1) ps by (subst mergeLoop.simps) simp
    have merge: "merge_by le ps qs = i # merge_by le ps' qs" using True ps by (cases qs) (auto simp: left_def)
    have "cmp_decides cmp order d1 (set ps' \<union> set qs) le"
      using cmp_decides_plain [OF prems(7) d1(3) sub] ps by (auto simp: cmp_decides_def)
    moreover have disj: "set os \<inter> set ps' = {}" "set os \<inter> set (qs @ rest) = {}" using prems(6) ps by auto
    moreover have "lseg d1 (kv_next (d ! i)) ps' pe" "lseg d1 q (qs @ rest) (-1)"
      unfolding d1(4) [OF disj(1)] d1(4) [OF disj(2)] by (fact i(3) prems(3))+
    ultimately show ?thesis
      using Suc.hyps(1) [of ps' qs d1 lst1 "int i" "os @ [i]" "kv_next (d ! i)" q qsize] Suc.hyps(2) prems(4-6) d1(2,3) ps
      unfolding step merge by auto
  next
    case False
    then obtain i qs' where qs: "qs = i # qs'" using Suc.hyps(2) by (cases qs; cases ps) (auto simp: left_def)
    have i: "q = int i" "i < length d" "lseg d (kv_next (d ! i)) (qs' @ rest) (-1)" using prems(3) qs by auto
    obtain d1 lst1 where d1: "append_slot (int i) (d, lst, tail) = Some (d1, lst1, int i)" "built d1 lst1 (int i) (os @ [i])"
        "map plain_slot d1 = map plain_slot d" "\<And>p js r. set os \<inter> set js = {} \<Longrightarrow> lseg d1 p js r = lseg d p js r"
      using append_slot_ok [OF prems(1), of i] prems(6) qs i(2) by auto
    have step: "?m = mergeLoop cmp order (d1, lst1, int i) (p, length ps) (kv_next (d ! i), qsize - 1)"
      using go test False i d1(1) by (subst mergeLoop.simps) simp
    have merge: "merge_by le ps qs = i # merge_by le ps qs'" using False qs by (cases ps) (auto simp: left_def)
    have "cmp_decides cmp order d1 (set ps \<union> set qs') le"
      using cmp_decides_plain [OF prems(7) d1(3) sub] qs by (auto simp: cmp_decides_def)
    moreover have "length qs' \<le> qsize - 1" "rest \<noteq> [] \<Longrightarrow> length qs' = qsize - 1" using prems(4,5) qs by auto
    moreover have disj: "set os \<inter> set ps = {}" "set os \<inter> set (qs' @ rest) = {}" using prems(6) qs by auto
    moreover have "lseg d1 p ps pe" "lseg d1 (kv_next (d ! i)) (qs' @ rest) (-1)"
      unfolding d1(4) [OF disj(1)] d1(4) [OF disj(2)] by (fact i(3) prems(2))+
    ultimately show ?thesis
      using Suc.hyps(1) [of ps qs' d1 lst1 "int i" "os @ [i]" p "kv_next (d ! i)" "qsize - 1"] Suc.hyps(2) prems(4-6) d1(2,3) qs
      unfolding step merge by auto
  qed
qed

lemma cmp_decides_mono: "cmp_decides cmp order d S le \<Longrightarrow> R \<subseteq> S \<Longrightarrow> cmp_decides cmp order d R le"
  unfolding cmp_decides_def by blast

lemma passLoop_ok:
  assumes "built d lst tail os" "lseg d p is (-1)" "distinct (os @ is)" "cmp_decides cmp order d (set is) le" "0 < n"
  shows "\<exists>d' lst' tail' k. passLoop cmp order n p m (d, lst, tail) = Some (d', lst', tail', m + k) \<and>
    built d' lst' tail' (os @ merge_blocks le n is) \<and> map plain_slot d' = map plain_slot d \<and>
    (k \<le> 1 \<longleftrightarrow> length is \<le> 2 * n) \<and> (k = 0 \<longleftrightarrow> is = [])"
  using assms
proof (induction "length is" arbitrary: d lst tail os p "is" m rule: less_induct)
  case less
  note prems = less.prems
  show ?case
  proof (cases "is = []")
    case True
    then show ?thesis using prems(1,2,5) by (subst passLoop.simps) (simp add: merge_blocks.simps)
  next
    case False
    let ?ps = "take n is" and ?qs = "take n (drop n is)" and ?rest = "drop (2 * n) is"
    have split: "is = ?ps @ ?qs @ ?rest" "drop n is = ?qs @ ?rest"
      by (metis append_take_drop_id drop_drop mult_2)+
    obtain q where q: "runLoop d n 0 p = Some (0 + length ?ps, q)" "lseg d p ?ps q" "lseg d q (?qs @ ?rest) (-1)"
      using runLoop_ok [OF prems(2) False prems(5), of 0] split(2) by auto
    have sub: "set ?ps \<union> set ?qs \<subseteq> set is" "set ?rest \<subseteq> set is" by (auto dest: in_set_takeD in_set_dropD)
    have d: "distinct (os @ ?ps @ ?qs @ ?rest)" using prems(3) split(1) by simp
    have "\<exists>d' lst' tail' q'. mergeLoop cmp order (d, lst, tail) (p, length ?ps) (q, n) = Some (d', lst', tail', q') \<and>
        built d' lst' tail' (os @ merge_by le ?ps ?qs) \<and> lseg d' q' ?rest (-1) \<and> map plain_slot d' = map plain_slot d"
      by (rule mergeLoop_ok [OF prems(1) q(2,3) _ _ d cmp_decides_mono [OF prems(4) sub(1)]]) auto
    then obtain d1 lst1 tail1 q1 where m1:
        "mergeLoop cmp order (d, lst, tail) (p, length ?ps) (q, n) = Some (d1, lst1, tail1, q1)"
        "built d1 lst1 tail1 (os @ merge_by le ?ps ?qs)" "lseg d1 q1 ?rest (-1)" "map plain_slot d1 = map plain_slot d"
      by blast
    have less1: "length ?rest < length is" using False prems(5) by simp
    have dist1: "distinct ((os @ merge_by le ?ps ?qs) @ ?rest)"
    proof -
      have "mset ((os @ merge_by le ?ps ?qs) @ ?rest) = mset (os @ ?ps @ ?qs @ ?rest)" by simp
      then show ?thesis using d by (metis mset_eq_imp_distinct_iff)
    qed
    have "set is \<subseteq> {..< length d}" using lseg_less [OF prems(2)] by auto
    then have dec1: "cmp_decides cmp order d1 (set ?rest) le"
      by (rule cmp_decides_mono [OF cmp_decides_plain [OF prems(4) m1(4)] sub(2)])
    obtain d' lst' tail' k where IH:
        "passLoop cmp order n q1 (m + 1) (d1, lst1, tail1) = Some (d', lst', tail', m + 1 + k)"
        "built d' lst' tail' ((os @ merge_by le ?ps ?qs) @ merge_blocks le n ?rest)" "map plain_slot d' = map plain_slot d1"
        "k \<le> 1 \<longleftrightarrow> length ?rest \<le> 2 * n" "k = 0 \<longleftrightarrow> ?rest = []"
      using less.hyps [OF less1 m1(2,3) dist1 dec1 prems(5), of "m + 1"] by blast
    have "p \<ge> 0" using lseg_nil [OF prems(2)] False by auto
    then have "passLoop cmp order n p m (d, lst, tail) = Some (d', lst', tail', m + (k + 1))"
      using q(1) m1(1) IH(1) by (subst passLoop.simps) (simp add: add.assoc)
    moreover have "merge_blocks le n is = merge_by le ?ps ?qs @ merge_blocks le n ?rest"
      using False prems(5) by (subst merge_blocks.simps) simp
    ultimately show ?thesis using IH m1(4) False prems(5) by auto
  qed
qed

lemma sortLoop_ok:
  assumes "lseg d lst (sort_blocks le n js) (-1)" "js \<noteq> []" "distinct js" "preorder_on (set js) le"
    and "cmp_decides cmp order d (set js) le" "0 < n"
  shows "\<exists>d' lst' tail'. sortLoop cmp order n d lst = Some (d', lst', tail') \<and> lseg d' lst' (isort le js) (-1) \<and>
    tail' = int (last (isort le js)) \<and> map plain_slot d' = map plain_slot d"
  using assms
proof (induction "length js - n" arbitrary: n d lst rule: less_induct)
  case less
  note prems = less.prems
  let ?is = "sort_blocks le n js" and ?m = "sort_blocks le (2 * n) js"
  have mset: "mset (sort_blocks le k js) = mset js" if "0 < k" for k
    using that by (rule mset_sort_blocks)
  have "length ?m = length js" using prems(6) by simp
  then have ne: "?m \<noteq> []" using prems(2) by auto
  have set: "set ?is = set js" and dist: "distinct ?is" "distinct ?m"
    using mset_eq_setD [OF mset [OF prems(6)]] mset_eq_imp_distinct_iff [OF mset [of n]]
      mset_eq_imp_distinct_iff [OF mset [of "2 * n"]] prems(3,6) by auto
  have merge: "merge_blocks le n ?is = ?m" by (rule merge_sort_blocks [OF prems(4) order_refl prems(6)])
  have len: "length ?is = length js" using prems(6) by simp
  obtain d1 lst1 tail1 k where pass: "passLoop cmp order n lst 0 (d, -1, -1) = Some (d1, lst1, tail1, k)"
      "built d1 lst1 tail1 ?m" "map plain_slot d1 = map plain_slot d" "k \<le> 1 \<longleftrightarrow> length js \<le> 2 * n"
    using passLoop_ok [of d "-1" "-1" "[]" lst ?is cmp order le n 0] prems(1,5,6) dist(1) set len merge
    by (auto simp: built_def)
  obtain r where r: "lseg d1 lst1 ?m r" "tail1 = int (last ?m)" using pass(2) ne by (auto simp: built_def)
  let ?d = "d1[last ?m := (d1 ! last ?m)\<lparr>kv_next := -1\<rparr>]"
  have l: "last ?m < length d1" using lseg_less [OF r(1)] ne by simp
  have d2: "lseg ?d lst1 ?m (-1)" "map plain_slot ?d = map plain_slot d"
    using lseg_last [OF r(1) ne dist(2)] l pass(3) by auto
  have step: "sortLoop cmp order n d lst = (if length js \<le> 2 * n then Some (?d, lst1, tail1) else sortLoop cmp order (n * 2) ?d lst1)"
    using pass(1,4) r(2) l by (subst sortLoop.simps) simp
  show ?case
  proof (cases "length js \<le> 2 * n")
    case True
    then have "?m = isort le js" by (rule sort_blocks_all)
    then show ?thesis using d2 step True r(2) by simp
  next
    case False
    have "set js \<subseteq> {..< length d}" using lseg_less [OF prems(1)] set by auto
    then have "cmp_decides cmp order ?d (set js) le" by (rule cmp_decides_plain [OF prems(5) d2(2)])
    then show ?thesis
      using less.hyps [of "2 * n" ?d lst1] False prems(2-4,6) d2 step by (auto simp: mult.commute)
  qed
qed

section \<open>What an ordered table stands for\<close>

text \<open>The slots hold the map of the pairs \<open>xs\<close>, and their links pass through them in the order of the list.\<close>

definition links :: "('k \<Rightarrow> 64 word) \<Rightarrow> ('k, 'v) oslots \<Rightarrow> int \<Rightarrow> int \<Rightarrow> ('k \<times> 'v) list \<Rightarrow> nat list \<Rightarrow> bool" where
  "links hash d first final xs is \<longleftrightarrow> lseg d first is (-1) \<and> final = (if is = [] then -1 else int (last is)) \<and>
     map (\<lambda>i. plain_slot (d ! i)) is = map (\<lambda>(k, v). slot_of hash k v) xs"

definition ofits :: "('k \<Rightarrow> 64 word) \<Rightarrow> ('k, 'v) oslots \<Rightarrow> int \<Rightarrow> int \<Rightarrow> ('k \<times> 'v) list \<Rightarrow> bool" where
  "ofits hash d first final xs \<longleftrightarrow> distinct (map fst xs) \<and>
     maps hash \<lparr>t_data = map plain_slot d, t_counter = int (length xs)\<rparr> (map_of xs) \<and>
     (d = [] \<or> (\<exists>is. links hash d first final xs is))"

definition olist :: "('k \<Rightarrow> 64 word) \<Rightarrow> ('k, 'v) OrderedTable \<Rightarrow> ('k \<times> 'v) list \<Rightarrow> bool" where
  "olist hash t xs \<longleftrightarrow> o_counter t = int (length xs) \<and> ofits hash (o_data t) (o_first t) (o_last t) xs"

lemma plain_simps [simp]:
  "t_data (plain t) = map plain_slot (o_data t)" "t_counter (plain t) = o_counter t"
  "dataLen (plain t) = length (o_data t)" "maxHash (plain t) = length (o_data t) - 1"
  by (simp_all add: plain_def dataLen_def maxHash_def)

lemma plain_slot_simps [simp]:
  "hcode (plain_slot s) = hcode s" "kv_key (plain_slot s) = kv_key s" "kv_val (plain_slot s) = kv_val s"
  by (simp_all add: plain_slot_def)

lemma olist_maps: "olist hash t xs \<Longrightarrow> maps hash (plain t) (map_of xs)"
  by (simp add: olist_def ofits_def plain_def)

lemma card_map_of: "distinct (map fst xs) \<Longrightarrow> card (dom (map_of xs)) = length xs"
  by (simp add: dom_map_of_conv_image_fst distinct_card flip: set_map)

lemma links_distinct: "links hash d first final xs is \<Longrightarrow> distinct (map fst xs) \<Longrightarrow> distinct is"
proof -
  assume l: "links hash d first final xs is" and k: "distinct (map fst xs)"
  have "map (kv_key \<circ> (\<lambda>(k, v). slot_of hash k v)) xs = map Some (map fst xs)" by auto
  then have "distinct (map (kv_key \<circ> (\<lambda>(k, v). slot_of hash k v)) xs)"
    using k by (simp add: distinct_map del: map_map)
  then have "distinct (map kv_key (map (\<lambda>i. plain_slot (d ! i)) is))"
    using l by (simp add: links_def comp_def)
  then show "distinct is" by (simp add: distinct_map)
qed

lemma links_nth:
  assumes "links hash d first final xs is" "n < length xs"
  shows "length is = length xs" "is ! n < length d" "plain_slot (d ! (is ! n)) = slot_of hash (fst (xs ! n)) (snd (xs ! n))"
proof -
  have eq: "map (\<lambda>i. plain_slot (d ! i)) is = map (\<lambda>(k, v). slot_of hash k v) xs" using assms(1) by (simp add: links_def)
  show len: "length is = length xs" using arg_cong [OF eq, of length] by simp
  then show "is ! n < length d" using assms lseg_less by (fastforce simp: links_def)
  show "plain_slot (d ! (is ! n)) = slot_of hash (fst (xs ! n)) (snd (xs ! n))"
    using arg_cong [OF eq, of "\<lambda>ys. ys ! n"] assms(2) len by (simp add: case_prod_beta)
qed

lemma ofits_empty:
  assumes "ring_size (length d)" "\<And>s. s \<in> set d \<Longrightarrow> hcode s = 0"
  shows "ofits hash d (-1) (-1) []"
proof -
  have "intact {} (map plain_slot d)" using assms(2) by (simp add: intact_def filled_defs)
  moreover have "elems (map plain_slot d) = {#}" 
    using assms(2) by (auto simp: elems_def filled_defs simp flip: set_mset_eq_empty_iff)
  moreover have "0 < length d" using assms(1) by (auto elim: ring_sizeE)
  ultimately show ?thesis using assms(1) by (auto simp: ofits_def links_def maps_def slots_def)
qed

text \<open>A new slot goes to the end of the list.\<close>

lemma oRawInsert_ok:
  assumes f: "ofits hash (o_data t) (o_first t) (o_last t) xs" and key: "key \<notin> fst ` set xs"
    and q: "q < length (o_data t)" "hcode (o_data t ! q) = 0"
      "\<And>x. x < length (o_data t) \<Longrightarrow>
         dist (length (o_data t)) (home (genHash hash key) (length (o_data t) - 1)) x
           < dist (length (o_data t)) (home (genHash hash key) (length (o_data t) - 1)) q \<Longrightarrow> hcode (o_data t ! x) \<noteq> 0"
    and room: "length xs + 1 < length (o_data t)"
  shows "\<exists>t'. oRawInsert key val (genHash hash key) (int q) t = Some t' \<and> o_counter t' = o_counter t \<and>
    length (o_data t') = length (o_data t) \<and> plain_slot (o_data t' ! q) = slot_of hash key val \<and>
    ofits hash (o_data t') (o_first t') (o_last t') (xs @ [(key, val)])"
proof -
  let ?d = "o_data t" and ?s = "\<lparr>hcode = genHash hash key, kv_key = Some key, kv_val = Some val, kv_next = -1\<rparr>"
  have dist: "distinct (map fst xs)" and m: "maps hash \<lparr>t_data = map plain_slot ?d, t_counter = int (length xs)\<rparr> (map_of xs)"
    using f by (auto simp: ofits_def)
  obtain "is" where l: "links hash ?d (o_first t) (o_last t) xs is" using f q(1) by (auto simp: ofits_def)
  have ne: "?d \<noteq> []" using q(1) by auto
  have seg: "lseg ?d (o_first t) is (-1)" "o_last t = (if is = [] then -1 else int (last is))" using l by (auto simp: links_def)
  have dis: "distinct is" by (rule links_distinct [OF l dist])
  have qis: "q \<notin> set is"
  proof
    assume "q \<in> set is"
    then obtain n where n: "n < length is" "is ! n = q" by (auto simp: in_set_conv_nth)
    have len: "length is = length xs" using arg_cong [OF l [unfolded links_def, THEN conjunct2, THEN conjunct2], of length] by simp
    then have "plain_slot (?d ! q) = slot_of hash (fst (xs ! n)) (snd (xs ! n))" using links_nth [OF l, of n] n by simp
    then have "hcode (?d ! q) = genHash hash (fst (xs ! n))" by (metis plain_slot_simps(1) slot_of_simps(1))
    then show False using q(2) by simp
  qed
  define d1 where "d1 = ?d[q := ?s]"
  define d2 where "d2 = (if is = [] then d1 else d1[last is := (d1 ! last is)\<lparr>kv_next := int q\<rparr>])"
  have len: "length d2 = length ?d" "length d1 = length ?d" by (auto simp: d2_def d1_def)
  have seg1: "lseg d1 (o_first t) is (-1)" using seg(1) qis by (simp add: d1_def)
  have last: "last is < length d1" if "is \<noteq> []" using lseg_less [OF seg(1)] that len by simp
  have plain2: "map plain_slot d2 = (map plain_slot ?d)[q := slot_of hash key val]"
    using last plain_next [of "last is" d1 "int q"] q(1)
    by (auto simp: d2_def d1_def map_update slot_of_def plain_slot_def)
  have insert: "oRawInsert key val (genHash hash key) (int q) t =
      Some (t\<lparr>o_data := d2, o_first := (if is = [] then int q else o_first t), o_last := int q\<rparr>)"
  proof (cases "is = []")
    case True
    then show ?thesis using seg q(1) by (simp add: oRawInsert_def d2_def d1_def Let_def)
  next
    case False
    then have "\<not> o_first t < 0" using seg(1) by (cases "is") auto
    then show ?thesis using seg(2) q(1) last False by (simp add: oRawInsert_def d2_def Let_def flip: d1_def)
  qed
  have "lseg d2 (if is = [] then int q else o_first t) (is @ [q]) (-1)"
  proof (cases "is = []")
    case False
    have "last is \<noteq> q" using qis False by auto
    then have "kv_next (d2 ! q) = -1" using q(1) False by (simp add: d2_def d1_def)
    then show ?thesis using lseg_last [OF seg1 False dis] len q(1) False by (auto simp: d2_def lseg_append)
  qed (use q(1) in \<open>simp add: d2_def d1_def\<close>)
  moreover have "map (\<lambda>i. plain_slot (d2 ! i)) (is @ [q]) = map (\<lambda>(k, v). slot_of hash k v) (xs @ [(key, val)])"
  proof -
    have nth: "i < length ?d \<Longrightarrow> plain_slot (d2 ! i) = (if i = q then slot_of hash key val else plain_slot (?d ! i))" for i
      using arg_cong [OF plain2, of "\<lambda>xs. xs ! i"] len by (simp add: nth_list_update)
    have "map (\<lambda>i. plain_slot (d2 ! i)) is = map (\<lambda>i. plain_slot (?d ! i)) is"
      using nth lseg_less [OF seg(1)] qis by (auto intro!: map_cong)
    also have "\<dots> = map (\<lambda>(k, v). slot_of hash k v) xs" using l by (simp add: links_def)
    finally have "map (\<lambda>i. plain_slot (d2 ! i)) is = map (\<lambda>(k, v). slot_of hash k v) xs" .
    then show ?thesis unfolding map_append using nth [OF q(1)] by simp
  qed
  ultimately have "links hash d2 (if is = [] then int q else o_first t) (int q) (xs @ [(key, val)]) (is @ [q])"
    by (simp add: links_def)
  moreover have "map_of (xs @ [(key, val)]) = (map_of xs)(key \<mapsto> val)"
  proof -
    have "key \<notin> dom (map_of xs)" using key by (simp add: dom_map_of_conv_image_fst)
    then show ?thesis by (auto simp: map_add_def fun_eq_iff split: option.splits)
  qed
  moreover have "maps hash \<lparr>t_data = map plain_slot d2, t_counter = int (length (xs @ [(key, val)]))\<rparr> ((map_of xs)(key \<mapsto> val))"
    using maps_insert [OF m, of key q val] key q room dist ne
    by (simp add: plain2 card_map_of map_of_eq_None_iff filled_defs add.commute)
  moreover have "plain_slot (d2 ! q) = slot_of hash key val"
    using arg_cong [OF plain2, of "\<lambda>xs. xs ! q"] len q(1) by simp
  ultimately show ?thesis using insert len dist key by (auto simp: ofits_def)
qed

section \<open>Growth, search and insertion\<close>

lemma osearch:
  fixes t :: "('k, 'v) OrderedTable" and key :: 'k
  assumes f: "ofits hash (o_data t) (o_first t) (o_last t) xs" and ne: "o_data t \<noteq> []"
  obtains (found) q v where "q < length (o_data t)" "map_of xs key = Some v" "plain_slot (o_data t ! q) = slot_of hash key v"
      "rawGetKnownHC (plain t) key (genHash hash key) = Some (int q)"
  | (missing) q where "q < length (o_data t)" "key \<notin> fst ` set xs" "hcode (o_data t ! q) = 0"
      "\<And>x. x < length (o_data t) \<Longrightarrow>
         dist (length (o_data t)) (home (genHash hash key) (length (o_data t) - 1)) x
           < dist (length (o_data t)) (home (genHash hash key) (length (o_data t) - 1)) q \<Longrightarrow> hcode (o_data t ! x) \<noteq> 0"
      "rawGetKnownHC (plain t) key (genHash hash key) = Some (-1 - int q)"
proof -
  let ?t = "\<lparr>t_data = map plain_slot (o_data t), t_counter = int (length xs)\<rparr>"
  have m: "maps hash ?t (map_of xs)" using f by (simp add: ofits_def)
  have raw: "rawGetKnownHC (plain t) key hc = rawGetKnownHC ?t key hc" for hc
    by (simp add: rawGetKnownHC_def dataLen_def maxHash_def)
  have "t_data ?t \<noteq> []" using ne by simp
  show thesis
  proof (rule rawGetKnownHC_ok [OF m \<open>t_data ?t \<noteq> []\<close>, of key], goal_cases)
    case (1 q v)
    then show thesis using found [of q v] raw by simp
  next
    case (2 q)
    then show thesis using missing [of q] raw by (simp add: filled_defs map_of_eq_None_iff)
  qed
qed

lemma ofree_slot:
  assumes f: "ofits hash (o_data t) (o_first t) (o_last t) xs" and ne: "o_data t \<noteq> []"
  obtains q where "q < length (o_data t)" "hcode (o_data t ! q) = 0"
    "\<And>x. x < length (o_data t) \<Longrightarrow>
         dist (length (o_data t)) (home hc (length (o_data t) - 1)) x
           < dist (length (o_data t)) (home hc (length (o_data t) - 1)) q \<Longrightarrow> hcode (o_data t ! x) \<noteq> 0"
    "findEmpty (t_data (plain t)) (home hc (maxHash (plain t))) = Some q"
proof -
  let ?t = "\<lparr>t_data = map plain_slot (o_data t), t_counter = int (length xs)\<rparr>"
  have m: "maps hash ?t (map_of xs)" using f by (simp add: ofits_def)
  obtain e where e: "e < length (map plain_slot (o_data t))" "\<not> filled (map plain_slot (o_data t) ! e)"
    using maps_empty_slot [OF m] ne by auto
  have N: "ring_size (length (map plain_slot (o_data t)))" using m ne by (simp add: maps_def)
  obtain q where "q < length (map plain_slot (o_data t))" "\<not> filled (map plain_slot (o_data t) ! q)"
      "findEmpty (map plain_slot (o_data t)) (home hc (length (map plain_slot (o_data t)) - 1)) = Some q"
      "\<And>x. x < length (map plain_slot (o_data t)) \<Longrightarrow>
         dist (length (map plain_slot (o_data t))) (home hc (length (map plain_slot (o_data t)) - 1)) x
           < dist (length (map plain_slot (o_data t))) (home hc (length (map plain_slot (o_data t)) - 1)) q \<Longrightarrow>
         filled (map plain_slot (o_data t) ! x)"
    using findEmpty_ok [OF refl N e home_less [OF N], of hc] by blast
  then show thesis using that [of q] by (simp add: filled_defs)
qed

definition same_pairs :: "('k \<Rightarrow> 64 word) \<Rightarrow> ('k, 'v) oslots \<Rightarrow> nat list \<Rightarrow> ('k \<times> 'v) list \<Rightarrow> bool" where
  "same_pairs hash d is zs \<longleftrightarrow> list_all2 (\<lambda>i (k, v). plain_slot (d ! i) = slot_of hash k v) is zs"

lemma links_same: "links hash d first final xs is \<longleftrightarrow> lseg d first is (-1) \<and>
    final = (if is = [] then -1 else int (last is)) \<and> same_pairs hash d is xs"
  unfolding links_def same_pairs_def
    list_all2_eq [of "map (\<lambda>i. plain_slot (d ! i)) is" "map (\<lambda>(k, v). slot_of hash k v) xs"]
  by (simp add: list_all2_map1 list_all2_map2 case_prod_unfold)

lemma slot_fields: "plain_slot s = slot_of hash k v \<Longrightarrow> hcode s = genHash hash k \<and> kv_key s = Some k \<and> kv_val s = Some v"
  by (metis plain_slot_simps slot_of_simps)

lemma oEnlargeLoop_ok:
  assumes "lseg n h is (-1)" "same_pairs hash n is zs" "ofits hash (o_data t) (o_first t) (o_last t) ys"
    "distinct (map fst (ys @ zs))" "length ys + length zs < length (o_data t)"
  shows "\<exists>t'. oEnlargeLoop n h t = Some t' \<and> ofits hash (o_data t') (o_first t') (o_last t') (ys @ zs) \<and>
    o_counter t' = o_counter t \<and> length (o_data t') = length (o_data t)"
  using assms
proof (induction zs arbitrary: h "is" t ys)
  case Nil
  then have "is = []" by (simp add: same_pairs_def)
  then show ?case using Nil by (subst oEnlargeLoop.simps) simp
next
  case (Cons z zs)
  obtain k v where z: "z = (k, v)" by fastforce
  obtain i js where "is": "is = i # js" "plain_slot (n ! i) = slot_of hash k v" "same_pairs hash n js zs"
    using Cons.prems(2) z by (auto simp: same_pairs_def list_all2_Cons2)
  have i: "h = int i" "i < length n" "lseg n (kv_next (n ! i)) js (-1)" using Cons.prems(1) "is" by auto
  note s = slot_fields [OF "is"(2)]
  have ne: "o_data t \<noteq> []" using Cons.prems(5) by auto
  obtain q where q: "q < length (o_data t)" "hcode (o_data t ! q) = 0"
    "\<And>x. x < length (o_data t) \<Longrightarrow>
         dist (length (o_data t)) (home (genHash hash k) (length (o_data t) - 1)) x
           < dist (length (o_data t)) (home (genHash hash k) (length (o_data t) - 1)) q \<Longrightarrow> hcode (o_data t ! x) \<noteq> 0"
    "findEmpty (t_data (plain t)) (home (genHash hash k) (maxHash (plain t))) = Some q"
    using ofree_slot [OF Cons.prems(3) ne] by blast
  have k: "k \<notin> fst ` set ys" using Cons.prems(4) z by auto
  obtain t1 where t1: "oRawInsert k v (genHash hash k) (int q) t = Some t1" "o_counter t1 = o_counter t"
      "length (o_data t1) = length (o_data t)" "ofits hash (o_data t1) (o_first t1) (o_last t1) (ys @ [(k, v)])"
    using oRawInsert_ok [OF Cons.prems(3) k q(1-3)] Cons.prems(5) by auto
  have "oEnlargeLoop n h t = oEnlargeLoop n (kv_next (n ! i)) t1"
    using i s q(4) t1(1) by (subst oEnlargeLoop.simps) (simp add: isFilled_def)
  then show ?case using Cons.IH [OF i(3) "is"(3) t1(4)] Cons.prems(4,5) t1(2,3) by (simp add: z)
qed

lemma ofits_links:
  assumes "ofits hash d first final xs" "d \<noteq> []"
  obtains "is" where "links hash d first final xs is" "distinct is" "length is = length xs"
proof -
  obtain "is" where l: "links hash d first final xs is" using assms by (auto simp: ofits_def)
  moreover have "distinct is" using links_distinct [OF l] assms(1) by (simp add: ofits_def)
  moreover have "length is = length xs" using l by (auto simp: links_same same_pairs_def dest: list_all2_lengthD)
  ultimately show thesis using that by blast
qed

lemma oEnlarge_ok:
  assumes f: "ofits hash (o_data t) (o_first t) (o_last t) xs" and ne: "o_data t \<noteq> []"
  shows "\<exists>t'. oEnlarge t = Some t' \<and> ofits hash (o_data t') (o_first t') (o_last t') xs \<and>
    o_counter t' = o_counter t \<and> length (o_data t') = 2 * length (o_data t)"
proof -
  have m: "maps hash \<lparr>t_data = map plain_slot (o_data t), t_counter = int (length xs)\<rparr> (map_of xs)" "distinct (map fst xs)"
    using f by (auto simp: ofits_def)
  have N: "ring_size (2 * length (o_data t))" "length xs < length (o_data t)"
    using m ne ring_double card_map_of by (auto simp: maps_def)
  obtain "is" where l: "links hash (o_data t) (o_first t) (o_last t) xs is" using ofits_links [OF f ne] by blast
  let ?t = "t\<lparr>o_first := -1, o_last := -1, o_data := replicate (length (o_data t) * growthFactor) empty_oslot\<rparr>"
  have "ofits hash (o_data ?t) (o_first ?t) (o_last ?t) []"
    using ofits_empty [of "replicate (length (o_data t) * growthFactor) empty_oslot" hash] N(1)
    by (simp add: growthFactor_def mult.commute)
  then show ?thesis
    using oEnlargeLoop_ok [of "o_data t" "o_first t" "is" hash xs ?t "[]"] l m(2) N(2)
    by (simp add: oEnlarge_def Let_def links_same growthFactor_def mult.commute)
qed

lemma oCheckIfInitialized_ok:
  assumes "olist hash t xs"
  shows "olist hash (oCheckIfInitialized t) xs" "o_data (oCheckIfInitialized t) \<noteq> []"
proof -
  have n: "ring_size (slotsNeeded defaultInitialSize)" "0 < slotsNeeded defaultInitialSize"
    using slotsNeeded_ok [of 32] by (auto simp: defaultInitialSize_def)
  have "olist hash (oCheckIfInitialized t) xs \<and> o_data (oCheckIfInitialized t) \<noteq> []"
  proof (cases "o_data t = []")
    case True
    have "maps hash (plain t) (map_of xs)" by (rule olist_maps [OF assms])
    then have "map_of xs = (\<lambda>_. None)"
      using True by (auto simp: maps_def elems_def slots_def mset_set_empty_iff)
    then have "xs = []" by (cases xs) (auto dest: fun_cong)
    then show ?thesis
      using n ofits_empty [of "replicate (slotsNeeded defaultInitialSize) empty_oslot" hash] True
      by (simp add: oCheckIfInitialized_def oInitImpl_def olist_def)
  next
    case False
    then show ?thesis using assms by (simp add: oCheckIfInitialized_def)
  qed
  then show "olist hash (oCheckIfInitialized t) xs" "o_data (oCheckIfInitialized t) \<noteq> []" by auto
qed

lemma oInitImpl_ok: "n \<le> 2 ^ 60 \<Longrightarrow> olist hash (oInitImpl n) []"
  using slotsNeeded_ok [of n] ofits_empty [of "replicate (slotsNeeded n) empty_oslot" hash]
  by (simp add: oInitImpl_def olist_def)

lemma oMaybeRehashPut_ok:
  assumes t: "olist hash t xs" and ne: "o_data t \<noteq> []" and k: "key \<notin> fst ` set xs"
    and i: "rawGetKnownHC (plain t) key (genHash hash key) = Some i"
  shows "\<exists>q t'. oMaybeRehashPut t key val (genHash hash key) i = Some (int q, t') \<and>
    olist hash t' (xs @ [(key, val)]) \<and> val_at (int q) (plain t') = Some val"
proof -
  let ?hc = "genHash hash key"
  have check: "oCheckIfInitialized t = t" using ne by (simp add: oCheckIfInitialized_def)
  have d: "distinct (map fst xs)" using t by (simp add: olist_def ofits_def)
  obtain b where b: "mustRehash (plain t) = Some b" "\<not> b \<Longrightarrow> length xs + 4 \<le> length (o_data t)"
    using mustRehash_ok [OF olist_maps [OF t]] ne card_map_of [OF d] by auto
  have f: "ofits hash (o_data t) (o_first t) (o_last t) xs" "o_counter t = int (length xs)" using t by (auto simp: olist_def)
  obtain t1 i1 where t1:
      "(if b then do { t \<leftarrow> oEnlarge t; i \<leftarrow> rawGetKnownHC (plain t) key ?hc; Some (t, i) } else Some (t, i)) = Some (t1, i1)"
      "ofits hash (o_data t1) (o_first t1) (o_last t1) xs" "o_data t1 \<noteq> []" "o_counter t1 = o_counter t"
      "rawGetKnownHC (plain t1) key ?hc = Some i1" "length xs + 1 < length (o_data t1)"
  proof (cases b)
    case False
    then show ?thesis using that [of t i] f ne i b(2) by simp
  next
    case True
    obtain t' where t': "oEnlarge t = Some t'" "ofits hash (o_data t') (o_first t') (o_last t') xs"
        "o_counter t' = o_counter t" "length (o_data t') = 2 * length (o_data t)"
      using oEnlarge_ok [OF f(1) ne] by blast
    have ne': "o_data t' \<noteq> []" using t'(4) ne by auto
    obtain i' where "rawGetKnownHC (plain t') key ?hc = Some i'" using osearch [OF t'(2) ne'] by metis
    moreover have "length xs < length (o_data t)" using olist_maps [OF t] ne card_map_of [OF d] by (simp add: maps_def)
    ultimately show ?thesis using that [of t' i'] t' ne' True by simp
  qed
  show ?thesis
  proof (rule osearch [OF t1(2,3), of key], goal_cases)
    case (1 q v)
    then show ?thesis using k by (metis map_of_eq_None_iff option.distinct(1))
  next
    case (2 q)
    obtain t2 where t2: "oRawInsert key val ?hc (int q) t1 = Some t2" "o_counter t2 = o_counter t1"
        "length (o_data t2) = length (o_data t1)" "plain_slot (o_data t2 ! q) = slot_of hash key val"
        "ofits hash (o_data t2) (o_first t2) (o_last t2) (xs @ [(key, val)])"
      using oRawInsert_ok [OF t1(2) k 2(1,3,4) t1(6)] by blast
    have "-1 - i1 = int q" using 2(5) t1(5) by simp
    then have "oMaybeRehashPut t key val ?hc i = Some (int q, t2\<lparr>o_counter := o_counter t2 + 1\<rparr>)"
      using b(1) t1(1) t2(1) by (simp add: oMaybeRehashPut_def check)
    then show ?thesis
      using t2 t1(4) f(2) 2(1) by (simp add: olist_def val_at_def)
  qed
qed

section \<open>Every operation on the list\<close>

text \<open>The search for a key, in the form the operations use it.\<close>

lemma rawGet_ordered:
  fixes t :: "('k, 'v) OrderedTable" and key :: 'k
  assumes t: "olist hash t xs"
  obtains (found) q v where "q < length (o_data t)" "map_of xs key = Some v" "plain_slot (o_data t ! q) = slot_of hash key v"
      "rawGet hash (plain t) key = Some (int q, genHash hash key)" "val_at (int q) (plain t) = Some v"
  | (missing) i where "i < 0" "key \<notin> fst ` set xs" "rawGet hash (plain t) key = Some (i, genHash hash key)"
      "o_data t \<noteq> [] \<Longrightarrow> rawGetKnownHC (plain t) key (genHash hash key) = Some i"
proof (rule rawGet_cases [OF olist_maps [OF t], of key], goal_cases)
  case (1 q v)
  then show ?thesis using found [of q v] by simp
next
  case (2 i)
  then show ?thesis using missing [of i] by (simp add: map_of_eq_None_iff)
qed

text \<open>Replacing a value.\<close>

lemma lseg_same_next:
  "length d' = length d \<Longrightarrow> (\<And>i. i < length d \<Longrightarrow> kv_next (d' ! i) = kv_next (d ! i)) \<Longrightarrow> lseg d' p is r = lseg d p is r"
  by (induction "is" arbitrary: p) auto

lemma key_in_links:
  assumes f: "ofits hash d first final xs" and l: "links hash d first final xs is"
    and q: "q < length d" "plain_slot (d ! q) = slot_of hash key v" and n: "n < length xs"
  shows "is ! n = q \<longleftrightarrow> fst (xs ! n) = key"
proof -
  note nth = links_nth [OF l n]
  let ?t = "\<lparr>t_data = map plain_slot d, t_counter = int (length xs)\<rparr>"
  have wf: "table_wf hash ?t" by (rule maps_wf [where m = "map_of xs"]) (use f in \<open>simp add: ofits_def\<close>)
  show ?thesis
  proof
    assume "is ! n = q"
    then show "fst (xs ! n) = key" using nth(3) q(2) by (simp add: slot_of_def)
  next
    assume k: "fst (xs ! n) = key"
    have "kv_key (d ! (is ! n)) = Some key" "hcode (d ! (is ! n)) \<noteq> 0" "kv_key (d ! q) = Some key" "hcode (d ! q) \<noteq> 0"
      using slot_fields [OF nth(3)] slot_fields [OF q(2)] k by simp_all
    then show "is ! n = q" using table_wf_unique [OF wf, of "is ! n" q] nth(2) q(1) by (simp add: filled_defs)
  qed
qed

lemma update_present:
  "distinct (map fst xs) \<Longrightarrow> key \<in> fst ` set xs \<Longrightarrow>
     AList.update key val xs = map (\<lambda>p. if fst p = key then (key, val) else p) xs"
proof (induction xs)
  case (Cons p xs)
  obtain a b where p: "p = (a, b)" by fastforce
  have "map (\<lambda>p. if fst p = key then (key, val) else p) xs = xs" if "a = key"
    using that Cons.prems(1) p by (intro map_idI) auto
  then show ?case using Cons by (auto simp: p)
qed simp

lemma update_absent: "key \<notin> fst ` set xs \<Longrightarrow> AList.update key val xs = xs @ [(key, val)]"
  by (induction xs) auto

lemma o_set_val_ok:
  assumes t: "olist hash t xs" and q: "q < length (o_data t)" "map_of xs key = Some v"
    "plain_slot (o_data t ! q) = slot_of hash key v"
  shows "\<exists>t'. o_set_val (int q) val t = Some t' \<and> olist hash t' (AList.update key val xs)"
proof -
  let ?d = "o_data t" and ?xs = "AList.update key val xs"
  let ?d' = "?d[q := (?d ! q)\<lparr>kv_val := Some val\<rparr>]"
  have f: "ofits hash ?d (o_first t) (o_last t) xs" "o_counter t = int (length xs)" using t by (auto simp: olist_def)
  have d: "distinct (map fst xs)" using f(1) by (simp add: ofits_def)
  have key: "key \<in> fst ` set xs" using q(2) by (metis map_of_eq_None_iff option.distinct(1))
  note upd = update_present [OF d key, of val]
  have ne: "?d \<noteq> []" using q(1) by auto
  obtain "is" where l: "links hash ?d (o_first t) (o_last t) xs is" "length is = length xs" using ofits_links [OF f(1) ne] by blast
  have plain: "map plain_slot ?d' = (map plain_slot ?d)[q := slot_of hash key val]"
    using q(1) slot_fields [OF q(3)] by (simp add: map_update plain_slot_def slot_of_def)
  have nth: "plain_slot (?d' ! i) = (if i = q then slot_of hash key val else plain_slot (?d ! i))" if "i < length ?d" for i
    using arg_cong [OF plain, of "\<lambda>xs. xs ! i"] that by (simp add: nth_list_update split: if_splits)
  have "maps hash \<lparr>t_data = map plain_slot ?d', t_counter = int (length ?xs)\<rparr> (map_of ?xs)"
    using maps_replace [OF olist_maps [OF t] q(2), of q val] q f(2)
    unfolding update_conv' plain by (simp add: plain_def upd)
  moreover have "map (\<lambda>i. plain_slot (?d' ! i)) is = map (\<lambda>(k, v). slot_of hash k v) ?xs"
  proof (rule nth_equalityI)
    fix n assume "n < length (map (\<lambda>i. plain_slot (?d' ! i)) is)"
    then have n: "n < length xs" using l(2) by simp
    show "map (\<lambda>i. plain_slot (?d' ! i)) is ! n = map (\<lambda>(k, v). slot_of hash k v) ?xs ! n"
      using links_nth [OF l(1) n] key_in_links [OF f(1) l(1) q(1,3) n] nth n l(2)
      by (simp add: upd case_prod_beta)
  qed (simp add: l(2) upd)
  moreover have "lseg ?d' (o_first t) is (-1)"
  proof -
    have "lseg ?d' (o_first t) is (-1) = lseg ?d (o_first t) is (-1)"
      by (rule lseg_same_next) (use q(1) in \<open>auto simp: nth_list_update\<close>)
    then show ?thesis using l(1) by (simp add: links_def)
  qed
  moreover have "distinct (map fst ?xs)" using d by (simp add: distinct_update)
  ultimately have "ofits hash ?d' (o_first t) (o_last t) ?xs" using l(1) by (auto simp: ofits_def links_def)
  then show ?thesis using q(1) f(2) by (simp add: o_set_val_def olist_def upd)
qed

lemma ordered_put_ok:
  assumes "olist hash t xs"
  shows "\<exists>t'. ordered_put hash key val t = Some t' \<and> olist hash t' (AList.update key val xs)"
proof -
  note t = oCheckIfInitialized_ok [OF assms]
  show ?thesis
  proof (cases rule: rawGet_ordered [OF t(1), of key])
    case (1 q v)
    then show ?thesis using o_set_val_ok [OF t(1) 1(1,2,3), of val] by (simp add: ordered_put_def Let_def)
  next
    case (2 i)
    then show ?thesis using oMaybeRehashPut_ok [OF t 2(2) 2(4) [OF t(2)], of val]
      by (auto simp: ordered_put_def Let_def update_absent)
  qed
qed

lemma ordered_mgetOrPut_ok:
  assumes "olist hash t xs"
  shows "\<exists>t'. ordered_mgetOrPut hash key val t = Some (case map_of xs key of Some v \<Rightarrow> v | None \<Rightarrow> val, t') \<and>
    olist hash t' (case map_of xs key of Some v \<Rightarrow> xs | None \<Rightarrow> xs @ [(key, val)])"
proof -
  note t = oCheckIfInitialized_ok [OF assms]
  show ?thesis
  proof (cases rule: rawGet_ordered [OF t(1), of key])
    case (1 q v)
    then show ?thesis using t(1) by (simp add: ordered_mgetOrPut_def Let_def)
  next
    case (2 i)
    then have "map_of xs key = None" by (simp add: map_of_eq_None_iff)
    then show ?thesis using 2 oMaybeRehashPut_ok [OF t 2(2) 2(4) [OF t(2)], of val]
      by (auto simp: ordered_mgetOrPut_def Let_def)
  qed
qed

lemma ordered_hasKeyOrPut_ok:
  assumes "olist hash t xs"
  shows "\<exists>t'. ordered_hasKeyOrPut hash key val t = Some (map_of xs key \<noteq> None, t') \<and>
    olist hash t' (case map_of xs key of Some v \<Rightarrow> xs | None \<Rightarrow> xs @ [(key, val)])"
proof -
  note t = oCheckIfInitialized_ok [OF assms]
  show ?thesis
  proof (cases rule: rawGet_ordered [OF t(1), of key])
    case (1 q v)
    then show ?thesis using t(1) by (simp add: ordered_hasKeyOrPut_def Let_def)
  next
    case (2 i)
    then have "map_of xs key = None" by (simp add: map_of_eq_None_iff)
    then show ?thesis using 2 oMaybeRehashPut_ok [OF t 2(2) 2(4) [OF t(2)], of val]
      by (auto simp: ordered_hasKeyOrPut_def Let_def)
  qed
qed

lemma ordered_lookup_ok:
  assumes "olist hash t xs"
  shows "ordered_get hash key t = Some (case map_of xs key of Some v \<Rightarrow> Inr v | None \<Rightarrow> Inl (KeyError key))"
    "ordered_hasKey hash key t = Some (map_of xs key \<noteq> None)"
    "ordered_getOrDefault hash key dflt t = Some (case map_of xs key of Some v \<Rightarrow> v | None \<Rightarrow> dflt)"
  using lookup_ok [OF olist_maps [OF assms], of key] by (simp_all add: ordered_get_def ordered_hasKey_def ordered_getOrDefault_def)

section \<open>Deletion\<close>

text \<open>What deletion needs of the old slots: the hash codes and the keys of all, the values of the others.\<close>

definition same_keys :: "('k \<Rightarrow> 64 word) \<Rightarrow> 'k \<Rightarrow> ('k, 'v) oslots \<Rightarrow> nat list \<Rightarrow> ('k \<times> 'v) list \<Rightarrow> bool" where
  "same_keys hash key d is zs \<longleftrightarrow>
     list_all2 (\<lambda>i (k, v). hcode (d ! i) = genHash hash k \<and> kv_key (d ! i) = Some k \<and> (k \<noteq> key \<longrightarrow> kv_val (d ! i) = Some v)) is zs"

lemma oDelLoop_ok:
  assumes "lseg n h is (-1)" "same_keys hash key n is zs" "ofits hash (o_data t) (o_first t) (o_last t) ys"
    "distinct (map fst (ys @ zs))" "length ys + length zs < length (o_data t)"
  shows "\<exists>t'. oDelLoop key (genHash hash key) n h t = Some t' \<and>
    ofits hash (o_data t') (o_first t') (o_last t') (ys @ AList.delete key zs) \<and>
    o_counter t' = o_counter t - int (length zs - length (AList.delete key zs))"
  using assms
proof (induction zs arbitrary: h "is" t ys)
  case Nil
  then have "is = []" by (simp add: same_keys_def)
  then show ?case using Nil by (subst oDelLoop.simps) simp
next
  case (Cons z zs)
  obtain k v where z: "z = (k, v)" by fastforce
  obtain i js where "is": "is = i # js" "same_keys hash key n js zs"
    and s: "hcode (n ! i) = genHash hash k" "kv_key (n ! i) = Some k" "k \<noteq> key \<Longrightarrow> kv_val (n ! i) = Some v"
    using Cons.prems(2) z by (auto simp: same_keys_def list_all2_Cons2)
  have i: "h = int i" "i < length n" "lseg n (kv_next (n ! i)) js (-1)" using Cons.prems(1) "is" by auto
  have le: "length (AList.delete key zs) \<le> length zs" by (rule length_delete_le)
  show ?case
  proof (cases "k = key")
    case True
    let ?t = "t\<lparr>o_counter := o_counter t - 1\<rparr>"
    have "oDelLoop key (genHash hash key) n h t = oDelLoop key (genHash hash key) n (kv_next (n ! i)) ?t"
      using i s True by (subst oDelLoop.simps) (simp add: isFilled_def)
    then show ?thesis
      using Cons.IH [OF i(3) "is"(2), of ?t ys] Cons.prems(3-5) True le by (auto simp: z of_nat_diff Suc_diff_le)
  next
    case False
    have ne: "o_data t \<noteq> []" using Cons.prems(5) by auto
    have k: "k \<notin> fst ` set ys" using Cons.prems(4) z by auto
    obtain q where q: "q < length (o_data t)" "hcode (o_data t ! q) = 0"
      "\<And>x. x < length (o_data t) \<Longrightarrow>
           dist (length (o_data t)) (home (genHash hash k) (length (o_data t) - 1)) x
             < dist (length (o_data t)) (home (genHash hash k) (length (o_data t) - 1)) q \<Longrightarrow> hcode (o_data t ! x) \<noteq> 0"
      "rawGetKnownHC (plain t) k (genHash hash k) = Some (-1 - int q)"
      using osearch [OF Cons.prems(3) ne, of k] k by (metis map_of_eq_None_iff option.distinct(1))
    obtain t1 where t1: "oRawInsert k v (genHash hash k) (int q) t = Some t1" "o_counter t1 = o_counter t"
        "length (o_data t1) = length (o_data t)" "ofits hash (o_data t1) (o_first t1) (o_last t1) (ys @ [(k, v)])"
      using oRawInsert_ok [OF Cons.prems(3) k q(1-3)] Cons.prems(5) by auto
    have "oDelLoop key (genHash hash key) n h t = oDelLoop key (genHash hash key) n (kv_next (n ! i)) t1"
      using i s False q(4) t1(1) by (subst oDelLoop.simps) (simp add: isFilled_def Let_def)
    then show ?thesis
      using Cons.IH [OF i(3) "is"(2) t1(4)] Cons.prems(4,5) t1(2,3) False by (auto simp: z)
  qed
qed

lemma same_pairs_keys: "same_pairs hash d is xs \<Longrightarrow> same_keys hash key d is xs"
  unfolding same_pairs_def same_keys_def
  by (erule list_all2_mono) (auto dest: slot_fields)

lemma ordered_del_links:
  assumes n: "o_counter t = int (length xs)" "ring_size (length (o_data t))" "length xs < length (o_data t)"
    and l: "lseg (o_data t) (o_first t) is (-1)" "same_keys hash key (o_data t) is xs" and d: "distinct (map fst xs)" and ne: "xs \<noteq> []"
  shows "\<exists>t'. ordered_del hash key t = Some t' \<and> olist hash t' (AList.delete key xs)"
proof -
  let ?t = "t\<lparr>o_first := -1, o_last := -1, o_data := replicate (length (o_data t)) empty_oslot\<rparr>"
  have "ofits hash (o_data ?t) (o_first ?t) (o_last ?t) []"
    using ofits_empty [of "replicate (length (o_data t)) empty_oslot" hash] n(2) by simp
  then obtain t' where t': "oDelLoop key (genHash hash key) (o_data t) (o_first t) ?t = Some t'"
      "ofits hash (o_data t') (o_first t') (o_last t') (AList.delete key xs)"
      "o_counter t' = o_counter t - int (length xs - length (AList.delete key xs))"
    using oDelLoop_ok [OF l, of ?t "[]"] d n(3) by auto
  have "length (AList.delete key xs) \<le> length xs" by (rule length_delete_le)
  then show ?thesis using t' n(1) ne by (auto simp: ordered_del_def Let_def olist_def of_nat_diff)
qed

lemma olist_ring:
  assumes "olist hash t xs" "o_data t \<noteq> []"
  shows "ring_size (length (o_data t))" "length xs < length (o_data t)"
proof -
  have "distinct (map fst xs)" using assms(1) by (simp add: olist_def ofits_def)
  then show "ring_size (length (o_data t))" "length xs < length (o_data t)"
    using olist_maps [OF assms(1)] assms(2) card_map_of [of xs] by (auto simp: maps_def)
qed

lemma olist_data: "olist hash t xs \<Longrightarrow> xs \<noteq> [] \<Longrightarrow> o_data t \<noteq> []"
  using olist_maps [of hash t xs] by (cases xs) (auto simp: maps_def elems_def slots_def mset_set_empty_iff)

lemma ordered_del_ok:
  assumes t: "olist hash t xs"
  shows "\<exists>t'. ordered_del hash key t = Some t' \<and> olist hash t' (AList.delete key xs)"
proof (cases "xs = []")
  case True
  then show ?thesis using t by (auto simp: ordered_del_def olist_def)
next
  case False
  have f: "ofits hash (o_data t) (o_first t) (o_last t) xs" "o_counter t = int (length xs)" "distinct (map fst xs)"
    using t by (auto simp: olist_def ofits_def)
  note ne = olist_data [OF t False]
  obtain "is" where l: "links hash (o_data t) (o_first t) (o_last t) xs is" using ofits_links [OF f(1) ne] by blast
  show ?thesis
    by (rule ordered_del_links) (use l f same_pairs_keys olist_ring [OF t ne] False in \<open>auto simp: links_same\<close>)
qed

lemma delete_absent: "key \<notin> fst ` set xs \<Longrightarrow> AList.delete key xs = xs"
  by (induction xs) auto

lemma ordered_pop_ok:
  assumes t: "olist hash t xs"
  shows "\<exists>t'. ordered_pop hash key t = Some (map_of xs key, t') \<and> olist hash t' (AList.delete key xs)"
proof (cases rule: rawGet_ordered [OF t, of key])
  case (2 i)
  then have "map_of xs key = None" by (simp add: map_of_eq_None_iff)
  then show ?thesis using 2 t by (simp add: ordered_pop_def delete_absent)
next
  case (1 q v)
  have f: "ofits hash (o_data t) (o_first t) (o_last t) xs" "o_counter t = int (length xs)" "distinct (map fst xs)"
    using t by (auto simp: olist_def ofits_def)
  have xs: "xs \<noteq> []" using 1(2) by auto
  note ne = olist_data [OF t xs]
  let ?d = "(o_data t)[q := (o_data t ! q)\<lparr>kv_val := None\<rparr>]"
  obtain "is" where l: "links hash (o_data t) (o_first t) (o_last t) xs is" "length is = length xs"
    using ofits_links [OF f(1) ne] by blast
  have "lseg ?d (o_first t) is (-1) = lseg (o_data t) (o_first t) is (-1)"
    by (rule lseg_same_next) (use 1(1) in \<open>auto simp: nth_list_update\<close>)
  then have seg: "lseg ?d (o_first t) is (-1)" using l(1) by (simp add: links_def)
  have "same_keys hash key ?d is xs"
    unfolding same_keys_def
  proof (rule list_all2_all_nthI)
    fix n assume "n < length is"
    then have n: "n < length xs" using l(2) by simp
    note nth = links_nth [OF l(1) n]
    show "case xs ! n of (k, v) \<Rightarrow> hcode (?d ! (is ! n)) = genHash hash k \<and> kv_key (?d ! (is ! n)) = Some k \<and>
        (k \<noteq> key \<longrightarrow> kv_val (?d ! (is ! n)) = Some v)"
      using slot_fields [OF nth(3)] key_in_links [OF f(1) l(1) 1(1,3) n] nth(2) 1(1)
      by (auto simp: nth_list_update case_prod_beta)
  qed (rule l(2))
  then obtain t' where "ordered_del hash key (t\<lparr>o_data := ?d\<rparr>) = Some t'" "olist hash t' (AList.delete key xs)"
    using ordered_del_links [of "t\<lparr>o_data := ?d\<rparr>" xs "is" hash key] seg f olist_ring [OF t ne] xs by auto
  then show ?thesis using 1(1,2,4) slot_fields [OF 1(3)] by (simp add: ordered_pop_def)
qed

lemma ordered_clear_ok:
  assumes t: "olist hash t xs"
  shows "olist hash (ordered_clear t) []"
proof (cases "o_data t = []")
  case True
  then show ?thesis using maps_default [of hash]
    by (simp add: ordered_clear_def olist_def ofits_def default_table_def)
next
  case False
  have "ofits hash (map (\<lambda>s. s\<lparr>hcode := 0, kv_key := None, kv_val := None\<rparr>) (o_data t)) (-1) (-1) []"
    by (rule ofits_empty) (use olist_ring [OF t False] in auto)
  then show ?thesis by (simp add: ordered_clear_def olist_def)
qed

lemma default_ordered_ok: "olist hash default_ordered []"
  using maps_default [of hash] by (simp add: default_ordered_def olist_def ofits_def default_table_def)

section \<open>Iteration and comparison\<close>

lemma oPairsLoop_ok:
  assumes "lseg d h is (-1)" "same_pairs hash d is xs"
  shows "oPairsLoop d h out = Some (out @ map (\<lambda>(k, v). (Some k, Some v)) xs)"
  using assms
proof (induction xs arbitrary: h "is" out)
  case Nil
  then have "is = []" by (simp add: same_pairs_def)
  then show ?case using Nil by (subst oPairsLoop.simps) simp
next
  case (Cons x xs)
  obtain k v where x: "x = (k, v)" by fastforce
  obtain i js where "is": "is = i # js" "plain_slot (d ! i) = slot_of hash k v" "same_pairs hash d js xs"
    using Cons.prems(2) x by (auto simp: same_pairs_def list_all2_Cons2)
  then show ?case
    using Cons.IH [of "kv_next (d ! i)" js] Cons.prems(1) slot_fields [OF "is"(2)] x
    by (subst oPairsLoop.simps) (simp add: isFilled_def Let_def)
qed

lemma olist_links:
  assumes "olist hash t xs" "xs \<noteq> []"
  obtains "is" where "links hash (o_data t) (o_first t) (o_last t) xs is" "distinct is" "length is = length xs"
  using ofits_links [of hash "o_data t" "o_first t" "o_last t" xs] assms olist_data [OF assms] by (auto simp: olist_def)

lemma ordered_pairs_ok:
  assumes "olist hash t xs"
  shows "ordered_pairs t = Some (map (\<lambda>(k, v). (Some k, Some v)) xs)"
proof (cases "xs = []")
  case True
  then show ?thesis using assms by (simp add: ordered_pairs_def olist_def)
next
  case False
  then obtain "is" where "links hash (o_data t) (o_first t) (o_last t) xs is" by (rule olist_links [OF assms])
  then show ?thesis using oPairsLoop_ok [of "o_data t" "o_first t" "is" hash xs "[]"] False assms
    by (simp add: ordered_pairs_def links_same olist_def)
qed

lemma oEqualsLoop_ok:
  assumes "lseg sd hs is (-1)" "same_pairs hash sd is xs" "lseg td ht js (-1)" "same_pairs hash' td js ys" "length xs = length ys"
  shows "oEqualsLoop sd td hs ht = Some (xs = ys)"
  using assms
proof (induction xs ys arbitrary: hs ht "is" js rule: list_induct2')
  case 1
  then have "is = []" "js = []" by (auto simp: same_pairs_def)
  then show ?case using 1 by (subst oEqualsLoop.simps) simp
next
  case (4 x xs y ys)
  obtain k v k' v' where xy: "x = (k, v)" "y = (k', v')" by fastforce
  obtain i "is'" where i: "is = i # is'" "plain_slot (sd ! i) = slot_of hash k v" "same_pairs hash sd is' xs"
    using "4.prems"(2) xy by (auto simp: same_pairs_def list_all2_Cons2)
  obtain j "js'" where j: "js = j # js'" "plain_slot (td ! j) = slot_of hash' k' v'" "same_pairs hash' td js' ys"
    using "4.prems"(4) xy by (auto simp: same_pairs_def list_all2_Cons2)
  show ?case
    using "4.IH" [of "kv_next (sd ! i)" is' "kv_next (td ! j)" js'] "4.prems" i j slot_fields [OF i(2)] slot_fields [OF j(2)] xy
    by (subst oEqualsLoop.simps) (auto simp: isFilled_def)
qed auto

lemma ordered_equals_ok:
  assumes s: "olist hash s xs" and t: "olist hash' t ys"
  shows "ordered_equals s t = Some (xs = ys)"
proof (cases "length xs = length ys \<and> xs \<noteq> []")
  case False
  then show ?thesis using s t by (auto simp: ordered_equals_def olist_def)
next
  case True
  then have "ys \<noteq> []" by auto
  obtain "is" js where "links hash (o_data s) (o_first s) (o_last s) xs is" "links hash' (o_data t) (o_first t) (o_last t) ys js"
    using olist_links [OF s] olist_links [OF t \<open>ys \<noteq> []\<close>] True by metis
  then show ?thesis
    using oEqualsLoop_ok [of "o_data s" "o_first s" "is" hash xs "o_data t" "o_first t" js hash' ys] True s t
    by (auto simp: ordered_equals_def links_same olist_def)
qed

section \<open>Sorting a table\<close>

lemma map_of_permuted:
  assumes "mset ys = mset xs" "distinct (map fst xs)"
  shows "map_of ys = map_of xs" "distinct (map fst ys)"
proof -
  have "mset (map fst ys) = mset (map fst xs)" using assms(1) by simp
  then show d: "distinct (map fst ys)" using assms(2) by (metis mset_eq_imp_distinct_iff)
  have "set ys = set xs" using assms(1) by (rule mset_eq_setD)
  then show "map_of ys = map_of xs" using d assms(2) by (simp add: map_of_inject_set)
qed

lemma ordered_sort_ok:
  assumes t: "olist hash t xs" and cmp: "comparable cmp order (set xs)"
  shows "\<exists>t'. ordered_sort cmp order t = Some t' \<and> olist hash t' (isort (cmp_le cmp order) xs)"
proof (cases "xs = []")
  case True
  then show ?thesis using t by (simp add: ordered_sort_def olist_def)
next
  case False
  let ?d = "o_data t" and ?le = "cmp_le cmp order"
  have f: "o_counter t = int (length xs)" "distinct (map fst xs)" "maps hash (plain t) (map_of xs)"
    using t olist_maps [OF t] by (auto simp: olist_def ofits_def)
  obtain "is" where l: "links hash ?d (o_first t) (o_last t) xs is" "distinct is" "length is = length xs"
    using olist_links [OF t False] by blast
  define pr where "pr = (\<lambda>i. the (slot_pair (?d ! i)))"
  have nth: "slot_pair (?d ! (is ! n)) = Some (xs ! n)" if "n < length xs" for n
    using slot_fields [OF links_nth(3) [OF l(1) that]] by (simp add: slot_pair_def)
  have prs: "map pr is = xs" by (rule nth_equalityI) (simp_all add: l(3) pr_def nth)
  have pair: "slot_pair (?d ! i) = Some (pr i)" if "i \<in> set is" for i
    using that nth l(3) by (auto simp: in_set_conv_nth pr_def)
  have img: "pr i \<in> set xs" if "i \<in> set is" for i using that by (simp flip: prs)
  have pre: "preorder_on (set is) (\<lambda>i j. ?le (pr i) (pr j))"
    using cmp img unfolding comparable_def preorder_on_def by meson
  have "cmp_decides cmp order ?d (set is) (\<lambda>i j. ?le (pr i) (pr j))"
    unfolding cmp_decides_def
  proof (intro ballI)
    fix i j assume ij: "i \<in> set is" "j \<in> set is"
    then obtain c where "order_mult (cmp (pr i) (pr j)) order = Some c" using cmp img unfolding comparable_def by blast
    then show "\<exists>x y c. slot_pair (?d ! i) = Some x \<and> slot_pair (?d ! j) = Some y \<and> order_mult (cmp x y) order = Some c \<and>
        (c \<le> 0 \<longleftrightarrow> ?le (pr i) (pr j))"
      using pair [OF ij(1)] pair [OF ij(2)] order_mult_ok [of cmp "pr i" "pr j" order c] by auto
  qed
  moreover have "lseg ?d (o_first t) (sort_blocks (\<lambda>i j. ?le (pr i) (pr j)) 1 is) (-1)"
    using l(1) by (simp add: links_def sort_blocks_1)
  moreover have "is \<noteq> []" using l(3) False by auto
  ultimately obtain d' lst tail where s: "sortLoop cmp order 1 ?d (o_first t) = Some (d', lst, tail)"
      "lseg d' lst (isort (\<lambda>i j. ?le (pr i) (pr j)) is) (-1)" "tail = int (last (isort (\<lambda>i j. ?le (pr i) (pr j)) is))"
      "map plain_slot d' = map plain_slot ?d"
    using sortLoop_ok [of ?d "o_first t" "\<lambda>i j. ?le (pr i) (pr j)" 1 "is" cmp order] l(2) pre by auto
  let ?js = "isort (\<lambda>i j. ?le (pr i) (pr j)) is"
  have js: "map pr ?js = isort ?le xs" unfolding map_isort prs ..
  have "plain_slot (d' ! i) = (case pr i of (k, v) \<Rightarrow> slot_of hash k v)" if "i \<in> set is" for i
  proof -
    obtain n where n: "n < length xs" "is ! n = i" using \<open>i \<in> set is\<close> l(3) by (auto simp: in_set_conv_nth)
    have i: "i < length ?d" using links_nth(2) [OF l(1) n(1)] n(2) by simp
    have "length d' = length ?d" using s(4) by (metis length_map)
    then have "plain_slot (d' ! i) = plain_slot (?d ! i)" using s(4) i by (metis nth_map)
    then show ?thesis using links_nth(3) [OF l(1) n(1)] nth [OF n(1)] n(2) by (simp add: pr_def case_prod_beta)
  qed
  then have "map (\<lambda>i. plain_slot (d' ! i)) ?js = map (\<lambda>(k, v). slot_of hash k v) (isort ?le xs)"
    by (simp flip: js)
  moreover have "?js \<noteq> []" using \<open>is \<noteq> []\<close> by (metis length_isort length_0_conv)
  ultimately have "links hash d' lst tail (isort ?le xs) ?js" using s(2,3) by (simp add: links_def)
  then have "ofits hash d' lst tail (isort ?le xs)"
    using f map_of_permuted [of "isort ?le xs" xs] by (auto simp: ofits_def s(4) plain_def)
  then show ?thesis using s(1) f(1) False by (simp add: ordered_sort_def olist_def)
qed

section \<open>Programs\<close>

datatype ('k, 'v) ord_op =
  OInit nat | OPut 'k 'v | OGet 'k | OHasKey 'k | OGetOrDefault 'k 'v | OMgetOrPut 'k 'v | OHasKeyOrPut 'k 'v
| ODel 'k | OPop 'k | OLen | OClear | OPairs | OSort "('k, 'v) cmp_fun" SortOrder

datatype ('k, 'v) ord_out =
  ODone | OGot "'k table_error + 'v" | OIs bool | OValue 'v | OPopped "'v option" | OLength int
| OList "('k option \<times> 'v option) list"

type_synonym ('k, 'v) ord_run = "('k, 'v) ord_out list \<times> ('k, 'v) OrderedTable"

fun run_ord :: "('k \<Rightarrow> 64 word) \<Rightarrow> ('k, 'v) ord_op \<Rightarrow> ('k, 'v) ord_run \<Rightarrow> ('k, 'v) ord_run option" where
  "run_ord hash (OInit n) (out, t) = Some (out @ [ODone], oInitImpl n)"
| "run_ord hash (OPut k v) (out, t) = do { t \<leftarrow> ordered_put hash k v t; Some (out @ [ODone], t) }"
| "run_ord hash (OGet k) (out, t) = do { r \<leftarrow> ordered_get hash k t; Some (out @ [OGot r], t) }"
| "run_ord hash (OHasKey k) (out, t) = do { b \<leftarrow> ordered_hasKey hash k t; Some (out @ [OIs b], t) }"
| "run_ord hash (OGetOrDefault k v) (out, t) = do { w \<leftarrow> ordered_getOrDefault hash k v t; Some (out @ [OValue w], t) }"
| "run_ord hash (OMgetOrPut k v) (out, t) = do { (w, t) \<leftarrow> ordered_mgetOrPut hash k v t; Some (out @ [OValue w], t) }"
| "run_ord hash (OHasKeyOrPut k v) (out, t) = do { (b, t) \<leftarrow> ordered_hasKeyOrPut hash k v t; Some (out @ [OIs b], t) }"
| "run_ord hash (ODel k) (out, t) = do { t \<leftarrow> ordered_del hash k t; Some (out @ [ODone], t) }"
| "run_ord hash (OPop k) (out, t) = do { (v, t) \<leftarrow> ordered_pop hash k t; Some (out @ [OPopped v], t) }"
| "run_ord hash OLen (out, t) = Some (out @ [OLength (o_counter t)], t)"
| "run_ord hash OClear (out, t) = Some (out @ [ODone], ordered_clear t)"
| "run_ord hash OPairs (out, t) = do { ps \<leftarrow> ordered_pairs t; Some (out @ [OList ps], t) }"
| "run_ord hash (OSort cmp order) (out, t) = do { t \<leftarrow> ordered_sort cmp order t; Some (out @ [ODone], t) }"

type_synonym ('k, 'v) list_run = "('k, 'v) ord_out list \<times> ('k \<times> 'v) list"

text \<open>The same on a list of pairs: a new key goes to the end, a known one keeps its place.\<close>

fun run_list :: "('k, 'v) ord_op \<Rightarrow> ('k, 'v) list_run \<Rightarrow> ('k, 'v) list_run option" where
  "run_list (OInit n) (out, xs) = (if n \<le> 2 ^ 60 then Some (out @ [ODone], []) else None)"
| "run_list (OPut k v) (out, xs) = Some (out @ [ODone], AList.update k v xs)"
| "run_list (OGet k) (out, xs) =
     Some (out @ [OGot (case map_of xs k of Some v \<Rightarrow> Inr v | None \<Rightarrow> Inl (KeyError k))], xs)"
| "run_list (OHasKey k) (out, xs) = Some (out @ [OIs (map_of xs k \<noteq> None)], xs)"
| "run_list (OGetOrDefault k v) (out, xs) = Some (out @ [OValue (case map_of xs k of Some w \<Rightarrow> w | None \<Rightarrow> v)], xs)"
| "run_list (OMgetOrPut k v) (out, xs) =
     (case map_of xs k of Some w \<Rightarrow> Some (out @ [OValue w], xs) | None \<Rightarrow> Some (out @ [OValue v], xs @ [(k, v)]))"
| "run_list (OHasKeyOrPut k v) (out, xs) =
     (case map_of xs k of Some w \<Rightarrow> Some (out @ [OIs True], xs) | None \<Rightarrow> Some (out @ [OIs False], xs @ [(k, v)]))"
| "run_list (ODel k) (out, xs) = Some (out @ [ODone], AList.delete k xs)"
| "run_list (OPop k) (out, xs) = Some (out @ [OPopped (map_of xs k)], AList.delete k xs)"
| "run_list OLen (out, xs) = Some (out @ [OLength (int (length xs))], xs)"
| "run_list OClear (out, xs) = Some (out @ [ODone], [])"
| "run_list OPairs (out, xs) = Some (out @ [OList (map (\<lambda>(k, v). (Some k, Some v)) xs)], xs)"
| "run_list (OSort cmp order) (out, xs) =
     (if comparable cmp order (set xs) then Some (out @ [ODone], isort (cmp_le cmp order) xs) else None)"

definition ord_agrees :: "('k \<Rightarrow> 64 word) \<Rightarrow> ('k, 'v) ord_run \<Rightarrow> ('k, 'v) list_run \<Rightarrow> bool" where
  "ord_agrees hash r s \<longleftrightarrow> fst r = fst s \<and> olist hash (snd r) (snd s)"

lemma run_ord_ok:
  assumes "ord_agrees hash r s" "run_list p s = Some s'"
  shows "\<exists>r'. run_ord hash p r = Some r' \<and> ord_agrees hash r' s'"
proof -
  obtain out t xs where rs: "r = (out, t)" "s = (out, xs)" and t: "olist hash t xs"
    using assms(1) by (cases r; cases s) (auto simp: ord_agrees_def)
  show ?thesis
  proof (cases p)
    case (OInit n)
    then show ?thesis using assms(2) oInitImpl_ok by (auto simp: rs ord_agrees_def split: if_splits)
  next
    case (OPut k v)
    then show ?thesis using assms(2) ordered_put_ok [OF t, of k v] by (auto simp: rs ord_agrees_def)
  next
    case (OMgetOrPut k v)
    then show ?thesis using assms(2) ordered_mgetOrPut_ok [OF t, of k v] by (auto simp: rs ord_agrees_def split: option.splits)
  next
    case (OHasKeyOrPut k v)
    then show ?thesis using assms(2) ordered_hasKeyOrPut_ok [OF t, of k v] by (auto simp: rs ord_agrees_def split: option.splits)
  next
    case (ODel k)
    then show ?thesis using assms(2) ordered_del_ok [OF t, of k] by (auto simp: rs ord_agrees_def)
  next
    case (OPop k)
    then show ?thesis using assms(2) ordered_pop_ok [OF t, of k] by (auto simp: rs ord_agrees_def)
  next
    case OLen
    then show ?thesis using assms(2) t by (auto simp: rs ord_agrees_def olist_def)
  next
    case OClear
    then show ?thesis using assms(2) ordered_clear_ok [OF t] by (auto simp: rs ord_agrees_def)
  next
    case OPairs
    then show ?thesis using assms(2) t ordered_pairs_ok [OF t] by (auto simp: rs ord_agrees_def)
  next
    case (OSort cmp order)
    then show ?thesis using assms(2) ordered_sort_ok [OF t, of cmp order] by (auto simp: rs ord_agrees_def split: if_splits)
  qed (use assms(2) t ordered_lookup_ok [OF t] in \<open>auto simp: rs ord_agrees_def\<close>)
qed

interpretation om: value_machine "run_ord hash" run_list "ord_agrees hash" for hash
  by unfold_locales (rule run_ord_ok)

section \<open>Properties\<close>

text \<open>C11. An ordered table is a list of pairs.  Every sequence of operations on an ordered table, whatever the
  hash function, ends, stays inside the table and returns what the same operations on a list return: a new
  key goes to the end, a known key keeps its place, deletion keeps the order of the rest, growing keeps the
  whole order, sorting sorts the list, and iteration visits the list from front to back.\<close>

theorem ordered_tables_are_lists:
  assumes "each run_list ops ([], []) = Some (out, xs)"
  shows "\<exists>t. each (run_ord hash) ops ([], default_ordered) = Some (out, t) \<and> olist hash t xs"
  using om.programs_ok [OF _ assms, of hash "([], default_ordered)"] default_ordered_ok
  by (auto simp: ord_agrees_def)

theorem ordered_tables_are_lists_witness:
  "\<exists>t. each (run_ord (\<lambda>_. 0)) [OPut CHR ''b'' 1, OPut CHR ''a'' 3, OPut CHR ''c'' 2, OPut CHR ''b'' 4, ODel CHR ''a'', OPairs,
       OSort (\<lambda>x y. snd x - snd y) Ascending, OPairs] ([], default_ordered) =
     Some ([ODone, ODone, ODone, ODone, ODone, OList [(Some CHR ''b'', Some 4), (Some CHR ''c'', Some 2)], ODone,
       OList [(Some CHR ''c'', Some 2), (Some CHR ''b'', Some 4)]], t) \<and>
     olist (\<lambda>_. 0) t [(CHR ''c'', 2 :: int), (CHR ''b'', 4)]"
  by (rule ordered_tables_are_lists)
    (simp add: comparable_def preorder_on_def cmp_le_def order_mult_def order_ord_def Let_def)

text \<open>C12. \<open>sort\<close> on an ordered table, a merge sort that only changes links, ends for every comparison that
  orders the pairs, and leaves a table with the same pairs, in order, where pairs that compare equal keep
  the order they had; every key is still found.\<close>

theorem ordered_sort_is_stable:
  assumes "olist hash t xs" "comparable cmp order (set xs)"
  shows "\<exists>t' ys. ordered_sort cmp order t = Some t' \<and> ordered_pairs t' = Some (map (\<lambda>(k, v). (Some k, Some v)) ys) \<and>
    mset ys = mset xs \<and> sorted_wrt (cmp_le cmp order) ys \<and>
    (\<forall>z \<in> set xs. filter (equiv_by (cmp_le cmp order) z) ys = filter (equiv_by (cmp_le cmp order) z) xs) \<and>
    maps hash (plain t') (map_of xs)"
proof -
  have pre: "preorder_on (set xs) (cmp_le cmp order)" using assms(2) by (simp add: comparable_def)
  have d: "distinct (map fst xs)" using assms(1) by (simp add: olist_def ofits_def)
  obtain t' where t': "ordered_sort cmp order t = Some t'" "olist hash t' (isort (cmp_le cmp order) xs)"
    using ordered_sort_ok [OF assms] by blast
  have "\<forall>z \<in> set xs. filter (equiv_by (cmp_le cmp order) z) (isort (cmp_le cmp order) xs) = filter (equiv_by (cmp_le cmp order) z) xs"
    using filter_isort [OF pre] by auto
  then show ?thesis
    using t' ordered_pairs_ok [OF t'(2)] sorted_isort [OF pre order_refl] olist_maps [OF t'(2)] map_of_permuted [OF _ d]
    by (metis mset_isort)
qed

theorem ordered_sort_is_stable_witness:
  "\<exists>t t' ys. toOrderedTable (\<lambda>_. 9) [(3 :: nat, True), (1, False), (2, True)] = Some t \<and>
     ordered_sort (\<lambda>x y. int (fst x) - int (fst y)) Descending t = Some t' \<and>
     mset ys = {#(3, True), (1, False), (2, True)#} \<and>
     sorted_wrt (cmp_le (\<lambda>x y. int (fst x) - int (fst y)) Descending) ys"
proof -
  have "olist (\<lambda>_. 9) (oInitImpl 3 :: (nat, bool) OrderedTable) []" by (rule oInitImpl_ok) simp
  then obtain t where t: "toOrderedTable (\<lambda>_. 9) [(3 :: nat, True), (1, False), (2, True)] = Some t"
      "olist (\<lambda>_. 9) t [(3, True), (1, False), (2, True)]"
    using ordered_put_ok [of "\<lambda>_. 9" "oInitImpl 3 :: (nat, bool) OrderedTable" "[]" 3 True]
      ordered_put_ok [of "\<lambda>_. 9" _ "[(3 :: nat, True)]" 1 False]
      ordered_put_ok [of "\<lambda>_. 9" _ "[(3 :: nat, True), (1, False)]" 2 True]
    by (fastforce simp: toOrderedTable_def numeral_3_eq_3)
  have "comparable (\<lambda>x y. int (fst x) - int (fst y)) Descending (set [(3 :: nat, True), (1, False), (2, True)])"
    by (simp add: comparable_def preorder_on_def cmp_le_def order_mult_def order_ord_def Let_def)
  from ordered_sort_is_stable [OF t(2) this] t(1) show ?thesis by auto
qed

end
