(* ===== verification/Nim_Orc.thy ===== *)
theory Nim_Orc
  imports Nim_Prelude "HOL-Library.Multiset" "HOL-Library.Word"
begin

text \<open>
  The cycle collector of \<open>--mm:orc\<close> (\<open>lib/system/orc.nim\<close>, with the header of \<open>arc.nim\<close>): trial deletion
  after Bacon and Rajan with an explicit trace stack.  A cell has the reference count with its colour in
  the low bits, its index among the candidates (\<open>roots\<close>), and the fields its trace procedure visits.
  Addresses are numbers, and None is an access to a cell that is not allocated or to a nil field.  The
  lemmas describe every traversal by the set of cells it recolours and the multiset of edges it follows,
  and the properties say which cells a collection frees and what it leaves.
\<close>

unbundle bit_operations_syntax

section \<open>Cells\<close>

record RefHeader =
  c_rc :: int
  c_rootIdx :: nat
  c_refs :: "nat option list"

type_synonym cells = "nat \<Rightarrow> RefHeader option"

definition rcIncrement :: int where
  "rcIncrement = 16"

definition rcMask :: int where
  "rcMask = 15"

definition rcShift :: nat where
  "rcShift = 4"

definition colBlack :: int where
  "colBlack = 0"

definition colGray :: int where
  "colGray = 1"

definition colWhite :: int where
  "colWhite = 2"

definition colorMask :: int where
  "colorMask = 3"

definition color :: "RefHeader \<Rightarrow> int" where
  "color c = c_rc c AND colorMask"

definition setColor :: "int \<Rightarrow> RefHeader \<Rightarrow> RefHeader" where
  "setColor col c =
     (if col = colBlack then c\<lparr>c_rc := c_rc c AND NOT colorMask\<rparr>
      else c\<lparr>c_rc := (c_rc c AND NOT colorMask) OR col\<rparr>)"

text \<open>\<open>rc shr rcShift\<close>; the count is the number of references minus one.\<close>

definition rc_count :: "RefHeader \<Rightarrow> int" where
  "rc_count c = drop_bit rcShift (c_rc c)"

definition increment :: "RefHeader \<Rightarrow> RefHeader" where
  "increment c = c\<lparr>c_rc := c_rc c + rcIncrement\<rparr>"

definition decrement :: "RefHeader \<Rightarrow> RefHeader" where
  "decrement c = c\<lparr>c_rc := c_rc c - rcIncrement\<rparr>"

record GcEnv =
  toFree :: "nat list"
  freed :: int
  touched :: int
  edges :: int
  rcSum :: int
  keepThreshold :: bool

definition new_env :: GcEnv where
  "new_env = \<lparr>toFree = [], freed = 0, touched = 0, edges = 0, rcSum = 0, keepThreshold = False\<rparr>"

text \<open>An entry of the trace stack is the address of a field: a cell and the field's position.  \<open>trace\<close>
  pushes the fields that are not nil.  The head of the list is the top of the stack.\<close>

type_synonym entry = "nat \<times> nat"

definition trace :: "nat \<Rightarrow> RefHeader \<Rightarrow> entry list \<Rightarrow> entry list" where
  "trace s c stack = rev (map (Pair s) (filter (\<lambda>i. c_refs c ! i \<noteq> None) [0..<length (c_refs c)])) @ stack"

definition load :: "cells \<Rightarrow> entry \<Rightarrow> nat option" where
  "load h e = do { c \<leftarrow> h (fst e); p \<leftarrow> mem_get (snd e) (c_refs c); p }"

definition store_nil :: "entry \<Rightarrow> cells \<Rightarrow> cells option" where
  "store_nil e h = do { c \<leftarrow> h (fst e); fs \<leftarrow> mem_set (snd e) None (c_refs c); Some (h(fst e \<mapsto> c\<lparr>c_refs := fs\<rparr>)) }"

definition defaultThreshold :: int where
  "defaultThreshold = 128"

definition high_int :: int where
  "high_int = 2 ^ 63 - 1"

section \<open>Traversals\<close>

partial_function (option) blackLoop :: "cells \<Rightarrow> entry list \<Rightarrow> cells option" where
  "blackLoop h stack =
     (case stack of
        [] \<Rightarrow> Some h
      | e # stack \<Rightarrow> do {
          t \<leftarrow> load h e;
          c \<leftarrow> h t;
          let c = increment c;
          if color c \<noteq> colBlack then
            (let c = setColor colBlack c in blackLoop (h(t \<mapsto> c)) (trace t c stack))
          else blackLoop (h(t \<mapsto> c)) stack
        })"

text \<open>\<open>scanBlack\<close> works on the part of the trace stack above the entries that were there before.\<close>

definition scanBlack :: "nat \<Rightarrow> cells \<Rightarrow> cells option" where
  "scanBlack s h = do {
     c \<leftarrow> h s;
     let c = setColor colBlack c;
     blackLoop (h(s \<mapsto> c)) (trace s c [])
   }"

partial_function (option) grayLoop :: "cells \<Rightarrow> GcEnv \<Rightarrow> entry list \<Rightarrow> (cells \<times> GcEnv) option" where
  "grayLoop h j stack =
     (case stack of
        [] \<Rightarrow> Some (h, j)
      | e # stack \<Rightarrow> do {
          t \<leftarrow> load h e;
          c \<leftarrow> h t;
          let c = decrement c;
          let j = j\<lparr>edges := edges j + 1\<rparr>;
          if color c \<noteq> colGray then
            (let c = setColor colGray c;
                 j = j\<lparr>touched := touched j + 1, rcSum := rcSum j + rc_count c + 2\<rparr>
             in grayLoop (h(t \<mapsto> c)) j (trace t c stack))
          else grayLoop (h(t \<mapsto> c)) j stack
        })"

definition markGray :: "nat \<Rightarrow> cells \<times> GcEnv \<Rightarrow> (cells \<times> GcEnv) option" where
  "markGray s hj = (case hj of (h, j) \<Rightarrow> do {
     c \<leftarrow> h s;
     if color c \<noteq> colGray then
       (let c = setColor colGray c;
            j = j\<lparr>touched := touched j + 1, rcSum := rcSum j + rc_count c + 1\<rparr>
        in grayLoop (h(s \<mapsto> c)) j (trace s c []))
     else Some (h, j)
   })"

partial_function (option) whiteLoop :: "cells \<Rightarrow> entry list \<Rightarrow> cells option" where
  "whiteLoop h stack =
     (case stack of
        [] \<Rightarrow> Some h
      | e # stack \<Rightarrow> do {
          t \<leftarrow> load h e;
          c \<leftarrow> h t;
          if color c = colGray then
            (if rc_count c \<ge> 0 then do { h \<leftarrow> scanBlack t h; whiteLoop h stack }
             else (let c = setColor colWhite c in whiteLoop (h(t \<mapsto> c)) (trace t c stack)))
          else whiteLoop h stack
        })"

definition scan :: "nat \<Rightarrow> cells \<Rightarrow> cells option" where
  "scan s h = do {
     c \<leftarrow> h s;
     if color c = colGray then
       (if rc_count c \<ge> 0 then scanBlack s h
        else (let c = setColor colWhite c in whiteLoop (h(s \<mapsto> c)) (trace s c [])))
     else Some h
   }"

partial_function (option) collectLoop ::
    "int \<Rightarrow> entry list \<Rightarrow> cells \<Rightarrow> nat list \<Rightarrow> (cells \<times> nat list) option" where
  "collectLoop col stack h free =
     (case stack of
        [] \<Rightarrow> Some (h, free)
      | e # stack \<Rightarrow> do {
          t \<leftarrow> load h e;
          h \<leftarrow> store_nil e h;
          c \<leftarrow> h t;
          if color c = col \<and> c_rootIdx c = 0 then
            (let free = free @ [t]; c = setColor colBlack c
             in collectLoop col (trace t c stack) (h(t \<mapsto> c)) free)
          else collectLoop col stack h free
        })"

definition collectColor :: "int \<Rightarrow> nat \<Rightarrow> cells \<times> nat list \<Rightarrow> (cells \<times> nat list) option" where
  "collectColor col s hf = (case hf of (h, free) \<Rightarrow> do {
     c \<leftarrow> h s;
     if color c = col \<and> c_rootIdx c = 0 then
       (let c = setColor colBlack c; free = free @ [s]
        in collectLoop col (trace s c []) (h(s \<mapsto> c)) free)
     else Some (h, free)
   })"

section \<open>Collections\<close>

text \<open>The candidates and the threshold of a thread.\<close>

record orc =
  o_cells :: cells
  o_roots :: "nat list"
  o_threshold :: int

definition collectRoot :: "int \<Rightarrow> nat \<Rightarrow> cells \<times> nat list \<Rightarrow> (cells \<times> nat list) option" where
  "collectRoot col s hf = (case hf of (h, free) \<Rightarrow> do {
     c \<leftarrow> h s;
     collectColor col s (h(s \<mapsto> c\<lparr>c_rootIdx := 0\<rparr>), free)
   })"

text \<open>\<open>free\<close> calls the destructor, which would release every field that is not nil; that nothing is left to
  release when the collector frees a cell is part of what is shown.\<close>

definition free_cell :: "nat \<Rightarrow> cells \<Rightarrow> cells option" where
  "free_cell s h = do { c \<leftarrow> h s; if list_all (\<lambda>p. p = None) (c_refs c) then Some (h(s := None)) else None }"

definition collectCyclesBacon :: "GcEnv \<Rightarrow> nat \<Rightarrow> orc \<Rightarrow> (GcEnv \<times> orc) option" where
  "collectCyclesBacon j lowMark w = do {
     let marked = rev (drop lowMark (o_roots w));
     (h, j) \<leftarrow> each markGray marked (o_cells w, j);
     (h, j, colToCollect) \<leftarrow>
       (if rcSum j = edges j then Some (h, j\<lparr>keepThreshold := True\<rparr>, colGray)
        else do { h \<leftarrow> each scan marked h; Some (h, j, colWhite) });
     (h, free) \<leftarrow> each (collectRoot colToCollect) (o_roots w) (h, []);
     let j = j\<lparr>toFree := free\<rparr>;
     h \<leftarrow> each free_cell free h;
     Some (j\<lparr>freed := freed j + int (length free)\<rparr>, w\<lparr>o_cells := h, o_roots := []\<rparr>)
   }"

definition collectCycles :: "orc \<Rightarrow> orc option" where
  "collectCycles w = do {
     (j, w) \<leftarrow> collectCyclesBacon new_env 0 w;
     let t = o_threshold w;
     Some (if keepThreshold j then w
           else if freed j * 2 \<ge> touched j then w\<lparr>o_threshold := max (t div 3 * 2) 16\<rparr>
           else if t < high_int div 4 then
             (let t = (if t \<le> 0 then defaultThreshold else t) in w\<lparr>o_threshold := t div 2 + t\<rparr>)
           else w)
   }"

text \<open>\<open>roots.len = lowMark\<close> makes the first entries of the array visible again; beyond the entries that were
  there it would make visible what was never written.\<close>

definition partialCollect :: "nat \<Rightarrow> orc \<Rightarrow> orc option" where
  "partialCollect lowMark w = do {
     (j, w') \<leftarrow> collectCyclesBacon new_env lowMark w;
     if lowMark \<le> length (o_roots w) then Some (w'\<lparr>o_roots := take lowMark (o_roots w)\<rparr>) else None
   }"

section \<open>Counts and colours\<close>

lemmas colour_defs = colBlack_def colGray_def colWhite_def

lemma rc_count_simps [simp]:
  "rc_count (increment c) = rc_count c + 1" "rc_count (decrement c) = rc_count c - 1"
  "rc_count (c\<lparr>c_rootIdx := r\<rparr>) = rc_count c" "rc_count (c\<lparr>c_refs := fs\<rparr>) = rc_count c"
  by (simp_all add: rc_count_def increment_def decrement_def rcIncrement_def rcShift_def drop_bit_eq_div)

lemma mask_count:
  fixes x q :: int
  assumes "0 \<le> q" "q < 4"
  shows "drop_bit 4 (x AND - 4) = drop_bit 4 x" "drop_bit 4 ((x AND - 4) OR q) = drop_bit 4 x"
    and "(x AND - 4) AND 3 = 0" "((x AND - 4) OR q) AND 3 = q"
proof -
  have q: "q = 0 \<or> q = 1 \<or> q = 2 \<or> q = 3" using assms by auto
  have "drop_bit 4 (- 4 :: int) = - 1" by (simp add: drop_bit_eq_div)
  then show c: "drop_bit 4 (x AND - 4) = drop_bit 4 x" by (simp add: drop_bit_and)
  have "drop_bit 4 q = 0" using q by (auto simp: drop_bit_eq_div)
  then show "drop_bit 4 ((x AND - 4) OR q) = drop_bit 4 x" using c by (simp add: drop_bit_or)
  have "(- 4 :: int) AND 3 = 0" by simp
  then show z: "(x AND - 4) AND 3 = 0" by (simp add: and.assoc)
  have "q AND 3 = q" using q by auto
  then show "((x AND - 4) OR q) AND 3 = q" using z by (simp add: bit.conj_disj_distrib2)
qed

lemma setColor_count [simp]: "q \<in> {0, 1, 2} \<Longrightarrow> rc_count (setColor q c) = rc_count c"
  using mask_count [of q "c_rc c"]
  by (auto simp: rc_count_def setColor_def colorMask_def colour_defs rcShift_def)

lemma color_setColor [simp]: "q \<in> {0, 1, 2} \<Longrightarrow> color (setColor q c) = q"
  using mask_count [of q "c_rc c"] by (auto simp: color_def setColor_def colorMask_def colour_defs)

lemma color_simps [simp]:
  "color (increment c) = color c" "color (decrement c) = color c"
  "color (c\<lparr>c_rootIdx := r\<rparr>) = color c" "color (c\<lparr>c_refs := fs\<rparr>) = color c"
proof -
  have m: "x AND 3 = x mod 4" for x :: int using take_bit_eq_mask [of 2 x] by (simp add: take_bit_eq_mod mask_eq_exp_minus_1)
  show "color (increment c) = color c" "color (decrement c) = color c"
    unfolding color_def colorMask_def m increment_def decrement_def rcIncrement_def by (simp_all, presburger+)
qed (simp_all add: color_def)

lemma fields_simps [simp]:
  "c_refs (increment c) = c_refs c" "c_refs (decrement c) = c_refs c" "c_refs (setColor q c) = c_refs c"
  "c_rootIdx (increment c) = c_rootIdx c" "c_rootIdx (decrement c) = c_rootIdx c" "c_rootIdx (setColor q c) = c_rootIdx c"
  by (simp_all add: increment_def decrement_def setColor_def)

section \<open>The graph of the cells\<close>

text \<open>The entries of a cell, the target of an entry, and how often entries and cells refer to a cell.\<close>

definition ents :: "cells \<Rightarrow> nat \<Rightarrow> entry list" where
  "ents g s = trace s (the (g s)) []"

definition tgt :: "cells \<Rightarrow> entry \<Rightarrow> nat" where
  "tgt g e = the (c_refs (the (g (fst e))) ! snd e)"

definition hits :: "cells \<Rightarrow> entry list \<Rightarrow> nat \<Rightarrow> int" where
  "hits g es t = (\<Sum>e\<leftarrow>es. of_bool (tgt g e = t))"

definition ind :: "cells \<Rightarrow> nat set \<Rightarrow> nat \<Rightarrow> int" where
  "ind g S t = (\<Sum>s\<in>S. hits g (ents g s) t)"

text \<open>The cells \<open>D\<close> are allocated and refer to each other only.\<close>

definition closed_heap :: "nat set \<Rightarrow> cells \<Rightarrow> bool" where
  "closed_heap D g \<longleftrightarrow> finite D \<and> (\<forall>s\<in>D. \<exists>c. g s = Some c \<and> (\<forall>t. Some t \<in> set (c_refs c) \<longrightarrow> t \<in> D))"

inductive_set reach :: "cells \<Rightarrow> nat set \<Rightarrow> nat set" for g S where
  start: "s \<in> S \<Longrightarrow> s \<in> reach g S"
| follow: "s \<in> reach g S \<Longrightarrow> g s = Some c \<Longrightarrow> Some t \<in> set (c_refs c) \<Longrightarrow> t \<in> reach g S"

text \<open>The traversals change counts and colours of the cells \<open>D\<close> only.\<close>

definition same :: "nat set \<Rightarrow> cells \<Rightarrow> cells \<Rightarrow> bool" where
  "same D g h \<longleftrightarrow> (\<forall>s. s \<notin> D \<longrightarrow> h s = g s) \<and>
     (\<forall>s\<in>D. \<exists>c. h s = Some c \<and> c_refs c = c_refs (the (g s)) \<and> c_rootIdx c = c_rootIdx (the (g s)))"

definition cnt :: "cells \<Rightarrow> nat \<Rightarrow> int" where
  "cnt h s = rc_count (the (h s))"

definition col :: "cells \<Rightarrow> nat \<Rightarrow> int" where
  "col h s = color (the (h s))"

lemma cnt_upd [simp]: "cnt (h(t \<mapsto> c)) s = (if s = t then rc_count c else cnt h s)"
  by (simp add: cnt_def)

lemma col_upd [simp]: "col (h(t \<mapsto> c)) s = (if s = t then color c else col h s)"
  by (simp add: col_def)

lemma trace_app: "trace s c st = trace s c [] @ st"
  by (simp add: trace_def)

lemma trace_ents: "c_refs c = c_refs (the (g s)) \<Longrightarrow> trace s c st = ents g s @ st"
  unfolding ents_def by (subst trace_app) (simp add: trace_def)

lemma ents_iff: "e \<in> set (ents g s) \<longleftrightarrow> fst e = s \<and> snd e < length (c_refs (the (g s))) \<and> c_refs (the (g s)) ! snd e \<noteq> None"
  by (cases e) (auto simp: ents_def trace_def)

lemma distinct_ents: "distinct (ents g s)"
  by (simp add: ents_def trace_def distinct_map inj_on_def)

lemma ents_fst: "e \<in> set (ents g s) \<Longrightarrow> fst e = s"
  by (simp add: ents_iff)

lemma tgt_ents: "Some t \<in> set (c_refs (the (g s))) \<longleftrightarrow> (\<exists>e\<in>set (ents g s). tgt g e = t)"
proof
  assume "Some t \<in> set (c_refs (the (g s)))"
  then obtain i where "i < length (c_refs (the (g s)))" "c_refs (the (g s)) ! i = Some t" by (auto simp: in_set_conv_nth)
  then show "\<exists>e\<in>set (ents g s). tgt g e = t" by (intro bexI [of _ "(s, i)"]) (simp_all add: ents_iff tgt_def)
next
  assume "\<exists>e\<in>set (ents g s). tgt g e = t"
  then obtain e where e: "e \<in> set (ents g s)" "tgt g e = t" by blast
  then have "snd e < length (c_refs (the (g s)))" "c_refs (the (g s)) ! snd e = Some t" by (auto simp: ents_iff tgt_def)
  then show "Some t \<in> set (c_refs (the (g s)))" by (metis nth_mem)
qed

lemma same_refl: "closed_heap D g \<Longrightarrow> same D g g"
  by (auto simp: same_def closed_heap_def)

lemma same_upd [intro]:
  "same D g h \<Longrightarrow> t \<in> D \<Longrightarrow> c_refs c = c_refs (the (g t)) \<Longrightarrow> c_rootIdx c = c_rootIdx (the (g t)) \<Longrightarrow> same D g (h(t \<mapsto> c))"
  by (auto simp: same_def)

lemma sameE:
  assumes "same D g h" "s \<in> D"
  obtains c where "h s = Some c" "c_refs c = c_refs (the (g s))" "c_rootIdx c = c_rootIdx (the (g s))"
    "cnt h s = rc_count c" "col h s = color c"
  using assms by (auto simp: same_def cnt_def col_def)

lemma load_ok: "same D g h \<Longrightarrow> fst e \<in> D \<Longrightarrow> e \<in> set (ents g (fst e)) \<Longrightarrow> load h e = Some (tgt g e)"
  by (auto simp: same_def load_def ents_iff mem_get_def tgt_def)

lemma tgt_in: "closed_heap D g \<Longrightarrow> s \<in> D \<Longrightarrow> e \<in> set (ents g s) \<Longrightarrow> tgt g e \<in> D"
  using tgt_ents [of "tgt g e" g s] by (fastforce simp: closed_heap_def)

lemma hits_simps [simp]:
  "hits g [] t = 0" "hits g (e # es) t = (if tgt g e = t then 1 else 0) + hits g es t"
  "hits g (es @ fs) t = hits g es t + hits g fs t"
  by (simp_all add: hits_def)

lemma hits_nonneg [simp]: "0 \<le> hits g es t"
  by (induction es) simp_all

lemma hits_pos: "0 < hits g es t \<longleftrightarrow> (\<exists>e\<in>set es. tgt g e = t)"
proof (induction es)
  case (Cons e es)
  then show ?case using hits_nonneg [of g es t] by (auto simp del: hits_nonneg)
qed simp

lemma ind_nonneg [simp]: "0 \<le> ind g S t"
  by (simp add: ind_def sum_nonneg)

lemma ind_pos: "0 < ind g S t \<Longrightarrow> \<exists>s\<in>S. \<exists>e\<in>set (ents g s). tgt g e = t"
  unfolding ind_def using hits_pos [of g _ t] hits_nonneg [of g _ t] sum_nonpos [of S "\<lambda>s. hits g (ents g s) t"]
  by (meson linorder_not_less)

lemma ind_edge:
  assumes "finite S" "s \<in> S" "e \<in> set (ents g s)"
  shows "0 < ind g S (tgt g e)"
  unfolding ind_def using assms hits_pos [of g "ents g s" "tgt g e"]
  by (intro sum_pos2 [of _ s]) auto

lemma ind_insert [simp]: "finite S \<Longrightarrow> t \<notin> S \<Longrightarrow> ind g (insert t S) u = hits g (ents g t) u + ind g S u"
  by (simp add: ind_def)

lemma ind_remove: "finite S \<Longrightarrow> t \<in> S \<Longrightarrow> ind g (S - {t}) u = ind g S u - hits g (ents g t) u"
  by (simp add: ind_def sum_diff1)

lemma ind_split: "finite S \<Longrightarrow> T \<subseteq> S \<Longrightarrow> ind g S u = ind g (S - T) u + ind g T u"
  by (simp add: ind_def sum.subset_diff)

lemma reach_ents: "closed_heap D g \<Longrightarrow> s \<in> D \<Longrightarrow> s \<in> reach g S \<Longrightarrow> e \<in> set (ents g s) \<Longrightarrow> tgt g e \<in> reach g S"
  using tgt_ents [of "tgt g e" g s] reach.follow [of s g S] by (fastforce simp: closed_heap_def)

lemma reach_least:
  assumes "S \<subseteq> A" "\<And>s e. s \<in> A \<Longrightarrow> e \<in> set (ents g s) \<Longrightarrow> tgt g e \<in> A"
  shows "reach g S \<subseteq> A"
proof
  show "x \<in> A" if "x \<in> reach g S" for x
    using that
  proof (induction rule: reach.induct)
    case (follow s c t)
    then show ?case using tgt_ents [of t g s] assms(2) [of s] by auto
  qed (use assms(1) in auto)
qed

lemma reach_in: "closed_heap D g \<Longrightarrow> S \<subseteq> D \<Longrightarrow> reach g S \<subseteq> D"
  by (rule reach_least) (auto intro: tgt_in)

section \<open>Counts during a traversal\<close>

definition paint :: "nat set \<Rightarrow> cells \<Rightarrow> int \<Rightarrow> nat set" where
  "paint D h q = {s \<in> D. col h s = q}"

text \<open>A count is the number of references from black cells and from outside, and \<open>k\<close> ones more.\<close>

definition counted :: "nat set \<Rightarrow> cells \<Rightarrow> (nat \<Rightarrow> nat) \<Rightarrow> cells \<Rightarrow> (nat \<Rightarrow> int) \<Rightarrow> bool" where
  "counted D g ext h k \<longleftrightarrow> (\<forall>t\<in>D. cnt h t + 1 = ind g (paint D h 0) t + int (ext t) + k t)"

lemma paint_iff: "s \<in> paint D h q \<longleftrightarrow> s \<in> D \<and> col h s = q"
  by (simp add: paint_def)

lemma paint_upd: "t \<in> D \<Longrightarrow> paint D (h(t \<mapsto> c)) q = (if color c = q then insert t (paint D h q) else paint D h q - {t})"
  by (auto simp: paint_def)

lemma finite_paint [simp]: "finite D \<Longrightarrow> finite (paint D h q)"
  by (simp add: paint_def)

lemma counted_upd:
  assumes "counted D g ext h k" "finite D" "t \<in> D"
    and k': "\<And>u. k' u = k u + (if u = t then rc_count c - cnt h t else 0) +
       (if col h t = 0 \<and> color c \<noteq> 0 then hits g (ents g t) u
        else if col h t \<noteq> 0 \<and> color c = 0 then - hits g (ents g t) u else 0)"
  shows "counted D g ext (h(t \<mapsto> c)) k'"
  unfolding counted_def
proof
  fix u assume u: "u \<in> D"
  have old: "cnt h u + 1 = ind g (paint D h 0) u + int (ext u) + k u" using assms(1) u by (simp add: counted_def)
  have "ind g (paint D (h(t \<mapsto> c)) 0) u = ind g (paint D h 0) u -
      (if col h t = 0 \<and> color c \<noteq> 0 then hits g (ents g t) u
       else if col h t \<noteq> 0 \<and> color c = 0 then - hits g (ents g t) u else 0)"
    using assms(2,3) by (auto simp: paint_upd ind_remove insert_absorb paint_iff)
  then show "cnt (h(t \<mapsto> c)) u + 1 = ind g (paint D (h(t \<mapsto> c)) 0) u + int (ext u) + k' u"
    using old unfolding k' by (cases "u = t") simp_all
qed

text \<open>\<open>N\<close> is a set of cells that is closed under references.\<close>

definition region :: "nat set \<Rightarrow> cells \<Rightarrow> nat set \<Rightarrow> bool" where
  "region D g N \<longleftrightarrow> closed_heap D g \<and> N \<subseteq> D \<and> (\<forall>s\<in>N. \<forall>e\<in>set (ents g s). tgt g e \<in> N)"

lemma regionD:
  assumes "region D g N"
  shows "closed_heap D g" "N \<subseteq> D" "finite D" "s \<in> N \<Longrightarrow> e \<in> set (ents g s) \<Longrightarrow> tgt g e \<in> N"
  using assms by (auto simp: region_def closed_heap_def)

lemma region_entry:
  "region D g N \<Longrightarrow> fst e \<in> N \<Longrightarrow> e \<in> set (ents g (fst e)) \<Longrightarrow> tgt g e \<in> N \<and> tgt g e \<in> D"
  unfolding region_def by blast

lemma ents_self: "e \<in> set (ents g t) \<Longrightarrow> fst e = t \<and> e \<in> set (ents g (fst e))"
  by (simp add: ents_iff)

text \<open>The work that is left: the cells to visit with their entries, and the stack.\<close>

definition work :: "cells \<Rightarrow> nat set \<Rightarrow> entry list \<Rightarrow> nat" where
  "work g S st = (\<Sum>s\<in>S. length (ents g s) + 1) + length st"

lemma work_pop: "work g S st < work g S (e # st)"
  by (simp add: work_def)

lemma work_visit:
  assumes "finite S" "t \<in> S"
  shows "work g (S - {t}) (ents g t @ st) < work g S (e # st)"
  unfolding work_def sum.remove [OF assms] by simp

section \<open>Trial deletion\<close>

definition gray_inv ::
    "nat set \<Rightarrow> cells \<Rightarrow> (nat \<Rightarrow> nat) \<Rightarrow> nat set \<Rightarrow> cells \<Rightarrow> GcEnv \<Rightarrow> entry list \<Rightarrow> bool" where
  "gray_inv D g ext N h j st \<longleftrightarrow>
     same D g h \<and> (\<forall>s\<in>D. col h s \<in> {0, 1}) \<and> counted D g ext h (hits g st) \<and> paint D h 1 \<subseteq> N \<and>
     (\<forall>e\<in>set st. fst e \<in> paint D h 1 \<and> e \<in> set (ents g (fst e))) \<and>
     (\<forall>s\<in>paint D h 1. \<forall>e\<in>set (ents g s). col h (tgt g e) = 1 \<or> e \<in> set st) \<and>
     (\<forall>s\<in>paint D h 0. cnt h s = cnt g s) \<and>
     rcSum j = (\<Sum>s\<in>paint D h 1. cnt g s + 1) \<and>
     edges j + int (length st) = (\<Sum>s\<in>paint D h 1. int (length (ents g s))) \<and>
     touched j = int (card (paint D h 1)) \<and> freed j = 0 \<and> \<not> keepThreshold j"

lemma gray_pop:
  assumes N: "region D g N" and I: "gray_inv D g ext N h j (e # st)" and c: "h (tgt g e) = Some c" "color c = 1"
  shows "gray_inv D g ext N (h(tgt g e \<mapsto> decrement c)) (j\<lparr>edges := edges j + 1\<rparr>) st"
proof -
  have t: "tgt g e \<in> D" using I region_entry [OF N, of e] by (auto simp: gray_inv_def)
  have cc: "c_refs c = c_refs (the (g (tgt g e)))" "c_rootIdx c = c_rootIdx (the (g (tgt g e)))" "col h (tgt g e) = 1"
      "cnt h (tgt g e) = rc_count c"
    using I c t by (auto simp: gray_inv_def elim!: sameE [where s = "tgt g e"])
  have p: "paint D (h(tgt g e \<mapsto> decrement c)) q = paint D h q" for q
    using t cc(3) c by (auto simp: paint_def)
  have "counted D g ext (h(tgt g e \<mapsto> decrement c)) (hits g st)"
    using I N t cc c by (intro counted_upd [where k = "hits g (e # st)"]) (auto simp: gray_inv_def dest: regionD)
  then show ?thesis
    using I t cc(1,2,3) c unfolding gray_inv_def p by (auto simp: paint_iff)
qed

lemma gray_visit:
  assumes N: "region D g N" and I: "gray_inv D g ext N h j (e # st)" and c: "h (tgt g e) = Some c" "color c \<noteq> 1"
  shows "gray_inv D g ext N (h(tgt g e \<mapsto> setColor 1 (decrement c)))
    (j\<lparr>edges := edges j + 1, touched := touched j + 1, rcSum := rcSum j + rc_count c + 1\<rparr>) (ents g (tgt g e) @ st)"
proof -
  define t where "t = tgt g e"
  have e: "fst e \<in> paint D h 1" "e \<in> set (ents g (fst e))" using I by (auto simp: gray_inv_def)
  then have t: "t \<in> N" "t \<in> D" using I region_entry [OF N] unfolding gray_inv_def t_def by blast+
  have cc: "c_refs c = c_refs (the (g t))" "c_rootIdx c = c_rootIdx (the (g t))" "col h t = color c" "cnt h t = rc_count c"
    using I c t by (auto simp: gray_inv_def t_def elim!: sameE [where s = "tgt g e"])
  have b: "col h t = 0" "t \<in> paint D h 0" "t \<notin> paint D h 1" using I t c cc(3) by (auto simp: gray_inv_def paint_iff)
  have fin: "finite D" using N by (rule regionD)
  let ?h = "h(t \<mapsto> setColor 1 (decrement c))"
  have p: "paint D ?h 1 = insert t (paint D h 1)" "paint D ?h 0 = paint D h 0 - {t}"
    using t by (simp_all add: paint_upd)
  have k: "cnt g t = rc_count c" using I b cc(4) by (auto simp: gray_inv_def)
  have "counted D g ext ?h (hits g (ents g t @ st))"
    using I fin t cc(4) b by (intro counted_upd [where k = "hits g (e # st)"]) (auto simp: gray_inv_def t_def)
  moreover have "same D g ?h" using I t cc(1,2) by (auto simp: gray_inv_def)
  moreover have "\<forall>s\<in>paint D ?h 1. \<forall>e\<in>set (ents g s). col ?h (tgt g e) = 1 \<or> e \<in> set (ents g t @ st)"
    using I unfolding p(1) by (auto simp: gray_inv_def t_def)
  moreover have "\<forall>e\<in>set (ents g t @ st). fst e \<in> paint D ?h 1 \<and> e \<in> set (ents g (fst e))"
    using I ents_self [of _ g t] unfolding p(1) gray_inv_def set_append by (metis UnE insert_iff list.set_intros(2))
  moreover have "\<forall>s\<in>D. col ?h s \<in> {0, 1}" using I by (auto simp: gray_inv_def)
  moreover have "\<forall>s\<in>paint D ?h 0. cnt ?h s = cnt g s" using I unfolding p(2) by (auto simp: gray_inv_def)
  moreover have "paint D ?h 1 \<subseteq> N" using I t unfolding p(1) by (auto simp: gray_inv_def)
  ultimately show ?thesis
    using I b(3) fin k unfolding gray_inv_def t_def [symmetric] p by (auto simp: t_def [symmetric])
qed

lemma grayLoop_ok:
  assumes N: "region D g N" and "gray_inv D g ext N h j st"
  shows "\<exists>h' j'. grayLoop h j st = Some (h', j') \<and> gray_inv D g ext N h' j' [] \<and> paint D h 1 \<subseteq> paint D h' 1"
  using assms(2)
proof (induction "work g (paint D h 0) st" arbitrary: h j st rule: less_induct)
  case less
  show ?case
  proof (cases st)
    case Nil
    then show ?thesis using less.prems by (subst grayLoop.simps) simp
  next
    case (Cons e es)
    note I = less.prems [unfolded Cons]
    have e: "fst e \<in> N" "e \<in> set (ents g (fst e))" "fst e \<in> D" using I by (auto simp: gray_inv_def paint_iff)
    then have t: "tgt g e \<in> D" using region_entry [OF N] by blast
    have sm: "same D g h" using I by (simp add: gray_inv_def)
    obtain c where c: "h (tgt g e) = Some c" "c_refs c = c_refs (the (g (tgt g e)))" "col h (tgt g e) = color c"
      by (rule sameE [OF sm t])
    note ld = load_ok [OF sm e(3,2)]
    show ?thesis
    proof (cases "color c = 1")
      case True
      let ?h = "h(tgt g e \<mapsto> decrement c)" and ?j = "j\<lparr>edges := edges j + 1\<rparr>"
      have p: "paint D ?h q = paint D h q" for q using c True by (auto simp: paint_def)
      have "work g (paint D ?h 0) es < work g (paint D h 0) st" unfolding p Cons by (rule work_pop)
      from less.hyps [OF this gray_pop [OF N I c(1) True]] show ?thesis
        unfolding p by (subst grayLoop.simps) (simp add: Cons ld c(1) True colGray_def Let_def)
    next
      case False
      let ?h = "h(tgt g e \<mapsto> setColor 1 (decrement c))"
        and ?j = "j\<lparr>edges := edges j + 1, touched := touched j + 1, rcSum := rcSum j + rc_count c + 1\<rparr>"
      have b: "tgt g e \<in> paint D h 0" using I t c False by (auto simp: gray_inv_def paint_iff)
      have p: "paint D ?h 0 = paint D h 0 - {tgt g e}" "paint D ?h 1 = insert (tgt g e) (paint D h 1)"
        using t by (simp_all add: paint_upd)
      have "work g (paint D ?h 0) (ents g (tgt g e) @ es) < work g (paint D h 0) st"
        unfolding p(1) Cons by (rule work_visit [OF _ b]) (use N in \<open>simp add: regionD\<close>)
      from less.hyps [OF this gray_visit [OF N I c(1) False]] show ?thesis
        unfolding p by (subst grayLoop.simps)
          (auto simp: Cons ld c(1) False colGray_def Let_def trace_ents c(2) algebra_simps)
    qed
  qed
qed

lemma markGray_ok:
  assumes N: "region D g N" and I: "gray_inv D g ext N h j []" and s: "s \<in> N"
  shows "\<exists>h' j'. markGray s (h, j) = Some (h', j') \<and> gray_inv D g ext N h' j' [] \<and>
    insert s (paint D h 1) \<subseteq> paint D h' 1"
proof -
  have sD: "s \<in> D" and fin: "finite D" using s regionD [OF N] by auto
  have sm: "same D g h" using I by (simp add: gray_inv_def)
  obtain c where c: "h s = Some c" "c_refs c = c_refs (the (g s))" "c_rootIdx c = c_rootIdx (the (g s))"
      "col h s = color c" "cnt h s = rc_count c"
    by (rule sameE [OF sm sD])
  show ?thesis
  proof (cases "color c = 1")
    case True
    then show ?thesis using c I sD by (auto simp: markGray_def colGray_def paint_iff)
  next
    case False
    let ?h = "h(s \<mapsto> setColor 1 c)" and ?j = "j\<lparr>touched := touched j + 1, rcSum := rcSum j + rc_count c + 1\<rparr>"
    have b: "col h s = 0" "s \<in> paint D h 0" "s \<notin> paint D h 1" using I sD c False by (auto simp: gray_inv_def paint_iff)
    have p: "paint D ?h 1 = insert s (paint D h 1)" "paint D ?h 0 = paint D h 0 - {s}" using sD by (simp_all add: paint_upd)
    have k: "cnt g s = rc_count c" using I b c by (auto simp: gray_inv_def)
    have "counted D g ext ?h (hits g (ents g s))"
      using I fin sD b c by (intro counted_upd [where k = "hits g []"]) (auto simp: gray_inv_def)
    moreover have "same D g ?h" using I sD c(2,3) by (auto simp: gray_inv_def)
    ultimately have "gray_inv D g ext N ?h ?j (ents g s)"
      using I s b(3) fin k ents_self [of _ g s] unfolding gray_inv_def p by auto
    from grayLoop_ok [OF N this] show ?thesis
      unfolding p using c(1) False by (auto simp: markGray_def colGray_def Let_def trace_ents c(2))
  qed
qed

lemma mark_roots:
  assumes N: "region D g N" and "gray_inv D g ext N h j []" and "set ss \<subseteq> N"
  shows "\<exists>h' j'. each markGray ss (h, j) = Some (h', j') \<and> gray_inv D g ext N h' j' [] \<and>
    set ss \<union> paint D h 1 \<subseteq> paint D h' 1"
  using assms(2,3)
proof (induction ss arbitrary: h j)
  case (Cons s ss)
  obtain h1 j1 where 1: "markGray s (h, j) = Some (h1, j1)" "gray_inv D g ext N h1 j1 []"
      "insert s (paint D h 1) \<subseteq> paint D h1 1"
    using markGray_ok [OF N Cons.prems(1), of s] Cons.prems(2) by auto
  obtain h2 j2 where "each markGray ss (h1, j1) = Some (h2, j2)" "gray_inv D g ext N h2 j2 []"
      "set ss \<union> paint D h1 1 \<subseteq> paint D h2 1"
    using Cons.IH [OF 1(2)] Cons.prems(2) by auto
  then show ?case using 1 by auto
qed simp

section \<open>Restoring what is alive\<close>

text \<open>The cells of \<open>N\<close> that are referred to from outside \<open>N\<close>.\<close>

definition seeds :: "nat set \<Rightarrow> cells \<Rightarrow> (nat \<Rightarrow> nat) \<Rightarrow> nat set \<Rightarrow> nat set" where
  "seeds D g ext N = {t \<in> N. 0 < ind g (D - N) t + int (ext t)}"

definition scan_inv :: "nat set \<Rightarrow> cells \<Rightarrow> (nat \<Rightarrow> nat) \<Rightarrow> nat set \<Rightarrow> cells \<Rightarrow> (nat \<Rightarrow> int) \<Rightarrow> bool" where
  "scan_inv D g ext N h k \<longleftrightarrow>
     same D g h \<and> (\<forall>s\<in>D. col h s \<in> {0, 1, 2}) \<and> (\<forall>s\<in>D - N. col h s = 0) \<and> counted D g ext h k \<and>
     (\<forall>s\<in>N. col h s = 0 \<longrightarrow> s \<in> reach g (seeds D g ext N)) \<and> (\<forall>s\<in>N. col h s = 2 \<longrightarrow> s \<notin> seeds D g ext N)"

text \<open>No black cell refers to another colour, apart from the entries on the stack.\<close>

definition black_closed :: "nat set \<Rightarrow> cells \<Rightarrow> cells \<Rightarrow> entry list \<Rightarrow> bool" where
  "black_closed N g h st \<longleftrightarrow> (\<forall>s\<in>N. col h s = 0 \<longrightarrow> (\<forall>e\<in>set (ents g s). col h (tgt g e) = 0 \<or> e \<in> set st))"

definition white_closed :: "nat set \<Rightarrow> cells \<Rightarrow> cells \<Rightarrow> entry list \<Rightarrow> bool" where
  "white_closed N g h st \<longleftrightarrow> (\<forall>s\<in>N. col h s = 2 \<longrightarrow> (\<forall>e\<in>set (ents g s). col h (tgt g e) \<noteq> 1 \<or> e \<in> set st))"

definition blacker :: "nat set \<Rightarrow> cells \<Rightarrow> cells \<Rightarrow> bool" where
  "blacker D h h' \<longleftrightarrow> (\<forall>s\<in>D. col h' s = col h s \<or> col h' s = 0)"

lemma blacker_trans: "blacker D h h1 \<Longrightarrow> blacker D h1 h2 \<Longrightarrow> blacker D h h2"
  unfolding blacker_def by metis

lemma white_closed_blacker:
  assumes N: "region D g N" and w: "white_closed N g h st" and b: "blacker D h h'"
  shows "white_closed N g h' st"
  unfolding white_closed_def
proof (intro ballI impI)
  fix s e assume s: "s \<in> N" "col h' s = 2" "e \<in> set (ents g s)"
  then have d: "s \<in> D" "tgt g e \<in> D" using regionD(2) [OF N] regionD(4) [OF N s(1,3)] by auto
  then have "col h s = 2" using b s(2) by (auto simp: blacker_def)
  then have "col h (tgt g e) \<noteq> 1 \<or> e \<in> set st" using w s by (auto simp: white_closed_def)
  moreover have "col h' (tgt g e) = col h (tgt g e) \<or> col h' (tgt g e) = 0" using b d(2) by (simp add: blacker_def)
  ultimately show "col h' (tgt g e) \<noteq> 1 \<or> e \<in> set st" by auto
qed

text \<open>The stack of a traversal holds entries of cells in \<open>N\<close>.\<close>

definition stack_in :: "nat set \<Rightarrow> cells \<Rightarrow> entry list \<Rightarrow> bool" where
  "stack_in N g st \<longleftrightarrow> (\<forall>e\<in>set st. fst e \<in> N \<and> e \<in> set (ents g (fst e)))"

lemma stack_in_simps [simp]:
  "stack_in N g []" "stack_in N g (e # st) \<longleftrightarrow> fst e \<in> N \<and> e \<in> set (ents g (fst e)) \<and> stack_in N g st"
  "stack_in N g (st @ st') \<longleftrightarrow> stack_in N g st \<and> stack_in N g st'" "s \<in> N \<Longrightarrow> stack_in N g (ents g s)"
  by (auto simp: stack_in_def dest: ents_self)

lemma black_visit:
  assumes N: "region D g N" and I: "scan_inv D g ext N h k" and s: "s \<in> N" "s \<in> reach g (seeds D g ext N)"
    and c: "h s = Some c" "color c \<noteq> 0" and c': "rc_count c' = rc_count c + d" "color c' = 0" "c_refs c' = c_refs c"
      "c_rootIdx c' = c_rootIdx c"
    and B: "black_closed N g h st"
  shows "scan_inv D g ext N (h(s \<mapsto> c')) (\<lambda>u. k u + (if u = s then d else 0) - hits g (ents g s) u)"
    and "black_closed N g (h(s \<mapsto> c')) (ents g s @ st)" and "blacker D h (h(s \<mapsto> c'))"
proof -
  have sD: "s \<in> D" and fin: "finite D" using s regionD [OF N] by auto
  have cc: "c_refs c = c_refs (the (g s))" "c_rootIdx c = c_rootIdx (the (g s))" "col h s = color c" "cnt h s = rc_count c"
    using I c(1) sD by (auto simp: scan_inv_def elim!: sameE [where s = s])
  have "counted D g ext (h(s \<mapsto> c')) (\<lambda>u. k u + (if u = s then d else 0) - hits g (ents g s) u)"
    using I fin sD cc(3,4) c c' by (intro counted_upd [where k = k]) (auto simp: scan_inv_def)
  moreover have "same D g (h(s \<mapsto> c'))" using I sD cc(1,2) c' by (auto simp: scan_inv_def)
  ultimately show "scan_inv D g ext N (h(s \<mapsto> c')) (\<lambda>u. k u + (if u = s then d else 0) - hits g (ents g s) u)"
    using I s c' by (auto simp: scan_inv_def)
  show "black_closed N g (h(s \<mapsto> c')) (ents g s @ st)" using B c' by (auto simp: black_closed_def)
  show "blacker D h (h(s \<mapsto> c'))" using c' by (auto simp: blacker_def)
qed

lemma blackLoop_ok:
  assumes N: "region D g N"
    and "scan_inv D g ext N h (\<lambda>t. - hits g st t)" "black_closed N g h st" "stack_in N g st" "\<forall>e\<in>set st. col h (fst e) = 0"
  shows "\<exists>h'. blackLoop h st = Some h' \<and> scan_inv D g ext N h' (\<lambda>_. 0) \<and> black_closed N g h' [] \<and> blacker D h h'"
  using assms(2-)
proof (induction "work g (D - paint D h 0) st" arbitrary: h st rule: less_induct)
  case less
  show ?case
  proof (cases st)
    case Nil
    then show ?thesis using less.prems by (subst blackLoop.simps) (simp add: blacker_def)
  next
    case (Cons e es)
    note P = less.prems [unfolded Cons]
    have e: "fst e \<in> N" "e \<in> set (ents g (fst e))" "fst e \<in> D" using P(3) regionD(2) [OF N] by auto
    have t: "tgt g e \<in> N" "tgt g e \<in> D" using region_entry [OF N e(1,2)] by auto
    have fin: "finite D" using N by (rule regionD)
    have sm: "same D g h" using P by (simp add: scan_inv_def)
    have L: "tgt g e \<in> reach g (seeds D g ext N)"
      using reach_ents [OF regionD(1) [OF N] e(3) _ e(2)] P(1,4) e(1) by (simp add: scan_inv_def)
    obtain c where c: "h (tgt g e) = Some c" "c_refs c = c_refs (the (g (tgt g e)))"
        "c_rootIdx c = c_rootIdx (the (g (tgt g e)))" "cnt h (tgt g e) = rc_count c" "col h (tgt g e) = color c"
      by (rule sameE [OF sm t(2)])
    note ld = load_ok [OF sm e(3,2)]
    show ?thesis
    proof (cases "color c = 0")
      case True
      let ?h = "h(tgt g e \<mapsto> increment c)"
      have p: "paint D ?h q = paint D h q" "col ?h = col h" for q using c True by (auto simp: paint_def)
      have "counted D g ext ?h (\<lambda>u. - hits g es u)"
        using P(1) fin t c True by (intro counted_upd [where k = "\<lambda>u. - hits g (e # es) u"]) (auto simp: scan_inv_def)
      then have I: "scan_inv D g ext N ?h (\<lambda>u. - hits g es u)"
        using P(1) t c(2,3) unfolding scan_inv_def p by auto
      have w: "work g (D - paint D ?h 0) es < work g (D - paint D h 0) st" unfolding p Cons by (rule work_pop)
      have "black_closed N g ?h es" using P(2) True c(5) unfolding black_closed_def p by auto
      from less.hyps [OF w I this] P(3,4) show ?thesis
        by (subst blackLoop.simps) (auto simp: Cons ld c(1) True colBlack_def Let_def blacker_def p)
    next
      case False
      let ?h = "h(tgt g e \<mapsto> setColor 0 (increment c))"
      have b: "tgt g e \<in> D - paint D h 0" using t c False by (auto simp: paint_iff)
      have p: "D - paint D ?h 0 = D - paint D h 0 - {tgt g e}" using t by (auto simp: paint_upd)
      have w: "work g (D - paint D ?h 0) (ents g (tgt g e) @ es) < work g (D - paint D h 0) st"
        unfolding p Cons by (rule work_visit [OF _ b]) (use fin in simp)
      have c': "rc_count (setColor 0 (increment c)) = rc_count c + 1" "color (setColor 0 (increment c)) = 0"
        "c_refs (setColor 0 (increment c)) = c_refs c" "c_rootIdx (setColor 0 (increment c)) = c_rootIdx c" by simp_all
      note V = black_visit [OF N P(1) t(1) L c(1) False c' P(2)]
      have B: "black_closed N g ?h (ents g (tgt g e) @ es)"
        using P(2) by (auto simp: black_closed_def)
      have I: "scan_inv D g ext N ?h (\<lambda>u. - hits g (ents g (tgt g e) @ es) u)"
        by (rule back_subst [where P = "scan_inv D g ext N ?h", OF V(1)]) (auto simp: fun_eq_iff)
      have F: "stack_in N g (ents g (tgt g e) @ es)" "\<forall>e'\<in>set (ents g (tgt g e) @ es). col ?h (fst e') = 0"
        using P(3,4) t(1) by (auto dest: ents_fst)
      have "blackLoop h st = blackLoop ?h (ents g (tgt g e) @ es)"
        by (subst blackLoop.simps) (simp add: Cons ld c(1,2) False colBlack_def Let_def trace_ents)
      with less.hyps [OF w I B F] blacker_trans [OF V(3)] show ?thesis by auto
    qed
  qed
qed

lemma black_split: "scan_inv D g ext N h k \<Longrightarrow> region D g N \<Longrightarrow>
   ind g (paint D h 0) t = ind g (paint D h 0 \<inter> N) t + ind g (D - N) t"
proof -
  assume I: "scan_inv D g ext N h k" and N: "region D g N"
  have fin: "finite (paint D h 0)" and sub: "D - N \<subseteq> paint D h 0" and eq: "paint D h 0 - (D - N) = paint D h 0 \<inter> N"
    using I regionD(3) [OF N] by (auto simp: scan_inv_def paint_iff)
  show ?thesis using ind_split [OF fin sub, of g t] unfolding eq .
qed

text \<open>A count that is not negative shows that the cell is alive.\<close>

lemma alive_reach:
  assumes N: "region D g N" and I: "scan_inv D g ext N h (\<lambda>_. 0)" and s: "s \<in> N" "0 \<le> cnt h s"
  shows "s \<in> reach g (seeds D g ext N)"
proof (cases "s \<in> seeds D g ext N")
  case False
  have "s \<in> D" using s regionD(2) [OF N] by auto
  then have "cnt h s + 1 = ind g (paint D h 0) s + int (ext s)" using I by (simp add: scan_inv_def counted_def)
  then have "0 < ind g (paint D h 0 \<inter> N) s" using False s by (simp add: seeds_def black_split [OF I N])
  from ind_pos [OF this] obtain u e where u: "u \<in> paint D h 0" "u \<in> N" "e \<in> set (ents g u)" "tgt g e = s" by blast
  then have "u \<in> reach g (seeds D g ext N)" using I by (auto simp: scan_inv_def paint_iff)
  with u show ?thesis using reach_ents [OF regionD(1) [OF N], of u "seeds D g ext N" e] by (auto simp: paint_iff)
qed (rule reach.start)

lemma scanBlack_ok:
  assumes N: "region D g N" and I: "scan_inv D g ext N h (\<lambda>_. 0)" and B: "black_closed N g h []"
    and s: "s \<in> N" "col h s \<noteq> 0" "0 \<le> cnt h s"
  shows "\<exists>h'. scanBlack s h = Some h' \<and> scan_inv D g ext N h' (\<lambda>_. 0) \<and> black_closed N g h' [] \<and>
    blacker D h h' \<and> col h' s = 0"
proof -
  have sD: "s \<in> D" using s regionD(2) [OF N] by auto
  have sm: "same D g h" using I by (simp add: scan_inv_def)
  obtain c where c: "h s = Some c" "c_refs c = c_refs (the (g s))" "col h s = color c"
    by (rule sameE [OF sm sD])
  let ?h = "h(s \<mapsto> setColor 0 c)"
  have c': "rc_count (setColor 0 c) = rc_count c + 0" "color (setColor 0 c) = 0"
    "c_refs (setColor 0 c) = c_refs c" "c_rootIdx (setColor 0 c) = c_rootIdx c" by simp_all
  have "color c \<noteq> 0" using s(2) c(3) by simp
  note V = black_visit [OF N I s(1) alive_reach [OF N I s(1,3)] c(1) this c' B]
  have S: "scan_inv D g ext N ?h (\<lambda>u. - hits g (ents g s) u)"
    by (rule back_subst [where P = "scan_inv D g ext N ?h", OF V(1)]) (auto simp: fun_eq_iff)
  have "black_closed N g ?h (ents g s)" "stack_in N g (ents g s)" "\<forall>e\<in>set (ents g s). col ?h (fst e) = 0"
    using V(2) s(1) by (auto dest: ents_fst)
  from blackLoop_ok [OF N S this] obtain h' where h': "blackLoop ?h (ents g s) = Some h'"
      "scan_inv D g ext N h' (\<lambda>_. 0)" "black_closed N g h' []" "blacker D ?h h'" by blast
  moreover have "col h' s = 0" using h'(4) sD by (auto simp: blacker_def)
  moreover have "scanBlack s h = blackLoop ?h (ents g s)"
    by (simp add: scanBlack_def c(1,2) colBlack_def Let_def trace_ents)
  ultimately show ?thesis using blacker_trans [OF V(3) h'(4)] by auto
qed

section \<open>Separating the dead\<close>

lemma white_visit:
  assumes N: "region D g N" and I: "scan_inv D g ext N h (\<lambda>_. 0)" and B: "black_closed N g h []"
    and W: "white_closed N g h st" and s: "s \<in> N" "h s = Some c" "color c = 1" "rc_count c < 0"
  shows "scan_inv D g ext N (h(s \<mapsto> setColor 2 c)) (\<lambda>_. 0)" "black_closed N g (h(s \<mapsto> setColor 2 c)) []"
    "white_closed N g (h(s \<mapsto> setColor 2 c)) (ents g s @ st)"
proof -
  have sD: "s \<in> D" and fin: "finite D" using s regionD [OF N] by auto
  have cc: "c_refs c = c_refs (the (g s))" "c_rootIdx c = c_rootIdx (the (g s))" "col h s = color c" "cnt h s = rc_count c"
    using I s(2) sD by (auto simp: scan_inv_def elim!: sameE [where s = s])
  have "counted D g ext h (\<lambda>_. 0)" using I by (simp add: scan_inv_def)
  then have "ind g (paint D h 0) s + int (ext s) \<le> 0" using sD cc(4) s(4) by (auto simp: counted_def)
  then have "s \<notin> seeds D g ext N"
    using black_split [OF I N, of s] ind_nonneg [of g "paint D h 0 \<inter> N" s]
    by (auto simp: seeds_def simp del: ind_nonneg)
  moreover have "counted D g ext (h(s \<mapsto> setColor 2 c)) (\<lambda>_. 0)"
    using I fin sD cc s by (intro counted_upd [where k = "\<lambda>_. 0"]) (auto simp: scan_inv_def)
  moreover have "same D g (h(s \<mapsto> setColor 2 c))" using I sD cc(1,2) by (auto simp: scan_inv_def)
  ultimately show "scan_inv D g ext N (h(s \<mapsto> setColor 2 c)) (\<lambda>_. 0)" using I s(1) by (auto simp: scan_inv_def)
  show "black_closed N g (h(s \<mapsto> setColor 2 c)) []" using B s(3) cc(3) by (auto simp: black_closed_def)
  show "white_closed N g (h(s \<mapsto> setColor 2 c)) (ents g s @ st)" using W by (auto simp: white_closed_def)
qed

definition less_gray :: "nat set \<Rightarrow> cells \<Rightarrow> cells \<Rightarrow> bool" where
  "less_gray D h h' \<longleftrightarrow> paint D h' 1 \<subseteq> paint D h 1"

lemma less_gray_trans: "less_gray D h h1 \<Longrightarrow> less_gray D h1 h2 \<Longrightarrow> less_gray D h h2"
  by (auto simp: less_gray_def)

lemma blacker_less_gray: "blacker D h h' \<Longrightarrow> less_gray D h h'"
  unfolding blacker_def less_gray_def paint_def by auto

lemma work_mono: "finite S \<Longrightarrow> T \<subseteq> S \<Longrightarrow> work g T st \<le> work g S st"
  unfolding work_def by (simp add: sum_mono2)

lemma white_closed_drop:
  "white_closed N g h st \<Longrightarrow> set st \<subseteq> insert e (set st') \<Longrightarrow> col h (tgt g e) \<noteq> 1 \<Longrightarrow> white_closed N g h st'"
  unfolding white_closed_def by (metis insertE subsetD)

lemma whiteLoop_ok:
  assumes N: "region D g N" and "scan_inv D g ext N h (\<lambda>_. 0)" "black_closed N g h []" "white_closed N g h st" "stack_in N g st"
  shows "\<exists>h'. whiteLoop h st = Some h' \<and> scan_inv D g ext N h' (\<lambda>_. 0) \<and> black_closed N g h' [] \<and>
    white_closed N g h' [] \<and> less_gray D h h'"
  using assms(2-)
proof (induction "work g (paint D h 1) st" arbitrary: h st rule: less_induct)
  case less
  show ?case
  proof (cases st)
    case Nil
    then show ?thesis using less.prems by (subst whiteLoop.simps) (simp add: less_gray_def)
  next
    case (Cons e es)
    note P = less.prems [unfolded Cons]
    have e: "fst e \<in> N" "e \<in> set (ents g (fst e))" "fst e \<in> D" using P(4) regionD(2) [OF N] by auto
    have t: "tgt g e \<in> N" "tgt g e \<in> D" using region_entry [OF N e(1,2)] by auto
    have fin: "finite D" using N by (rule regionD)
    have sm: "same D g h" using P by (simp add: scan_inv_def)
    obtain c where c: "h (tgt g e) = Some c" "c_refs c = c_refs (the (g (tgt g e)))" "cnt h (tgt g e) = rc_count c"
        "col h (tgt g e) = color c"
      by (rule sameE [OF sm t(2)])
    note ld = load_ok [OF sm e(3,2)]
    consider "color c \<noteq> 1" | "color c = 1" "rc_count c \<ge> 0" | "color c = 1" "rc_count c < 0" by linarith
    then show ?thesis
    proof cases
      case 1
      have w: "work g (paint D h 1) es < work g (paint D h 1) st" unfolding Cons by (rule work_pop)
      have "white_closed N g h es" using white_closed_drop [OF P(3), of e es] 1 c(4) by auto
      from less.hyps [OF w P(1,2) this] P(4) show ?thesis
        by (subst whiteLoop.simps) (simp add: Cons ld c(1) 1 colGray_def)
    next
      case 2
      obtain h1 where h1: "scanBlack (tgt g e) h = Some h1" "scan_inv D g ext N h1 (\<lambda>_. 0)" "black_closed N g h1 []"
          "blacker D h h1" "col h1 (tgt g e) = 0"
        using scanBlack_ok [OF N P(1,2) t(1)] 2 c by auto
      have "work g (paint D h1 1) es \<le> work g (paint D h 1) es"
        by (rule work_mono) (use fin blacker_less_gray [OF h1(4)] in \<open>auto simp: less_gray_def\<close>)
      also have "\<dots> < work g (paint D h 1) st" unfolding Cons by (rule work_pop)
      finally have w: "work g (paint D h1 1) es < work g (paint D h 1) st" .
      have "white_closed N g h1 es"
        using white_closed_drop [OF white_closed_blacker [OF N P(3) h1(4)], of e es] h1(5) by auto
      from less.hyps [OF w h1(2,3) this] P(4) less_gray_trans [OF blacker_less_gray [OF h1(4)]] show ?thesis
        by (subst whiteLoop.simps) (auto simp: Cons ld c(1) 2 colGray_def h1(1))
    next
      case 3
      let ?h = "h(tgt g e \<mapsto> setColor 2 c)"
      have b: "tgt g e \<in> paint D h 1" using t c 3 by (simp add: paint_iff)
      have p: "paint D ?h 1 = paint D h 1 - {tgt g e}" using t by (simp add: paint_upd)
      have w: "work g (paint D ?h 1) (ents g (tgt g e) @ es) < work g (paint D h 1) st"
        unfolding p Cons by (rule work_visit [OF _ b]) (use fin in simp)
      note V = white_visit [OF N P(1,2,3) t(1) c(1) 3]
      have W: "white_closed N g ?h (ents g (tgt g e) @ es)" by (rule white_closed_drop [OF V(3), of e]) auto
      have "less_gray D h ?h" unfolding less_gray_def p by blast
      moreover have "whiteLoop h st = whiteLoop ?h (ents g (tgt g e) @ es)"
        using 3 by (subst whiteLoop.simps) (simp add: Cons ld c(1,2) colGray_def colWhite_def Let_def trace_ents)
      moreover have "stack_in N g (ents g (tgt g e) @ es)" using P(4) t(1) by simp
      ultimately show ?thesis using less.hyps [OF w V(1,2) W] less_gray_trans by metis
    qed
  qed
qed

lemma scan_ok:
  assumes N: "region D g N" and I: "scan_inv D g ext N h (\<lambda>_. 0)" "black_closed N g h []" "white_closed N g h []" and s: "s \<in> N"
  shows "\<exists>h'. scan s h = Some h' \<and> scan_inv D g ext N h' (\<lambda>_. 0) \<and> black_closed N g h' [] \<and> white_closed N g h' [] \<and>
    less_gray D h h' \<and> col h' s \<noteq> 1"
proof -
  have sD: "s \<in> D" using s regionD(2) [OF N] by auto
  have sm: "same D g h" using I by (simp add: scan_inv_def)
  obtain c where c: "h s = Some c" "c_refs c = c_refs (the (g s))" "cnt h s = rc_count c" "col h s = color c"
    by (rule sameE [OF sm sD])
  consider "color c \<noteq> 1" | "color c = 1" "rc_count c \<ge> 0" | "color c = 1" "rc_count c < 0" by linarith
  then show ?thesis
  proof cases
    case 1
    then show ?thesis using I c by (simp add: scan_def colGray_def less_gray_def)
  next
    case 2
    obtain h' where h': "scanBlack s h = Some h'" "scan_inv D g ext N h' (\<lambda>_. 0)" "black_closed N g h' []"
        "blacker D h h'" "col h' s = 0"
      using scanBlack_ok [OF N I(1,2) s] 2 c by auto
    show ?thesis
      using h' 2 white_closed_blacker [OF N I(3) h'(4)] blacker_less_gray [OF h'(4)] by (simp add: scan_def c(1) colGray_def)
  next
    case 3
    let ?h = "h(s \<mapsto> setColor 2 c)"
    note V = white_visit [OF N I s c(1) 3]
    obtain h' where h': "whiteLoop ?h (ents g s) = Some h'" "scan_inv D g ext N h' (\<lambda>_. 0)" "black_closed N g h' []"
        "white_closed N g h' []" "less_gray D ?h h'"
      using whiteLoop_ok [OF N V(1,2) V(3) [unfolded append_Nil2]] s by auto
    have "less_gray D h ?h" using sD by (auto simp: less_gray_def paint_upd)
    moreover have "col h' s \<noteq> 1" using h'(5) sD by (auto simp: less_gray_def paint_def)
    ultimately show ?thesis
      using h' 3 less_gray_trans by (auto simp: scan_def c(1,2) colGray_def colWhite_def Let_def trace_ents)
  qed
qed

lemma scan_roots:
  assumes N: "region D g N" and "scan_inv D g ext N h (\<lambda>_. 0)" "black_closed N g h []" "white_closed N g h []" "set ss \<subseteq> N"
  shows "\<exists>h'. each scan ss h = Some h' \<and> scan_inv D g ext N h' (\<lambda>_. 0) \<and> black_closed N g h' [] \<and> white_closed N g h' [] \<and>
    less_gray D h h' \<and> (\<forall>s\<in>set ss. col h' s \<noteq> 1)"
  using assms(2-)
proof (induction ss arbitrary: h)
  case (Cons s ss)
  obtain h1 where 1: "scan s h = Some h1" "scan_inv D g ext N h1 (\<lambda>_. 0)" "black_closed N g h1 []" "white_closed N g h1 []"
      "less_gray D h h1" "col h1 s \<noteq> 1"
    using scan_ok [OF N Cons.prems(1-3), of s] Cons.prems(4) by auto
  obtain h2 where 2: "each scan ss h1 = Some h2" "scan_inv D g ext N h2 (\<lambda>_. 0)" "black_closed N g h2 []"
      "white_closed N g h2 []" "less_gray D h1 h2" "\<forall>s\<in>set ss. col h2 s \<noteq> 1"
    using Cons.IH [OF 1(2-4)] Cons.prems(4) by auto
  have "s \<in> D" using Cons.prems(4) regionD(2) [OF N] by auto
  then have "col h2 s \<noteq> 1" using 1(6) 2(5) by (auto simp: less_gray_def paint_def)
  then show ?case using 1(1) 2 less_gray_trans [OF 1(5) 2(5)] by auto
qed (simp add: less_gray_def)

text \<open>The dead cells of \<open>N\<close>: those that cannot be reached from outside \<open>N\<close>.\<close>

definition dead :: "nat set \<Rightarrow> cells \<Rightarrow> (nat \<Rightarrow> nat) \<Rightarrow> nat set \<Rightarrow> nat set" where
  "dead D g ext N = N - reach g (seeds D g ext N)"

text \<open>The cells are dead or alive in \<open>h\<close>, and the dead ones have the colour \<open>q\<close>.\<close>

definition sorted_out :: "nat set \<Rightarrow> cells \<Rightarrow> (nat \<Rightarrow> nat) \<Rightarrow> nat set \<Rightarrow> int \<Rightarrow> cells \<Rightarrow> bool" where
  "sorted_out D g ext N q h \<longleftrightarrow>
     same D g h \<and> counted D g ext h (\<lambda>_. 0) \<and> (\<forall>s\<in>D. col h s = (if s \<in> dead D g ext N then q else 0))"

lemma scan_end:
  assumes N: "region D g N" "N = reach g R"
    and I: "scan_inv D g ext N h (\<lambda>_. 0)" "black_closed N g h []" "white_closed N g h []" and R: "\<forall>s\<in>R. col h s \<noteq> 1"
  shows "sorted_out D g ext N 2 h"
proof -
  have cols: "\<forall>s\<in>N. col h s \<in> {0, 1, 2}" using I(1) regionD(2) [OF N(1)] by (auto simp: scan_inv_def)
  have "N \<subseteq> {s \<in> N. col h s \<noteq> 1}"
    unfolding N(2)
  proof (rule reach_least)
    show "R \<subseteq> {s \<in> reach g R. col h s \<noteq> 1}" using R by (auto intro: reach.start)
    fix s e assume s: "s \<in> {s \<in> reach g R. col h s \<noteq> 1}" "e \<in> set (ents g s)"
    then have sN: "s \<in> N" and c: "col h s = 0 \<or> col h s = 2" using cols N(2) by auto
    have "col h (tgt g e) \<noteq> 1"
      using c I(2,3) sN s(2) by (auto simp: black_closed_def white_closed_def)
    then show "tgt g e \<in> {s \<in> reach g R. col h s \<noteq> 1}" using regionD(4) [OF N(1) sN s(2)] N(2) by simp
  qed
  then have two: "\<forall>s\<in>N. col h s = 0 \<or> col h s = 2" using cols by auto
  have "reach g (seeds D g ext N) \<subseteq> {s \<in> N. col h s = 0}"
  proof (rule reach_least)
    show "seeds D g ext N \<subseteq> {s \<in> N. col h s = 0}"
      using two I(1) by (auto simp: scan_inv_def seeds_def)
  qed (use I(2) regionD(4) [OF N(1)] in \<open>auto simp: black_closed_def\<close>)
  then show ?thesis using two I(1) by (auto simp: sorted_out_def dead_def scan_inv_def)
qed

lemma dead_closed:
  assumes N: "region D g N" and s: "s \<in> D" "s \<notin> dead D g ext N" "e \<in> set (ents g s)"
  shows "tgt g e \<in> D" "tgt g e \<notin> dead D g ext N"
proof -
  show "tgt g e \<in> D" using tgt_in [OF regionD(1) [OF N] s(1,3)] .
  show "tgt g e \<notin> dead D g ext N"
  proof
    assume d: "tgt g e \<in> dead D g ext N"
    have "s \<notin> N" using s d reach_ents [OF regionD(1) [OF N] s(1) _ s(3), of "seeds D g ext N"] by (auto simp: dead_def)
    then have "0 < ind g (D - N) (tgt g e)" using s regionD(3) [OF N] by (intro ind_edge) auto
    then have "tgt g e \<in> seeds D g ext N" using d by (simp add: seeds_def dead_def)
    then show False using d reach.start [of "tgt g e"] by (auto simp: dead_def)
  qed
qed

section \<open>Collecting the dead\<close>

text \<open>The cells of \<open>W\<close> that are not yet in \<open>free\<close> have the colour \<open>q\<close>; a cell in \<open>free\<close> has only the fields
  left that are on the stack.  \<open>k\<close> and \<open>r\<close> are the counts and the root indices.\<close>

definition field_left :: "cells \<Rightarrow> nat list \<Rightarrow> entry list \<Rightarrow> nat \<Rightarrow> nat \<Rightarrow> nat option" where
  "field_left g free st s i = (if s \<in> set free \<and> (s, i) \<notin> set st then None else c_refs (the (g s)) ! i)"

definition collect_cell ::
    "cells \<Rightarrow> nat set \<Rightarrow> int \<Rightarrow> (nat \<Rightarrow> int) \<Rightarrow> (nat \<Rightarrow> nat) \<Rightarrow> nat list \<Rightarrow> entry list \<Rightarrow> nat \<Rightarrow> RefHeader \<Rightarrow> bool" where
  "collect_cell g W q k r free st s c \<longleftrightarrow>
     rc_count c = k s \<and> c_rootIdx c = r s \<and> color c = (if s \<in> W \<and> s \<notin> set free then q else 0) \<and>
     c_refs c = map (field_left g free st s) [0..<length (c_refs (the (g s)))]"

definition collect_inv ::
    "nat set \<Rightarrow> cells \<Rightarrow> nat set \<Rightarrow> int \<Rightarrow> (nat \<Rightarrow> int) \<Rightarrow> (nat \<Rightarrow> nat) \<Rightarrow> cells \<Rightarrow> nat list \<Rightarrow> entry list \<Rightarrow> bool" where
  "collect_inv D g W q k r h free st \<longleftrightarrow>
     (\<forall>s. s \<notin> D \<longrightarrow> h s = g s) \<and> distinct free \<and> set free \<subseteq> W \<and>
     (\<forall>s\<in>D. \<exists>c. h s = Some c \<and> collect_cell g W q k r free st s c) \<and>
     distinct st \<and> (\<forall>e\<in>set st. fst e \<in> set free \<and> e \<in> set (ents g (fst e)))"

text \<open>What a collected cell refers to is alive, collected, a candidate to come, or on the stack.\<close>

definition collect_closed :: "cells \<Rightarrow> nat set \<Rightarrow> (nat \<Rightarrow> nat) \<Rightarrow> nat list \<Rightarrow> entry list \<Rightarrow> bool" where
  "collect_closed g W r free st \<longleftrightarrow>
     (\<forall>s\<in>set free. \<forall>e\<in>set (ents g s). tgt g e \<in> W \<longrightarrow> tgt g e \<in> set free \<or> r (tgt g e) \<noteq> 0 \<or> e \<in> set st)"

lemma collect_pop:
  assumes W: "W \<subseteq> D" and I: "collect_inv D g W q k r h free (e # st)"
  shows "load h e = Some (tgt g e)" "\<exists>h'. store_nil e h = Some h' \<and> collect_inv D g W q k r h' free st"
proof -
  define s i where "s = fst e" and "i = snd e"
  have e: "e = (s, i)" "s \<in> set free" "s \<in> D" "(s, i) \<in> set (ents g s)" using I W by (auto simp: s_def i_def collect_inv_def)
  then obtain c where c: "h s = Some c" "collect_cell g W q k r free (e # st) s c" using I by (auto simp: collect_inv_def)
  have i: "i < length (c_refs (the (g s)))" "c_refs (the (g s)) ! i \<noteq> None" using e(4) by (auto simp: ents_iff)
  have len: "length (c_refs c) = length (c_refs (the (g s)))" using c(2) by (simp add: collect_cell_def)
  have "c_refs c ! i = c_refs (the (g s)) ! i" using c(2) i e by (simp add: collect_cell_def field_left_def)
  then show "load h e = Some (tgt g e)" using i c(1) len by (auto simp: load_def e(1) mem_get_def tgt_def)
  let ?h = "h(s \<mapsto> c\<lparr>c_refs := (c_refs c)[i := None]\<rparr>)"
  have n: "(s, i) \<notin> set st" using I e(1) by (auto simp: collect_inv_def)
  have "(c_refs c)[i := None] = map (field_left g free st s) [0..<length (c_refs (the (g s)))]"
    using c(2) i n e(2) len by (intro nth_equalityI) (auto simp: collect_cell_def field_left_def nth_list_update e(1))
  then have cs: "collect_cell g W q k r free st s (c\<lparr>c_refs := (c_refs c)[i := None]\<rparr>)"
    using c(2) by (simp add: collect_cell_def)
  have cu: "collect_cell g W q k r free st u c'" if "collect_cell g W q k r free (e # st) u c'" "u \<noteq> s" for u c'
    using that by (auto simp: collect_cell_def field_left_def e(1) cong: map_cong)
  have "collect_inv D g W q k r ?h free st"
    using I cs cu c e(3) unfolding collect_inv_def by (auto 4 3)
  moreover have "store_nil e h = Some ?h" using c(1) i(1) len by (simp add: store_nil_def e(1) mem_set_def)
  ultimately show "\<exists>h'. store_nil e h = Some h' \<and> collect_inv D g W q k r h' free st" by blast
qed

lemma collect_visit:
  assumes I: "collect_inv D g W q k r h free st" and q: "q \<noteq> 0" and t: "t \<in> D" "h t = Some c" "color c = q"
  shows "t \<in> W" "t \<notin> set free" "c_refs c = c_refs (the (g t))" "c_rootIdx c = r t"
    and "collect_inv D g W q k r (h(t \<mapsto> setColor 0 c)) (free @ [t]) (ents g t @ st)"
proof -
  have c: "collect_cell g W q k r free st t c" using I t by (auto simp: collect_inv_def)
  then show tW: "t \<in> W" and tf: "t \<notin> set free" using t(3) q by (auto simp: collect_cell_def split: if_splits)
  have "map (field_left g free st t) [0..<length (c_refs (the (g t)))] = c_refs (the (g t))"
    using tf by (intro nth_equalityI) (simp_all add: field_left_def)
  then show refs: "c_refs c = c_refs (the (g t))" using c by (simp add: collect_cell_def)
  show "c_rootIdx c = r t" using c by (simp add: collect_cell_def)
  have st: "\<forall>e\<in>set st. fst e \<noteq> t" using I tf by (auto simp: collect_inv_def)
  have "map (field_left g (free @ [t]) (ents g t @ st) t) [0..<length (c_refs (the (g t)))] = c_refs (the (g t))"
    by (intro nth_equalityI) (auto simp: field_left_def ents_iff)
  then have cs: "collect_cell g W q k r (free @ [t]) (ents g t @ st) t (setColor 0 c)"
    using c refs by (simp add: collect_cell_def)
  have "field_left g (free @ [t]) (ents g t @ st) u = field_left g free st u" if "u \<noteq> t" for u
    using that by (auto simp: field_left_def fun_eq_iff ents_iff)
  then have cu: "collect_cell g W q k r (free @ [t]) (ents g t @ st) u c'"
    if "collect_cell g W q k r free st u c'" "u \<noteq> t" for u c'
    using that by (auto simp: collect_cell_def)
  have d: "distinct (ents g t @ st)" using I st by (auto simp: collect_inv_def distinct_ents dest: ents_fst)
  have s: "\<forall>e\<in>set (ents g t @ st). fst e \<in> set (free @ [t]) \<and> e \<in> set (ents g (fst e))"
    using I by (auto simp: collect_inv_def dest: ents_self)
  show "collect_inv D g W q k r (h(t \<mapsto> setColor 0 c)) (free @ [t]) (ents g t @ st)"
    using I cs cu d s tW tf t(1) unfolding collect_inv_def by auto
qed

lemma collectLoop_ok:
  assumes N: "closed_heap D g" and W: "W \<subseteq> D" and q: "q \<noteq> 0"
    and "collect_inv D g W q k r h free st" "collect_closed g W r free st"
  shows "\<exists>h' free'. collectLoop q st h free = Some (h', free') \<and> collect_inv D g W q k r h' free' [] \<and>
    collect_closed g W r free' [] \<and> set free \<subseteq> set free'"
  using assms(4-)
proof (induction "work g (W - set free) st" arbitrary: h free st rule: less_induct)
  case less
  show ?case
  proof (cases st)
    case Nil
    then show ?thesis using less.prems by (subst collectLoop.simps) simp
  next
    case (Cons e es)
    note P = less.prems [unfolded Cons]
    have fin: "finite W" using N W finite_subset by (auto simp: closed_heap_def)
    have e: "fst e \<in> set free" "e \<in> set (ents g (fst e))" "fst e \<in> D" using P(1) W by (auto simp: collect_inv_def)
    have t: "tgt g e \<in> D" by (rule tgt_in [OF N e(3,2)])
    obtain h1 where h1: "store_nil e h = Some h1" and I: "collect_inv D g W q k r h1 free es"
      using collect_pop(2) [OF W P(1)] by blast
    obtain c where c: "h1 (tgt g e) = Some c" "collect_cell g W q k r free es (tgt g e) c"
      using I t by (auto simp: collect_inv_def)
    note ld = collect_pop(1) [OF W P(1)]
    show ?thesis
    proof (cases "color c = q \<and> c_rootIdx c = 0")
      case True
      let ?h = "h1(tgt g e \<mapsto> setColor 0 c)" and ?free = "free @ [tgt g e]"
      note V = collect_visit [OF I q t c(1) conjunct1 [OF True]]
      have b: "tgt g e \<in> W - set free" using V(1,2) by simp
      have "W - set ?free = W - set free - {tgt g e}" by auto
      then have w: "work g (W - set ?free) (ents g (tgt g e) @ es) < work g (W - set free) st"
        unfolding Cons using work_visit [OF _ b] fin by simp
      have "collect_closed g W r ?free (ents g (tgt g e) @ es)"
        using P(2) unfolding collect_closed_def by simp blast
      moreover have "collectLoop q st h free = collectLoop q (ents g (tgt g e) @ es) ?h ?free"
        using True by (subst collectLoop.simps) (simp add: Cons ld h1 c(1) colBlack_def Let_def trace_ents V(3))
      ultimately show ?thesis using less.hyps [OF w V(5)] by auto
    next
      case False
      have w: "work g (W - set free) es < work g (W - set free) st" unfolding Cons by (rule work_pop)
      have "tgt g e \<in> W \<Longrightarrow> tgt g e \<in> set free \<or> r (tgt g e) \<noteq> 0"
        using False c(2) by (auto simp: collect_cell_def split: if_splits)
      then have "collect_closed g W r free es"
        using P(2) unfolding collect_closed_def by (metis set_ConsD)
      moreover have "collectLoop q st h free = collectLoop q es h1 free"
        using False by (subst collectLoop.simps) (auto simp: Cons ld h1 c(1))
      ultimately show ?thesis using less.hyps [OF w I] by auto
    qed
  qed
qed

lemma collectRoot_ok:
  assumes N: "closed_heap D g" and W: "W \<subseteq> D" and q: "q \<noteq> 0" and s: "s \<in> D"
    and I: "collect_inv D g W q k r h free []" and C: "collect_closed g W r free []"
  shows "\<exists>h' free'. collectRoot q s (h, free) = Some (h', free') \<and> collect_inv D g W q k (r(s := 0)) h' free' [] \<and>
    collect_closed g W (r(s := 0)) free' [] \<and> set free \<subseteq> set free' \<and> (s \<in> W \<longrightarrow> s \<in> set free')"
proof -
  obtain c0 where c0: "h s = Some c0" "collect_cell g W q k r free [] s c0" using I s by (auto simp: collect_inv_def)
  define c where "c = c0\<lparr>c_rootIdx := 0\<rparr>"
  let ?h = "h(s \<mapsto> c)" and ?r = "r(s := 0)"
  have "collect_cell g W q k ?r free [] s c" using c0(2) by (simp add: collect_cell_def c_def)
  then have I1: "collect_inv D g W q k ?r ?h free []"
    using I s by (auto simp: collect_inv_def collect_cell_def)
  have start: "collectRoot q s (h, free) = collectColor q s (?h, free)" by (simp add: collectRoot_def c0(1) c_def)
  show ?thesis
  proof (cases "color c = q")
    case True
    note V = collect_visit [OF I1 q s fun_upd_same True]
    have "collect_closed g W ?r (free @ [s]) (ents g s)" using C V(1) by (auto simp: collect_closed_def)
    from collectLoop_ok [OF N W q V(5) [unfolded append_Nil2] this] obtain h' free' where
      "collectLoop q (ents g s) (?h(s \<mapsto> setColor 0 c)) (free @ [s]) = Some (h', free')"
      "collect_inv D g W q k ?r h' free' []" "collect_closed g W ?r free' []" "set (free @ [s]) \<subseteq> set free'" by blast
    then show ?thesis
      unfolding start using True V(3,4) by (auto simp: collectColor_def colBlack_def Let_def trace_ents)
  next
    case False
    then have "s \<in> W \<Longrightarrow> s \<in> set free" using I1 s by (auto simp: collect_inv_def collect_cell_def split: if_splits)
    then have "collect_closed g W ?r free []" using C by (auto simp: collect_closed_def)
    then show ?thesis unfolding start using False I1 \<open>s \<in> W \<Longrightarrow> s \<in> set free\<close> by (auto simp: collectColor_def)
  qed
qed

lemma collect_roots:
  assumes N: "closed_heap D g" and W: "W \<subseteq> D" and q: "q \<noteq> 0"
    and "collect_inv D g W q k r h free []" "collect_closed g W r free []" "set ss \<subseteq> D"
  shows "\<exists>h' free'. each (collectRoot q) ss (h, free) = Some (h', free') \<and>
    collect_inv D g W q k (\<lambda>s. if s \<in> set ss then 0 else r s) h' free' [] \<and>
    collect_closed g W (\<lambda>s. if s \<in> set ss then 0 else r s) free' [] \<and> set free \<union> (W \<inter> set ss) \<subseteq> set free'"
  using assms(4-)
proof (induction ss arbitrary: h free r)
  case (Cons s ss)
  obtain h1 free1 where 1: "collectRoot q s (h, free) = Some (h1, free1)" "collect_inv D g W q k (r(s := 0)) h1 free1 []"
      "collect_closed g W (r(s := 0)) free1 []" "set free \<subseteq> set free1" "s \<in> W \<longrightarrow> s \<in> set free1"
    using collectRoot_ok [OF N W q _ Cons.prems(1,2), of s] Cons.prems(3) by auto
  have r: "(\<lambda>u. if u \<in> set ss then 0 else (r(s := 0)) u) = (\<lambda>u. if u \<in> set (s # ss) then 0 else r u)" by auto
  obtain h2 free2 where "each (collectRoot q) ss (h1, free1) = Some (h2, free2)"
      "collect_inv D g W q k (\<lambda>u. if u \<in> set (s # ss) then 0 else r u) h2 free2 []"
      "collect_closed g W (\<lambda>u. if u \<in> set (s # ss) then 0 else r u) free2 []" "set free1 \<union> (W \<inter> set ss) \<subseteq> set free2"
    using Cons.IH [OF 1(2,3)] Cons.prems(3) unfolding r by auto
  then show ?case using 1 by (intro exI [of _ h2] exI [of _ free2]) auto
qed simp

section \<open>Whole collections\<close>

text \<open>The state between operations: the cells \<open>D\<close> refer to each other only and are black, a count is the
  number of references from them and of those from outside (\<open>ext\<close>), and the root indices are the positions
  in the candidates.\<close>

definition orc_ok :: "nat set \<Rightarrow> (nat \<Rightarrow> nat) \<Rightarrow> orc \<Rightarrow> bool" where
  "orc_ok D ext w \<longleftrightarrow> (let g = o_cells w in
     closed_heap D g \<and> (\<forall>s\<in>D. col g s = 0) \<and> (\<forall>s\<in>D. cnt g s + 1 = ind g D s + int (ext s)) \<and>
     set (o_roots w) \<subseteq> D \<and> (\<forall>i<length (o_roots w). c_rootIdx (the (g (o_roots w ! i))) = i + 1) \<and>
     (\<forall>s\<in>D. c_rootIdx (the (g s)) \<noteq> 0 \<longrightarrow> s \<in> set (o_roots w)))"

text \<open>A collection does not need the positions of the candidates.\<close>

definition collectable :: "nat set \<Rightarrow> (nat \<Rightarrow> nat) \<Rightarrow> orc \<Rightarrow> bool" where
  "collectable D ext w \<longleftrightarrow> (let g = o_cells w in
     closed_heap D g \<and> (\<forall>s\<in>D. col g s = 0) \<and> (\<forall>s\<in>D. cnt g s + 1 = ind g D s + int (ext s)) \<and>
     set (o_roots w) \<subseteq> D \<and> (\<forall>s\<in>D. c_rootIdx (the (g s)) \<noteq> 0 \<longrightarrow> s \<in> set (o_roots w)))"

lemma orc_ok_collectable: "orc_ok D ext w \<Longrightarrow> collectable D ext w"
  by (auto simp: orc_ok_def collectable_def Let_def)

lemma ind_cong: "(\<And>s. s \<in> S \<Longrightarrow> c_refs (the (g' s)) = c_refs (the (g s))) \<Longrightarrow> ind g' S t = ind g S t"
  unfolding ind_def
proof (rule sum.cong [OF refl])
  fix s assume r: "\<And>s. s \<in> S \<Longrightarrow> c_refs (the (g' s)) = c_refs (the (g s))" and s: "s \<in> S"
  have e: "ents g' s = ents g s" unfolding ents_def by (rule trace_ents [unfolded ents_def, of _ g s "[]", simplified]) (rule r [OF s])
  have "hits g' es t = hits g es t" if "\<forall>e\<in>set es. fst e = s" for es
    using that r [OF s] by (induction es) (simp_all add: tgt_def)
  then show "hits g' (ents g' s) t = hits g (ents g s) t" unfolding e by (auto dest: ents_fst)
qed

lemma hits_total: "finite N \<Longrightarrow> \<forall>e\<in>set es. tgt g e \<in> N \<Longrightarrow> (\<Sum>t\<in>N. hits g es t) = int (length es)"
proof (induction es)
  case (Cons e es)
  have "(\<Sum>t\<in>N. hits g (e # es) t) = (\<Sum>t\<in>N. if tgt g e = t then 1 else 0) + (\<Sum>t\<in>N. hits g es t)"
    by (simp add: sum.distrib)
  then show ?case using Cons by (simp add: sum.delta)
qed simp

text \<open>\<open>rcSum = edges\<close> says that nothing outside refers to \<open>N\<close>.\<close>

lemma all_dead:
  assumes N: "region D g N" and cnt: "\<forall>s\<in>D. cnt g s + 1 = ind g D s + int (ext s)"
    and eq: "(\<Sum>s\<in>N. cnt g s + 1) = (\<Sum>s\<in>N. int (length (ents g s)))"
  shows "seeds D g ext N = {}"
proof -
  have fin: "finite D" "finite N" "N \<subseteq> D" using regionD [OF N] finite_subset by auto
  have "(\<Sum>s\<in>N. int (length (ents g s))) = (\<Sum>s\<in>N. \<Sum>t\<in>N. hits g (ents g s) t)"
    using regionD(4) [OF N] fin by (intro sum.cong) (auto simp: hits_total)
  also have "\<dots> = (\<Sum>t\<in>N. ind g N t)" unfolding ind_def by (rule sum.swap)
  finally have "(\<Sum>s\<in>N. int (length (ents g s))) = (\<Sum>t\<in>N. ind g N t)" .
  moreover have "(\<Sum>s\<in>N. cnt g s + 1) = (\<Sum>t\<in>N. ind g N t + (ind g (D - N) t + int (ext t)))"
    using cnt fin ind_split [OF fin(1,3), of g] by (intro sum.cong) auto
  ultimately have "(\<Sum>t\<in>N. ind g (D - N) t + int (ext t)) = 0" using eq by (simp add: sum.distrib)
  then have "\<forall>t\<in>N. ind g (D - N) t + int (ext t) = 0"
    using fin by (subst (asm) sum_nonneg_eq_0_iff) auto
  then show ?thesis by (auto simp: seeds_def)
qed

lemma free_cells:
  "distinct xs \<Longrightarrow> \<forall>x\<in>set xs. \<exists>c. h x = Some c \<and> list_all (\<lambda>p. p = None) (c_refs c) \<Longrightarrow> each free_cell xs h = Some (\<lambda>s. if s \<in> set xs then None else h s)"
proof (induction xs arbitrary: h)
  case (Cons x xs)
  then have "each free_cell xs (h(x := None)) = Some (\<lambda>s. if s \<in> set xs then None else (h(x := None)) s)"
    by (intro Cons.IH) auto
  moreover have "(\<lambda>s. if s \<in> set xs then None else (h(x := None)) s) = (\<lambda>s. if s \<in> set (x # xs) then None else h s)" by auto
  moreover have "free_cell x h = Some (h(x := None))" using Cons.prems by (auto simp: free_cell_def)
  ultimately show ?case by simp
qed simp

text \<open>The first two phases sort the cells out, by the short cut or by scanning.\<close>

lemma sort_out:
  assumes ok: "collectable D ext w" and g: "g = o_cells w" and M: "set ms \<subseteq> set (o_roots w)" and N: "N = reach g (set ms)"
  shows "\<exists>h j q h' j'. each markGray ms (g, new_env) = Some (h, j) \<and>
    (if rcSum j = edges j then Some (h, j\<lparr>keepThreshold := True\<rparr>, colGray)
     else do { h \<leftarrow> each scan ms h; Some (h, j, colWhite) }) = Some (h', j', q) \<and>
    q \<noteq> 0 \<and> sorted_out D g ext N q h' \<and> region D g N \<and> freed j' = 0 \<and> touched j' = int (card N)"
proof -
  have heap: "closed_heap D g" and black: "\<forall>s\<in>D. col g s = 0" and cnt: "\<forall>s\<in>D. cnt g s + 1 = ind g D s + int (ext s)"
    and R: "set ms \<subseteq> D" using ok M by (auto simp: collectable_def Let_def g)
  have fin: "finite D" using heap by (simp add: closed_heap_def)
  have ND: "N \<subseteq> D" unfolding N by (rule reach_in [OF heap R])
  have reg: "region D g N" using heap ND reach_ents [OF heap] unfolding region_def N by blast
  have RN: "set ms \<subseteq> N" unfolding N by (auto intro: reach.start)
  have p: "paint D g 0 = D" "paint D g 1 = {}" using black by (auto simp: paint_def)
  have "gray_inv D g ext N g new_env []"
    using same_refl [OF heap] black cnt unfolding gray_inv_def p by (auto simp: new_env_def counted_def p)
  from mark_roots [OF reg this RN] obtain h j where mark: "each markGray ms (g, new_env) = Some (h, j)"
    and I: "gray_inv D g ext N h j []" and RG: "set ms \<subseteq> paint D h 1" by auto
  have "N \<subseteq> paint D h 1"
    unfolding N
  proof (rule reach_least)
    show "tgt g e \<in> paint D h 1" if "s \<in> paint D h 1" "e \<in> set (ents g s)" for s e
      using I that tgt_in [OF heap, of s e] by (auto simp: gray_inv_def paint_iff)
  qed (use RG in simp)
  then have G: "paint D h 1 = N" using I by (auto simp: gray_inv_def)
  have S: "same D g h" "counted D g ext h (\<lambda>_. 0)" using I by (simp_all add: gray_inv_def hits_def [abs_def])
  have cols: "\<forall>s\<in>D. col h s = (if s \<in> N then 1 else 0)" using I G by (auto simp: gray_inv_def paint_def)
  have j: "rcSum j = (\<Sum>s\<in>N. cnt g s + 1)" "edges j = (\<Sum>s\<in>N. int (length (ents g s)))" "touched j = int (card N)" "freed j = 0"
    using I by (simp_all add: gray_inv_def G)
  show ?thesis
  proof (cases "rcSum j = edges j")
    case True
    then have seeds: "seeds D g ext N = {}" using all_dead [OF reg cnt] j by simp
    have "reach g {} \<subseteq> {}" by (rule reach_least) auto
    then have "dead D g ext N = N" by (simp add: dead_def seeds)
    then have "sorted_out D g ext N 1 h" using S cols by (simp add: sorted_out_def)
    then show ?thesis using mark reg j True by (auto simp: colGray_def)
  next
    case False
    have "scan_inv D g ext N h (\<lambda>_. 0)" "black_closed N g h []" "white_closed N g h []"
      using S cols ND by (auto simp: scan_inv_def black_closed_def white_closed_def)
    from scan_roots [OF reg this RN] obtain h' where h': "each scan ms h = Some h'"
      "scan_inv D g ext N h' (\<lambda>_. 0)" "black_closed N g h' []" "white_closed N g h' []" "\<forall>s\<in>set ms. col h' s \<noteq> 1" by auto
    then have "sorted_out D g ext N 2 h'" by (intro scan_end [OF reg N])
    then show ?thesis using mark reg j False h'(1) by (auto simp: colWhite_def)
  qed
qed

lemma collect_start:
  assumes N: "region D g N" and S: "sorted_out D g ext N q h"
  shows "collect_inv D g (dead D g ext N) q (cnt h) (\<lambda>s. c_rootIdx (the (g s))) h [] []"
proof -
  have "\<exists>c. h s = Some c \<and> collect_cell g (dead D g ext N) q (cnt h) (\<lambda>s. c_rootIdx (the (g s))) [] [] s c"
    if s: "s \<in> D" for s
  proof -
    have "same D g h" using S by (simp add: sorted_out_def)
    then obtain c where c: "h s = Some c" "c_refs c = c_refs (the (g s))" "c_rootIdx c = c_rootIdx (the (g s))"
      "cnt h s = rc_count c" "col h s = color c" by (rule sameE [OF _ s])
    have "map (field_left g [] [] s) [0..<length (c_refs (the (g s)))] = c_refs (the (g s))"
      by (intro nth_equalityI) (simp_all add: field_left_def)
    then show ?thesis using c S s by (auto simp: collect_cell_def sorted_out_def)
  qed
  then show ?thesis using S by (auto simp: collect_inv_def sorted_out_def same_def)
qed

lemma collectCyclesBacon_ok:
  assumes ok: "collectable D ext w" and g: "g = o_cells w" and N: "N = reach g (set (drop lowMark (o_roots w)))" and W: "W = dead D g ext N"
  shows "\<exists>j w'. collectCyclesBacon new_env lowMark w = Some (j, w') \<and> freed j = int (card W) \<and> touched j = int (card N) \<and>
    o_threshold w' = o_threshold w \<and> o_roots w' = [] \<and> W \<subseteq> D \<and>
    (\<forall>s. s \<notin> D \<longrightarrow> o_cells w' s = g s) \<and> (\<forall>s\<in>W. o_cells w' s = None) \<and>
    (\<forall>s\<in>D - W. \<exists>c. o_cells w' s = Some c \<and> c_refs c = c_refs (the (g s))) \<and> orc_ok (D - W) ext w'"
proof -
  have heap: "closed_heap D g" and R: "set (o_roots w) \<subseteq> D"
    and idx: "\<forall>s\<in>D. c_rootIdx (the (g s)) \<noteq> 0 \<longrightarrow> s \<in> set (o_roots w)"
    using ok by (auto simp: collectable_def Let_def g)
  have M: "set (rev (drop lowMark (o_roots w))) \<subseteq> set (o_roots w)" using set_drop_subset by simp
  have N': "N = reach g (set (rev (drop lowMark (o_roots w))))" by (simp add: N)
  obtain h j q h' j' where mark: "each markGray (rev (drop lowMark (o_roots w))) (g, new_env) = Some (h, j)"
    and scan: "(if rcSum j = edges j then Some (h, j\<lparr>keepThreshold := True\<rparr>, colGray)
      else do { h \<leftarrow> each scan (rev (drop lowMark (o_roots w))) h; Some (h, j, colWhite) }) = Some (h', j', q)"
    and q: "q \<noteq> 0" and S: "sorted_out D g ext N q h'" and reg: "region D g N" and j': "freed j' = 0" "touched j' = int (card N)"
    using sort_out [OF ok g M N'] by blast
  have fin: "finite D" "N \<subseteq> D" using regionD [OF reg] by auto
  have WD: "W \<subseteq> D" "W \<subseteq> N" using fin(2) by (auto simp: W dead_def)
  define r where "r s = (if s \<in> set (o_roots w) then 0 else c_rootIdx (the (g s)))" for s
  have r0: "\<forall>s\<in>D. r s = 0" using idx by (auto simp: r_def)
  have "collect_closed g W (\<lambda>s. c_rootIdx (the (g s))) [] []" by (simp add: collect_closed_def)
  from collect_roots [OF heap WD(1) q collect_start [OF reg S, folded W] this R] obtain h2 free where
    coll: "each (collectRoot q) (o_roots w) (h', []) = Some (h2, free)"
    and I: "collect_inv D g W q (cnt h') r h2 free []" and C: "collect_closed g W r free []" and RF: "W \<inter> set (o_roots w) \<subseteq> set free"
    unfolding r_def by auto
  have "N \<subseteq> {s \<in> D. s \<in> W \<longrightarrow> s \<in> set free}"
    unfolding N
  proof (rule reach_least)
    fix s e assume s: "s \<in> {s \<in> D. s \<in> W \<longrightarrow> s \<in> set free}" "e \<in> set (ents g s)"
    then have t: "tgt g e \<in> D" using tgt_in [OF heap] by blast
    have "tgt g e \<notin> W" if "s \<notin> W" using dead_closed [OF reg _ _ s(2), of ext] s(1) that unfolding W by blast
    moreover have "tgt g e \<in> W \<longrightarrow> tgt g e \<in> set free" if "s \<in> set free"
      using C that s(2) bspec [OF r0 t] unfolding collect_closed_def by (metis empty_iff list.set(1))
    ultimately show "tgt g e \<in> {s \<in> D. s \<in> W \<longrightarrow> s \<in> set free}" using s(1) t by blast
  qed (use R RF in \<open>auto dest: in_set_dropD\<close>)
  then have F: "set free = W" using WD I by (auto simp: collect_inv_def)
  have dist: "distinct free" using I by (simp add: collect_inv_def)
  let ?h = "\<lambda>s. if s \<in> W then None else h2 s"
  have cell: "\<exists>c. h2 s = Some c \<and> collect_cell g W q (cnt h') r free [] s c" if "s \<in> D" for s
    using I that by (auto simp: collect_inv_def)
  have "\<exists>c. h2 s = Some c \<and> list_all (\<lambda>p. p = None) (c_refs c)" if "s \<in> set free" for s
    using cell [of s] that F WD(1) by (fastforce simp: collect_cell_def field_left_def list_all_iff)
  then have free: "each free_cell free h2 = Some ?h"
    using free_cells [OF dist, of h2] unfolding F by fastforce
  define w' where "w' = w\<lparr>o_cells := ?h, o_roots := []\<rparr>"
  have res: "collectCyclesBacon new_env lowMark w = Some (j'\<lparr>toFree := free, freed := freed j' + int (length free)\<rparr>, w')"
    using mark scan coll free by (simp add: collectCyclesBacon_def g w'_def Let_def)
  have left: "\<exists>c. o_cells w' s = Some c \<and> c_refs c = c_refs (the (g s)) \<and> rc_count c = cnt h' s \<and> c_rootIdx c = 0 \<and> color c = 0"
    if "s \<in> D - W" for s
  proof -
    have "s \<notin> set free" using that F by auto
    moreover have "map (field_left g free [] s) [0..<length (c_refs (the (g s)))] = c_refs (the (g s))"
      using \<open>s \<notin> set free\<close> by (intro nth_equalityI) (simp_all add: field_left_def)
    ultimately show ?thesis using cell [of s] that r0 by (auto simp: collect_cell_def w'_def)
  qed
  have refs: "c_refs (the (o_cells w' s)) = c_refs (the (g s))" if "s \<in> D - W" for s using left [OF that] by auto
  have "closed_heap (D - W) (o_cells w')"
    unfolding closed_heap_def
  proof (intro conjI ballI)
    fix s assume s: "s \<in> D - W"
    have "t \<in> D - W" if "Some t \<in> set (c_refs (the (g s)))" for t
      using that s dead_closed [OF reg, of s ext] unfolding tgt_ents W by blast
    then show "\<exists>c. o_cells w' s = Some c \<and> (\<forall>t. Some t \<in> set (c_refs c) \<longrightarrow> t \<in> D - W)" using left [OF s] by fastforce
  qed (use fin in simp)
  moreover have "cnt (o_cells w') s + 1 = ind (o_cells w') (D - W) s + int (ext s)" if "s \<in> D - W" for s
  proof -
    have "paint D h' 0 = D - W" using S q by (auto simp: sorted_out_def paint_def W)
    then have "cnt h' s + 1 = ind g (D - W) s + int (ext s)" using S that by (auto simp: sorted_out_def counted_def)
    moreover have "ind (o_cells w') (D - W) s = ind g (D - W) s" by (rule ind_cong) (rule refs)
    ultimately show ?thesis using left [OF that] by (auto simp: cnt_def)
  qed
  moreover have "col (o_cells w') s = 0" "c_rootIdx (the (o_cells w' s)) = 0" if "s \<in> D - W" for s
    using left [OF that] by (auto simp: col_def)
  ultimately have "orc_ok (D - W) ext w'" by (simp add: orc_ok_def Let_def w'_def)
  moreover have "length free = card W" using distinct_card [OF dist] F by simp
  moreover have "\<forall>s. s \<notin> D \<longrightarrow> o_cells w' s = g s" using I WD by (auto simp: w'_def collect_inv_def)
  moreover have "\<forall>s\<in>D - W. \<exists>c. o_cells w' s = Some c \<and> c_refs c = c_refs (the (g s))" using left by blast
  moreover have "o_threshold w' = o_threshold w" "o_roots w' = []" "\<forall>s\<in>W. o_cells w' s = None" by (simp_all add: w'_def)
  ultimately show ?thesis
    using j' by (intro exI [of _ w'] exI [of _ "j'\<lparr>toFree := free, freed := freed j' + int (length free)\<rparr>"] conjI res WD(1)) simp_all
qed

text \<open>What is reachable from outside is not collected, and if every cell is reachable from outside or from a
  candidate then everything else is.\<close>

lemma dead_unreachable:
  assumes N: "region D g N" and X: "\<forall>s. ext s > 0 \<longrightarrow> s \<in> D"
  shows "reach g {s. ext s > 0} \<subseteq> D - dead D g ext N"
proof (rule reach_least)
  show "{s. ext s > 0} \<subseteq> D - dead D g ext N"
  proof
    fix s assume s: "s \<in> {s. ext s > 0}"
    have "s \<in> seeds D g ext N" if "s \<in> N"
      using s that ind_nonneg [of g "D - N" s] by (simp add: seeds_def del: ind_nonneg)
    then show "s \<in> D - dead D g ext N" using X s by (auto simp: dead_def intro: reach.start)
  qed
qed (use dead_closed [OF N] in blast)

lemma dead_complete:
  assumes N: "region D g N" "N = reach g R" and cov: "D \<subseteq> reach g ({s. ext s > 0} \<union> R)"
    and X: "\<forall>s. ext s > 0 \<longrightarrow> s \<in> D"
  shows "dead D g ext N = D - reach g {s. ext s > 0}"
proof
  let ?L = "reach g {s. ext s > 0}"
  show "dead D g ext N \<subseteq> D - ?L"
    using dead_unreachable [OF N(1) X] regionD(2) [OF N(1)] by (auto simp: dead_def)
  have heap: "closed_heap D g" using N by (simp add: regionD)
  have "reach g ({s. ext s > 0} \<union> R) \<subseteq> ?L \<union> N"
  proof (rule reach_least)
    fix s e assume s: "s \<in> ?L \<union> N" "e \<in> set (ents g s)"
    have "s \<in> D" using s reach_in [OF heap, of "{s. ext s > 0}"] X regionD(2) [OF N(1)] by auto
    then show "tgt g e \<in> ?L \<union> N" using s reach_ents [OF heap, of s "{s. ext s > 0}" e] regionD(4) [OF N(1), of s e] by blast
  qed (auto simp: N(2) intro: reach.start)
  then have DN: "D - ?L \<subseteq> N" using cov by blast
  have "reach g (seeds D g ext N) \<subseteq> ?L \<inter> D"
  proof (rule reach_least)
    show "seeds D g ext N \<subseteq> ?L \<inter> D"
    proof
      fix t assume t: "t \<in> seeds D g ext N"
      then have tD: "t \<in> D" using regionD(2) [OF N(1)] by (auto simp: seeds_def)
      show "t \<in> ?L \<inter> D"
      proof (cases "ext t > 0")
        case False
        then have "0 < ind g (D - N) t" using t by (simp add: seeds_def)
        from ind_pos [OF this] obtain u e where u: "u \<in> D" "u \<notin> N" "e \<in> set (ents g u)" "tgt g e = t" by blast
        then show ?thesis using DN tD reach_ents [OF heap u(1) _ u(3), of "{s. ext s > 0}"] by auto
      qed (use tD in \<open>auto intro: reach.start\<close>)
    qed
  qed (use reach_ents [OF heap] tgt_in [OF heap] in blast)
  then show "D - ?L \<subseteq> dead D g ext N" using DN by (auto simp: dead_def)
qed

lemma orc_okD:
  assumes "orc_ok D ext w"
  shows "closed_heap D (o_cells w)" "s \<in> D \<Longrightarrow> col (o_cells w) s = 0"
    "s \<in> D \<Longrightarrow> cnt (o_cells w) s + 1 = ind (o_cells w) D s + int (ext s)" "set (o_roots w) \<subseteq> D"
    "i < length (o_roots w) \<Longrightarrow> c_rootIdx (the (o_cells w (o_roots w ! i))) = i + 1"
    "s \<in> D \<Longrightarrow> c_rootIdx (the (o_cells w s)) \<noteq> 0 \<Longrightarrow> s \<in> set (o_roots w)"
  using assms by (auto simp: orc_ok_def Let_def)

lemma orc_region: "orc_ok D ext w \<Longrightarrow> region D (o_cells w) (reach (o_cells w) (set (o_roots w)))"
  unfolding region_def using orc_okD(1,4) [of D ext w] reach_in [of D "o_cells w"] reach_ents [of D "o_cells w"] by blast

lemma collectCycles_ok:
  assumes ok: "orc_ok D ext w" and X: "\<forall>s. ext s > 0 \<longrightarrow> s \<in> D"
  shows "\<exists>w' F. collectCycles w = Some w' \<and> orc_ok (D - F) ext w' \<and> o_roots w' = [] \<and> F \<subseteq> D \<and>
    F \<subseteq> reach (o_cells w) (set (o_roots w)) \<and> F \<inter> reach (o_cells w) {s. ext s > 0} = {} \<and>
    (D \<subseteq> reach (o_cells w) ({s. ext s > 0} \<union> set (o_roots w)) \<longrightarrow> F = D - reach (o_cells w) {s. ext s > 0}) \<and>
    (\<forall>s. s \<notin> D \<longrightarrow> o_cells w' s = o_cells w s) \<and> (\<forall>s\<in>F. o_cells w' s = None) \<and>
    (\<forall>s\<in>D - F. \<exists>c. o_cells w' s = Some c \<and> c_refs c = c_refs (the (o_cells w s)))"
proof -
  define F where "F = dead D (o_cells w) ext (reach (o_cells w) (set (o_roots w)))"
  then have F0: "F = dead D (o_cells w) ext (reach (o_cells w) (set (drop 0 (o_roots w))))" by simp
  note reg = orc_region [OF ok]
  obtain j w1 where c: "collectCyclesBacon new_env 0 w = Some (j, w1)" "o_roots w1 = []" "F \<subseteq> D"
      "\<forall>s. s \<notin> D \<longrightarrow> o_cells w1 s = o_cells w s" "\<forall>s\<in>F. o_cells w1 s = None"
      "\<forall>s\<in>D - F. \<exists>c. o_cells w1 s = Some c \<and> c_refs c = c_refs (the (o_cells w s))" "orc_ok (D - F) ext w1"
    using collectCyclesBacon_ok [OF orc_ok_collectable [OF ok] refl refl F0] by blast
  obtain w' where w': "collectCycles w = Some w'" "o_cells w' = o_cells w1" "o_roots w' = o_roots w1"
    by (simp add: collectCycles_def c(1) Let_def)
  have "orc_ok (D - F) ext w'" using c(7) by (simp add: orc_ok_def w'(2,3))
  moreover have "F \<inter> reach (o_cells w) {s. ext s > 0} = {}" using dead_unreachable [OF reg X] by (auto simp: F_def)
  moreover have "F \<subseteq> reach (o_cells w) (set (o_roots w))" by (auto simp: F_def dead_def)
  ultimately show ?thesis
    using c w' dead_complete [OF reg refl _ X] by (intro exI [of _ w'] exI [of _ F]) (simp add: F_def [symmetric])
qed

section \<open>Partial collections\<close>

text \<open>The dead cells of a region are those that nothing outside it leads to.\<close>

lemma dead_region:
  assumes N: "region D g N" and X: "\<forall>s. ext s > 0 \<longrightarrow> s \<in> D"
  shows "dead D g ext N = N - reach g ({s. ext s > 0} \<union> (D - N))"
proof -
  let ?L = "reach g ({s. ext s > 0} \<union> (D - N))"
  have heap: "closed_heap D g" and ND: "N \<subseteq> D" using regionD [OF N] by auto
  have start: "seeds D g ext N \<subseteq> ?L"
  proof
    fix t assume t: "t \<in> seeds D g ext N"
    show "t \<in> ?L"
    proof (cases "ext t > 0")
      case False
      then have "0 < ind g (D - N) t" using t by (simp add: seeds_def)
      from ind_pos [OF this] obtain u e where u: "u \<in> D" "u \<notin> N" "e \<in> set (ents g u)" "tgt g e = t" by blast
      then have "u \<in> ?L" by (auto intro: reach.start)
      then show ?thesis using reach_ents [OF heap u(1) _ u(3)] u(4) by blast
    qed (auto intro: reach.start)
  qed
  have "reach g (seeds D g ext N) \<subseteq> ?L \<inter> D"
  proof (rule reach_least)
    show "seeds D g ext N \<subseteq> ?L \<inter> D" using start ND by (auto simp: seeds_def)
  qed (use reach_ents [OF heap] tgt_in [OF heap] in blast)
  moreover have "?L \<subseteq> D - dead D g ext N"
  proof (rule reach_least)
    show "{s. ext s > 0} \<union> (D - N) \<subseteq> D - dead D g ext N"
      using dead_unreachable [OF N X] by (auto simp: dead_def intro: reach.start)
  qed (use dead_closed [OF N] in blast)
  ultimately show ?thesis by (auto simp: dead_def)
qed

text \<open>\<open>markGray\<close> does not bring back a cell that was freed, so a candidate that was freed has no result.\<close>

lemma grayLoop_none:
  assumes "grayLoop h j es = Some r" and "h t = None"
  shows "fst r t = None"
proof -
  have "h t = None \<longrightarrow> fst r t = None"
  proof (rule grayLoop.raw_induct [where P = "\<lambda>h j es r. h t = None \<longrightarrow> fst r t = None", OF _ assms(1)], intro impI)
    fix f h j es r
    assume IH: "\<And>h j es r. f h j es = Some r \<Longrightarrow> h t = None \<longrightarrow> fst r t = None" and n: "h t = None"
      and f: "(case es of [] \<Rightarrow> Some (h, j)
        | e # es \<Rightarrow> do {
            t \<leftarrow> load h e;
            c \<leftarrow> h t;
            let c = decrement c;
            let j = j\<lparr>edges := edges j + 1\<rparr>;
            if color c \<noteq> colGray then
              (let c = setColor colGray c;
                   j = j\<lparr>touched := touched j + 1, rcSum := rcSum j + rc_count c + 2\<rparr>
               in f (h(t \<mapsto> c)) j (trace t c es))
            else f (h(t \<mapsto> c)) j es
          }) = Some r"
    show "fst r t = None"
    proof (cases es)
      case (Cons e st)
      then obtain u c where u: "load h e = Some u" "h u = Some c" using f by (auto split: Option.bind_splits)
      then have "(h(u \<mapsto> x)) t = None" for x using n by auto
      then show ?thesis using f Cons u IH by (auto simp: Let_def simp del: fun_upd_apply split: if_splits)
    qed (use f n in auto)
  qed
  then show ?thesis using assms(2) by simp
qed

lemma markGray_none: "markGray s (h, j) = Some (h', j') \<Longrightarrow> h t = None \<Longrightarrow> h' t = None \<and> s \<noteq> t"
  by (auto simp: markGray_def Let_def dest!: grayLoop_none [where t = t] split: Option.bind_splits if_splits)

lemma freed_candidate: "t \<in> set ms \<Longrightarrow> h t = None \<Longrightarrow> each markGray ms (h, j) = None"
proof (induction ms arbitrary: h j)
  case (Cons s ms)
  show ?case
  proof (cases "markGray s (h, j)")
    case (Some hj)
    then obtain h1 j1 where 1: "markGray s (h, j) = Some (h1, j1)" by (cases hj) auto
    from markGray_none [OF 1 Cons.prems(2)] have "h1 t = None" "t \<in> set ms" using Cons.prems(1) by auto
    then show ?thesis using Cons.IH 1 by simp
  qed simp
qed simp

lemma collectCycles_freed: "t \<in> set (o_roots w) \<Longrightarrow> o_cells w t = None \<Longrightarrow> collectCycles w = None"
  by (simp add: collectCycles_def collectCyclesBacon_def freed_candidate [of t])

lemma collectCycles_defined: "collectable D ext w \<Longrightarrow> collectCycles w \<noteq> None"
  using collectCyclesBacon_ok [OF _ refl refl refl, of D ext w 0] by (auto simp: collectCycles_def Let_def)

lemma partialCollect_ok:
  assumes ok: "orc_ok D ext w" and X: "\<forall>s. ext s > 0 \<longrightarrow> s \<in> D" and low: "lowMark \<le> length (o_roots w)"
    and N: "N = reach (o_cells w) (set (drop lowMark (o_roots w)))"
    and F: "F = N - reach (o_cells w) ({s. ext s > 0} \<union> (D - N))"
  shows "\<exists>w'. partialCollect lowMark w = Some w' \<and> o_roots w' = take lowMark (o_roots w) \<and>
    (\<forall>s\<in>F. o_cells w' s = None) \<and> (\<forall>s. s \<notin> D \<longrightarrow> o_cells w' s = o_cells w s) \<and>
    (\<forall>s\<in>D - F. \<exists>c. o_cells w' s = Some c \<and> c_refs c = c_refs (the (o_cells w s)) \<and> c_rootIdx c = 0) \<and>
    orc_ok (D - F) ext (w'\<lparr>o_roots := []\<rparr>) \<and>
    (collectCycles w' = None \<longleftrightarrow> set (take lowMark (o_roots w)) \<inter> F \<noteq> {})"
proof -
  let ?g = "o_cells w"
  have heap: "closed_heap D ?g" and roots: "set (o_roots w) \<subseteq> D" using orc_okD [OF ok] by auto
  have "set (drop lowMark (o_roots w)) \<subseteq> D" using roots by (auto dest: in_set_dropD)
  then have "region D ?g N" unfolding region_def N using heap reach_in [OF heap] reach_ents [OF heap] by blast
  from dead_region [OF this X] have W: "F = dead D ?g ext N" by (simp add: F)
  obtain j w1 where c: "collectCyclesBacon new_env lowMark w = Some (j, w1)" "o_roots w1 = []"
      "\<forall>s. s \<notin> D \<longrightarrow> o_cells w1 s = ?g s" "\<forall>s\<in>F. o_cells w1 s = None"
      "\<forall>s\<in>D - F. \<exists>c. o_cells w1 s = Some c \<and> c_refs c = c_refs (the (?g s))" "orc_ok (D - F) ext w1"
    using collectCyclesBacon_ok [OF orc_ok_collectable [OF ok] refl N W] by blast
  define w' where "w' = w1\<lparr>o_roots := take lowMark (o_roots w)\<rparr>"
  have w': "partialCollect lowMark w = Some w'" using low by (simp add: partialCollect_def c(1) w'_def)
  have idx: "c_rootIdx (the (o_cells w1 s)) = 0" if "s \<in> D - F" for s using orc_okD(6) [OF c(6) that] c(2) by auto
  have "collectCycles w' = None" if "set (take lowMark (o_roots w)) \<inter> F \<noteq> {}"
  proof -
    from that obtain t where "t \<in> set (o_roots w')" "o_cells w' t = None" using c(4) by (auto simp: w'_def)
    then show ?thesis by (rule collectCycles_freed)
  qed
  moreover have "collectCycles w' \<noteq> None" if "set (take lowMark (o_roots w)) \<inter> F = {}"
  proof (rule collectCycles_defined)
    have "set (take lowMark (o_roots w)) \<subseteq> D - F" using that roots by (auto dest: in_set_takeD)
    then show "collectable (D - F) ext w'"
      using orc_ok_collectable [OF c(6)] c(2) by (auto simp: collectable_def Let_def w'_def)
  qed
  moreover have "orc_ok (D - F) ext (w'\<lparr>o_roots := []\<rparr>)" using c(6) c(2) by (simp add: orc_ok_def Let_def w'_def)
  moreover have "\<forall>s\<in>D - F. \<exists>c. o_cells w' s = Some c \<and> c_refs c = c_refs (the (?g s)) \<and> c_rootIdx c = 0"
    using c(5) idx by (fastforce simp: w'_def)
  moreover have "o_roots w' = take lowMark (o_roots w)" "\<forall>s\<in>F. o_cells w' s = None" "\<forall>s. s \<notin> D \<longrightarrow> o_cells w' s = ?g s"
    using c(3,4) by (simp_all add: w'_def)
  ultimately show ?thesis using w' by (intro exI [of _ w'] conjI) (assumption | blast)+
qed

end
