(* ===== verification/Nim_Refs.thy ===== *)
theory Nim_Refs
  imports Nim_Orc
begin

text \<open>
  References under \<open>--mm:orc\<close>: counting and the registration of candidates (\<open>lib/system/orc.nim\<close>,
  \<open>arc.nim\<close>), and the hooks the compiler generates for a reference (\<open>compiler/liftdestructors.nim\<close>):
  assignment, move, and destruction, whose recursion through the fields is an explicit list of what is
  left to release.  Programs are sequences of operations on variables and fields.  The lemmas show that
  every operation keeps the state the collector relies on, even when a collection runs in the middle of
  a destruction, and the properties that a program never sees a freed cell and never leaks one.
\<close>

unbundle bit_operations_syntax

section \<open>Counting\<close>

definition nimIncRefCyclic :: "nat \<Rightarrow> orc \<Rightarrow> orc option" where
  "nimIncRefCyclic p w = do { c \<leftarrow> o_cells w p; Some (w\<lparr>o_cells := (o_cells w)(p \<mapsto> increment c)\<rparr>) }"

text \<open>\<open>unregisterCycle\<close> moves the last candidate to the place of the one that goes.\<close>

definition unregisterCycle :: "nat \<Rightarrow> orc \<Rightarrow> orc option" where
  "unregisterCycle s w = do {
     c \<leftarrow> o_cells w s;
     let rootIdx = c_rootIdx c;
     if rootIdx = 0 \<or> o_roots w = [] then None
     else do {
       let idx = rootIdx - 1;
       let last = length (o_roots w) - 1;
       l \<leftarrow> mem_get last (o_roots w);
       roots \<leftarrow> mem_set idx l (o_roots w);
       d \<leftarrow> o_cells w l;
       let h = (o_cells w)(l \<mapsto> d\<lparr>c_rootIdx := rootIdx\<rparr>);
       c \<leftarrow> h s;
       Some (w\<lparr>o_roots := take last roots, o_cells := h(s \<mapsto> c\<lparr>c_rootIdx := 0\<rparr>)\<rparr>)
     }
   }"

definition registerCycle :: "nat \<Rightarrow> orc \<Rightarrow> orc option" where
  "registerCycle s w = do {
     c \<leftarrow> o_cells w s;
     let w = w\<lparr>o_cells := (o_cells w)(s \<mapsto> c\<lparr>c_rootIdx := length (o_roots w) + 1\<rparr>), o_roots := o_roots w @ [s]\<rparr>;
     if int (length (o_roots w)) - defaultThreshold \<ge> o_threshold w then collectCycles w else Some w
   }"

definition acyclicFlag :: int where
  "acyclicFlag = 1"

definition rememberCycle :: "int \<Rightarrow> bool \<Rightarrow> nat \<Rightarrow> orc \<Rightarrow> orc option" where
  "rememberCycle flags isDestroyAction s w = do {
     c \<leftarrow> o_cells w s;
     if isDestroyAction then
       if c_rootIdx c > 0 then unregisterCycle s w else Some w
     else if c_rootIdx c = 0 \<and> flags AND acyclicFlag = 0 then
       registerCycle s (w\<lparr>o_cells := (o_cells w)(s \<mapsto> setColor colBlack c)\<rparr>)
     else Some w
   }"

definition nimDecRefIsLastCyclicStatic :: "int \<Rightarrow> nat option \<Rightarrow> orc \<Rightarrow> (bool \<times> orc) option" where
  "nimDecRefIsLastCyclicStatic flags p w =
     (case p of
        None \<Rightarrow> Some (False, w)
      | Some p \<Rightarrow> do {
          c \<leftarrow> o_cells w p;
          let result = (c_rc c AND NOT rcMask = 0);
          let w = (if result then w else w\<lparr>o_cells := (o_cells w)(p \<mapsto> decrement c)\<rparr>);
          w \<leftarrow> rememberCycle flags result p w;
          Some (result, w)
        })"

section \<open>Hooks\<close>

text \<open>What is left of a destruction: a field to release, or a cell whose fields are done.\<close>

datatype todo = Release nat nat | Dispose nat

definition nimRawDispose :: "nat \<Rightarrow> cells \<Rightarrow> cells option" where
  "nimRawDispose s h = do { c \<leftarrow> h s; Some (h(s := None)) }"

definition destroy_fields :: "nat \<Rightarrow> RefHeader \<Rightarrow> todo list" where
  "destroy_fields s c = map (Release s) (rev [0..<length (c_refs c)]) @ [Dispose s]"

partial_function (option) destroyLoop :: "int \<Rightarrow> todo list \<Rightarrow> orc \<Rightarrow> orc option" where
  "destroyLoop flags todo w =
     (case todo of
        [] \<Rightarrow> Some w
      | Release s i # todo \<Rightarrow> do {
          c \<leftarrow> o_cells w s;
          p \<leftarrow> mem_get i (c_refs c);
          (isLast, w) \<leftarrow> nimDecRefIsLastCyclicStatic flags p w;
          if isLast then do { q \<leftarrow> p; d \<leftarrow> o_cells w q; destroyLoop flags (destroy_fields q d @ todo) w }
          else destroyLoop flags todo w
        }
      | Dispose s # todo \<Rightarrow> do {
          h \<leftarrow> nimRawDispose s (o_cells w);
          destroyLoop flags todo (w\<lparr>o_cells := h\<rparr>)
        })"

definition ref_destroy :: "int \<Rightarrow> nat option \<Rightarrow> orc \<Rightarrow> orc option" where
  "ref_destroy flags p w = do {
     (isLast, w) \<leftarrow> nimDecRefIsLastCyclicStatic flags p w;
     if isLast then do { q \<leftarrow> p; d \<leftarrow> o_cells w q; destroyLoop flags (destroy_fields q d) w } else Some w
   }"

section \<open>Programs\<close>

text \<open>A place is a variable or a field of the cell a variable refers to.\<close>

datatype place = Var nat | Field nat nat

datatype ref_op =
  NewObj nat nat nat | AssignNil place | Assign place place | Move nat nat | EndScope nat | RunOrc | EnableOrc | DisableOrc

record refs =
  r_orc :: orc
  r_vars :: "nat option list"

fun read_place :: "place \<Rightarrow> refs \<Rightarrow> nat option option" where
  "read_place (Var x) st = mem_get x (r_vars st)"
| "read_place (Field x i) st = do { p \<leftarrow> mem_get x (r_vars st); s \<leftarrow> p; c \<leftarrow> o_cells (r_orc st) s; mem_get i (c_refs c) }"

fun write_place :: "place \<Rightarrow> nat option \<Rightarrow> refs \<Rightarrow> refs option" where
  "write_place (Var x) v st = do { vs \<leftarrow> mem_set x v (r_vars st); Some (st\<lparr>r_vars := vs\<rparr>) }"
| "write_place (Field x i) v st = do {
     p \<leftarrow> mem_get x (r_vars st);
     s \<leftarrow> p;
     c \<leftarrow> o_cells (r_orc st) s;
     fs \<leftarrow> mem_set i v (c_refs c);
     Some (st\<lparr>r_orc := r_orc st\<lparr>o_cells := (o_cells (r_orc st))(s \<mapsto> c\<lparr>c_refs := fs\<rparr>)\<rparr>\<rparr>)
   }"

definition on_orc :: "(orc \<Rightarrow> orc option) \<Rightarrow> refs \<Rightarrow> refs option" where
  "on_orc f st = do { w \<leftarrow> f (r_orc st); Some (st\<lparr>r_orc := w\<rparr>) }"

text \<open>The hook for an assignment of \<open>y\<close>: the new value is stored before the old one is released.\<close>

definition ref_copy :: "place \<Rightarrow> nat option \<Rightarrow> refs \<Rightarrow> refs option" where
  "ref_copy dest y st = do {
     tmp \<leftarrow> read_place dest st;
     st \<leftarrow> (case y of None \<Rightarrow> Some st | Some p \<Rightarrow> on_orc (nimIncRefCyclic p) st);
     st \<leftarrow> write_place dest y st;
     on_orc (ref_destroy 0 tmp) st
   }"

definition ref_sink :: "place \<Rightarrow> nat option \<Rightarrow> refs \<Rightarrow> refs option" where
  "ref_sink dest y st = do {
     tmp \<leftarrow> read_place dest st;
     st \<leftarrow> write_place dest y st;
     on_orc (ref_destroy 0 tmp) st
   }"

text \<open>The allocator returns a cell of zeros.\<close>

definition nimNewObj :: "nat \<Rightarrow> nat \<Rightarrow> orc \<Rightarrow> orc option" where
  "nimNewObj a n w =
     (if o_cells w a = None
      then Some (w\<lparr>o_cells := (o_cells w)(a \<mapsto> \<lparr>c_rc = 0, c_rootIdx = 0, c_refs = replicate n None\<rparr>)\<rparr>)
      else None)"

definition GC_enableOrc :: "orc \<Rightarrow> orc" where
  "GC_enableOrc w = w\<lparr>o_threshold := 0\<rparr>"

definition GC_disableOrc :: "orc \<Rightarrow> orc" where
  "GC_disableOrc w = w\<lparr>o_threshold := high_int\<rparr>"

fun run_ref :: "ref_op \<Rightarrow> refs \<Rightarrow> refs option" where
  "run_ref (NewObj x a n) st = do { st \<leftarrow> on_orc (nimNewObj a n) st; ref_sink (Var x) (Some a) st }"
| "run_ref (AssignNil dest) st = ref_copy dest None st"
| "run_ref (Assign dest src) st = do { y \<leftarrow> read_place src st; ref_copy dest y st }"
| "run_ref (Move x y) st = do {
     v \<leftarrow> read_place (Var y) st;
     st \<leftarrow> ref_sink (Var x) v st;
     write_place (Var y) None st
   }"
| "run_ref (EndScope x) st = do {
     v \<leftarrow> read_place (Var x) st;
     st \<leftarrow> on_orc (ref_destroy 0 v) st;
     write_place (Var x) None st
   }"
| "run_ref RunOrc st = on_orc collectCycles st"
| "run_ref EnableOrc st = on_orc (\<lambda>w. Some (GC_enableOrc w)) st"
| "run_ref DisableOrc st = on_orc (\<lambda>w. Some (GC_disableOrc w)) st"

section \<open>Graphs that agree\<close>

definition agree :: "nat set \<Rightarrow> cells \<Rightarrow> cells \<Rightarrow> bool" where
  "agree D g g' \<longleftrightarrow> (\<forall>s\<in>D. \<exists>c. g' s = Some c \<and> c_refs c = c_refs (the (g s)))"

lemma agree_refl: "closed_heap D g \<Longrightarrow> agree D g g"
  by (auto simp: agree_def closed_heap_def)

lemma agree_trans: "agree D g g1 \<Longrightarrow> agree D' g1 g2 \<Longrightarrow> D' \<subseteq> D \<Longrightarrow> agree D' g g2"
  unfolding agree_def by (metis option.sel subsetD)

lemma agree_upd: "agree D g g' \<Longrightarrow> c_refs c = c_refs (the (g t)) \<Longrightarrow> agree D g (g'(t \<mapsto> c))"
  by (auto simp: agree_def)

lemma agree_closed: "closed_heap D g \<Longrightarrow> agree D g g' \<Longrightarrow> closed_heap D g'"
  unfolding closed_heap_def agree_def by (metis option.sel)

lemma agree_ind: "agree D g g' \<Longrightarrow> S \<subseteq> D \<Longrightarrow> ind g' S t = ind g S t"
  by (rule ind_cong) (metis agree_def option.sel subsetD)

lemma agree_sym: "closed_heap D g \<Longrightarrow> agree D g g' \<Longrightarrow> agree D g' g"
  unfolding agree_def closed_heap_def by (metis option.sel)

lemma agree_reach_sub:
  assumes "closed_heap D g" "X \<subseteq> D" "agree D g g'"
  shows "reach g X \<subseteq> reach g' X"
proof -
  have "reach g X \<subseteq> reach g' X \<inter> D"
  proof (rule reach_least)
    fix s e assume s: "s \<in> reach g' X \<inter> D" "e \<in> set (ents g s)"
    obtain c where c: "g' s = Some c" "c_refs c = c_refs (the (g s))" using assms(3) s by (auto simp: agree_def)
    have "Some (tgt g e) \<in> set (c_refs c)" using tgt_ents [of "tgt g e" g s] s(2) unfolding c(2) by blast
    then show "tgt g e \<in> reach g' X \<inter> D"
      using reach.follow [of s g' X, OF _ c(1)] s tgt_in [OF assms(1), of s e] by blast
  qed (use assms(2) in \<open>auto intro: reach.start\<close>)
  then show ?thesis by blast
qed

lemma agree_reach: "closed_heap D g \<Longrightarrow> X \<subseteq> D \<Longrightarrow> agree D g g' \<Longrightarrow> reach g' X = reach g X"
  using agree_reach_sub [of D g X g'] agree_reach_sub [of D g' X g] agree_closed agree_sym by blast

lemma reach_mono: "X \<subseteq> Y \<Longrightarrow> reach g X \<subseteq> reach g Y"
proof
  show "s \<in> reach g Y" if "s \<in> reach g X" "X \<subseteq> Y" for s
    using that by (induction rule: reach.induct) (auto intro: reach.intros)
qed

lemma hits_count: "hits g (ents g s) t = int (count_list (c_refs (the (g s))) (Some t))"
proof -
  let ?fs = "c_refs (the (g s))"
  have "hits g (rev (map (Pair s) (filter (\<lambda>i. ?fs ! i \<noteq> None) [0..<n]))) t = int (count_list (take n ?fs) (Some t))"
    if "n \<le> length ?fs" for n
    using that by (induction n) (auto simp: take_Suc_conv_app_nth tgt_def)
  from this [of "length ?fs"] show ?thesis by (simp add: ents_def trace_def)
qed

text \<open>The state of the counts: as the collector relies on it, with every cell reachable from outside or from
  a candidate.\<close>

definition good :: "nat set \<Rightarrow> (nat \<Rightarrow> nat) \<Rightarrow> orc \<Rightarrow> bool" where
  "good D ext w \<longleftrightarrow> orc_ok D ext w \<and> (\<forall>s. ext s > 0 \<longrightarrow> s \<in> D) \<and>
     D \<subseteq> reach (o_cells w) ({s. ext s > 0} \<union> set (o_roots w))"

text \<open>Only cells of \<open>D\<close> change, those that are not in \<open>D'\<close> are gone, the others keep their fields.\<close>

definition evolves :: "nat set \<Rightarrow> nat set \<Rightarrow> orc \<Rightarrow> orc \<Rightarrow> bool" where
  "evolves D D' w w' \<longleftrightarrow> D' \<subseteq> D \<and> (\<forall>s. s \<notin> D \<longrightarrow> o_cells w' s = o_cells w s) \<and>
     (\<forall>s\<in>D - D'. o_cells w' s = None) \<and> agree D' (o_cells w) (o_cells w')"

lemma evolves_trans: "evolves D D1 w w1 \<Longrightarrow> evolves D1 D2 w1 w2 \<Longrightarrow> evolves D D2 w w2"
  unfolding evolves_def using agree_trans [of D1 "o_cells w" "o_cells w1" D2 "o_cells w2"]
  by (metis DiffD1 DiffD2 DiffI subset_trans subsetD)

lemma goodD:
  assumes "good D ext w"
  shows "orc_ok D ext w" "closed_heap D (o_cells w)" "ext s > 0 \<Longrightarrow> s \<in> D" "{s. ext s > 0} \<union> set (o_roots w) \<subseteq> D"
    "D \<subseteq> reach (o_cells w) ({s. ext s > 0} \<union> set (o_roots w))"
  using assms orc_okD(1,4) [of D ext w] by (auto simp: good_def)

lemma collect_good:
  assumes G: "good D ext w"
  shows "\<exists>w'. collectCycles w = Some w' \<and> good (reach (o_cells w) {s. ext s > 0}) ext w' \<and>
    evolves D (reach (o_cells w) {s. ext s > 0}) w w' \<and>
    reach (o_cells w') {s. ext s > 0} = reach (o_cells w) {s. ext s > 0}"
proof -
  let ?L = "reach (o_cells w) {s. ext s > 0}"
  have X: "\<forall>s. ext s > 0 \<longrightarrow> s \<in> D" using G by (simp add: good_def)
  obtain w' F where w': "collectCycles w = Some w'" "orc_ok (D - F) ext w'" "o_roots w' = []"
      "D \<subseteq> reach (o_cells w) ({s. ext s > 0} \<union> set (o_roots w)) \<longrightarrow> F = D - ?L"
      "\<forall>s. s \<notin> D \<longrightarrow> o_cells w' s = o_cells w s" "\<forall>s\<in>F. o_cells w' s = None"
      "\<forall>s\<in>D - F. \<exists>c. o_cells w' s = Some c \<and> c_refs c = c_refs (the (o_cells w s))"
    using collectCycles_ok [OF goodD(1) [OF G] X] by blast
  have F: "F = D - ?L" using w'(4) goodD(5) [OF G] by blast
  have LD: "?L \<subseteq> D" by (rule reach_in [OF goodD(2) [OF G]]) (use X in auto)
  then have D': "D - F = ?L" unfolding F by blast
  have ag: "agree ?L (o_cells w) (o_cells w')" using w'(7) unfolding D' agree_def .
  have "evolves D ?L w w'" using w'(5,6) ag LD unfolding evolves_def F by blast
  moreover have "reach (o_cells w') {s. ext s > 0} = ?L"
  proof (rule agree_reach)
    show "closed_heap ?L (o_cells w)"
      unfolding closed_heap_def
    proof (intro conjI ballI)
      show "finite ?L" using LD goodD(2) [OF G] finite_subset by (auto simp: closed_heap_def)
      fix s assume s: "s \<in> ?L"
      then obtain c where "o_cells w s = Some c" using LD goodD(2) [OF G] unfolding closed_heap_def by blast
      with s show "\<exists>c. o_cells w s = Some c \<and> (\<forall>t. Some t \<in> set (c_refs c) \<longrightarrow> t \<in> ?L)" by (auto intro: reach.follow)
    qed
  qed (use ag in \<open>auto intro: reach.start\<close>)
  ultimately show ?thesis using w'(1,2,3) unfolding D' good_def by (auto intro: reach.start)
qed

section \<open>Counting keeps the state\<close>

lemma last_reference: "c_rc c AND NOT rcMask = 0 \<longleftrightarrow> rc_count c = 0"
proof -
  have bit: "bit (x AND NOT 15) i \<longleftrightarrow> bit x i \<and> 4 \<le> i" for x :: int and i
  proof -
    have "(15 :: int) = mask 4" by (simp add: mask_eq_exp_minus_1)
    then show ?thesis unfolding bit_and_iff bit_not_int_iff by (simp only: bit_mask_iff) auto
  qed
  have "drop_bit 4 x = 0 \<longleftrightarrow> (\<forall>i. 4 \<le> i \<longrightarrow> \<not> bit x i)" for x :: int
    unfolding bit_eq_iff by (auto simp: bit_simps) (metis le_add_diff_inverse)
  then show ?thesis unfolding rcMask_def rc_count_def rcShift_def bit_eq_iff [of _ "0 :: int"] bit by auto
qed

text \<open>A change of one cell's header that fits a change of the references from outside.\<close>

lemma orc_ok_header:
  assumes ok: "orc_ok D ext w" and p: "p \<in> D" "o_cells w p = Some c"
    and c': "c_refs c' = c_refs c" "c_rootIdx c' = c_rootIdx c" "color c' = 0"
    and ext': "rc_count c' = rc_count c + int (ext' p) - int (ext p)" "\<And>s. s \<noteq> p \<Longrightarrow> ext' s = ext s"
  shows "orc_ok D ext' (w\<lparr>o_cells := (o_cells w)(p \<mapsto> c')\<rparr>)" "agree D (o_cells w) ((o_cells w)(p \<mapsto> c'))"
proof -
  have ag: "agree D (o_cells w) ((o_cells w)(p \<mapsto> c'))"
    using agree_upd [OF agree_refl [OF orc_okD(1) [OF ok]]] p(2) c'(1) by auto
  then show "agree D (o_cells w) ((o_cells w)(p \<mapsto> c'))" .
  have "cnt ((o_cells w)(p \<mapsto> c')) s + 1 = ind ((o_cells w)(p \<mapsto> c')) D s + int (ext' s)" if "s \<in> D" for s
    unfolding agree_ind [OF ag subset_refl] using orc_okD(3) [OF ok that] p(2) ext' by (cases "s = p") (auto simp: cnt_def)
  moreover have "c_rootIdx (the (((o_cells w)(p \<mapsto> c')) s)) = c_rootIdx (the (o_cells w s))" for s
    using p(2) c'(2) by simp
  ultimately show "orc_ok D ext' (w\<lparr>o_cells := (o_cells w)(p \<mapsto> c')\<rparr>)"
    using agree_closed [OF orc_okD(1) [OF ok] ag] orc_okD(2,4-) [OF ok] c'(3) by (auto simp: orc_ok_def Let_def)
qed

lemma good_header:
  assumes G: "good D ext w" and p: "p \<in> D" "o_cells w p = Some c"
    and c': "c_refs c' = c_refs c" "c_rootIdx c' = c_rootIdx c" "color c' = 0"
    and ext': "rc_count c' = rc_count c + int (ext' p) - int (ext p)" "\<And>s. s \<noteq> p \<Longrightarrow> ext' s = ext s"
    and cov: "ext' p > 0 \<or> p \<in> set (o_roots w) \<or> ext p = 0"
  shows "good D ext' (w\<lparr>o_cells := (o_cells w)(p \<mapsto> c')\<rparr>)" "evolves D D w (w\<lparr>o_cells := (o_cells w)(p \<mapsto> c')\<rparr>)"
proof -
  note H = orc_ok_header [OF goodD(1) [OF G] p c' ext']
  have sub: "{s. ext s > 0} \<union> set (o_roots w) \<subseteq> {s. ext' s > 0} \<union> set (o_roots w)"
    using ext'(2) cov by (metis (mono_tags, lifting) Un_iff gr0I mem_Collect_eq subsetI)
  have X: "{s. ext' s > 0} \<union> set (o_roots w) \<subseteq> D"
  proof
    fix x assume "x \<in> {s. ext' s > 0} \<union> set (o_roots w)"
    then show "x \<in> D" using goodD(4) [OF G] p(1) ext'(2) [of x] by (cases "x = p") auto
  qed
  have R: "D \<subseteq> reach ((o_cells w)(p \<mapsto> c')) ({s. ext' s > 0} \<union> set (o_roots w))"
    using subset_trans [OF goodD(5) [OF G] reach_mono [OF sub]] agree_reach [OF goodD(2) [OF G] X H(2)] by simp
  have "\<forall>s. ext' s > 0 \<longrightarrow> s \<in> D" using X by blast
  then show "good D ext' (w\<lparr>o_cells := (o_cells w)(p \<mapsto> c')\<rparr>)" using H(1) R by (simp add: good_def)
  show "evolves D D w (w\<lparr>o_cells := (o_cells w)(p \<mapsto> c')\<rparr>)" using H(2) p(1) by (auto simp: evolves_def)
qed

lemma cellE:
  assumes "closed_heap D g" "s \<in> D"
  obtains c where "g s = Some c" "\<And>t. Some t \<in> set (c_refs c) \<Longrightarrow> t \<in> D"
  using assms unfolding closed_heap_def by blast

lemma inc_good:
  assumes G: "good D ext w" and p: "p \<in> D"
  shows "\<exists>w'. nimIncRefCyclic p w = Some w' \<and> good D (ext(p := ext p + 1)) w' \<and> evolves D D w w'"
proof -
  obtain c where c: "o_cells w p = Some c" by (rule cellE [OF goodD(2) [OF G] p])
  have "color c = 0" using orc_okD(2) [OF goodD(1) [OF G] p] c by (simp add: col_def)
  then show ?thesis
    using good_header [OF G p c, of "increment c" "ext(p := ext p + 1)"] by (simp add: nimIncRefCyclic_def c)
qed

lemma roots_distinct:
  assumes ok: "orc_ok D ext w" and i: "i < length (o_roots w)" and j: "j < length (o_roots w)" and eq: "o_roots w ! i = o_roots w ! j"
  shows "i = j"
proof -
  have "i + 1 = j + 1" using orc_okD(5) [OF ok i] orc_okD(5) [OF ok j] unfolding eq by metis
  then show ?thesis by simp
qed

text \<open>Removing a candidate: the others keep their indices, but for the last one, which takes its place.\<close>

lemma unregister_ok:
  assumes ok: "orc_ok D ext w" and s: "s \<in> D" "c_rootIdx (the (o_cells w s)) > 0"
  shows "\<exists>w'. unregisterCycle s w = Some w' \<and> orc_ok D ext w' \<and> set (o_roots w') = set (o_roots w) - {s} \<and>
    agree D (o_cells w) (o_cells w') \<and> (\<forall>u. u \<notin> D \<longrightarrow> o_cells w' u = o_cells w u)"
proof -
  let ?r = "o_roots w" and ?g = "o_cells w"
  obtain c where c: "?g s = Some c" by (rule cellE [OF orc_okD(1) [OF ok] s(1)])
  have "s \<in> set ?r" by (rule orc_okD(6) [OF ok s(1)]) (use s(2) in simp)
  then obtain idx where i: "idx < length ?r" "?r ! idx = s" by (auto simp: in_set_conv_nth)
  note idx = i orc_okD(5) [OF ok i(1), unfolded i(2) c option.sel]
  define last where "last = length ?r - 1"
  define l where "l = ?r ! last"
  have last: "last < length ?r" "idx \<le> last" using idx(1) by (auto simp: last_def)
  have lD: "l \<in> D" using orc_okD(4) [OF ok] last(1) nth_mem unfolding l_def by blast
  obtain d where d: "?g l = Some d" by (rule cellE [OF orc_okD(1) [OF ok] lD])
  define h where "h = ?g(l \<mapsto> d\<lparr>c_rootIdx := idx + 1\<rparr>)"
  obtain c1 where c1: "h s = Some c1" "c_refs c1 = c_refs c" "c_rc c1 = c_rc c"
    using c d by (cases "s = l") (auto simp: h_def)
  define g' where "g' = h(s \<mapsto> c1\<lparr>c_rootIdx := 0\<rparr>)"
  define r' where "r' = take last (?r[idx := l])"
  define w' where "w' = w\<lparr>o_roots := r', o_cells := g'\<rparr>"
  have ne: "?r \<noteq> []" using idx(1) by auto
  have last_Suc: "length ?r - Suc 0 = last" by (simp add: last_def)
  have m: "mem_get last ?r = Some l" "mem_set idx l ?r = Some (?r[idx := l])"
    using idx(1) last(1) by (simp_all add: mem_get_def mem_set_def l_def)
  have "unregisterCycle s w = do {
      c \<leftarrow> h s; Some (w\<lparr>o_roots := r', o_cells := h(s \<mapsto> c\<lparr>c_rootIdx := 0\<rparr>)\<rparr>) }"
    using ne m by (simp add: unregisterCycle_def c idx(3) Let_def d h_def r'_def last_Suc)
  then have res: "unregisterCycle s w = Some w'" by (simp add: c1(1) w'_def g'_def)
  have "agree D ?g h" unfolding h_def using agree_upd [OF agree_refl [OF orc_okD(1) [OF ok]]] d by auto
  then have ag: "agree D ?g g'" unfolding g'_def by (rule agree_upd) (use c1 c in simp)
  have rc: "c_rc (the (g' u)) = c_rc (the (?g u))" for u using c d c1 by (auto simp: g'_def h_def)
  have root: "c_rootIdx (the (g' u)) = (if u = s then 0 else if u = l then idx + 1 else c_rootIdx (the (?g u)))" for u
    by (auto simp: g'_def h_def)
  have at: "r' ! j = (if j = idx then l else ?r ! j)" if "j < last" for j using that last by (simp add: r'_def nth_list_update)
  have len: "length r' = last" using last by (simp add: r'_def)
  have nq: "?r ! j \<noteq> s" "?r ! j \<noteq> l" if "j < last" "j \<noteq> idx" for j
    using roots_distinct [OF ok, of j idx] roots_distinct [OF ok, of j last] that idx(1,2) last(1) by (auto simp: l_def)
  have ls: "l \<noteq> s" if "idx < last" using roots_distinct [OF ok, of idx last] that idx(1,2) last(1) by (auto simp: l_def)
  have r'_iff: "u \<in> set r' \<longleftrightarrow> u \<in> set ?r \<and> u \<noteq> s" for u
  proof
    assume "u \<in> set r'"
    then obtain j where j: "j < last" "u = r' ! j" using len by (auto simp: in_set_conv_nth)
    then show "u \<in> set ?r \<and> u \<noteq> s"
      using at [OF j(1)] nq [OF j(1)] ls last(1) nth_mem [of j ?r] nth_mem [of last ?r] by (auto simp: l_def)
  next
    assume u: "u \<in> set ?r \<and> u \<noteq> s"
    then obtain j where j: "j < length ?r" "u = ?r ! j" by (auto simp: in_set_conv_nth)
    have ji: "j \<noteq> idx" using u j(2) idx(2) by auto
    define k where "k = (if j = last then idx else j)"
    have k: "k < last" "r' ! k = u" using j ji last at [of k] by (auto simp: k_def l_def last_def)
    then show "u \<in> set r'" using len nth_mem by metis
  qed
  have "orc_ok D ext w'"
    unfolding orc_ok_def Let_def
  proof (intro conjI ballI allI impI)
    show "closed_heap D (o_cells w')" using agree_closed [OF orc_okD(1) [OF ok] ag] by (simp add: w'_def)
    show "col (o_cells w') u = 0" if "u \<in> D" for u using orc_okD(2) [OF ok that] rc [of u] by (simp add: w'_def col_def color_def)
    show "cnt (o_cells w') u + 1 = ind (o_cells w') D u + int (ext u)" if "u \<in> D" for u
      using orc_okD(3) [OF ok that] rc [of u] agree_ind [OF ag subset_refl] by (simp add: w'_def cnt_def rc_count_def)
    show "set (o_roots w') \<subseteq> D" using r'_iff orc_okD(4) [OF ok] by (auto simp: w'_def)
    show "c_rootIdx (the (o_cells w' (o_roots w' ! i))) = i + 1" if "i < length (o_roots w')" for i
    proof -
      have i: "i < last" using that len by (simp add: w'_def)
      then show ?thesis using at [OF i] nq [OF i] ls orc_okD(5) [OF ok, of i] last(1) by (auto simp: w'_def root)
    qed
    show "u \<in> set (o_roots w')" if "u \<in> D" "c_rootIdx (the (o_cells w' u)) \<noteq> 0" for u
    proof -
      have us: "u \<noteq> s" using that(2) by (auto simp: w'_def root)
      have "u \<in> set ?r"
        using that(2) us orc_okD(6) [OF ok that(1)] nth_mem [OF last(1)] by (auto simp: w'_def root l_def split: if_splits)
      then show ?thesis using us by (simp add: w'_def r'_iff)
    qed
  qed
  moreover have "\<forall>u. u \<notin> D \<longrightarrow> g' u = ?g u" using lD s(1) by (auto simp: g'_def h_def)
  ultimately show ?thesis
    using ag r'_iff by (intro exI [of _ w'] conjI res) (auto simp: w'_def)
qed

lemma register_good:
  assumes ok: "orc_ok D ext w" and X: "\<forall>s. ext s > 0 \<longrightarrow> s \<in> D" and s: "s \<in> D" "c_rootIdx (the (o_cells w s)) = 0"
    and cov: "D \<subseteq> reach (o_cells w) ({s. ext s > 0} \<union> insert s (set (o_roots w)))"
  shows "\<exists>w' D'. registerCycle s w = Some w' \<and> good D' ext w' \<and> evolves D D' w w'"
proof -
  obtain c where c: "o_cells w s = Some c" by (rule cellE [OF orc_okD(1) [OF ok] s(1)])
  let ?g = "(o_cells w)(s \<mapsto> c\<lparr>c_rootIdx := length (o_roots w) + 1\<rparr>)"
  define w1 where "w1 = w\<lparr>o_cells := ?g, o_roots := o_roots w @ [s]\<rparr>"
  have ag: "agree D (o_cells w) ?g" by (rule agree_upd [OF agree_refl [OF orc_okD(1) [OF ok]]]) (simp add: c)
  have new: "s \<notin> set (o_roots w)" using orc_okD(5) [OF ok] s(2) by (fastforce simp: in_set_conv_nth)
  then have old: "o_roots w ! i \<noteq> s" if "i < length (o_roots w)" for i using that nth_mem by metis
  have hd: "cnt ?g u = cnt (o_cells w) u" "col ?g u = col (o_cells w) u" for u using c by (auto simp: cnt_def col_def)
  have ok1: "orc_ok D ext w1"
    unfolding orc_ok_def Let_def
  proof (intro conjI ballI allI impI)
    show "closed_heap D (o_cells w1)" using agree_closed [OF orc_okD(1) [OF ok] ag] by (simp add: w1_def)
    show "col (o_cells w1) u = 0" if "u \<in> D" for u using orc_okD(2) [OF ok that] hd(2) by (simp add: w1_def)
    show "cnt (o_cells w1) u + 1 = ind (o_cells w1) D u + int (ext u)" if "u \<in> D" for u
      using orc_okD(3) [OF ok that] hd(1) [of u] agree_ind [OF ag subset_refl] by (simp add: w1_def)
    show "set (o_roots w1) \<subseteq> D" using orc_okD(4) [OF ok] s(1) by (simp add: w1_def)
    show "c_rootIdx (the (o_cells w1 (o_roots w1 ! i))) = i + 1" if "i < length (o_roots w1)" for i
      using that orc_okD(5) [OF ok, of i] old [of i] by (auto simp: w1_def nth_append less_Suc_eq)
    show "u \<in> set (o_roots w1)" if "u \<in> D" "c_rootIdx (the (o_cells w1 u)) \<noteq> 0" for u
      using that orc_okD(6) [OF ok that(1)] by (auto simp: w1_def split: if_splits)
  qed
  have XR: "{s. ext s > 0} \<union> insert s (set (o_roots w)) \<subseteq> D" using X s(1) orc_okD(4) [OF ok] by auto
  have "reach ?g ({s. ext s > 0} \<union> insert s (set (o_roots w))) = reach (o_cells w) ({s. ext s > 0} \<union> insert s (set (o_roots w)))"
    by (rule agree_reach [OF orc_okD(1) [OF ok] XR ag])
  then have G1: "good D ext w1" using ok1 X cov by (simp add: good_def w1_def)
  have ev: "evolves D D w w1" using ag s(1) by (auto simp: evolves_def w1_def)
  have "registerCycle s w = (if int (length (o_roots w1)) - defaultThreshold \<ge> o_threshold w1 then collectCycles w1 else Some w1)"
    by (simp add: registerCycle_def c w1_def Let_def)
  then show ?thesis
    using collect_good [OF G1] G1 ev evolves_trans [OF ev] by (auto split: if_splits)
qed

text \<open>Releasing the last reference to a cell: it leaves the counted cells, and its fields are references from
  outside now.\<close>

definition field_refs :: "cells \<Rightarrow> nat \<Rightarrow> nat \<Rightarrow> nat" where
  "field_refs g s t = count_list (c_refs (the (g s))) (Some t)"

lemma field_refs_pos: "field_refs g s t > 0 \<longleftrightarrow> Some t \<in> set (c_refs (the (g s)))"
  unfolding field_refs_def by (metis count_list_0_iff gr0I less_irrefl)

lemma drop_last:
  assumes G: "good D ext w" and p: "ext p > 0" "cnt (o_cells w) p = 0"
    and w': "orc_ok D ext w'" "set (o_roots w') = set (o_roots w) - {p}" "agree D (o_cells w) (o_cells w')"
  shows "good (D - {p}) (\<lambda>t. (ext(p := ext p - 1)) t + field_refs (o_cells w) p t) w'"
proof -
  let ?g = "o_cells w" and ?g' = "o_cells w'" and ?ext = "\<lambda>t. (ext(p := ext p - 1)) t + field_refs (o_cells w) p t"
  have pD: "p \<in> D" using goodD(3) [OF G p(1)] .
  have heap: "closed_heap D ?g" and fin: "finite D" using goodD(2) [OF G] by (auto simp: closed_heap_def)
  have "cnt ?g p + 1 = ind ?g D p + int (ext p)" by (rule orc_okD(3) [OF goodD(1) [OF G] pD])
  then have one: "ind ?g D p = 0" "ext p = 1" using p ind_nonneg [of ?g D p] by linarith+
  have no: "t \<noteq> p" if "s \<in> D" "Some t \<in> set (c_refs (the (?g s)))" for s t
    using that ind_edge [OF fin that(1), of _ ?g] one(1) unfolding tgt_ents by force
  have refs: "c_refs (the (?g' s)) = c_refs (the (?g s))" if "s \<in> D" for s using w'(3) that by (force simp: agree_def)
  have fr: "t \<in> D - {p}" if "field_refs ?g p t > 0" for t
  proof -
    have "Some t \<in> set (c_refs (the (?g p)))" using that by (simp add: field_refs_pos)
    then show ?thesis using no [OF pD] pD heap by (force simp: closed_heap_def)
  qed
  have X: "\<forall>t. ?ext t > 0 \<longrightarrow> t \<in> D - {p}"
  proof (intro allI impI)
    fix t assume t: "?ext t > 0"
    show "t \<in> D - {p}" using t fr [of t] goodD(3) [OF G, of t] one(2) by (cases "t = p") auto
  qed
  have heap': "closed_heap D ?g'" by (rule agree_closed [OF heap w'(3)])
  have ok: "orc_ok (D - {p}) ?ext w'"
    unfolding orc_ok_def Let_def
  proof (intro conjI ballI allI impI)
    show "closed_heap (D - {p}) ?g'"
      unfolding closed_heap_def
    proof (intro conjI ballI)
      fix s assume s: "s \<in> D - {p}"
      then obtain c where c: "?g' s = Some c" "\<And>t. Some t \<in> set (c_refs c) \<Longrightarrow> t \<in> D" using cellE [OF heap'] by (metis DiffD1)
      then show "\<exists>c. ?g' s = Some c \<and> (\<forall>t. Some t \<in> set (c_refs c) \<longrightarrow> t \<in> D - {p})" using no [of s] refs [of s] s by auto
    qed (use fin in simp)
    show "col ?g' s = 0" if "s \<in> D - {p}" for s using orc_okD(2) [OF w'(1), of s] that by simp
    show "cnt ?g' s + 1 = ind ?g' (D - {p}) s + int (?ext s)" if "s \<in> D - {p}" for s
      using orc_okD(3) [OF w'(1), of s] that ind_remove [OF fin pD, of ?g' s] refs [OF pD]
      by (simp add: hits_count field_refs_def)
    show "set (o_roots w') \<subseteq> D - {p}" using w'(2) orc_okD(4) [OF goodD(1) [OF G]] by auto
    show "c_rootIdx (the (?g' (o_roots w' ! i))) = i + 1" if "i < length (o_roots w')" for i by (rule orc_okD(5) [OF w'(1) that])
    show "s \<in> set (o_roots w')" if "s \<in> D - {p}" "c_rootIdx (the (?g' s)) \<noteq> 0" for s
      using orc_okD(6) [OF w'(1), of s] that by simp
  qed
  let ?Y = "{t. ?ext t > 0} \<union> set (o_roots w')"
  have "reach ?g ({s. ext s > 0} \<union> set (o_roots w)) \<subseteq> insert p (reach ?g' ?Y \<inter> D)"
  proof (rule reach_least)
    show "{s. ext s > 0} \<union> set (o_roots w) \<subseteq> insert p (reach ?g' ?Y \<inter> D)"
      using goodD(4) [OF G] w'(2) by (auto intro!: reach.start)
    fix s e assume s: "s \<in> insert p (reach ?g' ?Y \<inter> D)" "e \<in> set (ents ?g s)"
    have t: "Some (tgt ?g e) \<in> set (c_refs (the (?g s)))" using s(2) tgt_ents by blast
    have sD: "s \<in> D" using s(1) pD by auto
    have tD: "tgt ?g e \<in> D" by (rule tgt_in [OF heap sD s(2)])
    show "tgt ?g e \<in> insert p (reach ?g' ?Y \<inter> D)"
    proof (cases "s = p")
      case True
      then have "field_refs ?g p (tgt ?g e) > 0" using t by (simp add: field_refs_pos)
      then show ?thesis using tD by (auto intro!: reach.start)
    next
      case False
      obtain c where "?g' s = Some c" "c_refs c = c_refs (the (?g s))" using w'(3) sD by (auto simp: agree_def)
      then show ?thesis using reach.follow [of s ?g' ?Y c "tgt ?g e"] t False s(1) tD by auto
    qed
  qed
  then have "D - {p} \<subseteq> reach ?g' ?Y" using goodD(5) [OF G] by blast
  then show ?thesis using ok X unfolding good_def by blast
qed

lemma decref_good:
  assumes G: "good D ext w" and p: "ext p > 0"
  shows "\<exists>isLast w'. nimDecRefIsLastCyclicStatic 0 (Some p) w = Some (isLast, w') \<and>
    (if isLast then good (D - {p}) (\<lambda>t. (ext(p := ext p - 1)) t + field_refs (o_cells w) p t) w' \<and>
        agree D (o_cells w) (o_cells w') \<and> (\<forall>s. s \<notin> D \<longrightarrow> o_cells w' s = o_cells w s)
     else \<exists>D'. good D' (ext(p := ext p - 1)) w' \<and> evolves D D' w w')"
proof -
  note ok = goodD(1) [OF G] and heap = goodD(2) [OF G]
  have pD: "p \<in> D" using goodD(3) [OF G p] .
  obtain c where c: "o_cells w p = Some c" by (rule cellE [OF heap pD])
  have k: "cnt (o_cells w) p = rc_count c" by (simp add: cnt_def c)
  have black: "color c = 0" using orc_okD(2) [OF ok pD] by (simp add: col_def c)
  show ?thesis
  proof (cases "rc_count c = 0")
    case True
    have "\<exists>w'. rememberCycle 0 True p w = Some w' \<and> orc_ok D ext w' \<and> set (o_roots w') = set (o_roots w) - {p} \<and>
      agree D (o_cells w) (o_cells w') \<and> (\<forall>u. u \<notin> D \<longrightarrow> o_cells w' u = o_cells w u)"
    proof (cases "c_rootIdx c > 0")
      case True
      then show ?thesis using unregister_ok [OF ok pD] by (simp add: rememberCycle_def c)
    next
      case False
      then have "p \<notin> set (o_roots w)" using orc_okD(5) [OF ok] c by (fastforce simp: in_set_conv_nth)
      then show ?thesis using False ok agree_refl [OF heap] by (auto simp: rememberCycle_def c)
    qed
    then obtain w' where w': "rememberCycle 0 True p w = Some w'" "orc_ok D ext w'" "set (o_roots w') = set (o_roots w) - {p}"
      "agree D (o_cells w) (o_cells w')" "\<forall>u. u \<notin> D \<longrightarrow> o_cells w' u = o_cells w u" by blast
    have "cnt (o_cells w) p = 0" using True k by simp
    then show ?thesis
      using drop_last [OF G p _ w'(2,3,4)] w'(1,4,5) True
      by (intro exI [of _ True] exI [of _ w']) (simp add: nimDecRefIsLastCyclicStatic_def c last_reference)
  next
    case False
    let ?ext = "ext(p := ext p - 1)" and ?c = "decrement c"
    define w1 where "w1 = w\<lparr>o_cells := (o_cells w)(p \<mapsto> ?c)\<rparr>"
    have start: "nimDecRefIsLastCyclicStatic 0 (Some p) w = do { w \<leftarrow> rememberCycle 0 False p w1; Some (False, w) }"
      using False by (simp add: nimDecRefIsLastCyclicStatic_def c last_reference w1_def)
    have h: "rc_count ?c = rc_count c + int (?ext p) - int (ext p)" "\<And>s. s \<noteq> p \<Longrightarrow> ?ext s = ext s" using p by auto
    show ?thesis
    proof (cases "c_rootIdx c = 0")
      case True
      let ?c2 = "setColor 0 ?c"
      define w2 where "w2 = w\<lparr>o_cells := (o_cells w)(p \<mapsto> ?c2)\<rparr>"
      have c2: "c_refs ?c2 = c_refs c" "c_rootIdx ?c2 = c_rootIdx c" "color ?c2 = 0" by simp_all
      have k2: "rc_count ?c2 = rc_count c + int (?ext p) - int (ext p)" using p by simp
      have ok2: "orc_ok D ?ext w2" unfolding w2_def by (rule orc_ok_header(1) [where ext' = ?ext, OF ok pD c c2 k2]) simp
      have "agree D (o_cells w) ((o_cells w)(p \<mapsto> ?c2))" by (rule orc_ok_header(2) [where ext' = ?ext, OF ok pD c c2 k2]) simp
      then have ag2: "agree D (o_cells w) (o_cells w2)" by (simp add: w2_def)
      have X: "\<forall>s. ?ext s > 0 \<longrightarrow> s \<in> D" using goodD(3) [OF G] pD by auto
      have sub: "{s. ext s > 0} \<union> set (o_roots w) \<subseteq> {s. ?ext s > 0} \<union> insert p (set (o_roots w))" by auto
      have YD: "{s. ?ext s > 0} \<union> insert p (set (o_roots w)) \<subseteq> D" using X pD goodD(4) [OF G] by auto
      have r2: "c_rootIdx (the (o_cells w2 p)) = 0" "o_roots w2 = o_roots w" using True by (simp_all add: w2_def)
      have cov: "D \<subseteq> reach (o_cells w2) ({s. ?ext s > 0} \<union> insert p (set (o_roots w)))"
        unfolding agree_reach [OF heap YD ag2] by (rule subset_trans [OF goodD(5) [OF G] reach_mono [OF sub]])
      obtain w' D' where r: "registerCycle p w2 = Some w'" "good D' ?ext w'" "evolves D D' w2 w'"
        using register_good [OF ok2 X pD r2(1)] cov unfolding r2(2) by blast
      have "evolves D D w w2" using ag2 pD by (auto simp: evolves_def w2_def)
      then have "evolves D D' w w'" using r(3) by (rule evolves_trans)
      then have "\<exists>D'. good D' ?ext w' \<and> evolves D D' w w'" using r(2) by blast
      moreover have "rememberCycle 0 False p w1 = registerCycle p w2"
        using True by (simp add: rememberCycle_def w1_def w2_def colBlack_def)
      ultimately show ?thesis unfolding start r(1) by (intro exI [of _ False] exI [of _ w']) (simp add: r(1))
    next
      case root: False
      have "p \<in> set (o_roots w)" by (rule orc_okD(6) [OF ok pD]) (use root c in simp)
      then have cv: "?ext p > 0 \<or> p \<in> set (o_roots w) \<or> ext p = 0" by simp
      have c1: "c_refs ?c = c_refs c" "c_rootIdx ?c = c_rootIdx c" "color ?c = 0" using black by simp_all
      have "good D ?ext w1" "evolves D D w w1"
        unfolding w1_def by (rule good_header [where ext' = ?ext, OF G pD c c1 h(1) _ cv], simp)+
      moreover have "rememberCycle 0 False p w1 = Some w1" using root by (simp add: rememberCycle_def w1_def)
      ultimately have "\<exists>D'. good D' ?ext w1 \<and> evolves D D' w w1" "rememberCycle 0 False p w1 = Some w1" by blast+
      then show ?thesis unfolding start by (intro exI [of _ False] exI [of _ w1]) simp
    qed
  qed
qed

section \<open>Destruction\<close>

fun pend :: "cells \<Rightarrow> todo list \<Rightarrow> nat \<Rightarrow> nat" where
  "pend g [] t = 0"
| "pend g (Release s i # td) t = (if c_refs (the (g s)) ! i = Some t then 1 else 0) + pend g td t"
| "pend g (Dispose s # td) t = pend g td t"

fun mentions :: "todo list \<Rightarrow> nat set" where
  "mentions [] = {}"
| "mentions (Release s i # td) = insert s (mentions td)"
| "mentions (Dispose s # td) = insert s (mentions td)"

fun todo_ok :: "nat set \<Rightarrow> cells \<Rightarrow> todo list \<Rightarrow> bool" where
  "todo_ok D g [] \<longleftrightarrow> True"
| "todo_ok D g (Release s i # td) \<longleftrightarrow>
     s \<notin> D \<and> (\<exists>c. g s = Some c \<and> i < length (c_refs c)) \<and> s \<in> mentions td \<and> todo_ok D g td"
| "todo_ok D g (Dispose s # td) \<longleftrightarrow> s \<notin> D \<and> g s \<noteq> None \<and> s \<notin> mentions td \<and> todo_ok D g td"

lemma todo_frame:
  assumes "todo_ok D g td" "D' \<subseteq> D" "\<forall>s\<in>mentions td. g' s = g s"
  shows "todo_ok D' g' td" "pend g' td = pend g td" "mentions td \<inter> D = {}"
proof -
  show "todo_ok D' g' td" using assms by (induction td rule: mentions.induct) auto
  show "pend g' td = pend g td" using assms(3) by (induction td rule: mentions.induct) (auto simp: fun_eq_iff)
  show "mentions td \<inter> D = {}" using assms(1) by (induction td rule: mentions.induct) auto
qed

lemma destroy_fields_ok:
  assumes s: "g s = Some c" "s \<notin> D" and td: "todo_ok D g td" "s \<notin> mentions td"
  shows "todo_ok D g (destroy_fields s c @ td)" "pend g (destroy_fields s c @ td) t = field_refs g s t + pend g td t"
    "mentions (destroy_fields s c @ td) = insert s (mentions td)"
proof -
  let ?fs = "c_refs c"
  have m: "mentions (map (Release s) xs @ Dispose s # td) = insert s (mentions td)" for xs by (induction xs) auto
  have "todo_ok D g (map (Release s) xs @ Dispose s # td)" if "\<forall>i\<in>set xs. i < length ?fs" for xs
    using that s td by (induction xs) (auto simp: m)
  then show "todo_ok D g (destroy_fields s c @ td)" by (simp add: destroy_fields_def)
  show "mentions (destroy_fields s c @ td) = insert s (mentions td)" by (simp add: destroy_fields_def m)
  have "pend g (map (Release s) (rev [0..<n]) @ Dispose s # td) t = count_list (take n ?fs) (Some t) + pend g td t"
    if "n \<le> length ?fs" for n
    using that s(1) by (induction n) (auto simp: take_Suc_conv_app_nth)
  from this [of "length ?fs"] show "pend g (destroy_fields s c @ td) t = field_refs g s t + pend g td t"
    by (simp add: destroy_fields_def field_refs_def s(1))
qed

text \<open>Like \<open>evolves\<close>, with the cells \<open>M\<close> that are being destroyed: they are gone in the end.\<close>

definition cleans :: "nat set \<Rightarrow> nat set \<Rightarrow> nat set \<Rightarrow> orc \<Rightarrow> orc \<Rightarrow> bool" where
  "cleans D M D' w w' \<longleftrightarrow> D' \<subseteq> D \<and> (\<forall>s. s \<notin> D \<union> M \<longrightarrow> o_cells w' s = o_cells w s) \<and>
     (\<forall>s\<in>(D - D') \<union> M. o_cells w' s = None) \<and> agree D' (o_cells w) (o_cells w')"

lemma cleansI:
  assumes "cleans D1 M1 D' w1 w'" "D1 \<union> M1 \<subseteq> D \<union> M" "D1 \<subseteq> D" "agree D1 (o_cells w) (o_cells w1)"
    and "\<forall>s. s \<notin> D \<union> M \<longrightarrow> o_cells w1 s = o_cells w s" "\<forall>s \<in> (D \<union> M) - (D1 \<union> M1). o_cells w1 s = None" "M \<inter> D = {}"
  shows "cleans D M D' w w'"
  unfolding cleans_def
proof (intro conjI allI impI ballI)
  show "D' \<subseteq> D" using assms(1,3) by (auto simp: cleans_def)
  show "agree D' (o_cells w) (o_cells w')"
    using assms(1,4) agree_trans [of D1 "o_cells w" "o_cells w1" D'] by (auto simp: cleans_def)
  show "o_cells w' s = o_cells w s" if "s \<notin> D \<union> M" for s
    using that assms(1,2,5) unfolding cleans_def by (metis subsetD)
  show "o_cells w' s = None" if s: "s \<in> (D - D') \<union> M" for s
  proof (cases "s \<in> D1 \<union> M1")
    case True
    have "D' \<subseteq> D1" using assms(1) by (simp add: cleans_def)
    then have "s \<in> (D1 - D') \<union> M1" using True s assms(3,7) by blast
    then show ?thesis using assms(1) by (simp add: cleans_def)
  next
    case False
    then have "o_cells w1 s = None" using assms(6) s by blast
    then show ?thesis using False assms(1) by (simp add: cleans_def)
  qed
qed

definition effort :: "cells \<Rightarrow> nat set \<Rightarrow> todo list \<Rightarrow> nat" where
  "effort g D td = (\<Sum>s\<in>D. length (c_refs (the (g s))) + 2) + length td"

lemma effort_agree:
  assumes "finite D" "D' \<subseteq> D" "agree D' g g'"
  shows "effort g' D' td \<le> effort g D td"
proof -
  have "(\<Sum>s\<in>D'. length (c_refs (the (g' s))) + 2) = (\<Sum>s\<in>D'. length (c_refs (the (g s))) + 2)"
    using assms(3) by (intro sum.cong) (force simp: agree_def)+
  also have "\<dots> \<le> (\<Sum>s\<in>D. length (c_refs (the (g s))) + 2)" using assms by (intro sum_mono2) auto
  finally show ?thesis by (simp add: effort_def)
qed

lemma effort_drop:
  assumes "finite D" "p \<in> D" "agree D g g'" "g' p = Some d"
  shows "effort g' (D - {p}) (destroy_fields p d @ td) < effort g D (Release s i # td)"
proof -
  have "length (c_refs d) = length (c_refs (the (g p)))" using assms(2,3,4) by (force simp: agree_def)
  moreover have "effort g' (D - {p}) [] \<le> effort g (D - {p}) []"
    by (rule effort_agree) (use assms in \<open>auto simp: agree_def\<close>)
  moreover have "effort g D [] = length (c_refs (the (g p))) + 2 + effort g (D - {p}) []"
    unfolding effort_def sum.remove [OF assms(1,2)] by simp
  moreover have "effort g' (D - {p}) (destroy_fields p d @ td) = effort g' (D - {p}) [] + length (c_refs d) + 1 + length td"
    "effort g D (Release s i # td) = effort g D [] + 1 + length td" by (simp_all add: effort_def destroy_fields_def)
  ultimately show ?thesis by linarith
qed

lemma good_frame:
  assumes G: "good D ext w" and same: "\<forall>s\<in>D. o_cells w' s = o_cells w s" "o_roots w' = o_roots w"
  shows "good D ext w'"
proof -
  let ?g = "o_cells w" and ?g' = "o_cells w'"
  note ok = goodD(1) [OF G] and heap = goodD(2) [OF G]
  have ag: "agree D ?g ?g'" using agree_refl [OF heap] same(1) by (simp add: agree_def)
  have "orc_ok D ext w'"
    unfolding orc_ok_def Let_def
  proof (intro conjI ballI allI impI)
    show "cnt ?g' s + 1 = ind ?g' D s + int (ext s)" if "s \<in> D" for s
      using orc_okD(3) [OF ok that] same(1) that agree_ind [OF ag subset_refl] by (simp add: cnt_def)
    show "c_rootIdx (the (?g' (o_roots w' ! i))) = i + 1" if "i < length (o_roots w')" for i
    proof -
      have "o_roots w ! i \<in> D" using that orc_okD(4) [OF ok] nth_mem [of i "o_roots w"] same(2) by auto
      then show ?thesis using orc_okD(5) [OF ok, of i] same that by simp
    qed
  qed (use agree_closed [OF heap ag] orc_okD(2,4,6) [OF ok] same in \<open>auto simp: col_def\<close>)
  then show ?thesis
    using G agree_reach [OF heap goodD(4) [OF G] ag] by (simp add: good_def same(2))
qed

lemma destroyLoop_ok:
  assumes "good D (\<lambda>t. x t + pend (o_cells w) td t) w" "todo_ok D (o_cells w) td"
  shows "\<exists>w' D'. destroyLoop 0 td w = Some w' \<and> good D' x w' \<and> cleans D (mentions td) D' w w'"
  using assms
proof (induction "effort (o_cells w) D td" arbitrary: D w td rule: less_induct)
  case less
  note G = less.prems(1) and T = less.prems(2)
  have fin: "finite D" using goodD(2) [OF G] by (simp add: closed_heap_def)
  have disj: "mentions td \<inter> D = {}" using todo_frame(3) [OF T] by blast
  consider (Nil) "td = []" | (Rel) s i td' where "td = Release s i # td'" | (Disp) s td' where "td = Dispose s # td'"
    by (metis list.exhaust todo.exhaust)
  then show ?case
  proof cases
    case Nil
    then show ?thesis
      using G agree_refl [OF goodD(2) [OF G]] by (subst destroyLoop.simps) (auto simp: cleans_def)
  next
    case (Disp s td')
    let ?w = "w\<lparr>o_cells := (o_cells w)(s := None)\<rparr>"
    have s: "s \<notin> D" "o_cells w s \<noteq> None" "s \<notin> mentions td'" "todo_ok D (o_cells w) td'" using T Disp by auto
    have ag: "agree D (o_cells w) (o_cells ?w)" using goodD(2) [OF G] s(1) by (auto simp: agree_def closed_heap_def)
    have F: "todo_ok D (o_cells ?w) td'" "pend (o_cells ?w) td' = pend (o_cells w) td'"
      using todo_frame(1,2) [OF s(4) subset_refl, of "o_cells ?w"] s(3) by auto
    have "good D (\<lambda>t. x t + pend (o_cells ?w) td' t) ?w"
      unfolding F(2) using good_frame [OF G, of ?w] s(1) Disp by simp
    moreover have "effort (o_cells ?w) D td' < effort (o_cells w) D td"
      using effort_agree [OF fin subset_refl ag, of td'] by (simp add: effort_def Disp)
    ultimately obtain w' D' where r: "destroyLoop 0 td' ?w = Some w'" "good D' x w'" "cleans D (mentions td') D' ?w w'"
      using less.hyps F(1) by blast
    have "cleans D (mentions td) D' w w'"
      by (rule cleansI [OF r(3) _ subset_refl ag]) (use disj s in \<open>auto simp: Disp\<close>)
    then show ?thesis
      using r s(2) by (subst destroyLoop.simps) (auto simp: Disp nimRawDispose_def)
  next
    case (Rel s i td')
    have s: "s \<notin> D" "s \<in> mentions td'" "todo_ok D (o_cells w) td'" using T Rel by auto
    obtain c where c: "o_cells w s = Some c" "i < length (c_refs c)" using T Rel by auto
    have M: "mentions td = mentions td'" using s(2) by (auto simp: Rel)
    have get: "mem_get i (c_refs c) = Some (c_refs c ! i)" using c(2) by (simp add: mem_get_def)
    show ?thesis
    proof (cases "c_refs c ! i")
      case None
      have "effort (o_cells w) D td' < effort (o_cells w) D td" by (simp add: effort_def Rel)
      moreover have "good D (\<lambda>t. x t + pend (o_cells w) td' t) w" using G None by (simp add: Rel c(1))
      ultimately obtain w' D' where r: "destroyLoop 0 td' w = Some w'" "good D' x w'" "cleans D (mentions td') D' w w'"
        using less.hyps s(3) by blast
      have "destroyLoop 0 td w = destroyLoop 0 td' w"
        by (subst destroyLoop.simps) (simp add: Rel c(1) get None nimDecRefIsLastCyclicStatic_def)
      then show ?thesis using r M by auto
    next
      case (Some p)
      let ?ext = "\<lambda>t. x t + pend (o_cells w) td t"
      have pos: "?ext p > 0" by (simp add: Rel c(1) Some)
      have ext': "?ext(p := ?ext p - 1) = (\<lambda>t. x t + pend (o_cells w) td' t)" by (auto simp: Rel c(1) Some fun_eq_iff)
      have pD: "p \<in> D" using goodD(3) [OF G pos] .
      obtain isLast w1 where dec: "nimDecRefIsLastCyclicStatic 0 (Some p) w = Some (isLast, w1)"
        and d: "if isLast then good (D - {p}) (\<lambda>t. (?ext(p := ?ext p - 1)) t + field_refs (o_cells w) p t) w1 \<and>
            agree D (o_cells w) (o_cells w1) \<and> (\<forall>s. s \<notin> D \<longrightarrow> o_cells w1 s = o_cells w s)
          else \<exists>D'. good D' (?ext(p := ?ext p - 1)) w1 \<and> evolves D D' w w1"
        using decref_good [OF G pos] by blast
      show ?thesis
      proof (cases isLast)
        case True
        have d1: "good (D - {p}) (\<lambda>t. x t + pend (o_cells w) td' t + field_refs (o_cells w) p t) w1"
          "agree D (o_cells w) (o_cells w1)" "\<forall>s. s \<notin> D \<longrightarrow> o_cells w1 s = o_cells w s"
          using d True unfolding ext' by auto
        obtain d' where d': "o_cells w1 p = Some d'" "c_refs d' = c_refs (the (o_cells w p))"
          using d1(2) pD by (auto simp: agree_def)
        let ?td = "destroy_fields p d' @ td'"
        have "p \<notin> mentions td'" using disj pD M by auto
        have fr: "\<forall>s\<in>mentions td'. o_cells w1 s = o_cells w s" using d1(3) disj M by auto
        note F = todo_frame(1,2) [OF s(3) Diff_subset [of D "{p}"] fr]
        have pn: "p \<notin> D - {p}" by simp
        note DF = destroy_fields_ok [OF d'(1) pn F(1) \<open>p \<notin> mentions td'\<close>]
        have "field_refs (o_cells w1) p = field_refs (o_cells w) p" using d' by (simp add: field_refs_def fun_eq_iff)
        then have "good (D - {p}) (\<lambda>t. x t + pend (o_cells w1) ?td t) w1"
          using d1(1) unfolding DF(2) F(2) by (simp add: add.assoc add.commute add.left_commute)
        moreover have "effort (o_cells w1) (D - {p}) ?td < effort (o_cells w) D td"
          unfolding Rel by (rule effort_drop [OF fin pD d1(2) d'(1)])
        ultimately obtain w' D' where r: "destroyLoop 0 ?td w1 = Some w'" "good D' x w'" "cleans (D - {p}) (mentions ?td) D' w1 w'"
          using less.hyps DF(1) by blast
        have "agree (D - {p}) (o_cells w) (o_cells w1)" using d1(2) by (auto simp: agree_def)
        then have "cleans D (mentions td) D' w w'"
          by (rule cleansI [OF r(3)[unfolded DF(3)], rotated 2]) (use pD M disj d1(3) in auto)
        moreover have "destroyLoop 0 td w = destroyLoop 0 ?td w1"
          using dec True d'(1) by (subst destroyLoop.simps) (simp add: Rel c(1) get Some)
        ultimately show ?thesis using r by auto
      next
        case False
        obtain D1 where d1: "good D1 (\<lambda>t. x t + pend (o_cells w) td' t) w1" "evolves D D1 w w1"
          using d False unfolding ext' by auto
        have fr: "\<forall>s\<in>mentions td'. o_cells w1 s = o_cells w s" using d1(2) disj M by (auto simp: evolves_def)
        have D1: "D1 \<subseteq> D" "agree D1 (o_cells w) (o_cells w1)" using d1(2) by (auto simp: evolves_def)
        note F = todo_frame(1,2) [OF s(3) D1(1) fr]
        have "effort (o_cells w1) D1 td' < effort (o_cells w) D td"
          using effort_agree [OF fin D1, of td'] by (simp add: effort_def Rel)
        then obtain w' D' where r: "destroyLoop 0 td' w1 = Some w'" "good D' x w'" "cleans D1 (mentions td') D' w1 w'"
          using less.hyps d1(1) F by metis
        have "cleans D (mentions td) D' w w'"
          by (rule cleansI [OF r(3) _ D1]) (use d1(2) M disj in \<open>auto simp: evolves_def\<close>)
        moreover have "destroyLoop 0 td w = destroyLoop 0 td' w1"
          using dec False by (subst destroyLoop.simps) (simp add: Rel c(1) get Some)
        ultimately show ?thesis using r by auto
      qed
    qed
  qed
qed

section \<open>Programs and the graphs they mean\<close>

definition var_refs :: "nat option list \<Rightarrow> nat \<Rightarrow> nat" where
  "var_refs vs t = count_list vs (Some t)"

definition extra :: "nat option \<Rightarrow> nat \<Rightarrow> nat" where
  "extra y t = (if y = Some t then 1 else 0)"

text \<open>The references from outside are the variables \<open>vs\<close> and the value \<open>y\<close> at hand; the cells reachable from
  them have the fields of \<open>F\<close>.\<close>

definition holds ::
    "nat set \<Rightarrow> nat option list \<Rightarrow> nat option \<Rightarrow> (nat \<Rightarrow> nat option list option) \<Rightarrow> orc \<Rightarrow> bool" where
  "holds D vs y F w \<longleftrightarrow> good D (\<lambda>t. var_refs vs t + extra y t) w \<and>
     (\<forall>s\<in>reach (o_cells w) {t. var_refs vs t + extra y t > 0}. \<exists>c. o_cells w s = Some c \<and> F s = Some (c_refs c))"

lemma ref_destroy_ok:
  assumes G: "good D (\<lambda>t. x t + extra p t) w"
  shows "\<exists>w' D'. ref_destroy 0 p w = Some w' \<and> good D' x w' \<and> cleans D {} D' w w'"
proof (cases p)
  case None
  then show ?thesis
    using G agree_refl [OF goodD(2) [OF G]] by (auto simp: ref_destroy_def nimDecRefIsLastCyclicStatic_def extra_def cleans_def)
next
  case (Some q)
  let ?ext = "\<lambda>t. x t + extra p t"
  have pos: "?ext q > 0" by (simp add: Some extra_def)
  have ext': "?ext(q := ?ext q - 1) = x" by (auto simp: Some extra_def fun_eq_iff)
  have qD: "q \<in> D" using goodD(3) [OF G pos] .
  obtain isLast w1 where dec: "nimDecRefIsLastCyclicStatic 0 (Some q) w = Some (isLast, w1)"
    and d: "if isLast then good (D - {q}) (\<lambda>t. (?ext(q := ?ext q - 1)) t + field_refs (o_cells w) q t) w1 \<and>
        agree D (o_cells w) (o_cells w1) \<and> (\<forall>s. s \<notin> D \<longrightarrow> o_cells w1 s = o_cells w s)
      else \<exists>D'. good D' (?ext(q := ?ext q - 1)) w1 \<and> evolves D D' w w1"
    using decref_good [OF G pos] by blast
  show ?thesis
  proof (cases isLast)
    case True
    have d1: "good (D - {q}) (\<lambda>t. x t + field_refs (o_cells w) q t) w1"
      "agree D (o_cells w) (o_cells w1)" "\<forall>s. s \<notin> D \<longrightarrow> o_cells w1 s = o_cells w s"
      using d True unfolding ext' by auto
    obtain c where c: "o_cells w1 q = Some c" "c_refs c = c_refs (the (o_cells w q))" using d1(2) qD by (auto simp: agree_def)
    have DF: "todo_ok (D - {q}) (o_cells w1) (destroy_fields q c)"
      "\<And>t. pend (o_cells w1) (destroy_fields q c) t = field_refs (o_cells w) q t" "mentions (destroy_fields q c) = {q}"
      using destroy_fields_ok [where g = "o_cells w1" and s = q and c = c and D = "D - {q}" and td = "[]"] c
      by (simp_all add: field_refs_def)
    obtain w' D' where r: "destroyLoop 0 (destroy_fields q c) w1 = Some w'" "good D' x w'" "cleans (D - {q}) {q} D' w1 w'"
      using destroyLoop_ok [of "D - {q}" x w1 "destroy_fields q c"] d1(1) DF by auto
    have "agree (D - {q}) (o_cells w) (o_cells w1)" using d1(2) by (auto simp: agree_def)
    then have "cleans D {} D' w w'" by (rule cleansI [OF r(3), rotated 2]) (use qD d1(3) in auto)
    then show ?thesis using r dec True c(1) by (auto simp: ref_destroy_def Some)
  next
    case False
    obtain D' where d1: "good D' x w1" "evolves D D' w w1" using d False unfolding ext' by auto
    then have "cleans D {} D' w w1" by (auto simp: evolves_def cleans_def)
    then show ?thesis using dec False d1(1) by (auto simp: ref_destroy_def Some)
  qed
qed

lemma agree_sub:
  assumes "closed_heap D g" "closed_heap D' g'" "D' \<subseteq> D" "agree D' g g'"
  shows "closed_heap D' g"
  unfolding closed_heap_def
proof (intro conjI ballI)
  fix s assume s: "s \<in> D'"
  then obtain c where c: "g s = Some c" using assms(1,3) unfolding closed_heap_def by blast
  moreover obtain c' where "g' s = Some c'" "c_refs c' = c_refs c" using assms(4) s c by (auto simp: agree_def)
  ultimately show "\<exists>c. g s = Some c \<and> (\<forall>t. Some t \<in> set (c_refs c) \<longrightarrow> t \<in> D')"
    using assms(2) s by (force simp: closed_heap_def)
qed (use assms(2) in \<open>simp add: closed_heap_def\<close>)

text \<open>Destroying or collecting leaves what is reachable alone.\<close>

lemma holds_clean:
  assumes H: "holds D vs y F w" and G: "good D' (var_refs vs) w'" and c: "cleans D {} D' w w'"
  shows "holds D' vs None F w'" "reach (o_cells w') {t. var_refs vs t > 0} = reach (o_cells w) {t. var_refs vs t > 0}"
proof -
  let ?X = "{t. var_refs vs t > 0}"
  have XD: "?X \<subseteq> D'" using goodD(3) [OF G] by blast
  have ag: "agree D' (o_cells w) (o_cells w')" "D' \<subseteq> D" using c by (auto simp: cleans_def)
  have heap: "closed_heap D (o_cells w)" using H goodD(2) by (auto simp: holds_def)
  have heap': "closed_heap D' (o_cells w)" by (rule agree_sub [OF heap goodD(2) [OF G] ag(2,1)])
  show eq: "reach (o_cells w') ?X = reach (o_cells w) ?X" by (rule agree_reach [OF heap' XD ag(1)])
  have "?X \<subseteq> {t. var_refs vs t + extra y t > 0}" by auto
  from reach_mono [OF this, of "o_cells w"]
  have m: "\<exists>c. o_cells w s = Some c \<and> F s = Some (c_refs c)" if "s \<in> reach (o_cells w) ?X" for s
    using H that unfolding holds_def by blast
  have "\<exists>c. o_cells w' s = Some c \<and> F s = Some (c_refs c)" if s: "s \<in> reach (o_cells w) ?X" for s
  proof -
    have "s \<in> D'" using s reach_in [OF heap' XD] by blast
    then show ?thesis using m [OF s] ag(1) by (force simp: agree_def)
  qed
  then show "holds D' vs None F w'" using G eq by (simp add: holds_def extra_def)
qed

lemma holds_destroy:
  assumes H: "holds D vs y F w"
  shows "\<exists>w' D'. ref_destroy 0 y w = Some w' \<and> holds D' vs None F w' \<and> cleans D {} D' w w'"
  using ref_destroy_ok [of D "var_refs vs" y w] H holds_clean(1) [OF H] by (force simp: holds_def)

lemma holds_inc:
  assumes H: "holds D vs None F w" and p: "p \<in> reach (o_cells w) {t. var_refs vs t > 0}"
  shows "\<exists>w'. nimIncRefCyclic p w = Some w' \<and> holds D vs (Some p) F w' \<and> evolves D D w w'"
proof -
  let ?X = "{t. var_refs vs t > 0}"
  have G: "good D (var_refs vs) w" using H by (simp add: holds_def extra_def)
  have XD: "?X \<subseteq> D" using goodD(3) [OF G] by blast
  have pD: "p \<in> D" using p reach_in [OF goodD(2) [OF G] XD] by blast
  obtain w' where w': "nimIncRefCyclic p w = Some w'" "good D ((var_refs vs)(p := var_refs vs p + 1)) w'" "evolves D D w w'"
    using inc_good [OF G pD] by blast
  have ext: "(var_refs vs)(p := var_refs vs p + 1) = (\<lambda>t. var_refs vs t + extra (Some p) t)" by (auto simp: extra_def fun_eq_iff)
  have ag: "agree D (o_cells w) (o_cells w')" using w'(3) by (simp add: evolves_def)
  have R: "reach (o_cells w) ?X \<subseteq> D" by (rule reach_in [OF goodD(2) [OF G] XD])
  have "reach (o_cells w') {t. var_refs vs t + extra (Some p) t > 0} \<subseteq> reach (o_cells w) ?X"
  proof (rule reach_least)
    show "{t. var_refs vs t + extra (Some p) t > 0} \<subseteq> reach (o_cells w) ?X" using p by (auto simp: extra_def intro: reach.start split: if_splits)
    fix s e assume s: "s \<in> reach (o_cells w) ?X" "e \<in> set (ents (o_cells w') s)"
    have "s \<in> reach (o_cells w') ?X" "s \<in> D" using s(1) R agree_reach [OF goodD(2) [OF G] XD ag] by auto
    then have "tgt (o_cells w') e \<in> reach (o_cells w') ?X" using reach_ents [OF goodD(2) [OF w'(2)]] s(2) by blast
    then show "tgt (o_cells w') e \<in> reach (o_cells w) ?X" using agree_reach [OF goodD(2) [OF G] XD ag] by simp
  qed
  moreover have "\<exists>c. o_cells w' s = Some c \<and> F s = Some (c_refs c)" if s: "s \<in> reach (o_cells w) ?X" for s
  proof -
    have "\<exists>c. o_cells w s = Some c \<and> F s = Some (c_refs c)" using H s by (simp add: holds_def extra_def)
    moreover have "s \<in> D" using s R by blast
    ultimately show ?thesis using ag by (force simp: agree_def)
  qed
  ultimately have "holds D vs (Some p) F w'" using w'(2) unfolding holds_def ext by blast
  then show ?thesis using w' by blast
qed

text \<open>Programs on a graph that never loses a cell.\<close>

type_synonym graph = "nat option list \<times> (nat \<Rightarrow> nat option list option)"

fun g_read :: "place \<Rightarrow> graph \<Rightarrow> nat option option" where
  "g_read (Var x) (vs, F) = mem_get x vs"
| "g_read (Field x i) (vs, F) = do { p \<leftarrow> mem_get x vs; s \<leftarrow> p; fs \<leftarrow> F s; mem_get i fs }"

fun g_write :: "place \<Rightarrow> nat option \<Rightarrow> graph \<Rightarrow> graph option" where
  "g_write (Var x) v (vs, F) = do { vs \<leftarrow> mem_set x v vs; Some (vs, F) }"
| "g_write (Field x i) v (vs, F) = do {
     p \<leftarrow> mem_get x vs; s \<leftarrow> p; fs \<leftarrow> F s; fs \<leftarrow> mem_set i v fs; Some (vs, F(s \<mapsto> fs)) }"

fun run_graph :: "ref_op \<Rightarrow> graph \<Rightarrow> graph option" where
  "run_graph (NewObj x a n) (vs, F) = g_write (Var x) (Some a) (vs, F(a \<mapsto> replicate n None))"
| "run_graph (AssignNil dest) v = g_write dest None v"
| "run_graph (Assign dest src) v = do { y \<leftarrow> g_read src v; g_write dest y v }"
| "run_graph (Move x y) v = do { p \<leftarrow> g_read (Var y) v; v \<leftarrow> g_write (Var x) p v; g_write (Var y) None v }"
| "run_graph (EndScope x) v = g_write (Var x) None v"
| "run_graph RunOrc v = Some v"
| "run_graph EnableOrc v = Some v"
| "run_graph DisableOrc v = Some v"

definition graph_of :: "refs \<Rightarrow> graph \<Rightarrow> bool" where
  "graph_of st v \<longleftrightarrow> r_vars st = fst v \<and> holds (dom (o_cells (r_orc st))) (fst v) None (snd v) (r_orc st)"

lemma count_update: "i < length xs \<Longrightarrow> int (count_list (xs[i := y]) z) =
   int (count_list xs z) - (if xs ! i = z then 1 else 0) + (if y = z then 1 else 0)"
proof (induction xs arbitrary: i)
  case (Cons x xs)
  show ?case
  proof (cases i)
    case (Suc n)
    then have "int (count_list (xs[n := y]) z) = int (count_list xs z) - (if xs ! n = z then 1 else 0) + (if y = z then 1 else 0)"
      using Cons.IH [of n] Cons.prems by simp
    then show ?thesis using Suc by (auto split: if_splits)
  qed auto
qed simp

lemma ext_write: "x < length vs \<Longrightarrow> var_refs (vs[x := y]) t + extra (vs ! x) t = var_refs vs t + extra y t"
  using count_update [of x vs y "Some t"] by (auto simp: var_refs_def extra_def split: if_splits)

lemma holds_write_var: "holds D vs y F w \<Longrightarrow> x < length vs \<Longrightarrow> holds D (vs[x := y]) (vs ! x) F w"
  by (simp add: holds_def ext_write)

lemma holds_take: "holds D vs None F w \<Longrightarrow> x < length vs \<Longrightarrow> holds D (vs[x := None]) (vs ! x) F w"
  by (rule holds_write_var)

lemma holds_reach:
  assumes "holds D vs y F w"
  shows "reach (o_cells w) {t. var_refs vs t + extra y t > 0} \<subseteq> D" "reach (o_cells w) {t. var_refs vs t > 0} \<subseteq> D"
proof -
  have G: "good D (\<lambda>t. var_refs vs t + extra y t) w" using assms by (simp add: holds_def)
  have X: "{t. var_refs vs t + extra y t > 0} \<subseteq> D" using goodD(3) [OF G] by auto
  show "reach (o_cells w) {t. var_refs vs t + extra y t > 0} \<subseteq> D" by (rule reach_in [OF goodD(2) [OF G] X])
  show "reach (o_cells w) {t. var_refs vs t > 0} \<subseteq> D" by (rule reach_in [OF goodD(2) [OF G]]) (use X in auto)
qed

lemma var_reach: "x < length vs \<Longrightarrow> vs ! x = Some s \<Longrightarrow> s \<in> reach g {t. var_refs vs t > 0}"
proof (rule reach.start)
  assume "x < length vs" "vs ! x = Some s"
  then have "Some s \<in> set vs" using nth_mem by metis
  then show "s \<in> {t. var_refs vs t > 0}" by (metis count_list_0_iff gr0I mem_Collect_eq var_refs_def)
qed

text \<open>Reading a place gives nil or a cell that is reachable from the variables.\<close>

lemma read_ok:
  assumes v: "graph_of st v" and r: "g_read pl v = Some y"
  shows "read_place pl st = Some y" "y = Some p \<Longrightarrow> p \<in> reach (o_cells (r_orc st)) {t. var_refs (r_vars st) t > 0}"
proof -
  let ?L = "reach (o_cells (r_orc st)) {t. var_refs (r_vars st) t > 0}"
  obtain vs F where vF: "v = (vs, F)" by fastforce
  have vs: "r_vars st = vs" and H: "holds (dom (o_cells (r_orc st))) vs None F (r_orc st)"
    using v by (simp_all add: graph_of_def vF)
  have m: "\<exists>c. o_cells (r_orc st) s = Some c \<and> F s = Some (c_refs c)" if "s \<in> ?L" for s
    using H that by (simp add: holds_def extra_def vs)
  have "read_place pl st = Some y \<and> (y = Some p \<longrightarrow> p \<in> ?L)"
  proof (cases pl)
    case (Var x)
    then show ?thesis using r var_reach [of x vs p] by (auto simp: vF vs mem_get_def split: if_splits)
  next
    case (Field x i)
    then obtain s fs where s: "x < length vs" "vs ! x = Some s" "F s = Some fs" "i < length fs" "y = fs ! i"
      using r by (auto simp: vF mem_get_def split: if_splits bind_splits)
    have "s \<in> ?L" using var_reach [OF s(1,2)] by (simp add: vs)
    with m [OF this] obtain c where c: "o_cells (r_orc st) s = Some c" "c_refs c = fs" using s(3) by auto
    have "p \<in> ?L" if "y = Some p"
      using reach.follow [OF \<open>s \<in> ?L\<close> c(1)] s(4,5) c(2) that nth_mem by metis
    then show ?thesis using s c by (auto simp: Field vs mem_get_def)
  qed
  then show "read_place pl st = Some y" "y = Some p \<Longrightarrow> p \<in> ?L" by auto
qed

text \<open>Writing a field: the value at hand goes into the field, and the old one is at hand.\<close>

lemma field_good:
  assumes G: "good D (\<lambda>t. x t + extra y t) w" and s: "x s > 0" "o_cells w s = Some c" "i < length (c_refs c)"
  shows "good D (\<lambda>t. x t + extra (c_refs c ! i) t) (w\<lparr>o_cells := (o_cells w)(s \<mapsto> c\<lparr>c_refs := (c_refs c)[i := y]\<rparr>)\<rparr>)"
proof -
  let ?fs = "c_refs c" and ?g = "o_cells w" and ?g' = "(o_cells w)(s \<mapsto> c\<lparr>c_refs := (c_refs c)[i := y]\<rparr>)"
  let ?w = "w\<lparr>o_cells := ?g'\<rparr>" and ?y = "\<lambda>t. x t + extra y t" and ?z = "\<lambda>t. x t + extra (c_refs c ! i) t"
  note ok = goodD(1) [OF G] and heap = goodD(2) [OF G]
  have fin: "finite D" using heap by (simp add: closed_heap_def)
  have sD: "s \<in> D" using goodD(3) [OF G, of s] s(1) by simp
  have old: "t \<in> D" if "Some t \<in> set ?fs" for t using heap sD s(2) that by (force simp: closed_heap_def)
  have new: "t \<in> D" if "Some t \<in> set (?fs[i := y])" for t
    using that set_update_subset_insert [of ?fs i y] old [of t] goodD(3) [OF G, of t] by (auto simp: extra_def)
  have heap': "closed_heap D ?g'" using heap new s(2) by (auto simp: closed_heap_def)
  have z: "?z t > 0 \<Longrightarrow> t \<in> D" for t
    using goodD(3) [OF G, of t] old [of t] nth_mem [OF s(3)] by (auto simp: extra_def split: if_splits)
  have other: "ind ?g' (D - {s}) t = ind ?g (D - {s}) t" for t by (rule ind_cong) auto
  have ind: "ind ?g' D t + int (?z t) = ind ?g D t + int (?y t)" for t
  proof -
    have "ind ?g' D t = ind ?g (D - {s}) t + int (count_list (?fs[i := y]) (Some t))"
      using ind_remove [OF fin sD, of ?g' t] other by (simp add: hits_count)
    moreover have "ind ?g D t = ind ?g (D - {s}) t + int (count_list ?fs (Some t))"
      using ind_remove [OF fin sD, of ?g t] s(2) by (simp add: hits_count)
    ultimately show ?thesis using count_update [OF s(3), of y "Some t"] by (auto simp: extra_def)
  qed
  have hd: "c_rc (the (?g' u)) = c_rc (the (?g u))" "c_rootIdx (the (?g' u)) = c_rootIdx (the (?g u))" for u
    using s(2) by auto
  have "orc_ok D ?z ?w"
    unfolding orc_ok_def Let_def
  proof (intro conjI ballI allI impI)
    show "cnt (o_cells ?w) u + 1 = ind (o_cells ?w) D u + int (?z u)" if "u \<in> D" for u
      using orc_okD(3) [OF ok that] ind [of u] hd(1) [of u] by (simp add: cnt_def rc_count_def)
    show "col (o_cells ?w) u = 0" if "u \<in> D" for u
      using orc_okD(2) [OF ok that] hd(1) [of u] by (simp add: col_def color_def)
    show "c_rootIdx (the (o_cells ?w (o_roots ?w ! j))) = j + 1" if "j < length (o_roots ?w)" for j
      using orc_okD(5) [OF ok, of j] that hd(2) [of "o_roots w ! j"] by simp
    show "u \<in> set (o_roots ?w)" if "u \<in> D" "c_rootIdx (the (o_cells ?w u)) \<noteq> 0" for u
      using orc_okD(6) [OF ok that(1)] that(2) hd(2) [of u] by simp
  qed (use heap' orc_okD(4) [OF ok] in simp_all)
  moreover have "D \<subseteq> reach ?g' ({t. ?z t > 0} \<union> set (o_roots w))" (is "_ \<subseteq> reach ?g' ?Z")
  proof -
    have sZ: "s \<in> reach ?g' ?Z" using s(1) by (auto intro: reach.start)
    have field: "t \<in> reach ?g' ?Z" if "Some t \<in> set (?fs[i := y])" for t
      by (rule reach.follow [OF sZ, of "c\<lparr>c_refs := ?fs[i := y]\<rparr>"]) (use that in simp_all)
    have "reach ?g ({t. ?y t > 0} \<union> set (o_roots w)) \<subseteq> reach ?g' ?Z \<inter> D"
    proof (rule reach_least)
      have "t \<in> reach ?g' ?Z" if "?y t > 0" for t
      proof (cases "x t > 0")
        case False
        then show ?thesis using that s(3) by (intro field) (auto simp: extra_def set_update_memI split: if_splits)
      qed (auto intro: reach.start)
      then show "{t. ?y t > 0} \<union> set (o_roots w) \<subseteq> reach ?g' ?Z \<inter> D"
        using goodD(4) [OF G] by (auto intro: reach.start)
      fix u e assume u: "u \<in> reach ?g' ?Z \<inter> D" "e \<in> set (ents ?g u)"
      obtain cu where cu: "?g u = Some cu" by (rule cellE [OF heap, of u]) (use u in auto)
      have t: "Some (tgt ?g e) \<in> set (c_refs cu)" using u(2) tgt_ents [of "tgt ?g e" ?g u] cu by auto
      have "tgt ?g e \<in> reach ?g' ?Z"
      proof (cases "u = s")
        case True
        then obtain j where j: "j < length ?fs" "?fs ! j = Some (tgt ?g e)" using t cu s(2) by (auto simp: in_set_conv_nth)
        show ?thesis
        proof (cases "j = i")
          case True
          then show ?thesis using j(2) by (auto simp: extra_def intro: reach.start)
        next
          case False
          then have "?fs[i := y] ! j = Some (tgt ?g e)" "j < length (?fs[i := y])" using j by simp_all
          then show ?thesis by (metis field nth_mem)
        qed
      next
        case False
        then have "?g' u = Some cu" using cu by simp
        then show ?thesis using u(1) t by (auto intro: reach.follow)
      qed
      then show "tgt ?g e \<in> reach ?g' ?Z \<inter> D" using tgt_in [OF heap, of u e] u by blast
    qed
    then show ?thesis using goodD(5) [OF G] by blast
  qed
  ultimately show ?thesis using z by (simp add: good_def)
qed

lemma holds_write_field:
  assumes H: "holds D vs y F w" and x: "x < length vs" "vs ! x = Some s"
    and s: "o_cells w s = Some c" "i < length (c_refs c)"
  shows "holds D vs (c_refs c ! i) (F(s \<mapsto> (c_refs c)[i := y])) (w\<lparr>o_cells := (o_cells w)(s \<mapsto> c\<lparr>c_refs := (c_refs c)[i := y]\<rparr>)\<rparr>)"
proof -
  let ?fs = "c_refs c" and ?g = "o_cells w" and ?g' = "(o_cells w)(s \<mapsto> c\<lparr>c_refs := (c_refs c)[i := y]\<rparr>)"
  let ?Y = "{t. var_refs vs t + extra y t > 0}" and ?Z = "{t. var_refs vs t + extra (?fs ! i) t > 0}"
  have G: "good D (\<lambda>t. var_refs vs t + extra y t) w" using H by (simp add: holds_def)
  have pos: "var_refs vs s > 0"
  proof -
    have "Some s \<in> set vs" using x nth_mem by metis
    then show ?thesis unfolding var_refs_def by (metis count_list_0_iff gr0I)
  qed
  have sY: "s \<in> reach ?g ?Y" using pos by (auto intro: reach.start)
  have in_Y: "t \<in> reach ?g ?Y" if "Some t \<in> set ?fs" for t by (rule reach.follow [OF sY s(1) that])
  have "reach ?g' ?Z \<subseteq> reach ?g ?Y"
  proof (rule reach_least)
    show "?Z \<subseteq> reach ?g ?Y"
    proof
      fix t assume "t \<in> ?Z"
      then have "var_refs vs t > 0 \<or> ?fs ! i = Some t" by (auto simp: extra_def split: if_splits)
      then show "t \<in> reach ?g ?Y" using in_Y [of t] nth_mem [OF s(2)] by (auto intro: reach.start)
    qed
    fix u e assume u: "u \<in> reach ?g ?Y" "e \<in> set (ents ?g' u)"
    then have t: "Some (tgt ?g' e) \<in> set (c_refs (the (?g' u)))" using tgt_ents [of "tgt ?g' e" ?g' u] by blast
    show "tgt ?g' e \<in> reach ?g ?Y"
    proof (cases "u = s")
      case True
      then have "Some (tgt ?g' e) \<in> insert y (set ?fs)" using t set_update_subset_insert [of ?fs i y] by auto
      then consider "Some (tgt ?g' e) \<in> set ?fs" | "y = Some (tgt ?g' e)" by auto
      then show ?thesis by cases (rule in_Y, simp, rule reach.start, simp add: extra_def)
    next
      case False
      have "u \<in> D" using u(1) holds_reach(1) [OF H] by blast
      then obtain cu where cu: "?g u = Some cu" by (rule cellE [OF goodD(2) [OF G]])
      then show ?thesis using t False reach.follow [OF u(1) cu] by simp
    qed
  qed
  moreover have "\<exists>cu. ?g' u = Some cu \<and> (F(s \<mapsto> ?fs[i := y])) u = Some (c_refs cu)" if "u \<in> reach ?g ?Y" for u
    using H that by (auto simp: holds_def)
  ultimately show ?thesis
    using field_good [OF G pos s] unfolding holds_def by (simp add: subset_iff)
qed

lemma holds_new:
  assumes H: "holds D vs None F w" and a: "o_cells w a = None"
  shows "holds (insert a D) vs (Some a) (F(a \<mapsto> replicate n None))
    (w\<lparr>o_cells := (o_cells w)(a \<mapsto> \<lparr>c_rc = 0, c_rootIdx = 0, c_refs = replicate n None\<rparr>)\<rparr>)"
proof -
  let ?g = "o_cells w" and ?c = "\<lparr>c_rc = 0, c_rootIdx = 0, c_refs = replicate n None\<rparr>"
  let ?g' = "?g(a \<mapsto> ?c)" and ?x = "\<lambda>t. var_refs vs t + extra (Some a) t" and ?X = "{t. var_refs vs t > 0}"
  let ?w = "w\<lparr>o_cells := ?g'\<rparr>"
  have G: "good D (var_refs vs) w" using H by (simp add: holds_def extra_def)
  note ok = goodD(1) [OF G] and heap = goodD(2) [OF G]
  have fin: "finite D" using heap by (simp add: closed_heap_def)
  have aD: "a \<notin> D" using heap a by (auto simp: closed_heap_def)
  have va: "var_refs vs a = 0" using goodD(3) [OF G, of a] aD by auto
  have roots: "a \<notin> set (o_roots w)" using orc_okD(4) [OF ok] aD by blast
  have c0: "rc_count ?c = 0" "color ?c = 0" by (simp_all add: rc_count_def color_def)
  have oldind: "ind ?g' D t = ind ?g D t" for t by (rule ind_cong) (use aD in auto)
  have ents: "ents ?g' a = []" by (auto simp: ents_def trace_def)
  have newind: "ind ?g' (insert a D) t = ind ?g D t" for t using oldind fin aD ents by simp
  have "ind ?g D a = 0"
  proof (rule ccontr)
    assume "ind ?g D a \<noteq> 0"
    then have "0 < ind ?g D a" using ind_nonneg [of ?g D a] by linarith
    from ind_pos [OF this] show False using tgt_in [OF heap] aD by blast
  qed
  then have counts: "cnt ?g' u + 1 = ind ?g' (insert a D) u + int (?x u)" if "u \<in> insert a D" for u
    using that orc_okD(3) [OF ok, of u] va c0(1) unfolding newind by (cases "u = a") (auto simp: extra_def cnt_def)
  have "orc_ok (insert a D) ?x ?w"
    unfolding orc_ok_def Let_def
  proof (intro conjI ballI allI impI)
    show "closed_heap (insert a D) (o_cells ?w)" using heap aD by (fastforce simp: closed_heap_def)
    show "cnt (o_cells ?w) u + 1 = ind (o_cells ?w) (insert a D) u + int (?x u)" if "u \<in> insert a D" for u
      using counts [OF that] by simp
    show "col (o_cells ?w) u = 0" if "u \<in> insert a D" for u using that orc_okD(2) [OF ok, of u] c0(2) by auto
    show "set (o_roots ?w) \<subseteq> insert a D" using orc_okD(4) [OF ok] by auto
    show "c_rootIdx (the (o_cells ?w (o_roots ?w ! i))) = i + 1" if "i < length (o_roots ?w)" for i
    proof -
      have "o_roots w ! i \<noteq> a" using roots that nth_mem by force
      then show ?thesis using orc_okD(5) [OF ok, of i] that by simp
    qed
    show "u \<in> set (o_roots ?w)" if "u \<in> insert a D" "c_rootIdx (the (o_cells ?w u)) \<noteq> 0" for u
      using that orc_okD(6) [OF ok, of u] by (auto split: if_splits)
  qed
  moreover have "\<forall>t. ?x t > 0 \<longrightarrow> t \<in> insert a D" using goodD(3) [OF G] by (auto simp: extra_def)
  moreover have "insert a D \<subseteq> reach ?g' ({t. ?x t > 0} \<union> set (o_roots w))" (is "_ \<subseteq> reach ?g' ?Z")
  proof -
    have "reach ?g (?X \<union> set (o_roots w)) \<subseteq> reach ?g' ?Z \<inter> D"
    proof (rule reach_least)
      fix u e assume u: "u \<in> reach ?g' ?Z \<inter> D" "e \<in> set (ents ?g u)"
      obtain cu where cu: "?g u = Some cu" by (rule cellE [OF heap, of u]) (use u in auto)
      have "Some (tgt ?g e) \<in> set (c_refs cu)" using u(2) tgt_ents [of "tgt ?g e" ?g u] cu by auto
      moreover have "?g' u = Some cu" using cu a by auto
      ultimately show "tgt ?g e \<in> reach ?g' ?Z \<inter> D" using u tgt_in [OF heap, of u e] by (auto intro: reach.follow)
    qed (use goodD(4) [OF G] in \<open>auto intro: reach.start\<close>)
    moreover have "a \<in> reach ?g' ?Z" by (auto simp: extra_def intro: reach.start)
    ultimately show ?thesis using goodD(5) [OF G] by blast
  qed
  ultimately have good': "good (insert a D) ?x ?w" by (simp add: good_def)
  have "reach ?g' {t. ?x t > 0} \<subseteq> insert a (reach ?g ?X)"
  proof (rule reach_least)
    show "{t. ?x t > 0} \<subseteq> insert a (reach ?g ?X)" by (auto simp: extra_def intro: reach.start split: if_splits)
    fix u e assume u: "u \<in> insert a (reach ?g ?X)" "e \<in> set (ents ?g' u)"
    then have ua: "u \<noteq> a" using ents by auto
    then have uX: "u \<in> reach ?g ?X" using u(1) by simp
    then have "u \<in> D" using holds_reach(2) [OF H] by blast
    then obtain cu where cu: "?g u = Some cu" by (rule cellE [OF heap])
    have "Some (tgt ?g' e) \<in> set (c_refs cu)" using u(2) ua tgt_ents [of "tgt ?g' e" ?g' u] cu by auto
    then show "tgt ?g' e \<in> insert a (reach ?g ?X)" using reach.follow [OF uX cu] by simp
  qed
  moreover have "\<exists>c. ?g' u = Some c \<and> (F(a \<mapsto> replicate n None)) u = Some (c_refs c)" if "u \<in> insert a (reach ?g ?X)" for u
    using H that by (auto simp: holds_def extra_def)
  ultimately show ?thesis using good' unfolding holds_def by (simp add: subset_iff)
qed

section \<open>Programs refine graphs\<close>

lemma cleans_dom: "cleans (dom (o_cells w)) {} D' w w' \<Longrightarrow> dom (o_cells w') = D'"
proof
  assume c: "cleans (dom (o_cells w)) {} D' w w'"
  show "dom (o_cells w') \<subseteq> D'"
  proof
    fix s assume s: "s \<in> dom (o_cells w')"
    show "s \<in> D'"
    proof (rule ccontr)
      assume "s \<notin> D'"
      then have "o_cells w' s = None" using c by (cases "s \<in> dom (o_cells w)") (auto simp: cleans_def domIff)
      then show False using s by auto
    qed
  qed
  show "D' \<subseteq> dom (o_cells w')" using c by (auto simp: cleans_def agree_def)
qed

lemma write_ok:
  assumes vs: "r_vars st = vs" and H: "holds (dom (o_cells (r_orc st))) vs y F (r_orc st)"
    and w: "g_write dest y (vs, F) = Some (vs', F')"
  shows "\<exists>tmp st1. read_place dest st = Some tmp \<and> write_place dest y st = Some st1 \<and> r_vars st1 = vs' \<and>
    holds (dom (o_cells (r_orc st1))) vs' tmp F' (r_orc st1)"
proof (cases dest)
  case (Var x)
  then have x: "x < length vs" "vs' = vs[x := y]" "F' = F" using w by (auto simp: mem_set_def split: if_splits bind_splits)
  then show ?thesis using vs holds_write_var [OF H x(1)] by (simp add: Var mem_get_def mem_set_def)
next
  case (Field x i)
  then obtain s fs where s: "x < length vs" "vs ! x = Some s" "F s = Some fs" "i < length fs" "vs' = vs" "F' = F(s \<mapsto> fs[i := y])"
    using w by (auto simp: mem_get_def mem_set_def split: if_splits bind_splits)
  have "s \<in> reach (o_cells (r_orc st)) {t. var_refs vs t + extra y t > 0}"
    using var_reach [OF s(1,2)] reach_mono [of "{t. var_refs vs t > 0}" "{t. var_refs vs t + extra y t > 0}"] by auto
  then obtain c where c: "o_cells (r_orc st) s = Some c" "c_refs c = fs" using H s(3) by (auto simp: holds_def)
  have i: "i < length (c_refs c)" using s(4) c(2) by simp
  have "dom ((o_cells (r_orc st))(s \<mapsto> d)) = dom (o_cells (r_orc st))" for d using c(1) by auto
  then show ?thesis
    using s c vs holds_write_field [OF H s(1,2) c(1) i] by (simp add: Field mem_get_def mem_set_def)
qed

lemma destroy_ok:
  assumes H: "holds (dom (o_cells (r_orc st))) vs y F (r_orc st)"
  shows "\<exists>w'. on_orc (ref_destroy 0 y) st = Some (st\<lparr>r_orc := w'\<rparr>) \<and> holds (dom (o_cells w')) vs None F w'"
proof -
  obtain w' D' where w': "ref_destroy 0 y (r_orc st) = Some w'" "holds D' vs None F w'"
      "cleans (dom (o_cells (r_orc st))) {} D' (r_orc st) w'"
    using holds_destroy [OF H] by blast
  then show ?thesis using cleans_dom [OF w'(3)] by (auto simp: on_orc_def)
qed

lemma ref_sink_ok:
  assumes vs: "r_vars st = vs" and H: "holds (dom (o_cells (r_orc st))) vs y F (r_orc st)"
    and w: "g_write dest y (vs, F) = Some v'"
  shows "\<exists>st'. ref_sink dest y st = Some st' \<and> graph_of st' v'"
proof -
  obtain vs' F' where v': "v' = (vs', F')" by fastforce
  obtain tmp st1 where 1: "read_place dest st = Some tmp" "write_place dest y st = Some st1" "r_vars st1 = vs'"
      "holds (dom (o_cells (r_orc st1))) vs' tmp F' (r_orc st1)"
    using write_ok [OF vs H] w v' by blast
  then show ?thesis using destroy_ok [OF 1(4)] by (auto simp: ref_sink_def graph_of_def v')
qed

lemma read_agree:
  assumes "agree (dom (o_cells (r_orc st))) (o_cells (r_orc st)) (o_cells w)" "read_place pl (st\<lparr>r_orc := w\<rparr>) = Some y"
    and "\<forall>s. s \<notin> dom (o_cells (r_orc st)) \<longrightarrow> o_cells w s = o_cells (r_orc st) s"
  shows "read_place pl st = Some y"
proof (cases pl)
  case (Field x i)
  then obtain s c where s: "mem_get x (r_vars st) = Some (Some s)" "o_cells w s = Some c" "mem_get i (c_refs c) = Some y"
    using assms(2) by (auto split: bind_splits)
  have "s \<in> dom (o_cells (r_orc st))" using s(2) assms(3) by (metis domI)
  moreover from this obtain c0 where "o_cells (r_orc st) s = Some c0" "c_refs c0 = c_refs c"
    using assms(1) s(2) by (force simp: agree_def)
  ultimately show ?thesis using s by (simp add: Field)
qed (use assms(2) in simp)

lemma ref_copy_ok:
  assumes v: "graph_of st v" and w: "g_write dest y v = Some v'"
    and y: "\<And>p. y = Some p \<Longrightarrow> p \<in> reach (o_cells (r_orc st)) {t. var_refs (r_vars st) t > 0}"
  shows "\<exists>st'. ref_copy dest y st = Some st' \<and> graph_of st' v'"
proof -
  obtain vs F where vF: "v = (vs, F)" by fastforce
  have vs: "r_vars st = vs" and H: "holds (dom (o_cells (r_orc st))) vs None F (r_orc st)"
    using v by (simp_all add: graph_of_def vF)
  have heap: "closed_heap (dom (o_cells (r_orc st))) (o_cells (r_orc st))" using H goodD(2) by (auto simp: holds_def)
  obtain w1 where 1: "(case y of None \<Rightarrow> Some st | Some p \<Rightarrow> on_orc (nimIncRefCyclic p) st) = Some (st\<lparr>r_orc := w1\<rparr>)"
      "holds (dom (o_cells w1)) vs y F w1" "agree (dom (o_cells (r_orc st))) (o_cells (r_orc st)) (o_cells w1)"
      "\<forall>s. s \<notin> dom (o_cells (r_orc st)) \<longrightarrow> o_cells w1 s = o_cells (r_orc st) s"
  proof (cases y)
    case None
    then show ?thesis using that [of "r_orc st"] H agree_refl [OF heap] by simp
  next
    case (Some p)
    obtain w1 where w1: "nimIncRefCyclic p (r_orc st) = Some w1" "holds (dom (o_cells (r_orc st))) vs (Some p) F w1"
        "evolves (dom (o_cells (r_orc st))) (dom (o_cells (r_orc st))) (r_orc st) w1"
      using holds_inc [OF H] y [OF Some] vs by auto
    have "dom (o_cells w1) = dom (o_cells (r_orc st))"
      by (rule cleans_dom) (use w1(3) in \<open>auto simp: evolves_def cleans_def\<close>)
    then show ?thesis using that [of w1] w1 by (simp add: Some on_orc_def evolves_def)
  qed
  have "\<exists>tmp st1. read_place dest (st\<lparr>r_orc := w1\<rparr>) = Some tmp \<and> write_place dest y (st\<lparr>r_orc := w1\<rparr>) = Some st1 \<and>
      r_vars st1 = fst v' \<and> holds (dom (o_cells (r_orc st1))) (fst v') tmp (snd v') (r_orc st1)"
    by (rule write_ok) (use vs 1(2) w in \<open>simp_all add: vF\<close>)
  then obtain tmp st1 where 2: "read_place dest (st\<lparr>r_orc := w1\<rparr>) = Some tmp" "write_place dest y (st\<lparr>r_orc := w1\<rparr>) = Some st1"
      "r_vars st1 = fst v'" "holds (dom (o_cells (r_orc st1))) (fst v') tmp (snd v') (r_orc st1)" by blast
  have "read_place dest st = Some tmp" by (rule read_agree [OF 1(3) 2(1) 1(4)])
  then show ?thesis using 1(1) 2(2,3) destroy_ok [OF 2(4)] by (auto simp: ref_copy_def graph_of_def)
qed

text \<open>What the allocator has to do: it hands out a free address.\<close>

fun alloc_free :: "ref_op \<Rightarrow> refs \<Rightarrow> bool" where
  "alloc_free (NewObj x a n) st \<longleftrightarrow> o_cells (r_orc st) a = None"
| "alloc_free _ st \<longleftrightarrow> True"

lemma collect_holds:
  assumes H: "holds (dom (o_cells w)) vs None F w"
  shows "\<exists>w'. collectCycles w = Some w' \<and> holds (dom (o_cells w')) vs None F w' \<and>
    dom (o_cells w') = reach (o_cells w') {t. var_refs vs t > 0}"
proof -
  have G: "good (dom (o_cells w)) (var_refs vs) w" using H by (simp add: holds_def extra_def)
  obtain w' where w': "collectCycles w = Some w'" "good (reach (o_cells w) {s. var_refs vs s > 0}) (var_refs vs) w'"
      "evolves (dom (o_cells w)) (reach (o_cells w) {s. var_refs vs s > 0}) w w'"
      "reach (o_cells w') {s. var_refs vs s > 0} = reach (o_cells w) {s. var_refs vs s > 0}"
    using collect_good [OF G] by blast
  have c: "cleans (dom (o_cells w)) {} (reach (o_cells w) {s. var_refs vs s > 0}) w w'"
    using w'(3) by (auto simp: evolves_def cleans_def)
  show ?thesis using holds_clean(1) [OF H w'(2) c] cleans_dom [OF c] w'(1,4) by auto
qed

lemma holds_threshold: "holds D vs y F (w\<lparr>o_threshold := t\<rparr>) \<longleftrightarrow> holds D vs y F w"
  by (simp add: holds_def good_def orc_ok_def)

lemma run_ref_ok:
  assumes v: "graph_of st v" and s: "run_graph p v = Some v'" and a: "alloc_free p st"
  shows "\<exists>st'. run_ref p st = Some st' \<and> graph_of st' v'"
proof -
  obtain vs F where vF: "v = (vs, F)" by fastforce
  have vs: "r_vars st = vs" and H: "holds (dom (o_cells (r_orc st))) vs None F (r_orc st)"
    using v by (simp_all add: graph_of_def vF)
  show ?thesis
  proof (cases p)
    case (NewObj x a' n)
    let ?w = "r_orc st\<lparr>o_cells := (o_cells (r_orc st))(a' \<mapsto> \<lparr>c_rc = 0, c_rootIdx = 0, c_refs = replicate n None\<rparr>)\<rparr>"
    let ?st = "st\<lparr>r_orc := ?w\<rparr>"
    have fresh: "o_cells (r_orc st) a' = None" using a by (simp add: NewObj)
    have "holds (dom (o_cells (r_orc ?st))) vs (Some a') (F(a' \<mapsto> replicate n None)) (r_orc ?st)"
      using holds_new [OF H fresh] by simp
    from ref_sink_ok [OF _ this, of "Var x" v'] show ?thesis
      using s vs fresh by (simp add: NewObj vF on_orc_def nimNewObj_def)
  next
    case (AssignNil dest)
    then show ?thesis using ref_copy_ok [OF v, of dest None] s by simp
  next
    case (Assign dest src)
    then obtain y where y: "g_read src v = Some y" "g_write dest y v = Some v'" using s by (auto split: bind_splits)
    show ?thesis using ref_copy_ok [OF v y(2)] read_ok [OF v y(1)] by (simp add: Assign)
  next
    case (Move x y)
    then have xy: "x < length vs" "y < length vs" "v' = (vs[x := vs ! y, y := None], F)"
      using s by (auto simp: vF mem_get_def mem_set_def split: if_splits bind_splits)
    have T: "holds (dom (o_cells (r_orc st))) (vs[y := None]) (vs ! y) F (r_orc st)" by (rule holds_take [OF H xy(2)])
    let ?st = "st\<lparr>r_vars := vs[x := vs ! y]\<rparr>"
    have "holds (dom (o_cells (r_orc ?st))) (vs[x := vs ! y, y := None]) (vs ! x) F (r_orc ?st)"
    proof (cases "x = y")
      case False
      then show ?thesis using holds_write_var [OF T, of x] xy by (simp add: list_update_swap)
    qed (use T in simp)
    from destroy_ok [OF this] show ?thesis
      using xy vs by (auto simp: Move ref_sink_def mem_get_def mem_set_def graph_of_def)
  next
    case (EndScope x)
    then have x: "x < length vs" "v' = (vs[x := None], F)" using s by (auto simp: vF mem_set_def split: if_splits)
    have "holds (dom (o_cells (r_orc st))) (vs[x := None]) (vs ! x) F (r_orc st)" by (rule holds_take [OF H x(1)])
    from destroy_ok [OF this] show ?thesis using x vs by (auto simp: EndScope mem_get_def mem_set_def graph_of_def)
  next
    case RunOrc
    then show ?thesis using s vs vF collect_holds [OF H] by (auto simp: on_orc_def graph_of_def)
  next
    case EnableOrc
    then show ?thesis using s vs vF H by (auto simp: on_orc_def graph_of_def GC_enableOrc_def holds_threshold)
  next
    case DisableOrc
    then show ?thesis using s vs vF H by (auto simp: on_orc_def graph_of_def GC_disableOrc_def holds_threshold)
  qed
qed

interpretation rr: guarded_machine alloc_free run_ref run_graph graph_of
  by unfold_locales (rule run_ref_ok)

definition start_refs :: "nat \<Rightarrow> int \<Rightarrow> refs" where
  "start_refs n threshold =
     \<lparr>r_orc = \<lparr>o_cells = \<lambda>_. None, o_roots = [], o_threshold = threshold\<rparr>, r_vars = replicate n None\<rparr>"

lemma var_refs_pos: "var_refs vs t > 0 \<longleftrightarrow> Some t \<in> set vs"
  unfolding var_refs_def by (metis count_list_0_iff gr0I less_irrefl)

lemma start_graph: "graph_of (start_refs n threshold) (replicate n None, \<lambda>_. None)"
proof -
  have v: "var_refs (replicate n None) t = 0" for t using var_refs_pos [of "replicate n None" t] by auto
  have "reach g {} \<subseteq> {}" for g by (rule reach_least) auto
  then show ?thesis
    by (simp add: graph_of_def holds_def good_def orc_ok_def closed_heap_def start_refs_def extra_def v)
qed

section \<open>Properties\<close>

text \<open>C8. A program never sees the work of the reference counts and of the collector.  Every sequence of
  allocations, assignments of references to variables and fields, moves, ends of scopes and collections
  that makes sense on a graph in which nothing is ever freed runs to its end without touching a freed
  cell, whenever the collector is triggered in between, even in the middle of a destruction, enabled or
  disabled; the variables are those of the graph, and so are the fields of every cell that can be reached
  from them.
  The allocator is only required to hand out free addresses.\<close>

theorem programs_keep_reachable_cells:
  assumes "each run_graph ops (replicate n None, \<lambda>_. None) = Some (vs, F)"
    and "guarded alloc_free run_ref ops (start_refs n threshold)"
  shows "\<exists>st. each run_ref ops (start_refs n threshold) = Some st \<and> r_vars st = vs \<and>
    (\<forall>s\<in>reach (o_cells (r_orc st)) {s. Some s \<in> set vs}. \<exists>c. o_cells (r_orc st) s = Some c \<and> F s = Some (c_refs c))"
  using rr.guarded_programs_ok [OF start_graph assms]
  by (auto simp: graph_of_def holds_def extra_def var_refs_pos)

theorem programs_keep_reachable_cells_witness:
  "\<exists>st. each run_ref [NewObj 0 7 1, Assign (Field 0 0) (Var 0), NewObj 1 8 2, Move 0 1, RunOrc] (start_refs 2 0) = Some st \<and>
    r_vars st = [Some 8, None] \<and>
    (\<forall>s\<in>reach (o_cells (r_orc st)) {s. Some s \<in> set [Some 8, None]}.
      \<exists>c. o_cells (r_orc st) s = Some c \<and> [7 \<mapsto> [Some 7], 8 \<mapsto> [None, None]] s = Some (c_refs c))"
proof (rule programs_keep_reachable_cells)
  show "each run_graph [NewObj 0 7 1, Assign (Field 0 0) (Var 0), NewObj 1 8 2, Move 0 1, RunOrc] (replicate 2 None, \<lambda>_. None) =
    Some ([Some 8, None], [7 \<mapsto> [Some 7], 8 \<mapsto> [None, None]])"
    by (simp add: mem_get_def mem_set_def numeral_2_eq_2)
  show "guarded alloc_free run_ref [NewObj 0 7 1, Assign (Field 0 0) (Var 0), NewObj 1 8 2, Move 0 1, RunOrc] (start_refs 2 0)"
    by (simp add: start_refs_def on_orc_def nimNewObj_def ref_sink_def ref_copy_def mem_get_def mem_set_def numeral_2_eq_2
        ref_destroy_def nimDecRefIsLastCyclicStatic_def nimIncRefCyclic_def)
qed

text \<open>C9. The collector is complete: after \<open>GC_runOrc\<close> the cells that are allocated are exactly those that can
  be reached from the variables, whatever cycles the program has built and dropped before.\<close>

theorem runOrc_leaves_no_garbage:
  assumes "each run_graph ops (replicate n None, \<lambda>_. None) = Some (vs, F)"
    and "guarded alloc_free run_ref ops (start_refs n threshold)"
  shows "\<exists>st. each run_ref (ops @ [RunOrc]) (start_refs n threshold) = Some st \<and>
    dom (o_cells (r_orc st)) = reach (o_cells (r_orc st)) {s. Some s \<in> set vs}"
proof -
  obtain st where st: "each run_ref ops (start_refs n threshold) = Some st" "graph_of st (vs, F)"
    using rr.guarded_programs_ok [OF start_graph assms] by blast
  have H: "holds (dom (o_cells (r_orc st))) vs None F (r_orc st)" using st(2) by (simp add: graph_of_def)
  show ?thesis
    using collect_holds [OF H] st(1) by (auto simp: each_append on_orc_def var_refs_pos)
qed

theorem runOrc_leaves_no_garbage_witness:
  "\<exists>st. each run_ref ([NewObj 0 7 1, Assign (Field 0 0) (Var 0), EndScope 0] @ [RunOrc]) (start_refs 1 0) = Some st \<and>
    dom (o_cells (r_orc st)) = reach (o_cells (r_orc st)) {s. Some s \<in> set [None]}"
  by (rule runOrc_leaves_no_garbage [where F = "[7 \<mapsto> [Some 7]]"]) (simp_all add: mem_get_def mem_set_def start_refs_def)

definition two_cycle :: "ref_op list" where
  "two_cycle = [NewObj 0 1 1, NewObj 1 2 1, Assign (Field 0 0) (Var 1), Assign (Field 1 0) (Var 0), EndScope 0, EndScope 1]"

lemma two_cycle_state:
  "each run_ref two_cycle (start_refs 2 0) = Some \<lparr>r_orc = \<lparr>o_cells =
     [1 \<mapsto> \<lparr>c_rc = 0, c_rootIdx = 1, c_refs = [Some 2]\<rparr>, 2 \<mapsto> \<lparr>c_rc = 0, c_rootIdx = 2, c_refs = [Some 1]\<rparr>],
     o_roots = [1, 2], o_threshold = 0\<rparr>, r_vars = [None, None]\<rparr>"
  by (simp add: two_cycle_def start_refs_def on_orc_def nimNewObj_def ref_sink_def ref_copy_def mem_get_def mem_set_def
      numeral_2_eq_2 ref_destroy_def nimDecRefIsLastCyclicStatic_def nimIncRefCyclic_def increment_def decrement_def
      rcMask_def rcIncrement_def rememberCycle_def registerCycle_def setColor_def colBlack_def colorMask_def Let_def
      defaultThreshold_def)

lemma two_cycle_graph:
  "\<exists>st. each run_ref two_cycle (start_refs 2 0) = Some st \<and> orc_ok (dom (o_cells (r_orc st))) (var_refs (r_vars st)) (r_orc st) \<and>
    (\<forall>s. var_refs (r_vars st) s > 0 \<longrightarrow> s \<in> dom (o_cells (r_orc st)))"
proof -
  have g: "each run_graph two_cycle (replicate 2 None, \<lambda>_. None) = Some ([None, None], [1 \<mapsto> [Some 2], 2 \<mapsto> [Some 1]])"
    by (simp add: two_cycle_def mem_get_def mem_set_def numeral_2_eq_2 fun_upd_twist)
  have a: "guarded alloc_free run_ref two_cycle (start_refs 2 0)"
    by (simp add: two_cycle_def start_refs_def on_orc_def nimNewObj_def ref_sink_def mem_get_def mem_set_def numeral_2_eq_2
        ref_destroy_def nimDecRefIsLastCyclicStatic_def)
  obtain st where st: "each run_ref two_cycle (start_refs 2 0) = Some st" "graph_of st ([None, None], [1 \<mapsto> [Some 2], 2 \<mapsto> [Some 1]])"
    using rr.guarded_programs_ok [OF start_graph g a] by blast
  then have G: "good (dom (o_cells (r_orc st))) (var_refs (r_vars st)) (r_orc st)" by (simp add: graph_of_def holds_def extra_def)
  show ?thesis using st(1) goodD(1,3) [OF G] by blast
qed

text \<open>C37. \<open>GC_partialCollect(lowMark)\<close> collects the candidates from \<open>lowMark\<close> on and is meant to leave the earlier
  ones to a later collection.  In any state with exact counts it frees exactly those of the cells \<open>N\<close> that
  the late candidates lead to that nothing outside \<open>N\<close> refers to, directly or through other cells, keeps the
  fields of all others and leaves exact counts; but what it does to the early candidates, which stay in the
  list, is wrong: the root index of each is cleared, and one that is among the cells it frees stays as a
  dangling pointer, so that the next collection has no result exactly if there is such a candidate.  The
  list must have \<open>lowMark\<close> entries.\<close>

theorem partial_collect_dangles:
  assumes "orc_ok D ext w" and "\<forall>s. ext s > 0 \<longrightarrow> s \<in> D" and "lowMark \<le> length (o_roots w)"
    and "N = reach (o_cells w) (set (drop lowMark (o_roots w)))"
    and "F = N - reach (o_cells w) ({s. ext s > 0} \<union> (D - N))"
  shows "\<exists>w'. partialCollect lowMark w = Some w' \<and> o_roots w' = take lowMark (o_roots w) \<and>
    (\<forall>s\<in>F. o_cells w' s = None) \<and> (\<forall>s. s \<notin> D \<longrightarrow> o_cells w' s = o_cells w s) \<and>
    (\<forall>s\<in>D - F. \<exists>c. o_cells w' s = Some c \<and> c_refs c = c_refs (the (o_cells w s)) \<and> c_rootIdx c = 0) \<and>
    orc_ok (D - F) ext (w'\<lparr>o_roots := []\<rparr>) \<and>
    (collectCycles w' = None \<longleftrightarrow> set (take lowMark (o_roots w)) \<inter> F \<noteq> {})"
  by (rule partialCollect_ok [OF assms])

text \<open>Two cells that refer to each other are both candidates when the last variable goes; a collection from 1
  on frees both and keeps the first one.\<close>

theorem partial_collect_dangles_witness:
  "\<exists>st w'. each run_ref two_cycle (start_refs 2 0) = Some st \<and> partialCollect 1 (r_orc st) = Some w' \<and>
    o_roots w' = [1] \<and> o_cells w' 1 = None \<and> o_cells w' 2 = None \<and> collectCycles w' = None"
proof -
  obtain st where st: "each run_ref two_cycle (start_refs 2 0) = Some st"
      "orc_ok (dom (o_cells (r_orc st))) (var_refs (r_vars st)) (r_orc st)"
      "\<forall>s. var_refs (r_vars st) s > 0 \<longrightarrow> s \<in> dom (o_cells (r_orc st))"
    using two_cycle_graph by blast
  let ?w = "r_orc st"
  let ?N = "reach (o_cells ?w) (set (drop 1 (o_roots ?w)))"
  let ?L = "reach (o_cells ?w) ({s. var_refs (r_vars st) s > 0} \<union> (dom (o_cells ?w) - ?N))"
  have w: "o_roots ?w = [1, 2]" "o_cells ?w 2 = Some \<lparr>c_rc = 0, c_rootIdx = 2, c_refs = [Some 1]\<rparr>"
      "dom (o_cells ?w) = {1, 2}" "r_vars st = [None, None]"
    using st(1) unfolding two_cycle_state by (auto split: if_splits)
  have N: "2 \<in> ?N" using w by (auto intro: reach.start)
  have N': "1 \<in> ?N" by (rule reach.follow [OF N w(2)]) simp
  have e: "{s. var_refs (r_vars st) s > 0} \<union> (dom (o_cells ?w) - ?N) = {}" using w N N' by (auto simp: var_refs_def)
  have "?L \<subseteq> {}" unfolding e by (rule reach_least) auto
  then have "1 \<in> ?N - ?L" "2 \<in> ?N - ?L" using N N' by auto
  moreover have "1 \<le> length (o_roots ?w)" by (simp add: w)
  ultimately show ?thesis
    using partial_collect_dangles [OF st(2,3) _ refl refl, of 1] st(1) w(1) by auto
qed

text \<open>C10. A collection in any state whose counts are exact, whatever the candidates are, frees only cells that
  are reachable from a candidate and not from outside, leaves the fields of the others alone, and leaves
  exact counts, black cells and no candidates.\<close>

theorem collection_keeps_counts:
  assumes "orc_ok D ext w" and "\<forall>s. ext s > 0 \<longrightarrow> s \<in> D"
  shows "\<exists>w' F. collectCycles w = Some w' \<and> F \<subseteq> reach (o_cells w) (set (o_roots w)) \<and>
    F \<inter> reach (o_cells w) {s. ext s > 0} = {} \<and> (\<forall>s\<in>F. o_cells w' s = None) \<and>
    (\<forall>s\<in>D - F. \<exists>c. o_cells w' s = Some c \<and> c_refs c = c_refs (the (o_cells w s))) \<and>
    orc_ok (D - F) ext w' \<and> o_roots w' = []"
proof -
  from collectCycles_ok [OF assms] obtain w' F where "collectCycles w = Some w'" "orc_ok (D - F) ext w'" "o_roots w' = []"
    "F \<subseteq> reach (o_cells w) (set (o_roots w))" "F \<inter> reach (o_cells w) {s. ext s > 0} = {}" "\<forall>s\<in>F. o_cells w' s = None"
    "\<forall>s\<in>D - F. \<exists>c. o_cells w' s = Some c \<and> c_refs c = c_refs (the (o_cells w s))" by blast
  then show ?thesis by blast
qed

theorem collection_keeps_counts_witness:
  "\<exists>st w' F. each run_ref two_cycle (start_refs 2 0) = Some st \<and> collectCycles (r_orc st) = Some w' \<and>
    F \<subseteq> reach (o_cells (r_orc st)) (set (o_roots (r_orc st))) \<and>
    F \<inter> reach (o_cells (r_orc st)) {s. var_refs (r_vars st) s > 0} = {} \<and> (\<forall>s\<in>F. o_cells w' s = None) \<and>
    (\<forall>s\<in>dom (o_cells (r_orc st)) - F. \<exists>c. o_cells w' s = Some c \<and> c_refs c = c_refs (the (o_cells (r_orc st) s))) \<and>
    orc_ok (dom (o_cells (r_orc st)) - F) (var_refs (r_vars st)) w' \<and> o_roots w' = []"
proof -
  obtain st where st: "each run_ref two_cycle (start_refs 2 0) = Some st"
      "orc_ok (dom (o_cells (r_orc st))) (var_refs (r_vars st)) (r_orc st)"
      "\<forall>s. var_refs (r_vars st) s > 0 \<longrightarrow> s \<in> dom (o_cells (r_orc st))"
    using two_cycle_graph by blast
  from collection_keeps_counts [OF st(2,3)] show ?thesis using st(1) by blast
qed

end
