(* ===== verification/Nim_Frames.thy ===== *)
theory Nim_Frames
  imports Nim_Prelude "HOL-Library.Word"
begin

text \<open>
  The stack frames of the runtime: \<open>TFrame\<close> of \<open>nimbase.h\<close>, the macros \<open>nimfr_\<close>, \<open>nimln_\<close>, \<open>nimlf_\<close> (here without the underscore) the
  code generator puts into every C file, \<open>nimFrame\<close>, \<open>popFrame\<close> and \<open>setFrame\<close> and the stack traces of
  \<open>system/excpt.nim\<close>, and the frame messages of \<open>std/stackframes\<close> (\<open>--stackTraceMsgs:on\<close>).  A frame is a
  local variable of a C function: the frames of a thread are a partial map from addresses, linked by
  their field \<open>prev\<close>.  None is a read through a nil or dangling pointer, an index outside a sequence, or a
  walk that never ends.
\<close>

section \<open>Numbers as text\<close>

text \<open>\<open>addInt\<close> of \<open>digitsutils.nim\<close> writes two digits at a time into a buffer that starts uninitialised.\<close>

definition digits100 :: string where
  "digits100 = ''00010203040506070809101112131415161718192021222324'' @
     ''25262728293031323334353637383940414243444546474849'' @
     ''50515253545556575859606162636465666768697071727374'' @
     ''75767778798081828384858687888990919293949596979899''"

definition put_digits :: "nat \<Rightarrow> nat \<Rightarrow> char option list \<Rightarrow> char option list" where
  "put_digits index next tmp =
     (let tmp = tmp[next := Some (digits100 ! (index + 1))] in tmp[next - 1 := Some (digits100 ! index)])"

fun addIntLoop :: "nat \<Rightarrow> nat \<Rightarrow> char option list \<Rightarrow> nat \<times> nat \<times> char option list" where
  "addIntLoop num next tmp =
     (if num \<ge> 100
      then let originNum = num;
               num = num div 100;
               index = (originNum - num * 100) * 2
           in addIntLoop num (next - 2) (put_digits index next tmp)
      else (num, next, tmp))"

declare addIntLoop.simps [simp del]

text \<open>\<open>addChars(result, tmp, start, n)\<close>, undefined if a character was never written.\<close>

definition addChars :: "string \<Rightarrow> char option list \<Rightarrow> nat \<Rightarrow> nat \<Rightarrow> string option" where
  "addChars result x start n =
     (if start + n \<le> length x \<and> None \<notin> set (take n (drop start x))
      then Some (result @ map the (take n (drop start x))) else None)"

definition addIntImpl :: "string \<Rightarrow> nat \<Rightarrow> string option" where
  "addIntImpl result x =
     (let tmp = replicate 24 None;
          (num, next, tmp) = addIntLoop x (length tmp - 1) tmp;
          (next, tmp) =
            (if num < 10 then (next, tmp[next := Some (char_of (48 + num))])
             else let index = num * 2 in (next - 1, put_digits index next tmp))
      in addChars result tmp next (length tmp - next))"

text \<open>\<open>x\<close> is an \<open>int64\<close>; the number of the smallest one is a cast.\<close>

definition addInt :: "string \<Rightarrow> int \<Rightarrow> string option" where
  "addInt result x =
     (if x < 0
      then let num = (if x = - (2 ^ 63) then nat (x mod 2 ^ 64) else nat (- x)) in addIntImpl (result @ ''-'') num
      else addIntImpl result (nat x))"

text \<open>\<open>i2s\<close> of \<open>excpt.nim\<close> collects the digits backwards and reverses them in place.\<close>

definition Ten :: "string list" where
  "Ten = [''0'', ''1'', ''2'', ''3'', ''4'', ''5'', ''6'', ''7'', ''8'', ''9'']"

fun i2sLoop :: "nat \<Rightarrow> string \<Rightarrow> string" where
  "i2sLoop y result =
     (let result = result @ [char_of (y mod 10 + 48)];
          y = y div 10
      in if y = 0 then result else i2sLoop y result)"

declare i2sLoop.simps [simp del]

function i2sReverse :: "nat \<Rightarrow> nat \<Rightarrow> nat \<Rightarrow> string \<Rightarrow> string" where
  "i2sReverse final b i result =
     (if i < b
      then let ch = result ! i;
               result = result[i := result ! (final - i)];
               result = result[final - i := ch]
           in i2sReverse final b (i + 1) result
      else result)"
  by auto
termination by (relation "measure (\<lambda>(final, b, i, result). b - i)") auto

declare i2sReverse.simps [simp del]

function i2s :: "int \<Rightarrow> string" where
  "i2s x =
     (if x < 0
      then if x = - 9223372036854775808 then ''-9223372036854775808'' else ''-'' @ i2s (0 - x)
      else if x < 10 then Ten ! nat x
      else let result = i2sLoop (nat x) []
           in i2sReverse (length result - 1) (length result div 2) 0 result)"
  by auto
termination by (relation "measure (\<lambda>x. if x < 0 then 1 else 0)") auto

declare i2s.simps [simp del]

section \<open>Both render decimals\<close>

lemma digits100_nth: "i < 100 \<Longrightarrow> digits100 ! (2 * i) = digit_char (i div 10) \<and> digits100 ! (2 * i + 1) = digit_char (i mod 10)"
proof -
  have "list_all (\<lambda>i. digits100 ! (2 * i) = digit_char (i div 10) \<and> digits100 ! (2 * i + 1) = digit_char (i mod 10)) [0..<100]"
    by code_simp
  then show "i < 100 \<Longrightarrow> ?thesis" by (simp add: list_all_iff)
qed

lemma dec_of_nat_100: "100 \<le> n \<Longrightarrow>
  dec_of_nat n = dec_of_nat (n div 100) @ [digit_char (n mod 100 div 10), digit_char (n mod 100 mod 10)]"
proof -
  assume n: "100 \<le> n"
  have "dec_of_nat n = dec_of_nat (n div 10) @ [digit_char (n mod 10)]"
    using n by (subst dec_of_nat.simps) simp
  also have "dec_of_nat (n div 10) = dec_of_nat (n div 10 div 10) @ [digit_char (n div 10 mod 10)]"
    using n by (subst dec_of_nat.simps) simp
  finally show ?thesis
    by (simp add: div_mult2_eq [symmetric] mod_mult2_eq [of n 10 10, simplified] mod_mod_cancel)
qed

lemma drop_put_digits:
  assumes "1 \<le> next" "next < length tmp"
  shows "drop (next - 1) (put_digits i next tmp) = Some (digits100 ! i) # Some (digits100 ! (i + 1)) # drop (next + 1) tmp"
proof -
  have "tmp = take (next - 1) tmp @ [tmp ! (next - 1), tmp ! next] @ drop (next + 1) tmp"
    using assms by (metis append_Cons append_Nil append_take_drop_id Cons_nth_drop_Suc Suc_eq_plus1 le_add_diff_inverse2
        less_imp_diff_less)
  then obtain xs a b ys where t: "tmp = xs @ [a, b] @ ys" "length xs = next - 1" "ys = drop (next + 1) tmp"
    using assms by (metis length_take less_imp_diff_less less_imp_le min.absorb2)
  have n: "next = Suc (length xs)" using t(2) assms(1) by simp
  have "put_digits i next tmp = xs @ [Some (digits100 ! i), Some (digits100 ! (i + 1))] @ ys"
    unfolding t(1) n by (simp add: put_digits_def Let_def list_update_append)
  then show ?thesis using t(3) n by simp
qed

lemma length_put_digits [simp]: "length (put_digits i next tmp) = length tmp"
  by (simp add: put_digits_def Let_def)

lemma digits100_pair: "i < 100 \<Longrightarrow> digits100 ! (i * 2) = digit_char (i div 10)"
    "i < 100 \<Longrightarrow> digits100 ! (i * 2 + 1) = digit_char (i mod 10)"
  using digits100_nth [of i] by (simp_all add: mult.commute)

lemma addIntLoop_ok:
  assumes "num < 100 ^ k" "1 \<le> k" "2 * k \<le> next + 1" "next < length tmp"
  shows "\<exists>n nx t ds. addIntLoop num next tmp = (n, nx, t) \<and> n < 100 \<and> 1 \<le> nx \<and> nx < length tmp \<and>
    length t = length tmp \<and> dec_of_nat num = dec_of_nat n @ ds \<and> drop (nx + 1) t = map Some ds @ drop (next + 1) tmp"
  using assms
proof (induction num "next" tmp arbitrary: k rule: addIntLoop.induct)
  case (1 num nxt tmp)
  show ?case
  proof (cases "num \<ge> 100")
    case True
    let ?i = "(num - num div 100 * 100) * 2"
    obtain k' where k: "k = Suc k'" "1 \<le> k'" using 1(2,3) True by (cases k; cases "k - 1") auto
    have small: "num div 100 < 100 ^ k'" using 1(2) k by (simp add: less_mult_imp_div_less mult.commute)
    have bounds: "2 * k' \<le> nxt - 2 + 1" "nxt - 2 < length (put_digits ?i nxt tmp)" using 1(4,5) k by auto
    have step: "addIntLoop num nxt tmp = addIntLoop (num div 100) (nxt - 2) (put_digits ?i nxt tmp)"
      using True by (subst addIntLoop.simps) (simp add: Let_def)
    obtain n nx t ds where ih: "addIntLoop (num div 100) (nxt - 2) (put_digits ?i nxt tmp) = (n, nx, t)"
        "n < 100" "1 \<le> nx" "nx < length tmp" "length t = length tmp" "dec_of_nat (num div 100) = dec_of_nat n @ ds"
        "drop (nx + 1) t = map Some ds @ drop (nxt - 2 + 1) (put_digits ?i nxt tmp)"
      using 1(1) [OF True refl refl refl small k(2) bounds] by auto
    have "drop (nxt - 2 + 1) (put_digits ?i nxt tmp) =
        map Some [digit_char (num mod 100 div 10), digit_char (num mod 100 mod 10)] @ drop (nxt + 1) tmp"
      using drop_put_digits [of nxt tmp ?i] 1(4,5) k digits100_pair [of "num mod 100"]
      by (simp add: modulo_nat_def numeral_2_eq_2 Suc_diff_Suc)
    then show ?thesis
      unfolding step ih(1) using ih(2-) dec_of_nat_100 [OF True] by simp
  next
    case False
    then show ?thesis using 1(3,4,5) by (subst addIntLoop.simps) auto
  qed
qed

lemma addChars_drop:
  assumes "drop start x = map Some ds" "start \<le> length x"
  shows "addChars result x start (length x - start) = Some (result @ ds)"
proof -
  have "length x - start = length ds" by (metis assms(1) length_drop length_map)
  then show ?thesis using assms by (auto simp: addChars_def)
qed

lemma addIntImpl_ok:
  assumes "x < 2 ^ 64"
  shows "addIntImpl result x = Some (result @ dec_of_nat x)"
proof -
  let ?tmp = "replicate 24 None :: char option list"
  have "x < 100 ^ 12" using assms by simp
  then obtain n nx t ds where l: "addIntLoop x 23 ?tmp = (n, nx, t)" "n < 100" "1 \<le> nx" "nx < 24" "length t = 24"
      "dec_of_nat x = dec_of_nat n @ ds" "drop (nx + 1) t = map Some ds"
    using addIntLoop_ok [of x 12 23 ?tmp] by auto
  show ?thesis
  proof (cases "n < 10")
    case True
    have "drop nx (t[nx := Some (char_of (48 + n))]) = map Some (dec_of_nat n @ ds)"
      using l True by (subst dec_of_nat.simps) (simp add: drop_update_swap flip: Cons_nth_drop_Suc, simp add: digit_char_def)
    then show ?thesis
      using addChars_drop [of nx "t[nx := Some (char_of (48 + n))]"] l True by (simp add: addIntImpl_def Let_def)
  next
    case False
    have "dec_of_nat n = [digit_char (n div 10), digit_char (n mod 10)]"
      using l(2) False by (subst dec_of_nat.simps, subst dec_of_nat.simps) simp
    then have "drop (nx - 1) (put_digits (n * 2) nx t) = map Some (dec_of_nat n @ ds)"
      using drop_put_digits [of nx t "n * 2"] l digits100_pair [of n] by simp
    then show ?thesis
      using addChars_drop [of "nx - 1" "put_digits (n * 2) nx t"] l False by (simp add: addIntImpl_def Let_def)
  qed
qed

lemma addInt_ok:
  assumes "- (2 ^ 63) \<le> x" "x < 2 ^ 63"
  shows "addInt result x = Some (result @ dec_of_int x)"
proof -
  have "nat (- x) < 2 ^ 64" "nat x < 2 ^ 64" using assms by auto
  moreover have "nat (- (2 ^ 63) mod 2 ^ 64) = nat (2 ^ 63 :: int)" by simp
  ultimately show ?thesis
    using assms by (auto simp: addInt_def dec_of_int_def addIntImpl_ok Let_def)
qed

lemma i2sLoop_ok: "i2sLoop y result = result @ rev (dec_of_nat y)"
proof (induction y result rule: i2sLoop.induct)
  case (1 y result)
  show ?case
  proof (cases "y < 10")
    case True
    then show ?thesis
      by (subst i2sLoop.simps, subst dec_of_nat.simps) (simp add: digit_char_def add.commute)
  next
    case False
    then show ?thesis
      using 1 by (subst i2sLoop.simps, subst dec_of_nat.simps) (simp add: digit_char_def add.commute Let_def)
  qed
qed

text \<open>The swaps reverse the part between the two ends.\<close>

lemma i2sReverse_ok:
  assumes "length s = n" "i \<le> n div 2" "\<And>j. j < n \<Longrightarrow> result ! j = (if i \<le> j \<and> j < n - i then s ! j else s ! (n - 1 - j))"
    and "length result = n"
  shows "i2sReverse (n - 1) (n div 2) i result = rev s"
  using assms(2-)
proof (induction "n div 2 - i" arbitrary: i result)
  case 0
  then have "i = n div 2" by simp
  have "result ! j = rev s ! j" if "j < n" for j
  proof (cases "i \<le> j \<and> j < n - i")
    case True
    then have "j = n - 1 - j" using \<open>i = n div 2\<close> by linarith
    then show ?thesis using that 0(3) assms(1) by (simp add: rev_nth)
  next
    case False
    have "result ! j = s ! (n - 1 - j)" using 0(3) [OF that] False by auto
    then show ?thesis using that assms(1) by (simp add: rev_nth)
  qed
  then show ?case
    using 0 \<open>i = n div 2\<close> assms(1) by (subst i2sReverse.simps) (simp add: list_eq_iff_nth_eq)
next
  case (Suc d)
  let ?r = "result[i := result ! (n - 1 - i), n - 1 - i := result ! i]"
  have i: "i < n div 2" using Suc.hyps(2) by simp
  have "i2sReverse (n - 1) (n div 2) i result = i2sReverse (n - 1) (n div 2) (i + 1) ?r"
    using i by (subst i2sReverse.simps) (simp add: Let_def)
  also have "\<dots> = rev s"
  proof (rule Suc.hyps(1))
    fix j assume j: "j < n"
    show "?r ! j = (if i + 1 \<le> j \<and> j < n - (i + 1) then s ! j else s ! (n - 1 - j))"
      using i j Suc.prems(2) [of j] Suc.prems(2) [of i] Suc.prems(2) [of "n - 1 - i"] Suc.prems(3)
      by (auto simp: nth_list_update)
  qed (use i Suc.hyps(2) Suc.prems(3) in auto)
  finally show ?case .
qed

lemma i2s_ok: "i2s x = dec_of_int x"
proof -
  have pos: "i2s x = dec_of_nat (nat x)" if "0 \<le> x" for x
  proof (cases "x < 10")
    case True
    have "list_all (\<lambda>n. Ten ! n = dec_of_nat n) [0..<10]" by code_simp
    then have "Ten ! nat x = dec_of_nat (nat x)" using True by (simp add: list_all_iff)
    then show ?thesis using that True by (subst i2s.simps) simp
  next
    case False
    then show ?thesis
      using that i2sReverse_ok [of "rev (dec_of_nat (nat x))" _ 0 "rev (dec_of_nat (nat x))"]
      by (subst i2s.simps) (simp add: i2sLoop_ok Let_def)
  qed
  have low: "dec_of_int (- 9223372036854775808) = ''-9223372036854775808''"
    by (simp add: dec_of_int_def dec_of_nat.simps digit_char_def, code_simp)
  have neg: "x < 0 \<Longrightarrow> i2s x = (if x = - 9223372036854775808 then ''-9223372036854775808'' else ''-'' @ i2s (- x))"
    using i2s.simps [of x] by (simp only: if_True diff_0)
  show ?thesis
  proof (cases "x < 0")
    case True
    have "i2s (- x) = dec_of_nat (nat (- x))" by (rule pos) (use True in simp)
    then show ?thesis unfolding neg [OF True] using low True by (simp add: dec_of_int_def)
  next
    case False
    then show ?thesis using pos by (simp add: dec_of_int_def)
  qed
qed

section \<open>Frames\<close>

text \<open>The strings are the characters before the terminating zero.\<close>

record TFrame =
  prev :: "nat option"
  procname :: string
  line :: int
  filename :: string
  fr_len :: int
  calldepth :: "16 word"
  frameMsgLen :: int

record StackTraceEntry =
  st_procname :: "string option"
  st_line :: int
  st_filename :: "string option"
  st_frameMsg :: string

text \<open>A thread: the top frame, the frames in its stack, the buffer of the messages, what was written to
  stderr, the code the process quit with.\<close>

record frame_thread =
  framePtr :: "nat option"
  frames :: "nat \<rightharpoonup> TFrame"
  frameMsgBuf :: string
  err_out :: string
  quit_code :: "int option"

definition deref :: "(nat \<rightharpoonup> TFrame) \<Rightarrow> nat option \<Rightarrow> TFrame option" where
  "deref m p = (case p of None \<Rightarrow> None | Some a \<Rightarrow> m a)"

definition maxStackTraceLines :: nat where
  "maxStackTraceLines = 128"

definition reraisedFromBegin :: int where
  "reraisedFromBegin = - 10"

definition reraisedFromEnd :: int where
  "reraisedFromEnd = - 100"

definition reraisedFrom :: "int \<Rightarrow> StackTraceEntry" where
  "reraisedFrom z = \<lparr>st_procname = None, st_line = z, st_filename = None, st_frameMsg = []\<rparr>"

section \<open>Traces\<close>

text \<open>The part of the message buffer that belongs to a frame.\<close>

definition own_message :: "(nat \<rightharpoonup> TFrame) \<Rightarrow> string \<Rightarrow> TFrame \<Rightarrow> string option" where
  "own_message m buf f = do {
     first \<leftarrow> (if prev f = None then Some 0 else do { g \<leftarrow> deref m (prev f); Some (frameMsgLen g) });
     if frameMsgLen f \<le> first then Some []
     else if 0 \<le> first \<and> frameMsgLen f \<le> int (length buf)
     then Some (take (nat (frameMsgLen f - first)) (drop (nat first) buf)) else None }"

definition toLocation :: "string \<Rightarrow> string \<Rightarrow> int \<Rightarrow> int \<Rightarrow> string option" where
  "toLocation result file ln col =
     (let result = result @ file in
      if ln > 0
      then do {
        result \<leftarrow> addInt (result @ ''('') ln;
        result \<leftarrow> (if col > 0 then addInt (result @ '', '') col else Some result);
        Some (result @ '')'') }
      else Some result)"

text \<open>\<open>addFrameEntry\<close> on the fields of a frame or of an entry.\<close>

definition addFrameEntry :: "string \<Rightarrow> string \<Rightarrow> int \<Rightarrow> string \<Rightarrow> string \<Rightarrow> string option" where
  "addFrameEntry s fname ln pname msg = do {
     let oldLen = length s;
     s \<leftarrow> toLocation s fname ln 0;
     let s = s @ replicate (nat (max 1 (25 - (int (length s) - int oldLen)))) CHR '' '';
     let s = s @ pname;
     let s = s @ msg;
     Some (s @ [CHR 0x0A]) }"

partial_function (option) headLoop ::
  "(nat \<rightharpoonup> TFrame) \<Rightarrow> nat option \<Rightarrow> nat option list \<Rightarrow> nat \<Rightarrow> nat \<Rightarrow> (nat option \<times> nat option list \<times> nat \<times> nat) option" where
  "headLoop m it tempFrames i n_all =
     (if it \<noteq> None \<and> i \<le> maxStackTraceLines - 1 - 32
      then do { f \<leftarrow> deref m it; headLoop m (prev f) (tempFrames[i := it]) (i + 1) (n_all + 1) }
      else Some (it, tempFrames, i, n_all))"

partial_function (option) countLoop :: "(nat \<rightharpoonup> TFrame) \<Rightarrow> nat option \<Rightarrow> nat \<Rightarrow> nat option" where
  "countLoop m it n_all =
     (if it \<noteq> None then do { f \<leftarrow> deref m it; countLoop m (prev f) (n_all + 1) } else Some n_all)"

primrec skipLoop :: "(nat \<rightharpoonup> TFrame) \<Rightarrow> nat \<Rightarrow> nat option \<Rightarrow> nat option option" where
  "skipLoop m 0 b = Some b"
| "skipLoop m (Suc n) b =
     (if b \<noteq> None then do { f \<leftarrow> deref m b; skipLoop m n (prev f) } else skipLoop m n b)"

partial_function (option) tailLoop ::
  "(nat \<rightharpoonup> TFrame) \<Rightarrow> nat option \<Rightarrow> nat option list \<Rightarrow> nat \<Rightarrow> (nat option list \<times> nat) option" where
  "tailLoop m b tempFrames i =
     (if b \<noteq> None \<and> i \<le> maxStackTraceLines - 1
      then do { f \<leftarrow> deref m b; tailLoop m (prev f) (tempFrames[i := b]) (i + 1) }
      else Some (tempFrames, i))"

primrec emitLoop :: "frame_thread \<Rightarrow> nat option list \<Rightarrow> nat \<Rightarrow> nat \<Rightarrow> string \<Rightarrow> string option" where
  "emitLoop w tempFrames skipped 0 s = Some s"
| "emitLoop w tempFrames skipped (Suc j) s = do {
     s \<leftarrow> (if tempFrames ! j = None
          then Some (s @ ''('' @ i2s (int skipped) @ '' calls omitted) ...'' @ [CHR 0x0A])
          else do {
            f \<leftarrow> deref (frames w) (tempFrames ! j);
            msg \<leftarrow> own_message (frames w) (frameMsgBuf w) f;
            addFrameEntry s (filename f) (line f) (procname f) msg });
     emitLoop w tempFrames skipped j s }"

definition auxWriteStackTrace :: "frame_thread \<Rightarrow> nat option \<Rightarrow> string \<Rightarrow> string option" where
  "auxWriteStackTrace w f s = do {
     let firstCalls = 32;
     (it, tempFrames, i, n_all) \<leftarrow> headLoop (frames w) f (replicate maxStackTraceLines None) 0 0;
     let b = it;
     n_all \<leftarrow> countLoop (frames w) it n_all;
     (skipped, b, tempFrames, i) \<leftarrow>
       (if n_all > maxStackTraceLines
        then do {
          let skipped = n_all - i - firstCalls + 1;
          b \<leftarrow> skipLoop (frames w) skipped b;
          Some (skipped, b, tempFrames[i := None], i + 1) }
        else Some (0, b, tempFrames, i));
     (tempFrames, i) \<leftarrow> tailLoop (frames w) b tempFrames i;
     emitLoop w tempFrames skipped i s }"

definition rawWriteStackTrace :: "frame_thread \<Rightarrow> string \<Rightarrow> string option" where
  "rawWriteStackTrace w s =
     (if framePtr w = None then Some (s @ ''No stack traceback available'' @ [CHR 0x0A])
      else auxWriteStackTrace w (framePtr w) (s @ ''Traceback (most recent call last)'' @ [CHR 0x0A]))"

text \<open>The trace as a sequence of entries, oldest first, after those already there.\<close>

partial_function (option) fillTrace ::
  "frame_thread \<Rightarrow> nat option \<Rightarrow> int \<Rightarrow> StackTraceEntry list \<Rightarrow> StackTraceEntry list option" where
  "fillTrace w it final s =
     (if it \<noteq> None
      then do {
        f \<leftarrow> deref (frames w) it;
        msg \<leftarrow> own_message (frames w) (frameMsgBuf w) f;
        let e = \<lparr>st_procname = Some (procname f), st_line = line f, st_filename = Some (filename f), st_frameMsg = msg\<rparr>;
        if 0 \<le> final \<and> nat final < length s then fillTrace w (prev f) (final - 1) (s[nat final := e]) else None }
      else Some s)"

definition auxTraceEntries :: "frame_thread \<Rightarrow> nat option \<Rightarrow> StackTraceEntry list \<Rightarrow> StackTraceEntry list option" where
  "auxTraceEntries w f s = do {
     i \<leftarrow> countLoop (frames w) f 0;
     let (final, s) = (if s = [] then (int i - 1, replicate i (reraisedFrom 0))
                       else (int (length s) + int i - 1, s @ replicate i (reraisedFrom 0)));
     fillTrace w f final s }"

text \<open>\<open>$\<close> on a sequence of entries.\<close>

primrec dollar_trace :: "StackTraceEntry list \<Rightarrow> string \<Rightarrow> string option" where
  "dollar_trace [] result = Some result"
| "dollar_trace (e # s) result = do {
     result \<leftarrow>
       (if st_line e = reraisedFromBegin then Some (result @ ''[[reraised from:'' @ [CHR 0x0A])
        else if st_line e = reraisedFromEnd then Some (result @ '']]'' @ [CHR 0x0A])
        else do {
          fname \<leftarrow> st_filename e;
          pname \<leftarrow> st_procname e;
          addFrameEntry result fname (st_line e) pname (st_frameMsg e) });
     dollar_trace s result }"

text \<open>What \<open>raiseExceptionEx\<close> does to the trace of the exception it raises.\<close>

definition raise_trace :: "frame_thread \<Rightarrow> StackTraceEntry list \<Rightarrow> StackTraceEntry list option" where
  "raise_trace w tr =
     (if tr = [] then auxTraceEntries w (framePtr w) tr
      else if framePtr w \<noteq> None
      then do {
        tr \<leftarrow> auxTraceEntries w (framePtr w) (tr @ [reraisedFrom reraisedFromBegin]);
        Some (tr @ [reraisedFrom reraisedFromEnd]) }
      else Some tr)"

section \<open>Entering and leaving procedures\<close>

definition showErrorMessage2 :: "string \<Rightarrow> frame_thread \<Rightarrow> frame_thread" where
  "showErrorMessage2 s w = w\<lparr>err_out := err_out w @ s\<rparr>"

definition writeStackTrace :: "frame_thread \<Rightarrow> frame_thread option" where
  "writeStackTrace w = do { s \<leftarrow> rawWriteStackTrace w []; Some (showErrorMessage2 s w) }"

text \<open>\<open>limit\<close> is \<open>nimCallDepthLimit\<close>, which \<open>-d:nimCallDepthLimit\<close> sets.\<close>

definition callDepthLimitReached :: "nat \<Rightarrow> frame_thread \<Rightarrow> frame_thread option" where
  "callDepthLimitReached limit w = do {
     w \<leftarrow> writeStackTrace w;
     let msg = ''Error: call depth limit reached in a debug build ('';
     let msg = msg @ i2s (int limit);
     let msg = msg @ '' function calls). You can change it with '' @
       ''-d:nimCallDepthLimit=<int> but really try to avoid deep '' @ ''recursions instead.'' @ [CHR 0x0A];
     let w = showErrorMessage2 msg w;
     Some (w\<lparr>quit_code := Some 1\<rparr>) }"

definition nimFrame :: "nat \<Rightarrow> nat \<Rightarrow> frame_thread \<Rightarrow> frame_thread option" where
  "nimFrame limit a w = do {
     s \<leftarrow> frames w a;
     s \<leftarrow> (if framePtr w = None then Some (s\<lparr>calldepth := 0, frameMsgLen := 0\<rparr>)
          else do { f \<leftarrow> deref (frames w) (framePtr w); Some (s\<lparr>calldepth := calldepth f + 1, frameMsgLen := frameMsgLen f\<rparr>) });
     let s = s\<lparr>prev := framePtr w\<rparr>;
     let w = w\<lparr>framePtr := Some a, frames := (frames w)(a \<mapsto> s)\<rparr>;
     if sint (calldepth s) = int limit then callDepthLimitReached limit w else Some w }"

text \<open>The macros; \<open>a\<close> is the address of the local variable \<open>FR_\<close> and \<open>g\<close> what the memory there held.\<close>

definition nimfr :: "nat \<Rightarrow> string \<Rightarrow> string \<Rightarrow> nat \<Rightarrow> TFrame \<Rightarrow> frame_thread \<Rightarrow> frame_thread option" where
  "nimfr limit pname fname a g w =
     nimFrame limit a (w\<lparr>frames := (frames w)(a \<mapsto> g\<lparr>procname := pname, line := 0, filename := fname, fr_len := 0\<rparr>)\<rparr>)"

definition nimln :: "int \<Rightarrow> nat \<Rightarrow> frame_thread \<Rightarrow> frame_thread option" where
  "nimln n a w = do { f \<leftarrow> frames w a; Some (w\<lparr>frames := (frames w)(a \<mapsto> f\<lparr>line := n\<rparr>)\<rparr>) }"

definition nimlf :: "int \<Rightarrow> string \<Rightarrow> nat \<Rightarrow> frame_thread \<Rightarrow> frame_thread option" where
  "nimlf n file a w = do { f \<leftarrow> frames w a; Some (w\<lparr>frames := (frames w)(a \<mapsto> f\<lparr>line := n, filename := file\<rparr>)\<rparr>) }"

definition popFrame :: "frame_thread \<Rightarrow> frame_thread option" where
  "popFrame w = do { f \<leftarrow> deref (frames w) (framePtr w); Some (w\<lparr>framePtr := prev f\<rparr>) }"

definition setFrame :: "nat option \<Rightarrow> frame_thread \<Rightarrow> frame_thread" where
  "setFrame s w = w\<lparr>framePtr := s\<rparr>"

text \<open>\<open>setLen\<close> pads with zeros; a negative length fails.\<close>

definition setFrameMsg :: "string \<Rightarrow> string \<Rightarrow> nat \<Rightarrow> frame_thread \<Rightarrow> frame_thread option" where
  "setFrameMsg msg prefix a w = do {
     fr \<leftarrow> frames w a;
     buf \<leftarrow> (if frameMsgLen fr < 0 then None
            else let n = nat (frameMsgLen fr)
                 in Some (take n (frameMsgBuf w) @ replicate (n - length (frameMsgBuf w)) (CHR 0x00)));
     let buf = buf @ prefix;
     let buf = buf @ msg;
     Some (w\<lparr>frameMsgBuf := buf,
            frames := (frames w)(a \<mapsto> fr\<lparr>frameMsgLen := frameMsgLen fr + int (length prefix + length msg)\<rparr>)\<rparr>) }"

section \<open>The call stack\<close>

text \<open>What the frames stand for: the active calls, innermost first, each with its own message.\<close>

record call =
  c_addr :: nat
  c_proc :: string
  c_line :: int
  c_file :: string
  c_msg :: string

definition messages :: "call list \<Rightarrow> string" where
  "messages st = concat (map c_msg (rev st))"

definition line_ok :: "int \<Rightarrow> bool" where
  "line_ok n \<longleftrightarrow> 0 \<le> n \<and> n < 2 ^ 63"

definition stands_for :: "TFrame \<Rightarrow> call \<Rightarrow> bool" where
  "stands_for f c \<longleftrightarrow> procname f = c_proc c \<and> line f = c_line c \<and> filename f = c_file c \<and> line_ok (c_line c)"

primrec holds_calls :: "(nat \<rightharpoonup> TFrame) \<Rightarrow> nat option \<Rightarrow> call list \<Rightarrow> bool" where
  "holds_calls m p [] \<longleftrightarrow> p = None"
| "holds_calls m p (c # st) \<longleftrightarrow> p = Some (c_addr c) \<and>
     (\<exists>f. m (c_addr c) = Some f \<and> stands_for f c \<and> calldepth f = of_nat (length st) \<and>
        frameMsgLen f = int (length (messages (c # st))) \<and> holds_calls m (prev f) st)"

definition location :: "string \<Rightarrow> int \<Rightarrow> string" where
  "location file n = file @ (if n > 0 then ''('' @ dec_of_int n @ '')'' else [])"

definition entry_text :: "string \<Rightarrow> int \<Rightarrow> string \<Rightarrow> string \<Rightarrow> string" where
  "entry_text file n pname msg =
     location file n @ replicate (max 1 (25 - length (location file n))) CHR '' '' @ pname @ msg @ [CHR 0x0A]"

definition call_text :: "call \<Rightarrow> string" where
  "call_text c = entry_text (c_file c) (c_line c) (c_proc c) (c_msg c)"

definition omitted_text :: "nat \<Rightarrow> string" where
  "omitted_text n = ''('' @ dec_of_nat n @ '' calls omitted) ...'' @ [CHR 0x0A]"

text \<open>Up to 128 calls are all shown, oldest first; of a deeper stack the 31 outermost and the 96 innermost.\<close>

definition trace_text :: "call list \<Rightarrow> string" where
  "trace_text st =
     (if length st \<le> 128 then concat (map call_text (rev st))
      else concat (map call_text (rev (drop (length st - 31) st))) @ omitted_text (length st - 127) @
        concat (map call_text (rev (take 96 st))))"

definition raw_text :: "call list \<Rightarrow> string" where
  "raw_text st =
     (if st = [] then ''No stack traceback available'' @ [CHR 0x0A]
      else ''Traceback (most recent call last)'' @ [CHR 0x0A] @ trace_text st)"

definition entry_of :: "call \<Rightarrow> StackTraceEntry" where
  "entry_of c = \<lparr>st_procname = Some (c_proc c), st_line = c_line c, st_filename = Some (c_file c), st_frameMsg = c_msg c\<rparr>"

lemma messages_simps [simp]: "messages [] = []" "messages (c # st) = messages st @ c_msg c"
  by (simp_all add: messages_def)

lemma holds_calls_update [simp]: "a \<notin> c_addr ` set st \<Longrightarrow> holds_calls (m(a \<mapsto> f)) p st = holds_calls m p st"
  by (induction st arbitrary: p) auto

lemma holds_calls_nil: "holds_calls m p st \<Longrightarrow> p = None \<longleftrightarrow> st = []"
  by (cases st) auto

lemma holds_calls_Cons:
  assumes "holds_calls m p (c # st)"
  obtains f where "p = Some (c_addr c)" "m (c_addr c) = Some f" "stands_for f c" "calldepth f = of_nat (length st)"
    "frameMsgLen f = int (length (messages (c # st)))" "holds_calls m (prev f) st"
  using assms by auto

lemma holds_calls_drop: "holds_calls m p st \<Longrightarrow> \<exists>p'. holds_calls m p' (drop k st)"
proof (induction k arbitrary: p st)
  case (Suc k)
  show ?case
  proof (cases st)
    case (Cons c st')
    with Suc.prems obtain q where "holds_calls m q st'" by auto
    then show ?thesis using Suc.IH Cons by simp
  qed (use Suc.prems in auto)
qed auto

text \<open>The message of a frame.\<close>

lemma own_message_ok:
  assumes h: "holds_calls m p (c # st)" and f: "m (c_addr c) = Some f" and buf: "buf = messages (c # st) @ rest"
  shows "own_message m buf f = Some (c_msg c)"
proof -
  from h f have len: "frameMsgLen f = int (length (messages (c # st)))" and st: "holds_calls m (prev f) st" by auto
  have "(if prev f = None then Some 0 else do { g \<leftarrow> deref m (prev f); Some (frameMsgLen g) }) = Some (int (length (messages st)))"
    using st by (cases st) (auto simp: deref_def)
  then show ?thesis using len buf by (auto simp: own_message_def)
qed

lemma addFrameEntry_ok:
  "line_ok n \<Longrightarrow> addFrameEntry s file n pname msg = Some (s @ entry_text file n pname msg)"
proof -
  assume n: "line_ok n"
  then have "toLocation s file n 0 = Some (s @ location file n)"
    by (auto simp: toLocation_def location_def line_ok_def addInt_ok Let_def)
  moreover have "nat (max 1 (25 - (int (length (s @ loc)) - int (length s)))) = max 1 (25 - length loc)" for loc
    by simp
  ultimately show ?thesis by (simp add: addFrameEntry_def entry_text_def Let_def)
qed

text \<open>What a trace does with one frame.\<close>

definition frame_entry :: "frame_thread \<Rightarrow> nat option \<Rightarrow> string \<Rightarrow> string option" where
  "frame_entry w p s = do {
     f \<leftarrow> deref (frames w) p;
     msg \<leftarrow> own_message (frames w) (frameMsgBuf w) f;
     addFrameEntry s (filename f) (line f) (procname f) msg }"

lemma frame_entry_ok:
  assumes "holds_calls (frames w) p st" "c \<in> set st" "frameMsgBuf w = messages st @ rest"
  shows "frame_entry w (Some (c_addr c)) s = Some (s @ call_text c)"
  using assms
proof (induction st arbitrary: p rest)
  case (Cons d st)
  obtain f where f: "frames w (c_addr d) = Some f" "stands_for f d" "holds_calls (frames w) (prev f) st"
    using Cons.prems(1) by auto
  show ?case
  proof (cases "c = d")
    case True
    then show ?thesis
      using f own_message_ok [OF Cons.prems(1) f(1) Cons.prems(3)]
      by (simp add: frame_entry_def deref_def stands_for_def addFrameEntry_ok call_text_def)
  next
    case False
    then show ?thesis using Cons.IH [OF f(3)] Cons.prems by simp
  qed
qed simp

section \<open>Walking the frames\<close>

lemma headLoop_ok:
  assumes "holds_calls m p st" "i \<le> 96" "length tf = 128" "k = min (96 - i) (length st)"
  shows "\<exists>q t. headLoop m p tf i n = Some (q, t, i + k, n + k) \<and> holds_calls m q (drop k st) \<and> length t = 128 \<and>
    take (i + k) t = take i tf @ map (\<lambda>c. Some (c_addr c)) (take k st)"
  using assms
proof (induction st arbitrary: p i tf n k)
  case Nil
  then show ?case by (subst headLoop.simps) simp
next
  case (Cons c st)
  obtain f where f: "p = Some (c_addr c)" "m (c_addr c) = Some f" "holds_calls m (prev f) st"
    using Cons.prems(1) by auto
  show ?case
  proof (cases "i \<le> 95")
    case True
    let ?k = "min (96 - (i + 1)) (length st)"
    obtain q t where ih: "headLoop m (prev f) (tf[i := p]) (i + 1) (n + 1) = Some (q, t, i + 1 + ?k, n + 1 + ?k)"
        "holds_calls m q (drop ?k st)" "length t = 128"
        "take (i + 1 + ?k) t = take (i + 1) (tf[i := p]) @ map (\<lambda>c. Some (c_addr c)) (take ?k st)"
      using Cons.IH [of "prev f" "i + 1" "tf[i := p]" ?k "n + 1"] f(3) True Cons.prems(3) by auto
    have k: "k = Suc ?k" using Cons.prems(4) True by auto
    have "headLoop m p tf i n = headLoop m (prev f) (tf[i := p]) (i + 1) (n + 1)"
      using f(1,2) True by (subst headLoop.simps) (simp add: maxStackTraceLines_def deref_def)
    moreover have "take (i + 1) (tf[i := p]) = take i tf @ [p]"
      using True Cons.prems(3) by (simp add: take_Suc_conv_app_nth)
    ultimately show ?thesis using ih f(1) by (simp add: k)
  next
    case False
    then show ?thesis using Cons.prems by (subst headLoop.simps) (simp add: maxStackTraceLines_def)
  qed
qed

lemma countLoop_ok: "holds_calls m p st \<Longrightarrow> countLoop m p n = Some (n + length st)"
proof (induction st arbitrary: p n)
  case Nil
  then show ?case by (subst countLoop.simps) simp
next
  case (Cons c st)
  then show ?case by (subst countLoop.simps) (auto simp: deref_def)
qed

lemma skipLoop_ok: "holds_calls m p st \<Longrightarrow> \<exists>q. skipLoop m k p = Some q \<and> holds_calls m q (drop k st)"
proof (induction k arbitrary: p st)
  case (Suc k)
  then show ?case using Suc.IH [of None "[]"] by (cases st) (auto simp: deref_def)
qed simp

lemma tailLoop_ok:
  assumes "holds_calls m p st" "i + length st \<le> 128" "length tf = 128"
  shows "\<exists>t. tailLoop m p tf i = Some (t, i + length st) \<and>
    take (i + length st) t = take i tf @ map (\<lambda>c. Some (c_addr c)) st"
  using assms
proof (induction st arbitrary: p i tf)
  case Nil
  then show ?case by (subst tailLoop.simps) simp
next
  case (Cons c st)
  obtain f where f: "p = Some (c_addr c)" "m (c_addr c) = Some f" "holds_calls m (prev f) st"
    using Cons.prems(1) by auto
  obtain t where ih: "tailLoop m (prev f) (tf[i := p]) (i + 1) = Some (t, i + 1 + length st)"
      "take (i + 1 + length st) t = take (i + 1) (tf[i := p]) @ map (\<lambda>c. Some (c_addr c)) st"
    using Cons.IH [of "prev f" "i + 1" "tf[i := p]"] f(3) Cons.prems(2,3) by auto
  have "tailLoop m p tf i = tailLoop m (prev f) (tf[i := p]) (i + 1)"
    using f(1,2) Cons.prems(2) by (subst tailLoop.simps) (simp add: maxStackTraceLines_def deref_def)
  moreover have "take (i + 1) (tf[i := p]) = take i tf @ [p]"
    using Cons.prems(2,3) by (simp add: take_Suc_conv_app_nth)
  ultimately show ?case using ih f(1) by simp
qed

section \<open>The traces\<close>

text \<open>The array holds calls and at most one gap.\<close>

definition item_text :: "nat \<Rightarrow> call option \<Rightarrow> string" where
  "item_text skipped x = (case x of None \<Rightarrow> omitted_text skipped | Some c \<Rightarrow> call_text c)"

lemma emitLoop_ok:
  assumes h: "holds_calls (frames w) p st" "frameMsgBuf w = messages st @ rest"
    and items: "take n tf = map (map_option c_addr) items" "n \<le> length tf" "\<And>c. Some c \<in> set items \<Longrightarrow> c \<in> set st"
    and j: "j \<le> n"
  shows "emitLoop w tf skipped j s = Some (s @ concat (map (item_text skipped) (rev (take j items))))"
  using j
proof (induction j arbitrary: s)
  case (Suc j)
  have "length items = n" using items(2) by (metis items(1) length_map length_take min.absorb2)
  then have len: "j < length items" using Suc.prems by simp
  have nth: "tf ! j = map_option c_addr (items ! j)"
    using arg_cong [OF items(1), of "\<lambda>xs. xs ! j"] Suc.prems len by simp
  have "emitLoop w tf skipped (Suc j) s =
      do { s \<leftarrow> (if tf ! j = None then Some (s @ omitted_text skipped) else frame_entry w (tf ! j) s);
           emitLoop w tf skipped j s }"
    by (simp add: frame_entry_def omitted_text_def i2s_ok dec_of_int_def)
  also have "(if tf ! j = None then Some (s @ omitted_text skipped) else frame_entry w (tf ! j) s) =
      Some (s @ item_text skipped (items ! j))"
    using items(3) [of "the (items ! j)"] nth_mem [OF len]
    by (cases "items ! j") (auto simp: nth item_text_def frame_entry_ok [OF h(1) _ h(2)])
  finally show ?case using Suc.IH Suc.prems len by (simp add: take_Suc_conv_app_nth)
qed simp

lemma item_texts [simp]: "map (item_text k) (rev (map Some st)) = map call_text (rev st)"
  by (simp add: item_text_def rev_map)

lemma auxWriteStackTrace_ok:
  assumes h: "holds_calls (frames w) p st" "frameMsgBuf w = messages st @ rest"
  shows "auxWriteStackTrace w p s = Some (s @ trace_text st)"
proof -
  let ?n = "length st" and ?k = "min 96 (length st)"
  let ?a = "\<lambda>c. Some (c_addr c)"
  obtain q t where head: "headLoop (frames w) p (replicate 128 None) 0 0 = Some (q, t, ?k, ?k)"
      "holds_calls (frames w) q (drop ?k st)" "length t = 128" "take ?k t = map ?a (take ?k st)"
    using headLoop_ok [OF h(1), of 0 "replicate 128 None" ?k 0] by auto
  have count: "countLoop (frames w) q ?k = Some ?n" using countLoop_ok [OF head(2)] by simp
  show ?thesis
  proof (cases "?n \<le> 128")
    case True
    obtain t' where tail: "tailLoop (frames w) q t ?k = Some (t', ?n)" "take ?n t' = map ?a st"
      using tailLoop_ok [OF head(2) _ head(3), of ?k] True head(4)
      by (auto simp flip: map_append)
    have "take ?n t' = map (map_option c_addr) (map Some st)" using tail(2) by simp
    moreover have "?n \<le> length t'" by (metis tail(2) length_map length_take min.cobounded1)
    ultimately have "emitLoop w t' 0 ?n s = Some (s @ concat (map call_text (rev st)))"
      using emitLoop_ok [OF h, of ?n t' "map Some st" ?n 0 s] by auto
    then show ?thesis
      using True by (simp add: auxWriteStackTrace_def Let_def head(1) count tail(1) maxStackTraceLines_def trace_text_def)
  next
    case False
    obtain b where skip: "skipLoop (frames w) (?n - 127) q = Some b" "holds_calls (frames w) b (drop (?n - 127) (drop 96 st))"
      using skipLoop_ok [OF head(2), of "?n - 127"] False by auto
    have last31: "drop (?n - 127) (drop 96 st) = drop (?n - 31) st" using False by simp
    let ?t = "t[96 := None]"
    obtain t' where tail: "tailLoop (frames w) b ?t 97 = Some (t', 128)"
        "take 128 t' = take 97 ?t @ map ?a (drop (?n - 31) st)"
      using tailLoop_ok [OF skip(2), of 97 ?t] False head(3) by (auto simp: last31)
    have "take 97 ?t = map ?a (take 96 st) @ [None]"
      using head(3,4) False take_Suc_conv_app_nth [of 96 ?t] by simp
    then have items: "take 128 t' = map (map_option c_addr) (map Some (take 96 st) @ [None] @ map Some (drop (?n - 31) st))"
      using tail(2) by simp
    have "length t' \<ge> 128" using arg_cong [OF items, of length] False by simp
    then have emit: "emitLoop w t' (?n - 127) 128 s = Some (s @ trace_text st)"
      using emitLoop_ok [OF h items _ _ order_refl, of "?n - 127" s] False
      by (auto simp: trace_text_def item_text_def dest: in_set_takeD in_set_dropD)
    have "Suc (?n - 128) = ?n - 127" using False by simp
    then show ?thesis
      using False skip(1) tail(1) head(1) count emit
      by (simp add: auxWriteStackTrace_def Let_def maxStackTraceLines_def del: skipLoop.simps)
  qed
qed

lemma rawWriteStackTrace_ok:
  assumes "holds_calls (frames w) (framePtr w) st" "frameMsgBuf w = messages st @ rest"
  shows "rawWriteStackTrace w s = Some (s @ raw_text st)"
  using auxWriteStackTrace_ok [OF assms] holds_calls_nil [OF assms(1)]
  by (simp add: rawWriteStackTrace_def raw_text_def)

lemma fillTrace_ok:
  assumes "holds_calls (frames w) p st" "frameMsgBuf w = messages st @ rest" "length xs = length st"
  shows "fillTrace w p (int (length pre + length st) - 1) (pre @ xs @ ys) = Some (pre @ map entry_of (rev st) @ ys)"
  using assms
proof (induction st arbitrary: p rest xs ys)
  case Nil
  then show ?case by (subst fillTrace.simps) simp
next
  case (Cons c st)
  obtain f where f: "p = Some (c_addr c)" "frames w (c_addr c) = Some f" "stands_for f c" "holds_calls (frames w) (prev f) st"
    using Cons.prems(1) by auto
  obtain xs' x where xs: "xs = xs' @ [x]" "length xs' = length st"
    using Cons.prems(3) by (cases xs rule: rev_cases) auto
  have "fillTrace w p (int (length pre + length (c # st)) - 1) (pre @ xs @ ys) =
      fillTrace w (prev f) (int (length pre + length st) - 1) (pre @ xs' @ entry_of c # ys)"
    using f own_message_ok [OF Cons.prems(1) f(2) Cons.prems(2)] xs
    by (subst fillTrace.simps) (simp add: deref_def Let_def stands_for_def entry_of_def nat_add_distrib list_update_append)
  also have "\<dots> = Some (pre @ map entry_of (rev st) @ entry_of c # ys)"
    using Cons.IH [OF f(4) _ xs(2)] Cons.prems(2) by simp
  finally show ?case by simp
qed

lemma auxTraceEntries_ok:
  assumes "holds_calls (frames w) p st" "frameMsgBuf w = messages st @ rest"
  shows "auxTraceEntries w p s = Some (s @ map entry_of (rev st))"
  using fillTrace_ok [OF assms, of "replicate (length st) (reraisedFrom 0)" s "[]"]
  by (auto simp: auxTraceEntries_def countLoop_ok [OF assms(1)] Let_def)

definition raised :: "call list \<Rightarrow> StackTraceEntry list \<Rightarrow> StackTraceEntry list" where
  "raised st tr =
     (if tr = [] then map entry_of (rev st)
      else if st = [] then tr
      else tr @ [reraisedFrom reraisedFromBegin] @ map entry_of (rev st) @ [reraisedFrom reraisedFromEnd])"

lemma raise_trace_ok:
  assumes "holds_calls (frames w) (framePtr w) st" "frameMsgBuf w = messages st @ rest"
  shows "raise_trace w tr = Some (raised st tr)"
  using holds_calls_nil [OF assms(1)] by (simp add: raise_trace_def raised_def auxTraceEntries_ok [OF assms])

text \<open>The entries of an exception are calls or marks.\<close>

definition entry_ok :: "StackTraceEntry \<Rightarrow> bool" where
  "entry_ok e \<longleftrightarrow> e = reraisedFrom reraisedFromBegin \<or> e = reraisedFrom reraisedFromEnd \<or>
     (line_ok (st_line e) \<and> st_procname e \<noteq> None \<and> st_filename e \<noteq> None)"

definition st_text :: "StackTraceEntry \<Rightarrow> string" where
  "st_text e =
     (if st_line e = -10 then ''[[reraised from:'' @ [CHR 0x0A]
      else if st_line e = -100 then '']]'' @ [CHR 0x0A]
      else entry_text (the (st_filename e)) (st_line e) (the (st_procname e)) (st_frameMsg e))"

lemma dollar_trace_ok: "list_all entry_ok tr \<Longrightarrow> dollar_trace tr s = Some (s @ concat (map st_text tr))"
proof (induction tr arbitrary: s)
  case (Cons e tr)
  then show ?case
    by (auto simp: entry_ok_def st_text_def reraisedFrom_def reraisedFromBegin_def reraisedFromEnd_def addFrameEntry_ok
        line_ok_def)
qed simp

lemma entries_ok: "holds_calls m p st \<Longrightarrow> list_all entry_ok (map entry_of st)"
  by (induction st arbitrary: p) (auto simp: entry_ok_def entry_of_def stands_for_def)

lemma raised_ok: "holds_calls m p st \<Longrightarrow> list_all entry_ok tr \<Longrightarrow> list_all entry_ok (raised st tr)"
  using entries_ok [of m p st] by (auto simp: raised_def entry_ok_def list_all_iff)

section \<open>Programs\<close>

text \<open>What a thread does: enter a procedure, whose frame lies at \<open>a\<close> over the bytes \<open>g\<close>, reach a line, attach
  a message, return, restore the frame of the procedure that catches an exception, ask for its stack
  trace, raise an exception with the trace collected so far, catch and drop it, print its trace.  The
  macros work on the frame of the running procedure.\<close>

datatype frame_op =
  FCall nat TFrame string string | FLine int | FLineFile int string | FMsg string string | FReturn | FRestore nat
| FTrace | FRaise | FDrop | FPrint

type_synonym frame_run = "string list \<times> StackTraceEntry list \<times> frame_thread"

fun run_frame :: "nat \<Rightarrow> frame_op \<Rightarrow> frame_run \<Rightarrow> frame_run option" where
  "run_frame limit p (out, tr, w) =
     (if quit_code w \<noteq> None then Some (out, tr, w)
      else case p of
        FCall a g pname fname \<Rightarrow> do { w \<leftarrow> nimfr limit pname fname a g w; Some (out, tr, w) }
      | FLine n \<Rightarrow> do { a \<leftarrow> framePtr w; w \<leftarrow> nimln n a w; Some (out, tr, w) }
      | FLineFile n fname \<Rightarrow> do { a \<leftarrow> framePtr w; w \<leftarrow> nimlf n fname a w; Some (out, tr, w) }
      | FMsg msg prefix \<Rightarrow> do { a \<leftarrow> framePtr w; w \<leftarrow> setFrameMsg msg prefix a w; Some (out, tr, w) }
      | FReturn \<Rightarrow> do { w \<leftarrow> popFrame w; Some (out, tr, w) }
      | FRestore a \<Rightarrow> Some (out, tr, setFrame (Some a) w)
      | FTrace \<Rightarrow> do { s \<leftarrow> rawWriteStackTrace w []; Some (out @ [s], tr, w) }
      | FRaise \<Rightarrow> do { tr \<leftarrow> raise_trace w tr; Some (out, tr, w) }
      | FDrop \<Rightarrow> Some (out, [], w)
      | FPrint \<Rightarrow> do { s \<leftarrow> dollar_trace tr []; Some (out @ [s], tr, w) })"

declare run_frame.simps [simp del]

record call_state =
  cs_out :: "string list"
  cs_trace :: "StackTraceEntry list"
  cs_stack :: "call list"
  cs_err :: string
  cs_quit :: "int option"

definition limit_text :: "nat \<Rightarrow> string" where
  "limit_text limit = ''Error: call depth limit reached in a debug build ('' @ dec_of_nat limit @
     '' function calls). You can change it with -d:nimCallDepthLimit=<int> but really try to avoid deep recursions instead.'' @
     [CHR 0x0A]"

text \<open>The same on the list of the active calls.  A frame has an address no active frame has, lines are line
  numbers, and only the frame of an active call can be restored.\<close>

fun spec_frame :: "nat \<Rightarrow> frame_op \<Rightarrow> call_state \<Rightarrow> call_state option" where
  "spec_frame limit p s =
     (if cs_quit s \<noteq> None then Some s
      else case p of
        FCall a g pname fname \<Rightarrow>
          (if a \<in> c_addr ` set (cs_stack s) then None
           else let st = \<lparr>c_addr = a, c_proc = pname, c_line = 0, c_file = fname, c_msg = []\<rparr> # cs_stack s in
             if length (cs_stack s) = limit
             then Some (s\<lparr>cs_stack := st, cs_err := cs_err s @ raw_text st @ limit_text limit, cs_quit := Some 1\<rparr>)
             else Some (s\<lparr>cs_stack := st\<rparr>))
      | FLine n \<Rightarrow>
          (case cs_stack s of c # st \<Rightarrow> if line_ok n then Some (s\<lparr>cs_stack := c\<lparr>c_line := n\<rparr> # st\<rparr>) else None | [] \<Rightarrow> None)
      | FLineFile n fname \<Rightarrow>
          (case cs_stack s of c # st \<Rightarrow> if line_ok n then Some (s\<lparr>cs_stack := c\<lparr>c_line := n, c_file := fname\<rparr> # st\<rparr>) else None
           | [] \<Rightarrow> None)
      | FMsg msg prefix \<Rightarrow>
          (case cs_stack s of c # st \<Rightarrow> Some (s\<lparr>cs_stack := c\<lparr>c_msg := c_msg c @ prefix @ msg\<rparr> # st\<rparr>) | [] \<Rightarrow> None)
      | FReturn \<Rightarrow> (case cs_stack s of c # st \<Rightarrow> Some (s\<lparr>cs_stack := st\<rparr>) | [] \<Rightarrow> None)
      | FRestore a \<Rightarrow>
          (if a \<in> c_addr ` set (cs_stack s) then Some (s\<lparr>cs_stack := dropWhile (\<lambda>c. c_addr c \<noteq> a) (cs_stack s)\<rparr>) else None)
      | FTrace \<Rightarrow> Some (s\<lparr>cs_out := cs_out s @ [raw_text (cs_stack s)]\<rparr>)
      | FRaise \<Rightarrow> Some (s\<lparr>cs_trace := raised (cs_stack s) (cs_trace s)\<rparr>)
      | FDrop \<Rightarrow> Some (s\<lparr>cs_trace := []\<rparr>)
      | FPrint \<Rightarrow> Some (s\<lparr>cs_out := cs_out s @ [concat (map st_text (cs_trace s))]\<rparr>))"

declare spec_frame.simps [simp del]

definition calls_ok :: "nat \<Rightarrow> frame_thread \<Rightarrow> call list \<Rightarrow> bool" where
  "calls_ok limit w st \<longleftrightarrow> holds_calls (frames w) (framePtr w) st \<and> distinct (map c_addr st) \<and> length st \<le> limit \<and>
     (\<exists>rest. frameMsgBuf w = messages st @ rest)"

definition frame_agrees :: "nat \<Rightarrow> frame_run \<Rightarrow> call_state \<Rightarrow> bool" where
  "frame_agrees limit r s \<longleftrightarrow> limit < 2 ^ 15 \<and>
     (case r of (out, tr, w) \<Rightarrow> out = cs_out s \<and> tr = cs_trace s \<and> list_all entry_ok tr \<and> err_out w = cs_err s \<and>
        quit_code w = cs_quit s \<and> (cs_quit s = None \<longrightarrow> calls_ok limit w (cs_stack s)))"

section \<open>Each operation\<close>

lemma depth_word: "n \<le> limit \<Longrightarrow> limit < 2 ^ 15 \<Longrightarrow> sint (of_nat n :: 16 word) = int n"
  by (simp add: signed_of_nat signed_take_bit_int_eq_self)

lemma nimfr_ok:
  fixes pname fname :: string
  assumes ok: "calls_ok limit w st" and a: "a \<notin> c_addr ` set st" and limit: "limit < 2 ^ 15"
  defines "c \<equiv> \<lparr>c_addr = a, c_proc = pname, c_line = 0, c_file = fname, c_msg = []\<rparr>"
  shows "\<exists>w'. nimfr limit pname fname a g w = Some w' \<and>
    (if length st = limit
     then err_out w' = err_out w @ raw_text (c # st) @ limit_text limit \<and> quit_code w' = Some 1
     else err_out w' = err_out w \<and> quit_code w' = quit_code w \<and> calls_ok limit w' (c # st))"
proof -
  let ?g = "g\<lparr>procname := pname, line := 0, filename := fname, fr_len := 0\<rparr>"
  let ?f = "?g\<lparr>calldepth := of_nat (length st), frameMsgLen := int (length (messages st)), prev := framePtr w\<rparr>"
  let ?w = "w\<lparr>framePtr := Some a, frames := (frames w)(a \<mapsto> ?f)\<rparr>"
  have h: "holds_calls (frames w) (framePtr w) st" "length st \<le> limit" "distinct (map c_addr st)"
    using ok by (auto simp: calls_ok_def)
  obtain rest where buf: "frameMsgBuf w = messages st @ rest" using ok by (auto simp: calls_ok_def)
  have new: "holds_calls (frames ?w) (framePtr ?w) (c # st)" "frameMsgBuf ?w = messages (c # st) @ rest"
    using h(1) a buf by (auto simp: c_def stands_for_def line_ok_def)
  have depth: "sint (of_nat (length st) :: 16 word) = int limit \<longleftrightarrow> length st = limit"
    using depth_word [OF h(2) limit] by simp
  have "nimfr limit pname fname a g w =
      (if length st = limit then callDepthLimitReached limit ?w else Some ?w)"
  proof (cases st)
    case Nil
    then show ?thesis using h(1) depth by (simp add: nimfr_def nimFrame_def Let_def)
  next
    case (Cons d st')
    then obtain f where f: "framePtr w = Some (c_addr d)" "frames w (c_addr d) = Some f" "calldepth f = of_nat (length st')"
      "frameMsgLen f = int (length (messages st))"
      using h(1) by auto
    have "c_addr d \<noteq> a" using a Cons by auto
    moreover have "calldepth f + 1 = of_nat (length st)" using f(3) Cons by simp
    ultimately show ?thesis using f(1,2,4) depth by (simp add: nimfr_def nimFrame_def Let_def deref_def)
  qed
  moreover have "callDepthLimitReached limit ?w =
      Some (?w\<lparr>err_out := err_out w @ raw_text (c # st) @ limit_text limit, quit_code := Some 1\<rparr>)"
    using rawWriteStackTrace_ok [OF new, of "[]"]
    by (simp add: callDepthLimitReached_def writeStackTrace_def showErrorMessage2_def Let_def i2s_ok dec_of_int_def limit_text_def)
  ultimately show ?thesis
    using new h a by (auto simp: calls_ok_def c_def)
qed

text \<open>A change to the running procedure's frame.\<close>

lemma top_frame:
  assumes "calls_ok limit w (c # st)"
  obtains f rest where "framePtr w = Some (c_addr c)" "frames w (c_addr c) = Some f" "stands_for f c"
    "frameMsgLen f = int (length (messages (c # st)))" "frameMsgBuf w = messages (c # st) @ rest"
  using assms by (auto simp: calls_ok_def)

lemma update_top:
  assumes "calls_ok limit w (c # st)" "frames w (c_addr c) = Some f"
    and "prev f' = prev f" "calldepth f' = calldepth f" "c_addr c' = c_addr c" "stands_for f' c'"
    and "frameMsgLen f' = int (length (messages (c' # st)))" "buf = messages (c' # st) @ rest"
  shows "calls_ok limit (w\<lparr>frameMsgBuf := buf, frames := (frames w)(c_addr c \<mapsto> f')\<rparr>) (c' # st)"
  using assms by (auto simp: calls_ok_def)

lemma nimln_ok:
  assumes "calls_ok limit w (c # st)" "line_ok n"
  shows "\<exists>a w'. framePtr w = Some a \<and> nimln n a w = Some w' \<and> err_out w' = err_out w \<and> quit_code w' = quit_code w \<and>
    calls_ok limit w' (c\<lparr>c_line := n\<rparr> # st)"
  using assms(1)
proof (rule top_frame)
  fix f rest
  assume f: "framePtr w = Some (c_addr c)" "frames w (c_addr c) = Some f" "stands_for f c"
    "frameMsgLen f = int (length (messages (c # st)))" "frameMsgBuf w = messages (c # st) @ rest"
  have "calls_ok limit (w\<lparr>frameMsgBuf := frameMsgBuf w, frames := (frames w)(c_addr c \<mapsto> f\<lparr>line := n\<rparr>)\<rparr>) (c\<lparr>c_line := n\<rparr> # st)"
    by (rule update_top [OF assms(1) f(2)]) (use f assms(2) in \<open>auto simp: stands_for_def\<close>)
  then show ?thesis using f(1,2) by (simp add: nimln_def)
qed

lemma nimlf_ok:
  assumes "calls_ok limit w (c # st)" "line_ok n"
  shows "\<exists>a w'. framePtr w = Some a \<and> nimlf n fname a w = Some w' \<and> err_out w' = err_out w \<and> quit_code w' = quit_code w \<and>
    calls_ok limit w' (c\<lparr>c_line := n, c_file := fname\<rparr> # st)"
  using assms(1)
proof (rule top_frame)
  fix f rest
  assume f: "framePtr w = Some (c_addr c)" "frames w (c_addr c) = Some f" "stands_for f c"
    "frameMsgLen f = int (length (messages (c # st)))" "frameMsgBuf w = messages (c # st) @ rest"
  let ?f = "f\<lparr>line := n, filename := fname\<rparr>"
  have "calls_ok limit (w\<lparr>frameMsgBuf := frameMsgBuf w, frames := (frames w)(c_addr c \<mapsto> ?f)\<rparr>)
      (c\<lparr>c_line := n, c_file := fname\<rparr> # st)"
    by (rule update_top [OF assms(1) f(2)]) (use f assms(2) in \<open>auto simp: stands_for_def\<close>)
  then show ?thesis using f(1,2) by (simp add: nimlf_def)
qed

lemma setFrameMsg_ok:
  assumes "calls_ok limit w (c # st)"
  shows "\<exists>a w'. framePtr w = Some a \<and> setFrameMsg msg prefix a w = Some w' \<and> err_out w' = err_out w \<and>
    quit_code w' = quit_code w \<and> calls_ok limit w' (c\<lparr>c_msg := c_msg c @ prefix @ msg\<rparr> # st)"
  using assms
proof (rule top_frame)
  fix f rest
  assume f: "framePtr w = Some (c_addr c)" "frames w (c_addr c) = Some f" "stands_for f c"
    "frameMsgLen f = int (length (messages (c # st)))" "frameMsgBuf w = messages (c # st) @ rest"
  let ?f = "f\<lparr>frameMsgLen := frameMsgLen f + int (length prefix + length msg)\<rparr>"
  let ?buf = "messages (c # st) @ prefix @ msg"
  have "calls_ok limit (w\<lparr>frameMsgBuf := ?buf, frames := (frames w)(c_addr c \<mapsto> ?f)\<rparr>) (c\<lparr>c_msg := c_msg c @ prefix @ msg\<rparr> # st)"
    by (rule update_top [OF assms f(2), where rest = "[]"]) (use f in \<open>auto simp: stands_for_def\<close>)
  then show ?thesis using f(1,2,4,5) by (simp add: setFrameMsg_def Let_def nat_add_distrib)
qed

text \<open>A returned or abandoned call: what is left of the messages is a prefix of the buffer.\<close>

lemma popFrame_ok:
  assumes "calls_ok limit w (c # st)"
  shows "\<exists>w'. popFrame w = Some w' \<and> err_out w' = err_out w \<and> quit_code w' = quit_code w \<and> calls_ok limit w' st"
  using assms by (auto simp: popFrame_def deref_def calls_ok_def)

lemma setFrame_ok:
  assumes "calls_ok limit w st" "a \<in> c_addr ` set st"
  shows "calls_ok limit (setFrame (Some a) w) (dropWhile (\<lambda>c. c_addr c \<noteq> a) st)"
  using assms
proof (induction st arbitrary: w)
  case (Cons c st)
  show ?case
  proof (cases "c_addr c = a")
    case True
    then show ?thesis using Cons.prems by (auto simp: setFrame_def calls_ok_def)
  next
    case False
    obtain w' where w': "popFrame w = Some w'" "calls_ok limit w' st" using popFrame_ok [OF Cons.prems(1)] by blast
    then have "setFrame (Some a) w' = setFrame (Some a) w" by (auto simp: popFrame_def setFrame_def split: bind_splits)
    then show ?thesis using Cons.IH [OF w'(2)] Cons.prems(2) False by auto
  qed
qed simp

lemma run_frame_ok:
  assumes ag: "frame_agrees limit r s" and sp: "spec_frame limit p s = Some s'"
  shows "\<exists>r'. run_frame limit p r = Some r' \<and> frame_agrees limit r' s'"
proof -
  obtain out tr w where r: "r = (out, tr, w)" by (cases r)
  show ?thesis
  proof (cases "cs_quit s")
    case (Some q)
    then show ?thesis using ag sp by (auto simp: r frame_agrees_def run_frame.simps spec_frame.simps)
  next
    case None
    have limit: "limit < 2 ^ 15" and eq: "out = cs_out s" "tr = cs_trace s" "list_all entry_ok tr" "err_out w = cs_err s"
      "quit_code w = None" and ok: "calls_ok limit w (cs_stack s)"
      using ag None by (auto simp: r frame_agrees_def)
    have h: "holds_calls (frames w) (framePtr w) (cs_stack s)" using ok by (simp add: calls_ok_def)
    obtain rest where buf: "frameMsgBuf w = messages (cs_stack s) @ rest" using ok by (auto simp: calls_ok_def)
    note defs = run_frame.simps spec_frame.simps frame_agrees_def
    show ?thesis
    proof (cases p)
      case (FCall a g pname fname)
      then have a: "a \<notin> c_addr ` set (cs_stack s)" using sp None by (auto simp: spec_frame.simps split: if_splits)
      then show ?thesis
        using nimfr_ok [OF ok a limit, of pname fname g] eq None sp limit FCall
        by (auto simp: r defs Let_def split: if_splits)
    next
      case (FLine n)
      then obtain c st where "cs_stack s = c # st" "line_ok n" "s' = s\<lparr>cs_stack := c\<lparr>c_line := n\<rparr> # st\<rparr>"
        using sp None by (auto simp: spec_frame.simps split: list.splits if_splits)
      then show ?thesis using nimln_ok [of limit w c st n] ok eq None limit FLine by (auto simp: r defs)
    next
      case (FLineFile n fname)
      then obtain c st where "cs_stack s = c # st" "line_ok n" "s' = s\<lparr>cs_stack := c\<lparr>c_line := n, c_file := fname\<rparr> # st\<rparr>"
        using sp None by (auto simp: spec_frame.simps split: list.splits if_splits)
      then show ?thesis using nimlf_ok [of limit w c st n fname] ok eq None limit FLineFile by (auto simp: r defs)
    next
      case (FMsg msg prefix)
      then obtain c st where "cs_stack s = c # st" "s' = s\<lparr>cs_stack := c\<lparr>c_msg := c_msg c @ prefix @ msg\<rparr> # st\<rparr>"
        using sp None by (auto simp: spec_frame.simps split: list.splits)
      then show ?thesis using setFrameMsg_ok [of limit w c st msg "prefix"] ok eq None limit FMsg by (auto simp: r defs)
    next
      case FReturn
      then obtain c st where "cs_stack s = c # st" "s' = s\<lparr>cs_stack := st\<rparr>"
        using sp None by (auto simp: spec_frame.simps split: list.splits)
      then show ?thesis using popFrame_ok [of limit w c st] ok eq None limit FReturn by (auto simp: r defs)
    next
      case (FRestore a)
      then have "a \<in> c_addr ` set (cs_stack s)" "s' = s\<lparr>cs_stack := dropWhile (\<lambda>c. c_addr c \<noteq> a) (cs_stack s)\<rparr>"
        using sp None by (auto simp: spec_frame.simps split: if_splits)
      then show ?thesis using setFrame_ok [OF ok, of a] eq None limit FRestore by (auto simp: r defs, auto simp: setFrame_def)
    next
      case FTrace
      then show ?thesis
        using rawWriteStackTrace_ok [OF h buf, of "[]"] sp eq None limit ok by (auto simp: r defs)
    next
      case FRaise
      then show ?thesis
        using raise_trace_ok [OF h buf, of tr] raised_ok [OF h eq(3)] sp eq None limit ok by (auto simp: r defs)
    next
      case FDrop
      then show ?thesis using sp eq None limit ok by (auto simp: r defs)
    next
      case FPrint
      then show ?thesis using dollar_trace_ok [OF eq(3), of "[]"] sp eq None limit ok by (auto simp: r defs)
    qed
  qed
qed

interpretation fm: value_machine "run_frame limit" "spec_frame limit" "frame_agrees limit" for limit
  by unfold_locales (rule run_frame_ok)

section \<open>Limits beyond the counter\<close>

text \<open>The depth is counted in 16 bits, so a limit of 32768 or more is never met, however deep the calls are.\<close>

lemma never_limit: "2 ^ 15 \<le> limit \<Longrightarrow> sint (d :: 16 word) \<noteq> int limit"
  using sint_lt [of d] by auto

lemma deep_calls:
  assumes limit: "2 ^ 15 \<le> limit" and w: "quit_code w = None" "framePtr w = None \<or> deref (frames w) (framePtr w) \<noteq> None"
  shows "\<exists>w'. each (run_frame limit) (map (\<lambda>a. FCall a g pname fname) as) (out, tr, w) = Some (out, tr, w') \<and>
    quit_code w' = None \<and> err_out w' = err_out w \<and> (as = [] \<or> framePtr w' = Some (last as))"
  using w
proof (induction as arbitrary: w)
  case (Cons a as)
  let ?g = "g\<lparr>procname := pname, line := 0, filename := fname, fr_len := 0\<rparr>"
  have "framePtr w = None \<or> (\<exists>f. deref ((frames w)(a \<mapsto> ?g)) (framePtr w) = Some f)"
    using Cons.prems(2) by (cases "framePtr w") (auto simp: deref_def)
  then obtain d n where "nimfr limit pname fname a g w =
      Some (w\<lparr>framePtr := Some a, frames := (frames w)(a \<mapsto> ?g\<lparr>calldepth := d, frameMsgLen := n, prev := framePtr w\<rparr>)\<rparr>)"
    using never_limit [OF limit] by (cases "framePtr w = None") (auto simp: nimfr_def nimFrame_def Let_def)
  then obtain w1 where w1: "nimfr limit pname fname a g w = Some w1" "quit_code w1 = None" "err_out w1 = err_out w"
      "framePtr w1 = Some a" "deref (frames w1) (framePtr w1) \<noteq> None"
    using Cons.prems(1) by (auto simp: deref_def)
  have "run_frame limit (FCall a g pname fname) (out, tr, w) = Some (out, tr, w1)"
    using w1(1) Cons.prems(1) by (simp add: run_frame.simps)
  then show ?case using Cons.IH [of w1] w1 by auto
qed simp

section \<open>Properties\<close>

definition new_thread :: "(nat \<rightharpoonup> TFrame) \<Rightarrow> frame_thread" where
  "new_thread m = \<lparr>framePtr = None, frames = m, frameMsgBuf = [], err_out = [], quit_code = None\<rparr>"

abbreviation new_calls :: call_state where
  "new_calls \<equiv> \<lparr>cs_out = [], cs_trace = [], cs_stack = [], cs_err = [], cs_quit = None\<rparr>"

definition blank_frame :: TFrame where
  "blank_frame = \<lparr>prev = Some 7, procname = ''?'', line = 99, filename = [], fr_len = 0, calldepth = 5, frameMsgLen = 3\<rparr>"

definition sample_calls :: "frame_op list" where
  "sample_calls =
     [FCall 0 blank_frame ''main'' ''a.nim'', FLine 3, FCall 8 blank_frame ''f'' ''b.nim'', FMsg ''n=1'' '' '',
      FCall 16 blank_frame ''h'' ''b.nim'', FRaise, FRestore 0, FRaise, FTrace, FCall 8 blank_frame ''f'' ''b.nim'',
      FCall 16 blank_frame ''h'' ''b.nim'', FCall 24 blank_frame ''h'' ''b.nim'']"

text \<open>C16. The linked frames are the call stack.  Every program of calls, lines, messages, returns, caught
  exceptions and stack traces, wherever its frames lie and whatever was in their memory, never follows a
  dangling frame or reads outside the message buffer, and prints for each trace the active calls with
  their own lines and messages: all of them, or the 96 innermost and 31 outermost with the number of those
  omitted.  The process quits with the trace and the message of the limit exactly when the calls exceed it.
  The limit is below \<open>2^15\<close>.\<close>

theorem frames_are_the_call_stack:
  assumes "limit < 2 ^ 15" "each (spec_frame limit) ops new_calls = Some s"
  shows "\<exists>w. each (run_frame limit) ops ([], [], new_thread m) = Some (cs_out s, cs_trace s, w) \<and>
    err_out w = cs_err s \<and> quit_code w = cs_quit s \<and>
    (cs_quit s = None \<longrightarrow> holds_calls (frames w) (framePtr w) (cs_stack s))"
proof -
  have "frame_agrees limit ([], [], new_thread m) new_calls"
    using assms(1) by (simp add: frame_agrees_def new_thread_def calls_ok_def)
  from fm.programs_ok [OF this assms(2)] show ?thesis
    by (auto simp: frame_agrees_def calls_ok_def)
qed

theorem frames_are_the_call_stack_witness:
  "\<exists>s w. each (spec_frame 3) sample_calls new_calls = Some s \<and>
     each (run_frame 3) sample_calls ([], [], new_thread Map.empty) = Some (cs_out s, cs_trace s, w) \<and>
     length (cs_out s) = 1 \<and> length (cs_trace s) = 6 \<and> quit_code w = Some 1"
proof -
  have "\<exists>s. each (spec_frame 3) sample_calls new_calls = Some s \<and> length (cs_out s) = 1 \<and> length (cs_trace s) = 6 \<and>
      cs_quit s = Some 1"
    by (simp add: sample_calls_def spec_frame.simps raised_def line_ok_def Let_def)
  then obtain s where s: "each (spec_frame 3) sample_calls new_calls = Some s" "length (cs_out s) = 1"
    "length (cs_trace s) = 6" "cs_quit s = Some 1" by blast
  show ?thesis using s frames_are_the_call_stack [OF _ s(1), of Map.empty] by auto
qed

text \<open>C38. A call depth limit of 32768 or more, set with \<open>-d:nimCallDepthLimit\<close>, is never reached: the depth of
  a frame has 16 bits and wraps around, so nested calls of any number go on and the process does not quit.\<close>

theorem big_depth_limit_ignored:
  assumes "2 ^ 15 \<le> limit"
  shows "\<exists>w. each (run_frame limit) (map (\<lambda>a. FCall a g pname fname) [0..<n]) ([], [], new_thread m) = Some ([], [], w) \<and>
    quit_code w = None \<and> err_out w = [] \<and> (n = 0 \<or> framePtr w = Some (n - 1))"
  using deep_calls [OF assms, of "new_thread m" g pname fname "[0..<n]" "[]" "[]"]
  by (cases n) (auto simp: new_thread_def)

theorem big_depth_limit_ignored_witness:
  "\<exists>w. each (run_frame 40000) (map (\<lambda>a. FCall a blank_frame ''f'' ''a.nim'') [0..<40001]) ([], [], new_thread Map.empty) =
      Some ([], [], w) \<and> quit_code w = None \<and> err_out w = [] \<and> framePtr w = Some 40000"
  using big_depth_limit_ignored [of 40000 blank_frame "''f''" "''a.nim''" 40001 Map.empty] by simp

text \<open>C25. The two renderings of integers agree: \<open>addInt\<close>, which fills a buffer two digits at a time from a
  table, and \<open>i2s\<close>, which reverses digits in place, both write the decimal digits of every 64 bit integer,
  the smallest included; \<open>addInt\<close> copies only characters it has written.\<close>

theorem integer_texts_agree:
  assumes "- (2 ^ 63) \<le> x" "x < 2 ^ 63"
  shows "addInt result x = Some (result @ i2s x) \<and> i2s x = dec_of_int x"
  using addInt_ok [OF assms] by (simp_all add: i2s_ok)

theorem integer_texts_agree_witness:
  "addInt ''n='' (- 9223372036854775808) = Some (''n='' @ i2s (- 9223372036854775808))"
  using integer_texts_agree [of "- 9223372036854775808" "''n=''"] by simp

end
