(* ===== verification/Nim_Algorithm.thy ===== *)
theory Nim_Algorithm
  imports Nim_Sorting
begin

text \<open>
  Sorting and searching in arrays (\<open>pure/algorithm.nim\<close>): the merge sort that moves elements between the
  array and a buffer of half its length, \<open>isSorted\<close>, \<open>binarySearch\<close>, \<open>lowerBound\<close> and \<open>upperBound\<close>.  While it is
  sorted an array is a list of options: None is an element that has been moved away, and None as a
  result is a read of such an element, an index out of range, a failed assertion or an overflow.
\<close>

section \<open>Sorting\<close>

definition arr_get :: "nat \<Rightarrow> 'a option list \<Rightarrow> 'a option" where
  "arr_get i a = do { x \<leftarrow> mem_get i a; x }"

text \<open>The loops of \<open>mergeAlt\<close>: the first run moves into the buffer, both runs are merged back, the rest of
  the buffer follows.\<close>

partial_function (option) copyOut ::
    "nat \<Rightarrow> nat \<Rightarrow> nat \<Rightarrow> 'a option list \<times> 'a option list \<Rightarrow> (nat \<times> 'a option list \<times> 'a option list) option" where
  "copyOut m bb j ab =
     (if j \<le> m then do {
        x \<leftarrow> arr_get j (fst ab);
        b \<leftarrow> mem_set bb (Some x) (snd ab);
        copyOut m (bb + 1) (j + 1) ((fst ab)[j := None], b) }
      else Some (j, ab))"

partial_function (option) mergeBack ::
    "('a \<Rightarrow> 'a \<Rightarrow> int) \<Rightarrow> SortOrder \<Rightarrow> nat \<Rightarrow> nat \<times> nat \<times> nat \<Rightarrow> 'a option list \<times> 'a option list \<Rightarrow>
       ((nat \<times> nat \<times> nat) \<times> 'a option list \<times> 'a option list) option" where
  "mergeBack cmp order hi ijk ab =
     (case ijk of (i, j, k) \<Rightarrow>
        if k < j \<and> j \<le> hi then do {
          x \<leftarrow> arr_get i (snd ab);
          y \<leftarrow> arr_get j (fst ab);
          c \<leftarrow> order_mult (cmp x y) order;
          if c \<le> 0 then do {
            a \<leftarrow> mem_set k (Some x) (fst ab);
            mergeBack cmp order hi (i + 1, j, k + 1) (a, (snd ab)[i := None]) }
          else do {
            a \<leftarrow> mem_set k (Some y) ((fst ab)[j := None]);
            mergeBack cmp order hi (i, j + 1, k + 1) (a, snd ab) } }
        else Some (ijk, ab))"

partial_function (option) copyRest ::
    "nat \<Rightarrow> nat \<Rightarrow> nat \<Rightarrow> 'a option list \<times> 'a option list \<Rightarrow> ('a option list \<times> 'a option list) option" where
  "copyRest j i k ab =
     (if k < j then do {
        x \<leftarrow> arr_get i (snd ab);
        a \<leftarrow> mem_set k (Some x) (fst ab);
        copyRest j (i + 1) (k + 1) (a, (snd ab)[i := None]) }
      else Some ab)"

definition mergeAlt ::
    "('a \<Rightarrow> 'a \<Rightarrow> int) \<Rightarrow> SortOrder \<Rightarrow> nat \<Rightarrow> nat \<Rightarrow> nat \<Rightarrow> 'a option list \<times> 'a option list \<Rightarrow>
       ('a option list \<times> 'a option list) option" where
  "mergeAlt cmp order lo m hi ab = do {
     x \<leftarrow> arr_get m (fst ab);
     y \<leftarrow> arr_get (m + 1) (fst ab);
     c \<leftarrow> order_mult (cmp x y) order;
     if c \<le> 0 then Some ab
     else if lo \<le> m then do {
       (j, ab) \<leftarrow> copyOut m 0 lo ab;
       ((i, j, k), ab) \<leftarrow> mergeBack cmp order hi (0, j, lo) ab;
       copyRest j i k ab }
     else None }"

partial_function (option) sortRound ::
    "('a \<Rightarrow> 'a \<Rightarrow> int) \<Rightarrow> SortOrder \<Rightarrow> nat \<Rightarrow> int \<Rightarrow> 'a option list \<times> 'a option list \<Rightarrow>
       ('a option list \<times> 'a option list) option" where
  "sortRound cmp order s m ab =
     (if m \<ge> 0 then do {
        ab \<leftarrow> mergeAlt cmp order (nat (max (m - int s + 1) 0)) (nat m) (nat (m + int s)) ab;
        sortRound cmp order s (m - int s * 2) ab }
      else Some ab)"

partial_function (option) sortRounds ::
    "('a \<Rightarrow> 'a \<Rightarrow> int) \<Rightarrow> SortOrder \<Rightarrow> nat \<Rightarrow> nat \<Rightarrow> 'a option list \<times> 'a option list \<Rightarrow>
       ('a option list \<times> 'a option list) option" where
  "sortRounds cmp order n s ab =
     (if s < n then do {
        ab \<leftarrow> sortRound cmp order s (int n - 1 - int s) ab;
        sortRounds cmp order n (s * 2) ab }
      else Some ab)"

definition sort_array :: "('a \<Rightarrow> 'a \<Rightarrow> int) \<Rightarrow> SortOrder \<Rightarrow> 'a list \<Rightarrow> 'a option list option" where
  "sort_array cmp order a = do {
     let n = length a;
     let b = replicate (n div 2) None;
     let s = 1;
     (a, b) \<leftarrow> sortRounds cmp order n s (map Some a, b);
     Some a }"

text \<open>\<open>merge\<close> appends to \<open>result\<close>: the fields of \<open>ijk\<close> are \<open>ix\<close>, \<open>iy\<close> and \<open>i\<close>.  When one of the arrays is at its end the
  rest of the other follows.\<close>

partial_function (option) appendRest :: "'a list \<Rightarrow> nat \<Rightarrow> nat \<Rightarrow> 'a option list \<Rightarrow> 'a option list option" where
  "appendRest y iy i result =
     (if iy < length y then do {
        v \<leftarrow> mem_get iy y;
        result \<leftarrow> mem_set i (Some v) result;
        appendRest y (iy + 1) (i + 1) result }
      else Some result)"

partial_function (option) mergeItems ::
    "('a \<Rightarrow> 'a \<Rightarrow> int) \<Rightarrow> 'a list \<Rightarrow> 'a list \<Rightarrow> nat \<times> nat \<times> nat \<Rightarrow> 'a option list \<Rightarrow> 'a option list option" where
  "mergeItems cmp x y ijk result =
     (case ijk of (ix, iy, i) \<Rightarrow>
        if ix = length x then appendRest y iy i result
        else if iy = length y then appendRest x ix i result
        else do {
          itemX \<leftarrow> mem_get ix x;
          itemY \<leftarrow> mem_get iy y;
          if cmp itemX itemY > 0 then do {
            result \<leftarrow> mem_set i (Some itemY) result;
            mergeItems cmp x y (ix, iy + 1, i + 1) result }
          else do {
            result \<leftarrow> mem_set i (Some itemX) result;
            mergeItems cmp x y (ix + 1, iy, i + 1) result } })"

definition merge_into :: "('a \<Rightarrow> 'a \<Rightarrow> int) \<Rightarrow> 'a list \<Rightarrow> 'a list \<Rightarrow> 'a list \<Rightarrow> 'a option list option" where
  "merge_into cmp result x y =
     (let oldLen = length result in
      mergeItems cmp x y (0, 0, oldLen) (map Some result @ replicate (length x + length y) None))"

fun isSortedLoop :: "('a \<Rightarrow> 'a \<Rightarrow> int) \<Rightarrow> SortOrder \<Rightarrow> 'a list \<Rightarrow> nat \<Rightarrow> nat \<Rightarrow> bool option" where
  "isSortedLoop cmp order a i 0 = Some True"
| "isSortedLoop cmp order a i (Suc left) = do {
     x \<leftarrow> mem_get i a;
     y \<leftarrow> mem_get (i + 1) a;
     c \<leftarrow> order_mult (cmp x y) order;
     if c > 0 then Some False else isSortedLoop cmp order a (i + 1) left }"

definition isSorted :: "('a \<Rightarrow> 'a \<Rightarrow> int) \<Rightarrow> SortOrder \<Rightarrow> 'a list \<Rightarrow> bool option" where
  "isSorted cmp order a = isSortedLoop cmp order a 0 (length a - 1)"

section \<open>Searching\<close>

text \<open>The search in an array whose length is a power of two: an index where the key is, or the last index
  tried.\<close>

partial_function (option) powerSearch ::
    "('a \<Rightarrow> 'k \<Rightarrow> int) \<Rightarrow> 'a list \<Rightarrow> 'k \<Rightarrow> nat \<Rightarrow> nat \<Rightarrow> (nat + nat) option" where
  "powerSearch cmp a key step result =
     (if step > 0 then do {
        let i = result OR step;
        x \<leftarrow> mem_get i a;
        if cmp x key = 0 then Some (Inl i)
        else powerSearch cmp a key (drop_bit 1 step) (if cmp x key < 0 then i else result) }
      else Some (Inr result))"

partial_function (option) halfSearch ::
    "('a \<Rightarrow> 'k \<Rightarrow> int) \<Rightarrow> 'a list \<Rightarrow> 'k \<Rightarrow> nat \<Rightarrow> nat \<Rightarrow> (nat + nat) option" where
  "halfSearch cmp a key result b =
     (if result < b then do {
        let mid = drop_bit 1 (result + b);
        x \<leftarrow> mem_get mid a;
        if cmp x key = 0 then Some (Inl mid)
        else if cmp x key < 0 then halfSearch cmp a key (mid + 1) b
        else halfSearch cmp a key result mid }
      else Some (Inr result))"

definition binarySearch :: "('a \<Rightarrow> 'k \<Rightarrow> int) \<Rightarrow> 'a list \<Rightarrow> 'k \<Rightarrow> int option" where
  "binarySearch cmp a key =
     (let len = length a in
      if len = 0 then Some (-1)
      else if len = 1 then do { x \<leftarrow> mem_get 0 a; Some (if cmp x key = 0 then 0 else -1) }
      else if len AND (len - 1) = 0 then do {
        r \<leftarrow> powerSearch cmp a key (drop_bit 1 len) 0;
        (case r of
           Inl i \<Rightarrow> Some (int i)
         | Inr result \<Rightarrow> do { x \<leftarrow> mem_get result a; Some (if cmp x key \<noteq> 0 then -1 else int result) }) }
      else do {
        r \<leftarrow> halfSearch cmp a key 0 len;
        (case r of
           Inl i \<Rightarrow> Some (int i)
         | Inr result \<Rightarrow>
             if result \<ge> len then Some (-1)
             else do { x \<leftarrow> mem_get result a; Some (if cmp x key \<noteq> 0 then -1 else int result) }) })"

text \<open>\<open>lowerBound\<close> goes right on \<open>cmp(a[pos], key) < 0\<close>, \<open>upperBound\<close> on \<open>cmp(a[pos], key) <= 0\<close>.\<close>

partial_function (option) boundLoop :: "('a \<Rightarrow> bool) \<Rightarrow> 'a list \<Rightarrow> nat \<Rightarrow> nat \<Rightarrow> nat option" where
  "boundLoop right a result todo =
     (if todo \<noteq> 0 then do {
        let step = drop_bit 1 todo;
        let pos = result + step;
        x \<leftarrow> mem_get pos a;
        if right x then boundLoop right a (pos + 1) (todo - (step + 1))
        else boundLoop right a result step }
      else Some result)"

definition lowerBound :: "('a \<Rightarrow> 'k \<Rightarrow> int) \<Rightarrow> 'a list \<Rightarrow> 'k \<Rightarrow> nat option" where
  "lowerBound cmp a key = boundLoop (\<lambda>x. cmp x key < 0) a 0 (length a)"

definition upperBound :: "('a \<Rightarrow> 'k \<Rightarrow> int) \<Rightarrow> 'a list \<Rightarrow> 'k \<Rightarrow> nat option" where
  "upperBound cmp a key = boundLoop (\<lambda>x. cmp x key \<le> 0) a 0 (length a)"

section \<open>The merge steps\<close>

lemma arr_get_append [simp]: "arr_get (length xs) (xs @ Some x # ys) = Some x"
  by (simp add: arr_get_def mem_get_def)

lemma mem_set_append [simp]: "mem_set (length xs) y (xs @ x # ys) = Some (xs @ y # ys)"
  by (simp add: mem_set_def)

lemma copyOut_ok:
  assumes "length X \<le> length D" "m + 1 = length P + length X" "j = length P" "bb = length B"
  shows "copyOut m bb j (P @ map Some X @ R, B @ D) =
    Some (m + 1, P @ replicate (length X) None @ R, B @ map Some X @ drop (length X) D)"
  using assms
proof (induction X arbitrary: P B D j bb)
  case Nil
  then show ?case by (subst copyOut.simps) simp
next
  case (Cons x X)
  then obtain d D' where D: "D = d # D'" by (cases D) auto
  have "copyOut m bb j (P @ map Some (x # X) @ R, B @ D) =
      copyOut m (bb + 1) (j + 1) ((P @ [None]) @ map Some X @ R, (B @ [Some x]) @ D')"
    using Cons.prems by (subst copyOut.simps) (simp add: D)
  also have "\<dots> = Some (m + 1, (P @ [None]) @ replicate (length X) None @ R, (B @ [Some x]) @ map Some X @ drop (length X) D')"
    by (rule Cons.IH) (use Cons.prems D in auto)
  finally show ?case by (simp add: D replicate_append_same flip: replicate_Suc)
qed

lemma copyRest_ok:
  assumes "k = length P" "j = length P + length X" "i = length B"
  shows "\<exists>b. copyRest j i k (P @ replicate (length X) None @ R, B @ map Some X @ D) = Some (P @ map Some X @ R, b) \<and>
    length b = length B + length X + length D"
  using assms
proof (induction X arbitrary: P B i k)
  case Nil
  then show ?case by (subst copyRest.simps) simp
next
  case (Cons x X)
  have "copyRest j i k (P @ replicate (length (x # X)) None @ R, B @ map Some (x # X) @ D) =
      copyRest j (i + 1) (k + 1) ((P @ [Some x]) @ replicate (length X) None @ R, (B @ [None]) @ map Some X @ D)"
    using Cons.prems by (subst copyRest.simps) simp
  then show ?case using Cons.IH [of "k + 1" "P @ [Some x]" "i + 1" "B @ [None]"] Cons.prems by simp
qed

lemma comparableD:
  "comparable cmp order A \<Longrightarrow> preorder_on A (cmp_le cmp order)"
  "comparable cmp order A \<Longrightarrow> x \<in> A \<Longrightarrow> y \<in> A \<Longrightarrow> \<exists>c. order_mult (cmp x y) order = Some c \<and> (c \<le> 0 \<longleftrightarrow> cmp_le cmp order x y)"
  using order_mult_ok [of cmp x y order] unfolding comparable_def by blast+

lemma mergeBack_ok:
  assumes "comparable cmp order A" "set X \<union> set Y \<subseteq> A"
    and "k = length P" "j = length P + length X" "hi + 1 = length P + length X + length Y" "i = length B"
  shows "\<exists>ijk ab b. mergeBack cmp order hi (i, j, k) (P @ replicate (length X) None @ map Some Y @ Q, B @ map Some X @ D) = Some (ijk, ab) \<and>
    (case ijk of (i, j, k) \<Rightarrow> copyRest j i k ab) = Some (P @ map Some (merge_by (cmp_le cmp order) X Y) @ Q, b) \<and>
    length b = length B + length X + length D"
  using assms
proof (induction "length X + length Y" arbitrary: P X Y B i j k)
  case 0
  then show ?case using copyRest_ok [of k P j "[]" i B Q D] by (subst mergeBack.simps) auto
next
  case (Suc n)
  show ?case
  proof (cases "X = [] \<or> Y = []")
    case True
    then have "mergeBack cmp order hi (i, j, k) (P @ replicate (length X) None @ map Some Y @ Q, B @ map Some X @ D) =
        Some ((i, j, k), (P @ replicate (length X) None @ map Some Y @ Q, B @ map Some X @ D))"
      using Suc.prems by (subst mergeBack.simps) auto
    then show ?thesis
      using True copyRest_ok [of k P j X i B "map Some Y @ Q" D] Suc.prems by (cases X) auto
  next
    case False
    then obtain x X' y Y' where XY: "X = x # X'" "Y = y # Y'" by (meson neq_Nil_conv)
    obtain c where c: "order_mult (cmp x y) order = Some c" and le: "c \<le> 0 \<longleftrightarrow> cmp_le cmp order x y"
      using comparableD(2) [OF Suc.prems(1), of x y] Suc.prems(2) by (auto simp: XY)
    have get: "arr_get j (P @ replicate (length X) None @ map Some Y @ Q) = Some y"
      using arr_get_append [of "P @ replicate (length X) None" y] Suc.prems by (simp add: XY)
    show ?thesis
    proof (cases "c \<le> 0")
      case True
      have "mergeBack cmp order hi (i, j, k) (P @ replicate (length X) None @ map Some Y @ Q, B @ map Some X @ D) =
          mergeBack cmp order hi (i + 1, j, k + 1)
            ((P @ [Some x]) @ replicate (length X') None @ map Some Y @ Q, (B @ [None]) @ map Some X' @ D)"
        using Suc.prems c True get by (subst mergeBack.simps) (simp add: XY)
      then show ?thesis
        using Suc.hyps(1) [of X' Y "k + 1" "P @ [Some x]" j "i + 1" "B @ [None]"] Suc.hyps(2) Suc.prems True le
        by (simp add: XY)
    next
      case False
      have upd: "(P @ replicate (length X) None @ map Some Y @ Q)[j := None] = P @ None # replicate (length X') None @ None # map Some Y' @ Q"
        using list_update_length [of "P @ replicate (length X) None" "Some y" "map Some Y' @ Q" None] Suc.prems by (simp add: XY)
      have "mergeBack cmp order hi (i, j, k) (P @ replicate (length X) None @ map Some Y @ Q, B @ map Some X @ D) =
          mergeBack cmp order hi (i, j + 1, k + 1)
            ((P @ [Some y]) @ replicate (length X) None @ map Some Y' @ Q, B @ map Some X @ D)"
        using Suc.prems c False get upd by (subst mergeBack.simps) (simp add: XY replicate_app_Cons_same)
      then show ?thesis
        using Suc.hyps(1) [of X Y' "k + 1" "P @ [Some y]" "j + 1" i B] Suc.hyps(2) Suc.prems False le
        by (simp add: XY)
    qed
  qed
qed

lemma merge_by_append: "(\<And>x. x \<in> set X \<Longrightarrow> le x y) \<Longrightarrow> merge_by le X (y # Y) = X @ y # Y"
  by (induction X) auto

lemma mergeAlt_ok:
  assumes C: "comparable cmp order A" and sub: "set X \<union> set Y \<subseteq> A"
    and srt: "sorted_wrt (cmp_le cmp order) X" "sorted_wrt (cmp_le cmp order) Y"
    and ne: "X \<noteq> []" "Y \<noteq> []" and len: "length X \<le> length b"
    and pos: "lo = length P" "m + 1 = length P + length X" "hi + 1 = length P + length X + length Y"
  shows "\<exists>b'. mergeAlt cmp order lo m hi (P @ map Some X @ map Some Y @ Q, b) =
      Some (P @ map Some (merge_by (cmp_le cmp order) X Y) @ Q, b') \<and> length b' = length b"
proof -
  let ?a = "P @ map Some X @ map Some Y @ Q"
  obtain X' x where X: "X = X' @ [x]" using ne(1) by (metis append_butlast_last_id)
  obtain y Y' where Y: "Y = y # Y'" using ne(2) by (cases Y) auto
  have get: "arr_get m ?a = Some x" "arr_get (Suc m) ?a = Some y"
    using arr_get_append [of "P @ map Some X'" x "map Some Y @ Q"] arr_get_append [of "P @ map Some X" y "map Some Y' @ Q"] pos
    by (simp_all add: X Y)
  obtain c where c: "order_mult (cmp x y) order = Some c" "c \<le> 0 \<longleftrightarrow> cmp_le cmp order x y"
    using comparableD(2) [OF C, of x y] sub by (auto simp: X Y)
  show ?thesis
  proof (cases "c \<le> 0")
    case True
    have "cmp_le cmp order z y" if "z \<in> set X" for z
      using preorder_onD(2) [OF comparableD(1) [OF C], of z x y] that srt(1) True c(2) sub
      by (auto simp: X Y sorted_wrt_append)
    then have "merge_by (cmp_le cmp order) X Y = X @ Y" unfolding Y by (intro merge_by_append) auto
    then show ?thesis using True get c by (simp add: mergeAlt_def)
  next
    case False
    have out: "copyOut m 0 lo (?a, b) =
        Some (m + 1, P @ replicate (length X) None @ map Some Y @ Q, map Some X @ drop (length X) b)"
      using copyOut_ok [of X b m P lo 0 "[]" "map Some Y @ Q"] pos len by simp
    have "lo \<le> m" using pos ne by (cases X) auto
    moreover obtain i j k ab b' where "mergeBack cmp order hi (0, m + 1, lo)
          (P @ replicate (length X) None @ map Some Y @ Q, map Some X @ drop (length X) b) = Some ((i, j, k), ab)"
        "copyRest j i k ab = Some (P @ map Some (merge_by (cmp_le cmp order) X Y) @ Q, b')" "length b' = length b"
      using mergeBack_ok [OF C sub, of lo P "m + 1" hi 0 "[]" Q "drop (length X) b"] pos len by fastforce
    ultimately show ?thesis using False get c out by (simp add: mergeAlt_def)
  qed
qed

section \<open>The rounds of the sort\<close>

text \<open>Blocks are counted from the end of the array; the first may be shorter.\<close>

function sort_tail :: "('a \<Rightarrow> 'a \<Rightarrow> bool) \<Rightarrow> nat \<Rightarrow> 'a list \<Rightarrow> 'a list" where
  "sort_tail le s xs =
     (if xs = [] \<or> s = 0 then []
      else sort_tail le s (take (length xs - s) xs) @ isort le (drop (length xs - s) xs))"
  by auto
termination by (relation "measure (\<lambda>(le, s, xs). length xs)") auto

declare sort_tail.simps [simp del]

lemma sort_tail_Nil [simp]: "sort_tail le s [] = []"
  by (simp add: sort_tail.simps)

lemma length_sort_tail [simp]: "0 < s \<Longrightarrow> length (sort_tail le s xs) = length xs"
  by (induction le s xs rule: sort_tail.induct) (subst sort_tail.simps, auto)

lemma sort_tail_all: "length xs \<le> s \<Longrightarrow> sort_tail le s xs = isort le xs"
  by (cases "xs = []") (simp, subst sort_tail.simps, auto)

lemma sort_tail_1: "sort_tail le (Suc 0) xs = xs"
proof (induction xs rule: rev_induct)
  case (snoc x xs)
  then show ?case by (subst sort_tail.simps) simp
qed simp

lemma sort_tail_step:
  assumes "0 < s"
  shows "sort_tail le s xs = sort_tail le s (take (length xs - s) xs) @ isort le (drop (length xs - s) xs)"
  using assms by (cases "xs = []") (simp, subst sort_tail.simps, simp)

lemma sort_tail_two_steps:
  assumes "0 < s"
  shows "sort_tail le s xs = sort_tail le s (take (length xs - 2 * s) xs) @
    isort le (drop (length xs - 2 * s) (take (length xs - s) xs)) @ isort le (drop (length xs - s) xs)"
proof -
  let ?t = "take (length xs - s) xs"
  have "length ?t - s = length xs - 2 * s" by simp
  then have "sort_tail le s ?t = sort_tail le s (take (length xs - 2 * s) xs) @ isort le (drop (length xs - 2 * s) ?t)"
    using sort_tail_step [OF assms, of le ?t] by (simp add: min_def)
  then show ?thesis using sort_tail_step [OF assms, of le xs] by simp
qed

lemma sortRound_ok:
  assumes C: "comparable cmp order A" and "set xs \<subseteq> A" "0 < s" "length xs \<le> 2 * length b + 1"
  shows "\<exists>b'. sortRound cmp order s (int (length xs) - 1 - int s)
        (map Some (sort_tail (cmp_le cmp order) s xs) @ Q, b) =
      Some (map Some (sort_tail (cmp_le cmp order) (2 * s) xs) @ Q, b') \<and> length b' = length b"
  using assms(2-)
proof (induction "length xs" arbitrary: xs Q b rule: less_induct)
  case less
  let ?le = "cmp_le cmp order" and ?n = "length xs"
  show ?case
  proof (cases "?n \<le> s")
    case True
    then show ?thesis by (subst sortRound.simps) (simp add: sort_tail_all)
  next
    case False
    define k where "k = ?n - 2 * s"
    define X Y where "X = drop k (take (?n - s) xs)" and "Y = drop (?n - s) xs"
    have P: "preorder_on A ?le" using comparableD(1) [OF C] .
    have XY: "X @ Y = drop k xs"
    proof -
      have "drop k xs = drop k (take (?n - s) xs @ drop (?n - s) xs)" by simp
      then show ?thesis by (simp only: drop_append) (simp add: X_def Y_def k_def)
    qed
    have sub: "set X \<union> set Y \<subseteq> A" "set (take k xs) \<subseteq> A"
      using less.prems(1) by (auto simp: X_def Y_def dest: in_set_takeD in_set_dropD)
    have old: "sort_tail ?le s xs = sort_tail ?le s (take k xs) @ isort ?le X @ isort ?le Y"
      using sort_tail_two_steps [OF less.prems(2)] by (simp add: X_def Y_def k_def)
    have new: "sort_tail ?le (2 * s) xs = sort_tail ?le (2 * s) (take k xs) @ isort ?le (X @ Y)"
      using sort_tail_step [of "2 * s" ?le xs] less.prems(2) by (simp add: k_def XY)
    have len: "length X = ?n - s - k" "length Y = s" "length X \<le> length b" "X \<noteq> []" "Y \<noteq> []"
      using False less.prems(2,3) by (auto simp: X_def Y_def k_def)
    have merged: "merge_by ?le (isort ?le X) (isort ?le Y) = isort ?le (X @ Y)"
      using merge_isort [OF P sub(1)] .
    have srt: "sorted_wrt ?le (isort ?le X)" "sorted_wrt ?le (isort ?le Y)"
      using sorted_isort [OF P] sub(1) by auto
    have ne: "isort ?le X \<noteq> []" "isort ?le Y \<noteq> []" using len(4,5) by (metis length_0_conv length_isort)+
    have ix: "nat (max (int ?n - 1 - int s - int s + 1) 0) = k" "nat (int ?n - 1 - int s) = ?n - 1 - s"
        "nat (int ?n - 1 - int s + int s) = ?n - 1"
      using False by (auto simp: k_def)
    have pos: "k = length (map Some (sort_tail ?le s (take k xs)))"
        "?n - 1 - s + 1 = length (map Some (sort_tail ?le s (take k xs))) + length (isort ?le X)"
        "?n - 1 + 1 = length (map Some (sort_tail ?le s (take k xs))) + length (isort ?le X) + length (isort ?le Y)"
      using False less.prems(2) len(1,2) by (auto simp: k_def)
    obtain b1 where b1: "mergeAlt cmp order k (?n - 1 - s) (?n - 1) (map Some (sort_tail ?le s xs) @ Q, b) =
        Some (map Some (sort_tail ?le s (take k xs)) @ map Some (isort ?le (X @ Y)) @ Q, b1)" "length b1 = length b"
      using mergeAlt_ok [OF C _ srt ne _ pos, of b Q] sub(1) len(3) by (auto simp: old merged)
    have "int ?n - 1 - int s \<ge> 0" using False by simp
    moreover have "\<exists>b'. sortRound cmp order s (int ?n - 1 - int s - int s * 2)
          (map Some (sort_tail ?le s (take k xs)) @ map Some (isort ?le (X @ Y)) @ Q, b1) =
        Some (map Some (sort_tail ?le (2 * s) (take k xs)) @ map Some (isort ?le (X @ Y)) @ Q, b') \<and> length b' = length b"
    proof (cases "k = 0")
      case True
      then show ?thesis using False b1(2) by (subst sortRound.simps) (auto simp: k_def)
    next
      case F: False
      have "int (length (take k xs)) - 1 - int s = int ?n - 1 - int s - int s * 2"
        using F by (simp add: k_def)
      then show ?thesis
        using less.hyps [of "take k xs" b1 "map Some (isort ?le (X @ Y)) @ Q"] less.prems(2,3) sub(2) b1(2) False
        by (auto simp: k_def)
    qed
    ultimately show ?thesis using b1(1) by (subst sortRound.simps, unfold ix) (simp add: new)
  qed
qed

lemma sortRounds_ok:
  assumes C: "comparable cmp order A" "set xs \<subseteq> A" and "0 < s" "length xs \<le> 2 * length b + 1"
  shows "\<exists>b'. sortRounds cmp order (length xs) s (map Some (sort_tail (cmp_le cmp order) s xs), b) =
      Some (map Some (isort (cmp_le cmp order) xs), b')"
  using assms(3,4)
proof (induction "length xs - s" arbitrary: s b rule: less_induct)
  case less
  show ?case
  proof (cases "s < length xs")
    case True
    obtain b1 where "sortRound cmp order s (int (length xs) - 1 - int s) (map Some (sort_tail (cmp_le cmp order) s xs), b) =
        Some (map Some (sort_tail (cmp_le cmp order) (s * 2) xs), b1)" "length b1 = length b"
      using sortRound_ok [OF C less.prems, of "[]"] by (auto simp: mult.commute)
    then show ?thesis
      using less.hyps [of "s * 2" b1] less.prems True by (subst sortRounds.simps) simp
  qed (subst sortRounds.simps, simp add: sort_tail_all)
qed

lemma sort_array_ok:
  "comparable cmp order (set xs) \<Longrightarrow> sort_array cmp order xs = Some (map Some (isort (cmp_le cmp order) xs))"
  using sortRounds_ok [of cmp order "set xs" xs 1 "replicate (length xs div 2) None"] div_mult_mod_eq [of "length xs" 2]
  by (fastforce simp: sort_array_def sort_tail_1 Let_def)

section \<open>Merging two arrays\<close>

lemma appendRest_ok:
  "appendRest (X @ Y) (length X) (length R) (R @ replicate (length Y) None) = Some (R @ map Some Y)"
proof (induction Y arbitrary: X R)
  case Nil
  show ?case by (subst appendRest.simps) simp
next
  case (Cons y Y)
  have "appendRest (X @ y # Y) (length X) (length R) (R @ replicate (length (y # Y)) None) =
      appendRest ((X @ [y]) @ Y) (length (X @ [y])) (length (R @ [Some y])) ((R @ [Some y]) @ replicate (length Y) None)"
    by (subst appendRest.simps) (simp add: mem_get_def)
  then show ?case using Cons.IH [of "X @ [y]" "R @ [Some y]"] by simp
qed

lemma mergeItems_ok:
  "mergeItems cmp (X @ U) (Y @ V) (length X, length Y, length R) (R @ replicate (length U + length V) None) =
    Some (R @ map Some (merge_by (\<lambda>x y. cmp x y \<le> 0) U V))"
proof (induction "\<lambda>x y. cmp x y \<le> 0" U V arbitrary: X Y R rule: merge_by.induct)
  case (1 V)
  then show ?case using appendRest_ok [of Y V R] by (subst mergeItems.simps) simp
next
  case (2 u U)
  then show ?case using appendRest_ok [of X "u # U" R] by (subst mergeItems.simps) simp
next
  case (3 u U v V)
  have get: "mem_get (length X) (X @ u # U) = Some u" "mem_get (length Y) (Y @ v # V) = Some v"
    by (simp_all add: mem_get_def)
  show ?case
  proof (cases "cmp u v \<le> 0")
    case True
    then show ?thesis using "3.hyps"(1) [of "X @ [u]" Y "R @ [Some u]"] get by (subst mergeItems.simps) simp
  next
    case False
    then show ?thesis using "3.hyps"(2) [of X "Y @ [v]" "R @ [Some v]"] get by (subst mergeItems.simps) simp
  qed
qed

lemma merge_into_ok: "merge_into cmp xs x y = Some (map Some (xs @ merge_by (\<lambda>x y. cmp x y \<le> 0) x y))"
  using mergeItems_ok [of cmp "[]" x "[]" y "map Some xs"] by (simp add: merge_into_def)

section \<open>What the tests and searches return\<close>

lemma isSortedLoop_ok:
  assumes "comparable cmp order A" "set (x # xs) \<subseteq> A"
  shows "isSortedLoop cmp order (P @ x # xs) (length P) (length xs) = Some (sorted_wrt (cmp_le cmp order) (x # xs))"
  using assms(2)
proof (induction xs arbitrary: P x)
  case (Cons y ys)
  let ?le = "cmp_le cmp order"
  obtain c where c: "order_mult (cmp x y) order = Some c" "c \<le> 0 \<longleftrightarrow> ?le x y"
    using comparableD(2) [OF assms(1), of x y] Cons.prems by auto
  have "?le x z" if "?le x y" "?le y z" "z \<in> set ys" for z
    using preorder_onD(2) [OF comparableD(1) [OF assms(1)], of x y z] Cons.prems that by auto
  then have "sorted_wrt ?le (x # y # ys) \<longleftrightarrow> ?le x y \<and> sorted_wrt ?le (y # ys)" by auto
  moreover have "mem_get (length P + 1) (P @ x # y # ys) = Some y"
    using nth_append_length [of "P @ [x]" y ys] by (simp add: mem_get_def)
  moreover have "mem_get (length P) (P @ x # y # ys) = Some x" by (simp add: mem_get_def)
  moreover have "isSortedLoop cmp order (P @ x # y # ys) (length P + 1) (length ys) = Some (sorted_wrt ?le (y # ys))"
    using Cons.IH [of y "P @ [x]"] Cons.prems by simp
  ultimately show ?case using c by auto
qed simp

lemma isSorted_ok:
  "comparable cmp order (set xs) \<Longrightarrow> isSorted cmp order xs = Some (sorted_wrt (cmp_le cmp order) xs)"
  using isSortedLoop_ok [of cmp order "set xs" _ _ "[]"] by (cases xs) (auto simp: isSorted_def)

text \<open>What is less than the key comes first, then what equals it, then what is greater.\<close>

definition sorted_for :: "('a \<Rightarrow> 'k \<Rightarrow> int) \<Rightarrow> 'k \<Rightarrow> 'a list \<Rightarrow> bool" where
  "sorted_for cmp key a \<longleftrightarrow> sorted_wrt (\<lambda>x y. sgn (cmp x key) \<le> sgn (cmp y key)) a"

lemma sorted_forD:
  assumes "sorted_for cmp key a" "i \<le> j" "j < length a"
  shows "cmp (a ! j) key < 0 \<Longrightarrow> cmp (a ! i) key < 0" "cmp (a ! i) key > 0 \<Longrightarrow> cmp (a ! j) key > 0"
    "cmp (a ! j) key \<le> 0 \<Longrightarrow> cmp (a ! i) key \<le> 0" "cmp (a ! i) key \<ge> 0 \<Longrightarrow> cmp (a ! j) key \<ge> 0"
proof -
  have "sgn (cmp (a ! i) key) \<le> sgn (cmp (a ! j) key)"
    using assms sorted_wrt_nth_less [of _ a i j] by (cases "i = j") (auto simp: sorted_for_def)
  then show "cmp (a ! j) key < 0 \<Longrightarrow> cmp (a ! i) key < 0" "cmp (a ! i) key > 0 \<Longrightarrow> cmp (a ! j) key > 0"
    "cmp (a ! j) key \<le> 0 \<Longrightarrow> cmp (a ! i) key \<le> 0" "cmp (a ! i) key \<ge> 0 \<Longrightarrow> cmp (a ! j) key \<ge> 0"
    by (auto simp: sgn_if split: if_splits)
qed

text \<open>The elements before \<open>i\<close> are too small and those from \<open>j\<close> on too large.\<close>

definition between :: "('a \<Rightarrow> 'k \<Rightarrow> int) \<Rightarrow> 'k \<Rightarrow> 'a list \<Rightarrow> nat \<Rightarrow> nat \<Rightarrow> bool" where
  "between cmp key a i j \<longleftrightarrow> (\<forall>l < length a. (l < i \<longrightarrow> cmp (a ! l) key < 0) \<and> (j \<le> l \<longrightarrow> cmp (a ! l) key > 0))"

lemma between_left:
  "between cmp key a i j \<Longrightarrow> sorted_for cmp key a \<Longrightarrow> m < length a \<Longrightarrow> cmp (a ! m) key < 0 \<Longrightarrow> i' \<le> m + 1 \<Longrightarrow>
    between cmp key a i' j"
  using sorted_forD(1) [of cmp key a _ m] by (auto simp: between_def)

lemma between_right:
  "between cmp key a i j \<Longrightarrow> sorted_for cmp key a \<Longrightarrow> m < length a \<Longrightarrow> cmp (a ! m) key > 0 \<Longrightarrow> m \<le> j' \<Longrightarrow>
    between cmp key a i j'"
  using sorted_forD(2) [of cmp key a m] by (auto simp: between_def)

lemma halfSearch_ok:
  assumes "sorted_for cmp key a" "between cmp key a i j" "i \<le> j" "j \<le> length a"
  shows "\<exists>r. halfSearch cmp a key i j = Some r \<and>
    (case r of Inl m \<Rightarrow> m < length a \<and> cmp (a ! m) key = 0 | Inr q \<Rightarrow> q \<le> length a \<and> between cmp key a q q)"
  using assms(2-)
proof (induction "j - i" arbitrary: i j rule: less_induct)
  case less
  show ?case
  proof (cases "i < j")
    case True
    define m where "m = drop_bit 1 (i + j)"
    have m: "i \<le> m" "m < j" using True by (auto simp: m_def drop_bit_eq_div)
    then have get: "mem_get m a = Some (a ! m)" using less.prems by (simp add: mem_get_def)
    have step: "halfSearch cmp a key i j = (if cmp (a ! m) key = 0 then Some (Inl m)
        else if cmp (a ! m) key < 0 then halfSearch cmp a key (m + 1) j else halfSearch cmp a key i m)"
      using get True unfolding m_def by (subst halfSearch.simps) (simp add: Let_def)
    consider "cmp (a ! m) key = 0" | "cmp (a ! m) key < 0" | "cmp (a ! m) key > 0" by linarith
    then show ?thesis
    proof cases
      case 1
      then show ?thesis using m less.prems by (simp add: step)
    next
      case 2
      have "between cmp key a (m + 1) j" by (rule between_left [OF less.prems(1) assms(1), of m]) (use 2 m less.prems in auto)
      then show ?thesis using less.hyps [of j "m + 1"] m less.prems 2 by (simp add: step)
    next
      case 3
      have "between cmp key a i m" by (rule between_right [OF less.prems(1) assms(1), of m]) (use 3 m less.prems in auto)
      then show ?thesis using less.hyps [of m i] m less.prems 3 by (simp add: step)
    qed
  qed (use less.prems in \<open>subst halfSearch.simps, auto\<close>)
qed

lemma and_minus_1_power: "0 < n \<Longrightarrow> n AND (n - 1) = 0 \<Longrightarrow> \<exists>k. n = 2 ^ k" for n :: nat
proof (induction n rule: less_induct)
  case (less n)
  have "drop_bit 1 n AND drop_bit 1 (n - 1) = 0" by (simp only: less.prems(2) drop_bit_of_0 flip: drop_bit_and)
  then have h: "(n div 2) AND ((n - 1) div 2) = 0" by (simp only: drop_bit_eq_div power_one_right)
  show ?case
  proof (cases "even n")
    case True
    then obtain m where m: "n = 2 * m" by auto
    then have "(n - 1) div 2 = m - 1" using less.prems(1) by simp
    then obtain k where "m = 2 ^ k" using less.IH [of m] h m less.prems(1) by auto
    then show ?thesis using m by (metis power_Suc)
  next
    case False
    then have "n div 2 = (n - 1) div 2" by (auto elim: oddE)
    then have "n = 1" using h False by (auto elim!: oddE)
    then show ?thesis by (metis power_0)
  qed
qed

lemma or_power: "(q * 2 ^ Suc k) OR 2 ^ k = q * 2 ^ Suc k + 2 ^ k" for q :: nat
proof -
  have "(q * 2 ^ Suc k) AND 2 ^ k = 0"
    unfolding push_bit_eq_mult [symmetric] by (rule bit_eqI) (auto simp: bit_simps bit_0)
  then show ?thesis by (simp only: disjunctive_add_eq_or)
qed

lemma powerSearch_ok:
  assumes "sorted_for cmp key a" "between cmp key a r (r + 2 ^ k)" "r = q * 2 ^ k" "r + 2 ^ k \<le> length a"
  shows "\<exists>s. powerSearch cmp a key (drop_bit 1 (2 ^ k)) r = Some s \<and>
    (case s of Inl m \<Rightarrow> m < length a \<and> cmp (a ! m) key = 0 | Inr p \<Rightarrow> p < length a \<and> between cmp key a p (p + 1))"
  using assms(2-)
proof (induction k arbitrary: r q)
  case 0
  then show ?case by (subst powerSearch.simps) simp
next
  case (Suc k)
  define m where "m = r + 2 ^ k"
  have "(2 :: nat) ^ k > 0" by simp
  then have len: "m < length a" using Suc.prems(3) unfolding m_def power_Suc by linarith
  have w: "drop_bit 1 (2 ^ Suc k) = (2 ^ k :: nat)" by (simp add: drop_bit_eq_div)
  have "r OR 2 ^ k = m" using or_power [of q k] Suc.prems(2) by (simp add: m_def)
  then have step: "powerSearch cmp a key (drop_bit 1 (2 ^ Suc k)) r = (if cmp (a ! m) key = 0 then Some (Inl m)
      else powerSearch cmp a key (drop_bit 1 (2 ^ k)) (if cmp (a ! m) key < 0 then m else r))"
    unfolding w using len by (subst powerSearch.simps) (simp add: Let_def mem_get_def)
  consider "cmp (a ! m) key = 0" | "cmp (a ! m) key < 0" | "cmp (a ! m) key > 0" by linarith
  then show ?case
  proof cases
    case 2
    have "between cmp key a m (m + 2 ^ k)"
      using between_left [OF Suc.prems(1) assms(1) len 2, of m] by (simp add: m_def mult_2 add.assoc)
    moreover have "m = (2 * q + 1) * 2 ^ k" using Suc.prems(2) by (simp add: m_def)
    moreover have "m + 2 ^ k \<le> length a" using Suc.prems(3) by (simp add: m_def)
    moreover have "powerSearch cmp a key (drop_bit 1 (2 ^ Suc k)) r = powerSearch cmp a key (drop_bit 1 (2 ^ k)) m"
      unfolding step using 2 by simp
    ultimately show ?thesis using Suc.IH [of m "2 * q + 1"] by simp
  next
    case 3
    have "between cmp key a r m" by (rule between_right [OF Suc.prems(1) assms(1) len 3]) simp
    then have "between cmp key a r (r + 2 ^ k)" by (simp add: m_def)
    moreover have "r = 2 * q * 2 ^ k" "r + 2 ^ k \<le> length a" using Suc.prems(2,3) by simp_all
    moreover have "powerSearch cmp a key (drop_bit 1 (2 ^ Suc k)) r = powerSearch cmp a key (drop_bit 1 (2 ^ k)) r"
      unfolding step using 3 by simp
    ultimately show ?thesis using Suc.IH [of r "2 * q"] by simp
  qed (unfold step, simp add: len)
qed

lemma between_found:
  assumes "between cmp key a p q" "q \<le> p + 1" "x \<in> set a" "cmp x key = 0"
  shows "p < length a \<and> cmp (a ! p) key = 0 \<and> q = p + 1"
proof -
  obtain l where l: "l < length a" "x = a ! l" using assms(3) by (auto simp: in_set_conv_nth)
  have "p \<le> l" "l < q" using assms(1,4) l by (force simp: between_def)+
  then have "l = p" "q = p + 1" using assms(2) by auto
  then show ?thesis using assms(4) l by auto
qed

lemma binarySearch_ok:
  assumes "sorted_for cmp key a"
  shows "\<exists>r. binarySearch cmp a key = Some r \<and>
    (if \<exists>x \<in> set a. cmp x key = 0 then 0 \<le> r \<and> nat r < length a \<and> cmp (a ! nat r) key = 0 else r = -1)"
proof -
  have none: "between cmp key a 0 (length a)" by (simp add: between_def)
  consider "a = []" | x where "a = [x]" | "length a > 1" "length a AND (length a - 1) = 0"
    | "length a > 1" "length a AND (length a - 1) \<noteq> 0"
    by (cases a; cases "tl a") auto
  then show ?thesis
  proof cases
    case 1
    then show ?thesis by (simp add: binarySearch_def)
  next
    case 2
    then show ?thesis by (simp add: binarySearch_def mem_get_def)
  next
    case 3
    have "0 < length a" using 3 by linarith
    then obtain k where "length a = 2 ^ k" using and_minus_1_power [of "length a"] 3(2) by blast
    then obtain s where s: "powerSearch cmp a key (drop_bit 1 (length a)) 0 = Some s"
        "case s of Inl m \<Rightarrow> m < length a \<and> cmp (a ! m) key = 0 | Inr p \<Rightarrow> p < length a \<and> between cmp key a p (p + 1)"
      using powerSearch_ok [OF assms, of 0 k 0] none by auto
    then show ?thesis
      using 3 between_found [of cmp key a _ _] by (force simp: binarySearch_def Let_def mem_get_def split: sum.splits)
  next
    case 4
    obtain s where s: "halfSearch cmp a key 0 (length a) = Some s"
        "case s of Inl m \<Rightarrow> m < length a \<and> cmp (a ! m) key = 0 | Inr p \<Rightarrow> p \<le> length a \<and> between cmp key a p p"
      using halfSearch_ok [OF assms none] by auto
    then show ?thesis
      using 4 between_found [of cmp key a _ _] by (force simp: binarySearch_def Let_def mem_get_def split: sum.splits)
  qed
qed

lemma boundLoop_ok:
  assumes "sorted_wrt (\<lambda>x y. right y \<longrightarrow> right x) a" "\<forall>l < i. right (a ! l)" "\<forall>l < length a. i + n \<le> l \<longrightarrow> \<not> right (a ! l)"
    and "i + n \<le> length a"
  shows "boundLoop right a i n = Some (length (takeWhile right a))"
  using assms(2-)
proof (induction n arbitrary: i rule: less_induct)
  case (less n)
  show ?case
  proof (cases "n = 0")
    case True
    have "takeWhile right a = take i a"
      by (rule takeWhile_eq_take_P_nth) (use True less.prems in auto)
    then have "length (takeWhile right a) = i" using less.prems(3) by simp
    then show ?thesis using True by (subst boundLoop.simps) simp
  next
    case False
    define m where "m = i + n div 2"
    have m: "m < length a" using False less.prems(3) by (simp add: m_def)
    have step: "boundLoop right a i n = (if right (a ! m) then boundLoop right a (m + 1) (n - (n div 2 + 1)) else boundLoop right a i (n div 2))"
      using m False unfolding m_def by (subst boundLoop.simps) (simp add: mem_get_def Let_def drop_bit_eq_div)
    have mono: "right (a ! k) \<Longrightarrow> l \<le> k \<Longrightarrow> k < length a \<Longrightarrow> right (a ! l)" for k l
      using sorted_wrt_nth_less [OF assms(1), of l k] by (cases "l = k") auto
    show ?thesis
    proof (cases "right (a ! m)")
      case True
      then show ?thesis
        using less.IH [of "n - (n div 2 + 1)" "m + 1"] mono [of m] less.prems m False by (simp add: step) (simp add: m_def)
    next
      case F: False
      then show ?thesis using less.IH [of "n div 2" i] mono [of _ m] less.prems m False by (auto simp: step) (auto simp: m_def)
    qed
  qed
qed

section \<open>Properties\<close>

text \<open>C13. \<open>sort\<close> on an array, for every comparison that orders its elements and either order: the rounds of the
  merge sort end, every access is inside the array and inside the buffer of half its length, every place of
  the array holds an element again, and these are the same elements, in order, with those that compare
  equal in the order they had; and \<open>isSorted\<close> answers true for the result.\<close>

theorem sort_array_is_stable_sort:
  assumes "comparable cmp order (set xs)"
  shows "\<exists>ys. sort_array cmp order xs = Some (map Some ys) \<and> mset ys = mset xs \<and> sorted_wrt (cmp_le cmp order) ys \<and>
    (\<forall>z \<in> set xs. filter (equiv_by (cmp_le cmp order) z) ys = filter (equiv_by (cmp_le cmp order) z) xs) \<and>
    isSorted cmp order ys = Some True"
proof -
  let ?ys = "isort (cmp_le cmp order) xs"
  note P = comparableD(1) [OF assms]
  have "sorted_wrt (cmp_le cmp order) ?ys" by (rule sorted_isort [OF P order_refl])
  moreover have "comparable cmp order (set ?ys)" using assms by simp
  ultimately show ?thesis
    using sort_array_ok [OF assms] isSorted_ok [of cmp order ?ys] filter_isort [OF P, of _ xs] by (auto simp: insert_absorb)
qed

lemma comparable_first: "comparable (\<lambda>x y. int (fst x) - int (fst y)) Descending {(1 :: nat, ''a''), (3, ''b''), (1, ''c''), (2, ''d''), (3, ''e'')}"
  by (auto simp: comparable_def preorder_on_def cmp_le_def order_mult_def order_ord_def not_int_def)

theorem sort_array_is_stable_sort_witness:
  "sort_array (\<lambda>x y. int (fst x) - int (fst y)) Descending [(1 :: nat, ''a''), (3, ''b''), (1, ''c''), (2, ''d''), (3, ''e'')] =
      Some (map Some [(3, ''b''), (3, ''e''), (2, ''d''), (1, ''a''), (1, ''c'')]) \<and>
    (\<exists>ys. sort_array (\<lambda>x y. int (fst x) - int (fst y)) Descending [(1 :: nat, ''a''), (3, ''b''), (1, ''c''), (2, ''d''), (3, ''e'')] =
      Some (map Some ys) \<and> sorted_wrt (cmp_le (\<lambda>x y. int (fst x) - int (fst y)) Descending) ys)"
proof
  have c: "comparable (\<lambda>x y. int (fst x) - int (fst y)) Descending (set [(1 :: nat, ''a''), (3, ''b''), (1, ''c''), (2, ''d''), (3, ''e'')])"
    using comparable_first by simp
  show "sort_array (\<lambda>x y. int (fst x) - int (fst y)) Descending [(1 :: nat, ''a''), (3, ''b''), (1, ''c''), (2, ''d''), (3, ''e'')] =
      Some (map Some [(3, ''b''), (3, ''e''), (2, ''d''), (1, ''a''), (1, ''c'')])"
    unfolding sort_array_ok [OF c] by (simp add: cmp_le_def)
  show "\<exists>ys. sort_array (\<lambda>x y. int (fst x) - int (fst y)) Descending [(1 :: nat, ''a''), (3, ''b''), (1, ''c''), (2, ''d''), (3, ''e'')] =
      Some (map Some ys) \<and> sorted_wrt (cmp_le (\<lambda>x y. int (fst x) - int (fst y)) Descending) ys"
    using sort_array_is_stable_sort [OF c] by blast
qed

text \<open>C15. \<open>binarySearch\<close> in an array sorted for the key, of any length: it ends, reads only inside the array,
  and returns the index of an element that equals the key when there is one, else -1.  The lengths that are
  powers of two are searched in another way, bit by bit.\<close>

theorem binarySearch_finds:
  assumes "sorted_for cmp key a"
  shows "\<exists>r. binarySearch cmp a key = Some r \<and>
    (if \<exists>x \<in> set a. cmp x key = 0 then 0 \<le> r \<and> nat r < length a \<and> cmp (a ! nat r) key = 0 else r = -1)"
  by (rule binarySearch_ok [OF assms])

theorem binarySearch_finds_witness:
  "(\<exists>r. binarySearch (\<lambda>x y. x - y) [2, 3, 5, 7, 11, 13, 17, 19 :: int] 13 = Some r \<and>
      nat r < 8 \<and> [2, 3, 5, 7, 11, 13, 17, 19 :: int] ! nat r - 13 = 0) \<and>
    binarySearch (\<lambda>x y. x - y) [2, 3, 5 :: int] 4 = Some (-1)"
  using binarySearch_finds [of "\<lambda>x y. x - y" 13 "[2, 3, 5, 7, 11, 13, 17, 19 :: int]"]
    binarySearch_finds [of "\<lambda>x y. x - y" 4 "[2, 3, 5 :: int]"]
  by (auto simp: sorted_for_def)

text \<open>C24. In an array sorted for the key \<open>lowerBound\<close> and \<open>upperBound\<close> end and read only inside the array; the
  elements before the lower bound are those less than the key, the elements between the bounds those that
  equal it, the elements from the upper bound on those that are greater.\<close>

theorem bounds_split_the_array:
  assumes "sorted_for cmp key a"
  shows "\<exists>l u. lowerBound cmp a key = Some l \<and> upperBound cmp a key = Some u \<and> l \<le> u \<and> u \<le> length a \<and>
    (\<forall>i < length a. (i < l \<longleftrightarrow> cmp (a ! i) key < 0) \<and> (l \<le> i \<and> i < u \<longleftrightarrow> cmp (a ! i) key = 0) \<and> (u \<le> i \<longleftrightarrow> cmp (a ! i) key > 0))"
proof -
  let ?l = "length (takeWhile (\<lambda>x. cmp x key < 0) a)" and ?u = "length (takeWhile (\<lambda>x. cmp x key \<le> 0) a)"
  have mono: "sorted_wrt (\<lambda>x y. cmp y key < 0 \<longrightarrow> cmp x key < 0) a" "sorted_wrt (\<lambda>x y. cmp y key \<le> 0 \<longrightarrow> cmp x key \<le> 0) a"
    using sorted_forD(1,3) [OF assms less_imp_le] by (auto simp: sorted_wrt_iff_nth_less)
  have lb: "lowerBound cmp a key = Some ?l" unfolding lowerBound_def by (rule boundLoop_ok [OF mono(1)]) auto
  have ub: "upperBound cmp a key = Some ?u" unfolding upperBound_def by (rule boundLoop_ok [OF mono(2)]) auto
  have split: "i < length (takeWhile right a) \<longleftrightarrow> right (a ! i)"
    if "i < length a" "sorted_wrt (\<lambda>x y. right y \<longrightarrow> right x) a" for i right
  proof
    assume "i < length (takeWhile right a)"
    then show "right (a ! i)" using nth_mem set_takeWhileD takeWhile_nth by metis
  next
    assume r: "right (a ! i)"
    have "right (a ! j)" if "j < Suc i" for j
      using sorted_wrt_nth_less [OF \<open>sorted_wrt (\<lambda>x y. right y \<longrightarrow> right x) a\<close>, of j i] that \<open>i < length a\<close> r by (cases "j = i") auto
    then show "i < length (takeWhile right a)" using length_takeWhile_less_P_nth [of "Suc i" right a] that(1) by auto
  qed
  note in_l = split [OF _ mono(1)] and in_u = split [OF _ mono(2)]
  have le: "?l \<le> ?u"
  proof (rule ccontr)
    assume "\<not> ?l \<le> ?u"
    moreover from this have "?u < length a" using length_takeWhile_le [of "\<lambda>x. cmp x key < 0" a] by linarith
    ultimately show False using in_l [of ?u] in_u [of ?u] by auto
  qed
  have "(i < ?l \<longleftrightarrow> cmp (a ! i) key < 0) \<and> (?l \<le> i \<and> i < ?u \<longleftrightarrow> cmp (a ! i) key = 0) \<and> (?u \<le> i \<longleftrightarrow> cmp (a ! i) key > 0)"
    if "i < length a" for i
    using in_l [OF that] in_u [OF that] by (auto simp flip: not_less)
  then show ?thesis using lb ub le length_takeWhile_le [of "\<lambda>x. cmp x key \<le> 0" a] by blast
qed

theorem bounds_split_the_array_witness:
  "\<exists>l u. lowerBound (\<lambda>x y. x - y) [2, 3, 3, 5, 7 :: int] 3 = Some l \<and> upperBound (\<lambda>x y. x - y) [2, 3, 3, 5, 7 :: int] 3 = Some u \<and>
    l \<le> u \<and> u \<le> 5"
  using bounds_split_the_array [of "\<lambda>x y. x - y" 3 "[2, 3, 3, 5, 7 :: int]"] by (auto simp: sorted_for_def)

end
