(* ===== verification/Nim_Permute.thy ===== *)
theory Nim_Permute
  imports Nim_Sorting "HOL-Library.List_Lexorder"
begin

text \<open>
  The next and the previous permutation of an array (\<open>pure/algorithm.nim\<close>), with \<open>reverse\<close>.  The elements
  are of a linear order; None is an index out of range.  \<open>nextPermutation\<close> returns the lexicographic
  successor among the arrangements of its elements, and \<open>prevPermutation\<close> goes back.
\<close>

section \<open>The procedures\<close>

definition swap_at :: "nat \<Rightarrow> nat \<Rightarrow> 'a list \<Rightarrow> 'a list option" where
  "swap_at i j a = do { x \<leftarrow> mem_get i a; y \<leftarrow> mem_get j a; Some (a[i := y, j := x]) }"

partial_function (option) reverseLoop :: "nat \<Rightarrow> nat \<Rightarrow> 'a list \<Rightarrow> 'a list option" where
  "reverseLoop x y a = (if x < y then do { a \<leftarrow> swap_at x y a; reverseLoop (x + 1) (y - 1) a } else Some a)"

text \<open>The loop of both that looks for the element to change: \<open>stay\<close> is the comparison of \<open>x[i - 1]\<close> with \<open>x[i]\<close>.\<close>

fun permPivot :: "('a \<Rightarrow> 'a \<Rightarrow> bool) \<Rightarrow> 'a list \<Rightarrow> nat \<Rightarrow> nat option" where
  "permPivot stay x 0 = Some 0"
| "permPivot stay x (Suc i) = do {
     l \<leftarrow> mem_get i x;
     r \<leftarrow> mem_get (i + 1) x;
     if stay l r then permPivot stay x i else Some (Suc i) }"

text \<open>The loop that looks for its replacement: \<open>skip\<close> is the test of \<open>j\<close>.\<close>

partial_function (option) permReplacement :: "(nat \<Rightarrow> bool option) \<Rightarrow> nat \<Rightarrow> nat \<Rightarrow> nat option" where
  "permReplacement skip i j =
     (if j \<ge> i then do { s \<leftarrow> skip j; if s then permReplacement skip i (j - 1) else Some j } else Some j)"

definition nextPermutation :: "'a :: linorder list \<Rightarrow> (bool \<times> 'a list) option" where
  "nextPermutation x =
     (if length x < 2 then Some (False, x)
      else do {
        i \<leftarrow> permPivot (\<lambda>l r. l \<ge> r) x (length x - 1);
        if i = 0 then Some (False, x)
        else do {
          p \<leftarrow> mem_get (i - 1) x;
          j \<leftarrow> permReplacement (\<lambda>j. do { v \<leftarrow> mem_get j x; Some (v \<le> p) }) i (length x - 1);
          x \<leftarrow> swap_at j (i - 1) x;
          x \<leftarrow> reverseLoop i (length x - 1) x;
          Some (True, x) } })"

definition prevPermutation :: "'a :: linorder list \<Rightarrow> (bool \<times> 'a list) option" where
  "prevPermutation x =
     (if length x < 2 then Some (False, x)
      else do {
        i \<leftarrow> permPivot (\<lambda>l r. l \<le> r) x (length x - 1);
        if i = 0 then Some (False, x)
        else do {
          x \<leftarrow> reverseLoop i (length x - 1) x;
          p \<leftarrow> mem_get (i - 1) x;
          j \<leftarrow> permReplacement (\<lambda>j. do { v \<leftarrow> mem_get (j - 1) x; Some (v < p) }) i (length x - 1);
          x \<leftarrow> swap_at (i - 1) j x;
          Some (True, x) } })"

section \<open>The loops\<close>

lemma mem_get_app [simp]: "mem_get (length P) (P @ x # R) = Some x" "mem_get (Suc (length P)) (P @ y # x # R) = Some x"
  using nth_append_length [of "P @ [y]" x R] by (simp_all add: mem_get_def)

lemma reverseLoop_ok: "reverseLoop (length P) (length P + length S - 1) (P @ S @ R) = Some (P @ rev S @ R)"
proof (induction "length S" arbitrary: P S R rule: less_induct)
  case less
  consider "length S \<le> 1" | s S' t where "S = s # S' @ [t]"
    by (metis append_butlast_last_id le_refl length_0_conv length_Cons list.exhaust nat_le_linear One_nat_def le_zero_eq)
  then show ?case
  proof cases
    case 1
    then have "rev S = S" by (cases S) auto
    with 1 show ?thesis by (subst reverseLoop.simps) auto
  next
    case 2
    have j: "length P + length S - 1 = length (P @ s # S')" using 2 by simp
    have "swap_at (length P) (length (P @ s # S')) (P @ S @ R) = Some (P @ t # S' @ s # R)"
      using mem_get_app(1) [of "P @ s # S'" t R] list_update_length [of "P @ t # S'" t R s]
      by (simp add: 2 swap_at_def)
    moreover have "length P < length (P @ s # S')" by simp
    ultimately have "reverseLoop (length P) (length P + length S - 1) (P @ S @ R) =
        reverseLoop (length (P @ [t])) (length (P @ [t]) + length S' - 1) ((P @ [t]) @ S' @ s # R)"
      unfolding j by (subst reverseLoop.simps) simp
    then show ?thesis using less.hyps [of S' "P @ [t]" "s # R"] 2 by simp
  qed
qed

lemma permPivot_chain:
  "successively stay S \<Longrightarrow> S \<noteq> [] \<Longrightarrow> permPivot stay (P @ S @ R) (length P + length S - 1) = permPivot stay (P @ S @ R) (length P)"
proof (induction S arbitrary: R rule: rev_induct)
  case (snoc s S)
  show ?case
  proof (cases "S = []")
    case False
    define S' l where "S' = butlast S" and "l = last S"
    have S: "S = S' @ [l]" using False by (simp add: S'_def l_def)
    have "stay l s" "successively stay S" using snoc.prems by (auto simp: S successively_append_iff)
    then have "permPivot stay (P @ (S @ [s]) @ R) (length P + length (S @ [s]) - 1) = permPivot stay (P @ S @ s # R) (length P + length S - 1)"
      using mem_get_app [of "P @ S'"] by (simp add: S)
    then show ?thesis using snoc.IH [of "s # R"] \<open>successively stay S\<close> False by simp
  qed simp
qed simp

lemma permPivot_all: "successively stay S \<Longrightarrow> permPivot stay S (length S - 1) = Some 0"
  using permPivot_chain [of stay S "[]" "[]"] by (cases "S = []") auto

lemma permPivot_found:
  assumes "successively stay S" "S \<noteq> []" "\<not> stay p (hd S)"
  shows "permPivot stay (P @ p # S) (length P + length S) = Some (length P + 1)"
proof -
  obtain s S' where "S = s # S'" using assms(2) by (cases S) auto
  then show ?thesis using permPivot_chain [OF assms(1,2), of "P @ [p]" "[]"] assms(3) by simp
qed

lemma permReplacement_ok:
  assumes "\<And>k. j < k \<Longrightarrow> k \<le> h \<Longrightarrow> skip k = Some True" "j < i \<or> skip j = Some False" "i \<le> j + 1" "j \<le> h"
  shows "permReplacement skip i h = Some j"
  using assms(1,4)
proof (induction h)
  case 0
  then show ?case using assms(2) by (subst permReplacement.simps) auto
next
  case (Suc h)
  show ?case
  proof (cases "j = Suc h")
    case True
    then show ?thesis using assms(2) by (subst permReplacement.simps) auto
  next
    case False
    then show ?thesis using Suc assms(3) by (subst permReplacement.simps) auto
  qed
qed

section \<open>Both directions\<close>

text \<open>An arrangement that has a successor: \<open>p\<close> is replaced by \<open>q\<close>, the least element after it that is greater.\<close>

definition next_form :: "'a :: linorder list \<Rightarrow> 'a \<Rightarrow> 'a list \<Rightarrow> 'a \<Rightarrow> 'a list \<Rightarrow> bool" where
  "next_form P p A q B \<longleftrightarrow> sorted_wrt (\<ge>) (A @ q # B) \<and> p < q \<and> (\<forall>b \<in> set B. b \<le> p)"

lemma next_cases:
  fixes x :: "'a :: linorder list"
  obtains "sorted_wrt (\<ge>) x" | P p A q B where "x = P @ p # A @ q # B" "next_form P p A q B"
proof -
  have "sorted_wrt (\<ge>) x \<or> (\<exists>P p A q B. x = P @ p # A @ q # B \<and> next_form P p A q B)"
  proof (induction x)
    case (Cons a x)
    show ?case
    proof (cases "sorted_wrt (\<ge>) x")
      case True
      show ?thesis
      proof (cases "\<exists>v \<in> set x. a < v")
        case ex: True
        obtain A q B where s: "x = A @ q # B" "a < q" "\<forall>b \<in> set B. \<not> a < b"
          using split_list_last_prop [of x "\<lambda>v. a < v"] ex by blast
        then have "next_form [] a A q B" using True by (auto simp: next_form_def)
        moreover have "a # x = [] @ a # A @ q # B" using s by simp
        ultimately show ?thesis by blast
      qed (use True in \<open>force\<close>)
    next
      case False
      then obtain P p A q B where "x = P @ p # A @ q # B" "next_form P p A q B" using Cons.IH by blast
      then have "a # x = (a # P) @ p # A @ q # B" "next_form (a # P) p A q B" by (simp_all add: next_form_def)
      then show ?thesis by blast
    qed
  qed simp
  then show ?thesis using that by blast
qed

lemma successively_sorted: "successively (\<ge>) xs \<longleftrightarrow> sorted_wrt (\<ge>) xs" "successively (\<le>) xs \<longleftrightarrow> sorted_wrt (\<le>) xs"
  for xs :: "'a :: linorder list"
  by (rule successively_conv_sorted_wrt, force intro!: transpI)+

lemma nextPermutation_last: "sorted_wrt (\<ge>) x \<Longrightarrow> nextPermutation x = Some (False, x)"
  using permPivot_all [of "(\<ge>)" x] by (simp add: nextPermutation_def successively_sorted)

lemma next_form_suffix: "next_form P p A q B \<Longrightarrow> sorted_wrt (\<ge>) (A @ p # B)"
  by (force simp: next_form_def sorted_wrt_append)

lemma nextPermutation_step:
  assumes "next_form P p A q B"
  shows "nextPermutation (P @ p # A @ q # B) = Some (True, P @ q # rev (A @ p # B))"
proof -
  let ?S = "A @ q # B" and ?h = "length P + length (A @ q # B)" and ?j = "length P + 1 + length A"
  have srt: "sorted_wrt (\<ge>) ?S" "p < q" "\<forall>b \<in> set B. b \<le> p" using assms by (auto simp: next_form_def)
  have "q \<le> hd ?S" using srt(1) by (cases A) auto
  then have piv: "permPivot (\<lambda>l r. l \<ge> r) (P @ p # ?S) ?h = Some (length P + 1)"
    using srt by (intro permPivot_found) (auto simp: successively_sorted)
  have "permReplacement (\<lambda>j. do { v \<leftarrow> mem_get j (P @ p # ?S); Some (v \<le> p) }) (length P + 1) ?h = Some ?j"
  proof (rule permReplacement_ok)
    fix k assume k: "?j < k" "k \<le> ?h"
    then have "(P @ p # ?S) ! k = B ! (k - Suc ?j)"
      using nth_append [of "P @ p # A @ [q]" B k] by simp
    moreover have "B ! (k - Suc ?j) \<in> set B" using k by (intro nth_mem) simp
    ultimately show "do { v \<leftarrow> mem_get k (P @ p # ?S); Some (v \<le> p) } = Some True"
      using k srt(3) by (simp add: mem_get_def)
  next
    show "?j < length P + 1 \<or> do { v \<leftarrow> mem_get ?j (P @ p # ?S); Some (v \<le> p) } = Some False"
      using mem_get_app(1) [of "P @ p # A" q B] srt(2) by simp
  qed auto
  moreover have "swap_at ?j (length P) (P @ p # ?S) = Some (P @ q # A @ p # B)"
    using mem_get_app(1) [of "P @ p # A" q B] list_update_length [of "P @ p # A" q B p]
      list_update_length [of P p "A @ p # B" q] by (simp add: swap_at_def)
  moreover have "reverseLoop (length P + 1) ?h (P @ q # A @ p # B) = Some (P @ q # rev (A @ p # B))"
    using reverseLoop_ok [of "P @ [q]" "A @ p # B" "[]"] by simp
  moreover have "length (P @ p # ?S) - 1 = ?h" "\<not> length (P @ p # ?S) < 2" "length P + 1 - 1 = length P" by simp_all
  moreover have "mem_get (length P) (P @ p # ?S) = Some p" by simp
  ultimately show ?thesis using piv unfolding nextPermutation_def by simp
qed

lemma prevPermutation_step:
  assumes "next_form P p A q B"
  shows "prevPermutation (P @ q # rev (A @ p # B)) = Some (True, P @ p # A @ q # B)"
proof -
  let ?S = "A @ p # B" and ?h = "length P + length (A @ p # B)" and ?j = "length P + 1 + length A"
  have srt: "sorted_wrt (\<ge>) ?S" "p < q" "\<forall>b \<in> set B. b \<le> p" "\<forall>a \<in> set A. q \<le> a"
    using assms next_form_suffix [OF assms] by (auto simp: next_form_def sorted_wrt_append)
  have "hd (rev ?S) \<le> p" using srt(3) by (cases B rule: rev_cases) auto
  moreover have "sorted_wrt (\<le>) (rev ?S)" using srt(1) unfolding sorted_wrt_rev by simp
  ultimately have "permPivot (\<lambda>l r. l \<le> r) (P @ q # rev ?S) (length P + length (rev ?S)) = Some (length P + 1)"
    using srt(2) by (intro permPivot_found) (auto simp: successively_sorted)
  then have piv: "permPivot (\<lambda>l r. l \<le> r) (P @ q # rev ?S) ?h = Some (length P + 1)" by (simp only: length_rev)
  have rep: "permReplacement (\<lambda>j. do { v \<leftarrow> mem_get (j - 1) (P @ q # ?S); Some (v < q) }) (length P + 1) ?h = Some ?j"
  proof (rule permReplacement_ok)
    fix k assume k: "?j < k" "k \<le> ?h"
    then have ge: "length (P @ q # A) \<le> k - 1" by simp
    then have "((P @ q # A) @ p # B) ! (k - 1) = (p # B) ! (k - 1 - length (P @ q # A))"
      by (simp only: nth_append not_less [symmetric] if_False)
    then have "(P @ q # ?S) ! (k - 1) = (p # B) ! (k - 1 - ?j)" by simp
    moreover have "(p # B) ! (k - 1 - ?j) \<in> set (p # B)" using k by (intro nth_mem) simp
    ultimately have "(P @ q # ?S) ! (k - 1) < q" using srt(2,3) by fastforce
    then show "do { v \<leftarrow> mem_get (k - 1) (P @ q # ?S); Some (v < q) } = Some True"
      using k by (simp add: mem_get_def)
  next
    define A' l where "A' = butlast (q # A)" and "l = last (q # A)"
    have A: "q # A = A' @ [l]" unfolding A'_def l_def by (metis append_butlast_last_id list.discI)
    then have "length A' = length A" by (metis length_append_singleton length_Cons nat.inject)
    then have j: "?j - 1 = length (P @ A')" by simp
    have "q \<le> l" using srt(4) unfolding l_def by auto
    moreover have x: "P @ q # ?S = (P @ A') @ l # p # B" using A by (metis append_Cons append_assoc append_Nil)
    moreover have "mem_get (?j - 1) (P @ q # ?S) = Some l" unfolding j x by (rule mem_get_app(1))
    ultimately show "?j < length P + 1 \<or> do { v \<leftarrow> mem_get (?j - 1) (P @ q # ?S); Some (v < q) } = Some False"
      by simp
  qed auto
  have sw: "swap_at (length P) ?j (P @ q # ?S) = Some (P @ p # A @ q # B)"
    using mem_get_app(1) [of "P @ q # A" p B] list_update_length [of "P @ p # A" p B q]
      list_update_length [of P q "A @ p # B" p] by (simp add: swap_at_def)
  have rv: "reverseLoop (length P + 1) ?h (P @ q # rev ?S) = Some (P @ q # ?S)"
    using reverseLoop_ok [of "P @ [q]" "rev ?S" "[]"] by (simp add: add.commute)
  have len: "length (P @ q # rev ?S) - 1 = ?h" "length (P @ q # ?S) - 1 = ?h" "(length (P @ q # rev ?S) < 2) = False"
      "length P + 1 - 1 = length P" "(length P + 1 = 0) = False" by simp_all
  have "mem_get (length P) (P @ q # ?S) = Some q" by simp
  then show ?thesis unfolding prevPermutation_def by (simp only: len piv rep sw rv if_False Option.bind.bind_lunit)
qed

lemma less_append_iff [simp]: "P @ u < P @ v \<longleftrightarrow> u < v" for u v :: "'a :: linorder list"
  by (induction P) auto

section \<open>Lexicographic successors\<close>

lemma descending_is_last: "sorted_wrt (\<ge>) x \<Longrightarrow> mset z = mset x \<Longrightarrow> z \<le> x" for x :: "'a :: linorder list"
proof (induction x arbitrary: z)
  case (Cons a x)
  then obtain c z' where z: "z = c # z'" by (cases z) auto
  have "c \<in> set (a # x)" using Cons.prems(2) unfolding z by (metis list.set_intros(1) set_mset_mset)
  then have "c \<le> a" using Cons.prems(1) by auto
  then show ?case using Cons z by (cases "c = a") auto
qed simp

lemma ascending_is_first: "sorted_wrt (\<le>) x \<Longrightarrow> mset z = mset x \<Longrightarrow> x \<le> z" for x :: "'a :: linorder list"
proof (induction x arbitrary: z)
  case (Cons a x)
  then obtain c z' where z: "z = c # z'" by (cases z) auto
  have "c \<in> set (a # x)" using Cons.prems(2) unfolding z by (metis list.set_intros(1) set_mset_mset)
  then have "a \<le> c" using Cons.prems(1) by auto
  then show ?case using Cons z by (cases "c = a") auto
qed simp

lemma next_is_least:
  assumes "next_form P p A q B" "mset z = mset (P @ p # A @ q # B)" "P @ p # A @ q # B < z"
  shows "P @ q # rev (A @ p # B) \<le> z"
  using assms
proof (induction P arbitrary: z)
  case Nil
  obtain c z' where z: "z = c # z'" using Nil.prems(2) by (cases z) auto
  have srt: "sorted_wrt (\<ge>) (A @ q # B)" "p < q" "\<forall>b \<in> set B. b \<le> p" using Nil.prems(1) by (auto simp: next_form_def)
  have "c \<noteq> p"
  proof
    assume c: "c = p"
    then have "mset z' = mset (A @ q # B)" using Nil.prems(2) z by simp
    then have "z' \<le> A @ q # B" using srt(1) by (rule descending_is_last [rotated])
    then show False using Nil.prems(3) z c by simp
  qed
  then have "p < c" using Nil.prems(3) z by auto
  moreover have "c \<in> set (p # A @ q # B)" using Nil.prems(2) unfolding z by (metis append_Nil list.set_intros(1) set_mset_mset)
  ultimately have "q \<le> c" using srt by (force simp: sorted_wrt_append)
  moreover have "rev (A @ p # B) \<le> z'" if "c = q"
  proof (rule ascending_is_first)
    show "sorted_wrt (\<le>) (rev (A @ p # B))"
      using next_form_suffix [OF Nil.prems(1)] unfolding sorted_wrt_rev by simp
    show "mset z' = mset (rev (A @ p # B))" using Nil.prems(2) z that by simp
  qed
  ultimately show ?case using z by (cases "c = q") auto
next
  case (Cons a P)
  obtain c z' where z: "z = c # z'" using Cons.prems(2) by (cases z) auto
  have nf: "next_form P p A q B" using Cons.prems(1) by (simp add: next_form_def)
  show ?case
  proof (cases "c = a")
    case True
    then show ?thesis using Cons.IH [OF nf, of z'] Cons.prems(2,3) z by simp
  qed (use Cons.prems(3) z in auto)
qed

lemma next_is_greater: "next_form P p A q B \<Longrightarrow> P @ p # A @ q # B < P @ q # rev (A @ p # B)"
  by (simp add: next_form_def)

section \<open>Property\<close>

text \<open>C14. \<open>nextPermutation\<close> on any array: it ends, stays inside the array and keeps the elements; when it
  returns true the array is the least arrangement of them that is lexicographically greater, and
  \<open>prevPermutation\<close> takes it back to the one before; when it returns false the array was the greatest
  arrangement and is unchanged.  Elements may be equal.\<close>

theorem nextPermutation_is_successor:
  fixes x :: "'a :: linorder list"
  shows "\<exists>b y. nextPermutation x = Some (b, y) \<and> mset y = mset x \<and>
    (if b then x < y \<and> (\<forall>z. mset z = mset x \<and> x < z \<longrightarrow> y \<le> z) \<and> prevPermutation y = Some (True, x)
     else y = x \<and> (\<forall>z. mset z = mset x \<longrightarrow> z \<le> x))"
proof (rule next_cases [of x])
  assume "sorted_wrt (\<ge>) x"
  then show ?thesis using nextPermutation_last [of x] descending_is_last [of x] by auto
next
  fix P p A q B assume x: "x = P @ p # A @ q # B" and nf: "next_form P p A q B"
  have "mset (P @ q # rev (A @ p # B)) = mset x" by (simp add: x)
  then show ?thesis
    using nextPermutation_step [OF nf] prevPermutation_step [OF nf] next_is_greater [OF nf] next_is_least [OF nf] unfolding x by auto
qed

theorem nextPermutation_is_successor_witness:
  "\<exists>b y. nextPermutation [1, 3, 2, 2 :: int] = Some (b, y) \<and>
    (if b then [1, 3, 2, 2] < y \<and> y \<le> [2, 1, 2, 3] \<and> prevPermutation y = Some (True, [1, 3, 2, 2]) else y = [1, 3, 2, 2])"
proof -
  obtain b y where y: "nextPermutation [1, 3, 2, 2 :: int] = Some (b, y)"
      "if b then [1, 3, 2, 2] < y \<and> (\<forall>z. mset z = mset [1, 3, 2, 2 :: int] \<and> [1, 3, 2, 2] < z \<longrightarrow> y \<le> z) \<and> prevPermutation y = Some (True, [1, 3, 2, 2])
       else y = [1, 3, 2, 2] \<and> (\<forall>z. mset z = mset [1, 3, 2, 2 :: int] \<longrightarrow> z \<le> [1, 3, 2, 2])"
    using nextPermutation_is_successor [of "[1, 3, 2, 2 :: int]"] by blast
  then have "y \<le> [2, 1, 2, 3]" if b using that by (auto split: if_splits)
  then show ?thesis using y by auto
qed

end
