(* ===== verification/Spec2Isabelle.thy ===== *)
theory Spec2Isabelle
  imports Ln_Main Ln_Page Nim_Intops Genode_Locks Genode_Threads Cycle_Counters Nim_Strings Nim_Tables Nim_Ordered Nim_Refs
    Nim_Frames Nim_Algorithm Nim_Permute
begin

text \<open>
  \<^bold>\<open>Verification of the C code and of the runtime of Nim\<close>

  The repository is the Nim compiler with its standard library.  Most of it is written in Nim; the C
  code it ships is the line editor behind the standard library's line input
  (\<open>lib/wrappers/linenoise\<close>), the header every generated C file includes (\<open>lib/nimbase.h\<close>), the cycle
  counters (\<open>lib/cycle.h\<close>) and the support of the Genode port (\<open>lib/genode_cpp\<close>).  This development
  models the line editor as a whole, the overflow checked arithmetic of \<open>nimbase.h\<close> together with its
  portable versions in Nim and the compiler's saturated arithmetic, and the locks of the Genode port.
  Of the runtime that generated C code calls it models the strings, the hash tables, and the reference
  counts with the cycle collector, and the stack frames with the traces printed from them, together with
  the code the compiler generates for them.

  \<^bold>\<open>Theories\<close>

  \<^item> \<open>Nim_Prelude\<close>: \<open>size_t\<close> and \<open>int\<close> with their wrap-around, blocks of memory with bounds (\<open>mem_get\<close>,
    \<open>mem_set\<close>, \<open>mem_move\<close>), C strings, decimal numerals, and \<open>ok_with\<close>, a predicate for "is defined and
    has a result with \<open>Q\<close>", with the collection \<open>ok_intros\<close>.
  \<^item> \<open>Ln_World\<close>: the state of the process.  The record \<open>lnworld\<close> holds the file-scope variables of
    \<open>linenoise.c\<close> under their names, the caller's \<open>linenoiseData\<close>, and what the code reads and changes
    outside: \<open>errno\<close>, the input still to come, the output written, the terminal's settings and width,
    the files.  \<open>w_alloc\<close>, \<open>w_write\<close> and \<open>w_tc\<close> are the outcomes of the coming calls of the allocator,
    of \<open>write\<close> and of \<open>tcgetattr\<close>/\<open>tcsetattr\<close>; an empty list means that the calls succeed.
  \<^item> \<open>Ln_Terminal\<close>: \<open>enableRawMode\<close>, \<open>disableRawMode\<close>, \<open>getCursorPosition\<close>, \<open>getColumns\<close>,
    \<open>isUnsupportedTerm\<close>.
  \<^item> \<open>Ln_Refresh\<close>: \<open>struct linenoiseState\<close>, \<open>struct abuf\<close>, \<open>refreshShowHints\<close>, \<open>refreshSingleLine\<close>,
    \<open>refreshMultiLine\<close>, \<open>refreshLine\<close>.
  \<^item> \<open>Ln_History\<close>: \<open>linenoiseHistoryAdd\<close>, \<open>linenoiseHistorySetMaxLen\<close>, \<open>linenoiseHistorySave\<close>,
    \<open>linenoiseHistoryLoad\<close>, on an array of pointers that may be \<open>NULL\<close> or dangling.
  \<^item> \<open>Ln_Edit\<close>: the functions \<open>linenoiseEdit...\<close> and the commands that are cases of the switch.
  \<^item> \<open>Ln_Complete\<close>: the candidates and \<open>completeLine\<close>.
  \<^item> \<open>Ln_Loop\<close>: \<open>linenoiseEdit\<close>, split at the cases of its switch: \<open>editRound\<close> is one round of the loop,
    \<open>editKey\<close> the switch, \<open>editEscape\<close> and \<open>escBracket\<close> the escape sequences.
  \<^item> \<open>Ln_Main\<close>: \<open>linenoiseRaw\<close>, \<open>linenoiseNoTTY\<close>, \<open>linenoiseExtra\<close>, \<open>linenoise\<close>,
    \<open>linenoisePrintKeyCodes\<close>, and the wrappers \<open>readLineStatus\<close> (\<open>linenoise.nim\<close>) and
    \<open>readLineFromStdin\<close> (\<open>impure/rdstdin.nim\<close>).
  \<^item> \<open>Ln_Screen\<close>: an interpreter of the bytes sent to a terminal, and a row of cells it drives;
    \<open>Ln_Page\<close>: a page of rows with the cursor of a VT100, for the multi line refresh.
  \<^item> \<open>Nim_Intops\<close>: \<open>nimAddInt\<close> and the other macros of \<open>nimbase.h\<close>, the templates of
    \<open>system/integerops.nim\<close>, and \<open>compiler/saturate.nim\<close>.
  \<^item> \<open>Genode_Locks\<close>: \<open>SysLock\<close> and \<open>SysCond\<close> of \<open>genode_cpp/syslocks.h\<close>; \<open>Genode_Threads\<close>: \<open>SysThread\<close> of
    \<open>genode_cpp/threads.h\<close> and the thread variables of \<open>system/threadlocalstorage.nim\<close>.
  \<^item> \<open>Cycle_Counters\<close>: the counters of \<open>cycle.h\<close> that are read in halves, wrap around or are mapped.
  \<^item> \<open>Nim_Strings\<close>: \<open>system/strs_v2.nim\<close> on an explicit heap of payloads, string literals, and the
    sequences \<open>compiler/ccgexprs.nim\<close> emits for appends, concatenations and moves.
  \<^item> \<open>Nim_Tables\<close>: \<open>Table\<close> of \<open>pure/collections/tables.nim\<close> with \<open>hashcommon.nim\<close> and \<open>tableimpl.nim\<close>, for
    any hash function.
  \<^item> \<open>Nim_Sorting\<close>: stable sorting by a preorder, and the passes of a bottom-up merge sort, on lists;
    \<open>Nim_Ordered\<close>: \<open>OrderedTable\<close> of \<open>tables.nim\<close>, whose slots are linked in the order of insertion, with its
    merge sort on the links; \<open>Nim_Algorithm\<close>: the merge sort of \<open>pure/algorithm.nim\<close>, which moves elements
    between the array and a buffer of half its length, with \<open>isSorted\<close>, \<open>merge\<close>, \<open>binarySearch\<close>, \<open>lowerBound\<close> and
    \<open>upperBound\<close>; \<open>Nim_Permute\<close>: \<open>nextPermutation\<close>, \<open>prevPermutation\<close> and \<open>reverse\<close> of the same file.
  \<^item> \<open>Nim_Frames\<close>: \<open>TFrame\<close> of \<open>nimbase.h\<close>, the macros \<open>compiler/cgen.nim\<close> puts into every C file, the frames,
    stack traces and call depth limit of \<open>system/excpt.nim\<close>, the messages of \<open>std/stackframes.nim\<close>, and the
    two renderings of integers they use.
  \<^item> \<open>Nim_Orc\<close>: the cycle collector of \<open>system/orc.nim\<close>: \<open>markGray\<close>, \<open>scan\<close>, \<open>scanBlack\<close>, \<open>collectColor\<close> with
    their trace stack, \<open>collectCyclesBacon\<close>, \<open>collectCycles\<close>, \<open>partialCollect\<close>.
  \<^item> \<open>Nim_Refs\<close>: the counting of references and the registration of candidates (\<open>orc.nim\<close>, \<open>arc.nim\<close>), the
    hooks of \<open>compiler/liftdestructors.nim\<close> for references, and programs over variables and fields.

  \<^bold>\<open>How the code is modelled\<close>

  A function of the code is a function from its arguments and the state to its results and the new
  state.  The result None stands for undefined behaviour (an access outside a block, a use of a
  dangling pointer or of bytes that were never written, a division by 0, a negative length of a copy)
  and for a loop that does not end: loops that may not end are \<open>partial_function (option)\<close>, so a theorem
  that a call is \<open>Some\<close> of something shows both that it returns and that nothing it does is undefined.
  No fuel is used.  \<open>size_t\<close> values are natural numbers with \<open>size_add\<close> and \<open>size_sub\<close> modulo
  2 to the 64, and \<open>int\<close> has 32 bits where it is converted.  A \<open>char\<close> is signed.  The callbacks are
  parameters: a completion callback is the list of the candidates it adds, a hints callback returns the
  hint with its colour and boldness.  The output of \<open>printf\<close> is written at once.  A descriptor argument
  is always the terminal's, so reads and writes are on the one input and output of the state.

  In \<open>Genode_Locks\<close> a method is the list of its blocking and state-changing steps, and threads
  interleave at every step (\<open>lock_step\<close>, \<open>reachable\<close>).  The mutex and the semaphore belong to the Genode
  framework, which is not in the repository: the record \<open>genode\<close> of their operations is a parameter, and
  \<open>genode_ok\<close> states their documented behaviour.  In \<open>Nim_Intops\<close> an integer is a word of any width, and
  the floating point conversions and products are exact ones rounded by a function with a bounded
  relative error (\<open>rounds\<close>).

  In \<open>Nim_Tables\<close> a hash is a 64 bit word and an index a natural number masked as the code does; a search
  that would never end is None.  In \<open>Nim_Orc\<close> and \<open>Nim_Refs\<close> a cell is the header with the fields its
  trace procedure visits; the count with its colour bits is an integer, which cannot overflow because
  every reference takes a word of memory.  The recursion of a destructor is an explicit list of what is
  left to release.  The allocator only has to return free addresses (\<open>alloc_free\<close>), and the user's own
  destructors are not modelled.

  In \<open>Nim_Ordered\<close> the search templates work on the plain view of an ordered table (\<open>plain\<close>), as the code
  shares them.  A comparison is a function to integers; \<open>comparable\<close> says that it orders the pairs.  In
  \<open>Nim_Algorithm\<close> an array is a list, of options while its elements are moved; None is also an index out of
  range or a failed assertion, and \<open>sorted_for\<close> says that an array is sorted as far as the searched key can tell.  In
  \<open>Nim_Frames\<close> a frame is a local variable at an address that no active frame has, over memory that may
  hold anything; the depth is kept in 16 bits.

  \<^bold>\<open>Specifications and interfaces\<close>

  \<^item> The history represents a list of lines (\<open>hist_rep\<close>).  The locale \<open>line_history\<close> says what its clients
    rely on, and is interpreted on \<open>linenoiseHistoryAdd\<close>.
  \<^item> The line represents the text before and after the cursor (\<open>zip_of\<close>), the commands are those of
    \<open>z_apply\<close>.  The locale \<open>line_editor\<close> is the contract of a command; it is interpreted on the code's
    commands, and gives the refinement for sequences.
  \<^item> \<open>ln_inv\<close> and \<open>view_ok\<close> say when a line and its view are sound: the positions are within the buffer,
    the text ends with a zero byte, the prompt is narrower than the terminal in single line mode.  Every
    operation keeps them.
  \<^item> The locale \<open>thread_variable\<close> is the contract of a thread variable (when a write and a read are
    defined, and what a read gives), interpreted on the guarded accessors.
  \<^item> The locale \<open>value_machine\<close> of the prelude is the contract of a data structure whose operations refine
    those on plain values; it is interpreted on the strings, on the tables, on the ordered tables, whose
    plain values are lists, and on the stack frames, whose plain values are lists of calls.  \<open>guarded_machine\<close> adds what
    the environment has to provide, \<open>value_machine\<close> is a case of it (\<open>sublocale\<close>), and it is interpreted on
    programs over references, whose plain values are graphs in which nothing is ever freed.
  \<^item> \<open>orc_ok\<close> is the state the collector relies on: exact counts, black cells, root indices that agree with
    the list of candidates; \<open>collectable\<close> is the part of it that a collection needs.  \<open>good\<close> adds that every
    cell is reachable from outside or from a candidate.
  \<^item> \<open>spec_loop\<close> is an abstract editor on lists, with the keys in tables (\<open>key_table\<close>,
    \<open>bracket_table\<close>); \<open>linenoiseEdit\<close> refines it, and the entry points are stated over it.

  \<^bold>\<open>What the theorems show\<close>

  Of the line editor: every editing command and every refresh is defined on every sound line, whatever
  allocations and writes fail.  The loop around them refines the abstract editor for every input,
  including end of file and read errors, but only where allocations and writes succeed, the prompt is
  narrower than the terminal in single line mode, hints have a style, candidates fit in the buffer and
  no escape sequence is truncated (\<open>edit_ready\<close>, \<open>tty_ready\<close>); outside these conditions it goes wrong, and
  there are properties for a line that could not be added to the history, for long candidates and for
  wide prompts.  A refresh shows the prompt and the line and puts the cursor on its position, except on
  the first cell of a row in single line mode, and for an empty line after a prompt that fills its rows
  in multi line mode; both exceptions are part of the properties.  The history keeps the latest lines
  and survives a round trip through a file, and the terminal gets its settings back.

  The portable overflow checks agree with the compiler's; the Genode locks keep their flag, and a
  contended \<open>acquireSys\<close> deadlocks; thread variables are private, and defined exactly for the threads that
  have written them; a cycle counter read in halves is one the hardware had.

  String variables behave as values with one owner for every payload, for programs that do not append a
  string to itself after something else (\<open>spec_op\<close> says what is left out, and that such an append goes
  wrong is shown), and there is a case in which a string loses its terminator.  Tables are finite maps
  under every sequence of operations and well formed, and ordered tables lists, sorted stably; arrays
  are sorted stably, searched in bounds, and permuted in lexicographic order; traces show the active
  calls with their own messages.  A program over references never sees a freed cell, whenever the
  collector runs, and after a collection no garbage is left; a partial collection frees the right cells,
  but leaves the candidates it should not touch dangling if they are among them.

  \<^bold>\<open>Not modelled\<close>

  \<open>abFree\<close> (it only frees the append buffer, which is a value here); the debugging macro \<open>lndebug\<close>, which
  is disabled; the rest of \<open>nimbase.h\<close>, which configures the C compiler; the counters of \<open>cycle.h\<close> that
  read one register; \<open>signals.h\<close> of the Genode port, a callback object of the framework; \<open>timesize.c\<close>;
  and the code written in Nim, apart from the parts named above: of the strings the bulk stores and
  \<open>setLengthStrV2Uninit\<close>, of the tables the deprecated \<open>add\<close>, printing and the counting tables, of the array
  algorithms \<open>fill\<close>, \<open>product\<close> and the rotations,
  of the stack traces the native ones and the exception handlers, of the references those of dynamic or acyclic types and the atomic counts are left out.  The terminal of \<open>Ln_Screen\<close> and \<open>Ln_Page\<close> is as wide as the editor takes it to be, and a page
  does not scroll.
\<close>

end
